(* ===== verification/Ntfs_Prelude.thy ===== *)
theory Ntfs_Prelude
  imports Main "HOL-Library.Word"
begin

text \<open>
  Shared vocabulary of the development: the machine types of \<^verbatim>\<open>types.h\<close>, the error numbers
  the modelled functions set, the outcome of a C function that may return a value, fail with an
  \<^verbatim>\<open>errno\<close> or touch memory outside its buffer, C arrays with checked accesses, the
  little-endian readings of \<^verbatim>\<open>endians.h\<close>, and the generic lemmas on them.
\<close>

unbundle bit_operations_syntax

section \<open>Machine types\<close>

type_synonym u8 = "8 word"
type_synonym u16 = "16 word"
type_synonym u32 = "32 word"
type_synonym u64 = "64 word"

text \<open>A signed 64-bit C value is an \<open>int\<close>; \<open>s64\<close> is the two's complement reduction that
  a store into such a variable performs.\<close>

definition s64 :: "int \<Rightarrow> int" where
  "s64 x = signed_take_bit 63 x"

definition in_s64 :: "int \<Rightarrow> bool" where
  "in_s64 x \<longleftrightarrow> - (2 ^ 63) \<le> x \<and> x < 2 ^ 63"

text \<open>C's \<^verbatim>\<open>BOOL\<close> used as a number.\<close>

definition b2i :: "bool \<Rightarrow> int" where
  "b2i b = (if b then 1 else 0)"

section \<open>Outcomes\<close>

datatype errno =
    EINVAL | EIO | ENOMEM | ERANGE | ENOSPC | ENOENT | EILSEQ | ENAMETOOLONG | EOPNOTSUPP
  | EINTR | EPERM | EROFS | EBADF | EFAULT | ESPIPE | EOVERFLOW

text \<open>\<open>Fault\<close> is a read or write outside the buffer, which C leaves undefined.\<close>

datatype 'a outcome = Ok 'a | Err errno | Fault

fun obind :: "'a outcome \<Rightarrow> ('a \<Rightarrow> 'b outcome) \<Rightarrow> 'b outcome" where
  "obind (Ok x) f = f x"
| "obind (Err e) f = Err e"
| "obind Fault f = Fault"

fun is_Ok :: "'a outcome \<Rightarrow> bool" where
  "is_Ok (Ok x) = True"
| "is_Ok _ = False"

text \<open>\<open>osafe P m\<close>: \<open>m\<close> does not fault, and its value, if it returns one, satisfies \<open>P\<close>.\<close>

fun osafe :: "('a \<Rightarrow> bool) \<Rightarrow> 'a outcome \<Rightarrow> bool" where
  "osafe P (Ok x) = P x"
| "osafe P (Err e) = True"
| "osafe P Fault = False"

section \<open>C arrays\<close>

definition aget :: "'a list \<Rightarrow> int \<Rightarrow> 'a outcome" where
  "aget xs i = (if 0 \<le> i \<and> i < int (length xs) then Ok (xs ! nat i) else Fault)"

definition aset :: "'a list \<Rightarrow> int \<Rightarrow> 'a \<Rightarrow> 'a list outcome" where
  "aset xs i v = (if 0 \<le> i \<and> i < int (length xs) then Ok (xs[nat i := v]) else Fault)"

text \<open>\<open>acopy xs d ys s n\<close> copies \<open>n\<close> elements of \<open>ys\<close> from index \<open>s\<close> over \<open>xs\<close>
  from index \<open>d\<close>, as \<^verbatim>\<open>memcpy\<close> does; with \<open>ys = xs\<close> it is \<^verbatim>\<open>memmove\<close>.\<close>

definition acopy :: "'a list \<Rightarrow> int \<Rightarrow> 'a list \<Rightarrow> int \<Rightarrow> int \<Rightarrow> 'a list outcome" where
  "acopy xs d ys s n =
     (if 0 \<le> d \<and> 0 \<le> s \<and> 0 \<le> n \<and> d + n \<le> int (length xs) \<and> s + n \<le> int (length ys)
      then Ok (take (nat d) xs @ take (nat n) (drop (nat s) ys) @ drop (nat (d + n)) xs)
      else Fault)"

text \<open>The C allocator: which sizes it can serve, and what uninitialised memory holds.\<close>

record 'a heap =
  alloc_ok :: "int \<Rightarrow> bool"
  alloc_junk :: 'a

definition c_realloc :: "'a heap \<Rightarrow> 'a list \<Rightarrow> int \<Rightarrow> int \<Rightarrow> 'a list outcome" where
  "c_realloc H xs bytes elsize =
     (if alloc_ok H bytes
      then (let n = nat (bytes div elsize)
            in Ok (take n xs @ replicate (n - length xs) (alloc_junk H)))
      else Err ENOMEM)"

section \<open>Little-endian readings\<close>

definition le16_at :: "u8 list \<Rightarrow> nat \<Rightarrow> u16" where
  "le16_at b i = ucast (b ! i) OR push_bit 8 (ucast (b ! (i + 1)))"

definition set_le16 :: "u8 list \<Rightarrow> nat \<Rightarrow> u16 \<Rightarrow> u8 list" where
  "set_le16 b i w = b[i := ucast w, i + 1 := ucast (drop_bit 8 w)]"

section \<open>Generic lemmas\<close>

named_theorems c_arr \<open>evaluation of array accesses on concatenated lists\<close>

lemma obind_assoc: "obind (obind m f) g = obind m (\<lambda>x. obind (f x) g)"
  by (cases m) auto

lemma obind_Ok_iff: "obind m f = Ok y \<longleftrightarrow> (\<exists>x. m = Ok x \<and> f x = Ok y)"
  by (cases m) auto

lemma obind_Err_iff: "obind m f = Err e \<longleftrightarrow> m = Err e \<or> (\<exists>x. m = Ok x \<and> f x = Err e)"
  by (cases m) auto

lemma obind_Fault_iff: "obind m f = Fault \<longleftrightarrow> m = Fault \<or> (\<exists>x. m = Ok x \<and> f x = Fault)"
  by (cases m) auto

lemma obind_cong [fundef_cong]:
  "m = m' \<Longrightarrow> (\<And>x. m' = Ok x \<Longrightarrow> f x = f' x) \<Longrightarrow> obind m f = obind m' f'"
  by (cases m') auto

lemma osafe_bind:
  "osafe P m \<Longrightarrow> (\<And>x. m = Ok x \<Longrightarrow> P x \<Longrightarrow> osafe Q (f x)) \<Longrightarrow> osafe Q (obind m f)"
  by (cases m) auto

lemma osafe_mono: "osafe P m \<Longrightarrow> (\<And>x. P x \<Longrightarrow> Q x) \<Longrightarrow> osafe Q m"
  by (cases m) auto

lemma osafe_True_iff: "osafe (\<lambda>_. True) m \<longleftrightarrow> m \<noteq> Fault"
  by (cases m) auto

lemma osafe_not_Fault: "osafe P m \<Longrightarrow> m \<noteq> Fault"
  by (cases m) auto

lemma b2i_simps [simp]: "b2i True = 1" "b2i False = 0"
  by (simp_all add: b2i_def)

lemma b2i_bounds [simp]: "0 \<le> b2i b" "b2i b \<le> 1"
  by (simp_all add: b2i_def)

lemma s64_id: "in_s64 x \<Longrightarrow> s64 x = x"
  unfolding s64_def in_s64_def
  by (rule signed_take_bit_int_eq_self) simp_all

lemma in_s64_s64 [simp]: "in_s64 (s64 x)"
  unfolding s64_def in_s64_def
  using signed_take_bit_int_greater_eq_minus_exp [of 63 x] signed_take_bit_int_less_exp [of 63 x]
  by simp

lemma aget_nat: "i < length xs \<Longrightarrow> aget xs (int i) = Ok (xs ! i)"
  by (simp add: aget_def)

lemma aget_app [c_arr]: "i = int (length A) \<Longrightarrow> aget (A @ x # B) i = Ok x"
  by (simp add: aget_def)

lemma aset_app [c_arr]: "i = int (length A) \<Longrightarrow> aset (A @ x # B) i v = Ok (A @ v # B)"
  by (simp add: aset_def)

lemma acopy_app:
  assumes "d = int (length A)" "s = int (length Y)" "n = int (length S)" "length M = length S"
  shows "acopy (A @ M @ B) d (Y @ S @ Z) s n = Ok (A @ S @ B)"
proof -
  have "nat (d + n) = length A + length S"
    using assms by simp
  then show ?thesis
    using assms by (simp add: acopy_def)
qed

lemma aget_Ok_bounds: "aget xs i = Ok v \<Longrightarrow> 0 \<le> i \<and> i < int (length xs) \<and> v = xs ! nat i"
  by (auto simp: aget_def split: if_splits)

lemma aset_length: "aset xs i v = Ok ys \<Longrightarrow> length ys = length xs"
  by (auto simp: aset_def split: if_splits)

lemma aget_safe: "0 \<le> i \<Longrightarrow> i < int (length xs) \<Longrightarrow> osafe (\<lambda>v. v = xs ! nat i) (aget xs i)"
  by (simp add: aget_def)

lemma aset_safe: "0 \<le> i \<Longrightarrow> i < int (length xs) \<Longrightarrow> osafe (\<lambda>ys. ys = xs[nat i := v]) (aset xs i v)"
  by (simp add: aset_def)

lemma acopy_length: "acopy xs d ys s n = Ok zs \<Longrightarrow> length zs = length xs"
  by (auto simp: acopy_def split: if_splits)

lemma length_set_le16 [simp]: "length (set_le16 b i w) = length b"
  by (simp add: set_le16_def)

lemma le16_join_split: "(ucast (ucast w :: u8) :: u16) OR push_bit 8 (ucast (ucast (drop_bit 8 w) :: u8)) = w"
  by (rule bit_word_eqI) (auto simp: bit_simps)

lemma le16_at_set_same: "i + 1 < length b \<Longrightarrow> le16_at (set_le16 b i w) i = w"
  by (simp add: le16_at_def set_le16_def le16_join_split)

lemma le16_at_set_other:
  "i + 1 < j \<or> j + 1 < i \<Longrightarrow> le16_at (set_le16 b i w) j = le16_at b j"
  by (auto simp: le16_at_def set_le16_def)

lemma set_le16_nth_other: "k \<noteq> i \<Longrightarrow> k \<noteq> i + 1 \<Longrightarrow> set_le16 b i w ! k = b ! k"
  by (simp add: set_le16_def)

lemma set_le16_id:
  assumes "i + 1 < length b"
  shows "set_le16 b i (le16_at b i) = b"
proof -
  have lo: "(ucast (le16_at b i) :: u8) = b ! i"
    by (rule bit_word_eqI) (auto simp: le16_at_def bit_simps dest: bit_imp_le_length)
  have hi: "(ucast (drop_bit 8 (le16_at b i)) :: u8) = b ! (i + 1)"
    by (rule bit_word_eqI) (auto simp: le16_at_def bit_simps dest: bit_imp_le_length)
  show ?thesis
    using assms by (simp add: set_le16_def lo hi)
qed

end
