(* ===== verification/Runlist.thy ===== *)
theory Runlist
  imports Ntfs_Prelude
begin

text \<open>
  The in-memory runlist of \<^verbatim>\<open>libntfs-3g/runlist.c\<close>: an array of
  \<^verbatim>\<open>runlist_element\<close>s, ended by an element of length 0, that maps virtual cluster numbers
  of an attribute to logical clusters of the volume. The array is a list as long as the memory
  block that holds it, so that every index and \<^verbatim>\<open>memmove\<close> of the source is checked against
  the block. The theory holds the splice primitives (append, insert, replace, split), the merge
  of two runlists, lookup, truncation and the sparse statistics, the abstract meaning of a
  runlist as a partial map, and the lemmas that connect the two.
\<close>

section \<open>Data\<close>

record runlist_element =
  vcn :: int
  lcn :: int
  rlen :: int

type_synonym runlist = "runlist_element list"

definition LCN_HOLE :: int where "LCN_HOLE = -1"
definition LCN_RL_NOT_MAPPED :: int where "LCN_RL_NOT_MAPPED = -2"
definition LCN_ENOENT :: int where "LCN_ENOENT = -3"
definition LCN_EINVAL :: int where "LCN_EINVAL = -4"

lemmas lcn_defs = LCN_HOLE_def LCN_RL_NOT_MAPPED_def LCN_ENOENT_def LCN_EINVAL_def

text \<open>\<^verbatim>\<open>sizeof(runlist_element)\<close> with three 64-bit members.\<close>

definition rle_size :: int where "rle_size = 24"

section \<open>Memory primitives\<close>

definition ntfs_rl_mm :: "runlist \<Rightarrow> int \<Rightarrow> int \<Rightarrow> int \<Rightarrow> runlist outcome" where
  "ntfs_rl_mm base dst src sz =
     (if dst \<noteq> src \<and> sz > 0 then acopy base dst base src sz else Ok base)"

definition ntfs_rl_mc :: "runlist \<Rightarrow> int \<Rightarrow> runlist \<Rightarrow> int \<Rightarrow> int \<Rightarrow> runlist outcome" where
  "ntfs_rl_mc dstbase dst srcbase src sz =
     (if sz > 0 then acopy dstbase dst srcbase src sz else Ok dstbase)"

text \<open>\<^verbatim>\<open>(n * sizeof(runlist_element) + 0xfff) & ~0xfff\<close>: the bytes of \<open>n\<close> elements rounded
  up to whole 4 kiB blocks.\<close>

definition rl_blocks :: "int \<Rightarrow> int" where
  "rl_blocks n = (n * rle_size + 0xfff) AND NOT 0xfff"

definition ntfs_rl_realloc ::
  "runlist_element heap \<Rightarrow> runlist \<Rightarrow> int \<Rightarrow> int \<Rightarrow> runlist outcome" where
  "ntfs_rl_realloc H rl old_size new_size =
     (if rl_blocks old_size = rl_blocks new_size then Ok rl
      else c_realloc H rl (rl_blocks new_size) rle_size)"

text \<open>\<open>rl_scan P rl i\<close> is the loop \<^verbatim>\<open>while (rl[i].length && P(rl[i])) i++\<close>: the first
  index from \<open>i\<close> on that is the terminator or fails \<open>P\<close>.\<close>

function rl_scan :: "(runlist_element \<Rightarrow> bool) \<Rightarrow> runlist \<Rightarrow> int \<Rightarrow> int outcome" where
  "rl_scan P rl i =
     (if 0 \<le> i \<and> i < int (length rl)
      then (let e = rl ! nat i in if rlen e \<noteq> 0 \<and> P e then rl_scan P rl (i + 1) else Ok i)
      else Fault)"
  by pat_completeness auto
termination
  by (relation "measure (\<lambda>(P, rl, i). nat (int (length rl) - i))") auto

declare rl_scan.simps [simp del]

text \<open>\<^verbatim>\<open>ntfs_rl_extend\<close>: \<open>na_rl\<close> is the attribute's runlist, \<open>irl\<close> the index
  \<^verbatim>\<open>rl - na->rl\<close> of the current element (\<open>None\<close> for a null \<^verbatim>\<open>rl\<close>). The result is
  the reallocated runlist with the same index.\<close>

definition ntfs_rl_extend ::
  "runlist_element heap \<Rightarrow> runlist option \<Rightarrow> int option \<Rightarrow> int \<Rightarrow> (runlist \<times> int) outcome" where
  "ntfs_rl_extend H na_rl rl more_entries =
     (case (na_rl, rl) of
        (Some arr, Some irl) \<Rightarrow>
          obind (rl_scan (\<lambda>_. True) arr irl) (\<lambda>last.
            case ntfs_rl_realloc H arr (last + 1) (last + more_entries + 1) of
              Ok newrl \<Rightarrow> Ok (newrl, irl)
            | Err _ \<Rightarrow> Err ENOMEM
            | Fault \<Rightarrow> Fault)
      | _ \<Rightarrow> Err EIO)"

section \<open>Merging of two elements\<close>

definition ntfs_rl_are_mergeable :: "runlist_element \<Rightarrow> runlist_element \<Rightarrow> bool" where
  "ntfs_rl_are_mergeable dst src =
     (if lcn dst = LCN_RL_NOT_MAPPED \<and> lcn src = LCN_RL_NOT_MAPPED then True
      else if vcn dst + rlen dst \<noteq> vcn src then False
      else if lcn dst \<ge> 0 \<and> lcn src \<ge> 0 \<and> lcn dst + rlen dst = lcn src then True
      else if lcn dst = LCN_HOLE \<and> lcn src = LCN_HOLE then True
      else False)"

definition rl_merge_elt :: "runlist_element \<Rightarrow> runlist_element \<Rightarrow> runlist_element" where
  "rl_merge_elt dst src = dst\<lparr>rlen := rlen dst + rlen src\<rparr>"

text \<open>\<^verbatim>\<open>__ntfs_rl_merge(dstp, srcp)\<close> with \<^verbatim>\<open>dstp = &a[i]\<close> and \<^verbatim>\<open>*srcp = s\<close>.\<close>

definition rl_merge_at :: "runlist \<Rightarrow> int \<Rightarrow> runlist_element \<Rightarrow> runlist outcome" where
  "rl_merge_at a i s = obind (aget a i) (\<lambda>d. aset a i (rl_merge_elt d s))"

section \<open>The four splice primitives\<close>

definition rl_upd :: "runlist \<Rightarrow> int \<Rightarrow> (runlist_element \<Rightarrow> runlist_element) \<Rightarrow> runlist outcome" where
  "rl_upd a i f = obind (aget a i) (\<lambda>e. aset a i (f e))"

text \<open>``We may have changed the length of the file, so fix the end marker'', shared by
  \<^verbatim>\<open>ntfs_rl_append\<close> and \<^verbatim>\<open>ntfs_rl_replace\<close>.\<close>

definition rl_fix_marker :: "runlist \<Rightarrow> int \<Rightarrow> runlist outcome" where
  "rl_fix_marker dst marker =
     obind (aget dst marker) (\<lambda>m.
     if lcn m = LCN_ENOENT
     then obind (aget dst (marker - 1)) (\<lambda>p. aset dst marker (m\<lparr>vcn := vcn p + rlen p\<rparr>))
     else Ok dst)"

definition ntfs_rl_append ::
  "runlist_element heap \<Rightarrow> runlist option \<Rightarrow> int \<Rightarrow> runlist option \<Rightarrow> int \<Rightarrow> int \<Rightarrow> runlist outcome" where
  "ntfs_rl_append H odst dsize osrc ssize loc =
     (case (odst, osrc) of
        (Some dst, Some src) \<Rightarrow>
          obind (if loc + 1 < dsize
                 then obind (aget src (ssize - 1)) (\<lambda>s.
                      obind (aget dst (loc + 1)) (\<lambda>d. Ok (ntfs_rl_are_mergeable s d)))
                 else Ok False) (\<lambda>right.
          obind (ntfs_rl_realloc H dst dsize (dsize + ssize - b2i right)) (\<lambda>dst.
          obind (if right
                 then obind (aget dst (loc + 1)) (\<lambda>d. rl_merge_at src (ssize - 1) d)
                 else Ok src) (\<lambda>src.
          let marker = loc + ssize + 1 in
          obind (ntfs_rl_mm dst marker (loc + 1 + b2i right) (dsize - loc - 1 - b2i right)) (\<lambda>dst.
          obind (ntfs_rl_mc dst (loc + 1) src 0 ssize) (\<lambda>dst.
          obind (aget dst (loc + 1)) (\<lambda>nxt.
          obind (rl_upd dst loc (\<lambda>e. e\<lparr>rlen := vcn nxt - vcn e\<rparr>)) (\<lambda>dst.
          rl_fix_marker dst marker)))))))
      | _ \<Rightarrow> Err EINVAL)"

definition ntfs_rl_insert ::
  "runlist_element heap \<Rightarrow> runlist option \<Rightarrow> int \<Rightarrow> runlist option \<Rightarrow> int \<Rightarrow> int \<Rightarrow> runlist outcome" where
  "ntfs_rl_insert H odst dsize osrc ssize loc =
     (case (odst, osrc) of
        (Some dst, Some src) \<Rightarrow>
          obind (aget src 0) (\<lambda>s0.
          obind (if loc = 0 then Ok (False, vcn s0 > 0)
                 else obind (aget dst (loc - 1)) (\<lambda>d.
                      let left = ntfs_rl_are_mergeable d s0;
                          merged_length = (if left then rlen d + rlen s0 else rlen d)
                      in Ok (left, vcn s0 > vcn d + merged_length))) (\<lambda>(left, disc).
          obind (ntfs_rl_realloc H dst dsize (dsize + ssize - b2i left + b2i disc)) (\<lambda>dst.
          obind (if left then rl_merge_at dst (loc - 1) s0 else Ok dst) (\<lambda>dst.
          let marker = loc + ssize - b2i left + b2i disc in
          obind (ntfs_rl_mm dst marker loc (dsize - loc)) (\<lambda>dst.
          obind (ntfs_rl_mc dst (loc + b2i disc) src (b2i left) (ssize - b2i left)) (\<lambda>dst.
          obind (aget dst (marker - 1)) (\<lambda>p.
          obind (rl_upd dst marker (\<lambda>m. m\<lparr>vcn := vcn p + rlen p\<rparr>)) (\<lambda>dst.
          obind (aget dst marker) (\<lambda>m.
          obind (if lcn m = LCN_HOLE \<or> lcn m = LCN_RL_NOT_MAPPED
                 then obind (aget dst (marker + 1)) (\<lambda>n.
                      aset dst marker (m\<lparr>rlen := vcn n - vcn m\<rparr>))
                 else Ok dst) (\<lambda>dst.
          if disc
          then obind (aget dst (loc + 1)) (\<lambda>n.
               obind (if loc > 0
                      then obind (aget dst (loc - 1)) (\<lambda>b. Ok (vcn b + rlen b))
                      else Ok 0) (\<lambda>v.
               rl_upd dst loc (\<lambda>e. e\<lparr>vcn := v, rlen := vcn n - v, lcn := LCN_RL_NOT_MAPPED\<rparr>)))
          else Ok dst))))))))))
      | _ \<Rightarrow> Err EINVAL)"

definition ntfs_rl_replace ::
  "runlist_element heap \<Rightarrow> runlist option \<Rightarrow> int \<Rightarrow> runlist option \<Rightarrow> int \<Rightarrow> int \<Rightarrow> runlist outcome" where
  "ntfs_rl_replace H odst dsize osrc ssize loc =
     (case (odst, osrc) of
        (Some dst, Some src) \<Rightarrow>
          obind (if loc + 1 < dsize
                 then obind (aget src (ssize - 1)) (\<lambda>s.
                      obind (aget dst (loc + 1)) (\<lambda>d. Ok (ntfs_rl_are_mergeable s d)))
                 else Ok False) (\<lambda>right.
          obind (if loc > 0
                 then obind (aget dst (loc - 1)) (\<lambda>d.
                      obind (aget src 0) (\<lambda>s. Ok (ntfs_rl_are_mergeable d s)))
                 else Ok False) (\<lambda>left.
          let delta = ssize - 1 - b2i left - b2i right in
          obind (if delta > 0 then ntfs_rl_realloc H dst dsize (dsize + delta) else Ok dst) (\<lambda>dst.
          obind (if right
                 then obind (aget dst (loc + 1)) (\<lambda>d. rl_merge_at src (ssize - 1) d)
                 else Ok src) (\<lambda>src.
          obind (if left
                 then obind (aget src 0) (\<lambda>s. rl_merge_at dst (loc - 1) s)
                 else Ok dst) (\<lambda>dst.
          let tail = loc + b2i right + 1;
              marker = loc + ssize - b2i left in
          obind (ntfs_rl_mm dst marker tail (dsize - tail)) (\<lambda>dst.
          obind (ntfs_rl_mc dst loc src (b2i left) (ssize - b2i left)) (\<lambda>dst.
          if dsize - tail > 0 then rl_fix_marker dst marker else Ok dst)))))))
      | _ \<Rightarrow> Err EINVAL)"

definition ntfs_rl_split ::
  "runlist_element heap \<Rightarrow> runlist option \<Rightarrow> int \<Rightarrow> runlist option \<Rightarrow> int \<Rightarrow> int \<Rightarrow> runlist outcome" where
  "ntfs_rl_split H odst dsize osrc ssize loc =
     (case (odst, osrc) of
        (Some dst, Some src) \<Rightarrow>
          obind (ntfs_rl_realloc H dst dsize (dsize + ssize + 1)) (\<lambda>dst.
          obind (ntfs_rl_mm dst (loc + 1 + ssize) loc (dsize - loc)) (\<lambda>dst.
          obind (ntfs_rl_mc dst (loc + 1) src 0 ssize) (\<lambda>dst.
          obind (aget dst (loc + 1)) (\<lambda>n.
          obind (rl_upd dst loc (\<lambda>e. e\<lparr>rlen := vcn n - vcn e\<rparr>)) (\<lambda>dst.
          obind (aget dst (loc + ssize)) (\<lambda>l.
          obind (rl_upd dst (loc + ssize + 1) (\<lambda>e. e\<lparr>vcn := vcn l + rlen l\<rparr>)) (\<lambda>dst.
          obind (aget dst (loc + ssize + 2)) (\<lambda>n2.
          rl_upd dst (loc + ssize + 1) (\<lambda>e. e\<lparr>rlen := vcn n2 - vcn e\<rparr>)))))))))
      | _ \<Rightarrow> Err EINVAL)"

section \<open>Merging two runlists\<close>

text \<open>The first mapping: \<^verbatim>\<open>drl\<close> is null, and \<open>srl\<close> gets an unmapped start element when it
  does not begin at VCN 0.\<close>

definition rl_first_mapping :: "runlist_element heap \<Rightarrow> runlist \<Rightarrow> runlist outcome" where
  "rl_first_mapping H srl =
     obind (aget srl 0) (\<lambda>e0.
     if vcn e0 \<noteq> 0
     then obind (rl_scan (\<lambda>_. True) srl 0) (\<lambda>i.
          let dend = i + 1 in
          obind (ntfs_rl_realloc H srl dend (dend + 1)) (\<lambda>drl.
          obind (ntfs_rl_mm drl 1 0 dend) (\<lambda>drl.
          obind (aget drl 1) (\<lambda>e1.
          rl_upd drl 0 (\<lambda>e. e\<lparr>vcn := 0, lcn := LCN_RL_NOT_MAPPED, rlen := vcn e1\<rparr>)))))
     else Ok srl)"

text \<open>\<^verbatim>\<open>for (i = send; i >= 0 && srl[i].lcn < LCN_HOLE; i--)\<close>\<close>

function rl_scan_back :: "runlist \<Rightarrow> int \<Rightarrow> int outcome" where
  "rl_scan_back rl i =
     (if i < 0 then Ok i
      else if i < int (length rl)
      then (if lcn (rl ! nat i) < LCN_HOLE then rl_scan_back rl (i - 1) else Ok i)
      else Fault)"
  by pat_completeness auto
termination
  by (relation "measure (\<lambda>(rl, i). nat (i + 1))") auto

declare rl_scan_back.simps [simp del]

text \<open>The dispatch of \<^verbatim>\<open>ntfs_runlists_merge_i\<close> to one of the four primitives, from
  \<^verbatim>\<open>start\<close> and \<^verbatim>\<open>finish\<close>.\<close>

definition rl_merge_splice ::
  "runlist_element heap \<Rightarrow> runlist \<Rightarrow> runlist \<Rightarrow> bool \<Rightarrow> int \<Rightarrow> int \<Rightarrow> int \<Rightarrow> int \<Rightarrow> int \<Rightarrow> runlist outcome" where
  "rl_merge_splice H drl srl marker sstart send sfinal dins dend =
     obind (aget drl dins) (\<lambda>d.
     obind (aget srl sstart) (\<lambda>s0.
     obind (aget srl (send - 1)) (\<lambda>sl.
     let ds = dend + 1;
         ss0 = sfinal - sstart + 1;
         start = (lcn d < LCN_RL_NOT_MAPPED \<or> vcn d = vcn s0);
         finish0 = (lcn d \<ge> LCN_RL_NOT_MAPPED \<and> vcn d + rlen d \<le> vcn sl + rlen sl);
         ss = (if finish0 \<and> rlen d = 0 then ss0 + 1 else ss0);
         finish = (if marker \<and> vcn d + rlen d > vcn sl then False else finish0);
         src = Some (drop (nat sstart) srl)
     in if start
        then (if finish then ntfs_rl_replace H (Some drl) ds src ss dins
              else ntfs_rl_insert H (Some drl) ds src ss dins)
        else (if finish then ntfs_rl_append H (Some drl) ds src ss dins
              else ntfs_rl_split H (Some drl) ds src ss dins))))"

text \<open>The end-marker code, run when \<open>srl\<close> ended with \<open>LCN_ENOENT\<close>. A failed reallocation
  here is the \<^verbatim>\<open>critical_error\<close> label, which dereferences a null pointer.\<close>

definition rl_realloc_or_crash ::
  "runlist_element heap \<Rightarrow> runlist \<Rightarrow> int \<Rightarrow> int \<Rightarrow> runlist outcome" where
  "rl_realloc_or_crash H drl oldn n =
     (case ntfs_rl_realloc H drl oldn n of Ok r \<Rightarrow> Ok r | _ \<Rightarrow> Fault)"

definition rl_merge_marker ::
  "runlist_element heap \<Rightarrow> runlist \<Rightarrow> int \<Rightarrow> int \<Rightarrow> runlist outcome" where
  "rl_merge_marker H drl dend marker_vcn =
     obind (rl_scan (\<lambda>_. True) drl dend) (\<lambda>ds.
     obind (aget drl ds) (\<lambda>e.
     if vcn e \<le> marker_vcn
     then if vcn e = marker_vcn then aset drl ds (e\<lparr>lcn := LCN_ENOENT\<rparr>)
          else let (ds, slots) = (if lcn e = LCN_ENOENT then (ds - 1, 1) else (ds, 0::int)) in
               obind (aget drl ds) (\<lambda>e.
               obind (if lcn e \<noteq> LCN_RL_NOT_MAPPED
                      then obind (if slots = 0 then rl_realloc_or_crash H drl ds (ds + 2)
                                  else Ok drl) (\<lambda>drl.
                           let slots = (if slots = 0 then 2 else slots); ds = ds + 1 in
                           obind (if slots \<noteq> 1
                                  then obind (aget drl (ds - 1)) (\<lambda>p.
                                       rl_upd drl ds (\<lambda>x. x\<lparr>vcn := vcn p + rlen p\<rparr>))
                                  else Ok drl) (\<lambda>drl.
                           obind (rl_upd drl ds (\<lambda>x. x\<lparr>lcn := LCN_RL_NOT_MAPPED\<rparr>)) (\<lambda>drl.
                           Ok (drl, ds, slots - 1))))
                      else Ok (drl, ds, slots)) (\<lambda>(drl, ds, slots).
               obind (rl_upd drl ds (\<lambda>x. x\<lparr>rlen := marker_vcn - vcn x\<rparr>)) (\<lambda>drl.
               let ds = ds + 1 in
               obind (if slots = 0 then rl_realloc_or_crash H drl ds (ds + 1)
                      else Ok drl) (\<lambda>drl.
               aset drl ds \<lparr>vcn = marker_vcn, lcn = LCN_ENOENT, rlen = 0\<rparr>))))
     else Ok drl))"

definition ntfs_runlists_merge_i ::
  "runlist_element heap \<Rightarrow> runlist option \<Rightarrow> runlist option \<Rightarrow> runlist option outcome" where
  "ntfs_runlists_merge_i H odrl osrl =
     (case osrl of None \<Rightarrow> Ok odrl
      | Some srl \<Rightarrow>
     (case odrl of None \<Rightarrow> obind (rl_first_mapping H srl) (\<lambda>r. Ok (Some r))
      | Some drl \<Rightarrow>
     obind (rl_scan (\<lambda>e. lcn e < LCN_HOLE) srl 0) (\<lambda>si.
     obind (aget srl si) (\<lambda>s0.
     if rlen s0 = 0 then Err EINVAL
     else
     obind (rl_scan (\<lambda>e. \<not> vcn e + rlen e > vcn s0) drl 0) (\<lambda>dins.
     obind (aget drl dins) (\<lambda>d.
     if vcn d = vcn s0 \<and> lcn d \<ge> 0 \<and> lcn s0 \<ge> 0 then Err ERANGE
     else
     obind (rl_scan (\<lambda>_. True) srl si) (\<lambda>send.
     obind (rl_scan (\<lambda>_. True) drl dins) (\<lambda>dend.
     obind (aget srl send) (\<lambda>st.
     let marker = (lcn st = LCN_ENOENT) in
     obind (rl_scan_back srl send) (\<lambda>sfinal.
     obind (rl_merge_splice H drl srl marker si send sfinal dins dend) (\<lambda>drl.
     if marker then obind (rl_merge_marker H drl dend (vcn st)) (\<lambda>r. Ok (Some r))
     else Ok (Some drl))))))))))))"

definition ntfs_runlists_merge ::
  "runlist_element heap \<Rightarrow> runlist option \<Rightarrow> runlist option \<Rightarrow> runlist option outcome" where
  "ntfs_runlists_merge H drl srl = ntfs_runlists_merge_i H drl srl"

section \<open>Lookup, truncation, statistics\<close>

text \<open>The loop of \<^verbatim>\<open>ntfs_rl_vcn_to_lcn\<close>, from index \<open>i\<close>.\<close>

function rl_lookup_loop :: "runlist \<Rightarrow> int \<Rightarrow> int \<Rightarrow> int outcome" where
  "rl_lookup_loop rl v i =
     (if 0 \<le> i \<and> i < int (length rl)
      then (let e = rl ! nat i in
            if rlen e \<noteq> 0
            then obind (aget rl (i + 1)) (\<lambda>n.
                 if v < vcn n
                 then Ok (if lcn e \<ge> 0 then lcn e + (v - vcn e) else lcn e)
                 else rl_lookup_loop rl v (i + 1))
            else Ok (if lcn e < 0 then lcn e else LCN_ENOENT))
      else Fault)"
  by pat_completeness auto
termination
  by (relation "measure (\<lambda>(rl, v, i). nat (int (length rl) - i))") auto

declare rl_lookup_loop.simps [simp del]

definition ntfs_rl_vcn_to_lcn :: "runlist option \<Rightarrow> int \<Rightarrow> int outcome" where
  "ntfs_rl_vcn_to_lcn orl v =
     (if v < 0 then Ok LCN_EINVAL
      else case orl of None \<Rightarrow> Ok LCN_RL_NOT_MAPPED
      | Some rl \<Rightarrow>
          obind (aget rl 0) (\<lambda>e0. if v < vcn e0 then Ok LCN_ENOENT else rl_lookup_loop rl v 0))"

text \<open>\<^verbatim>\<open>while (rl->length) { if (start_vcn < rl[1].vcn) break; rl++; }\<close>\<close>

function rl_seek :: "runlist \<Rightarrow> int \<Rightarrow> int \<Rightarrow> int outcome" where
  "rl_seek rl v i =
     (if 0 \<le> i \<and> i < int (length rl)
      then (if rlen (rl ! nat i) \<noteq> 0
            then obind (aget rl (i + 1)) (\<lambda>n. if v < vcn n then Ok i else rl_seek rl v (i + 1))
            else Ok i)
      else Fault)"
  by pat_completeness auto
termination
  by (relation "measure (\<lambda>(rl, v, i). nat (int (length rl) - i))") auto

declare rl_seek.simps [simp del]

text \<open>\<^verbatim>\<open>ntfs_rl_truncate\<close>: \<open>None\<close> stands for a null \<^verbatim>\<open>arl\<close> or \<^verbatim>\<open>*arl\<close>; the
  result is the array after the in-place update.\<close>

definition ntfs_rl_truncate :: "runlist option \<Rightarrow> int \<Rightarrow> runlist outcome" where
  "ntfs_rl_truncate arl start_vcn =
     (case arl of None \<Rightarrow> Err EINVAL
      | Some a \<Rightarrow>
          obind (aget a 0) (\<lambda>e0.
          if start_vcn < vcn e0 then Err EINVAL
          else obind (rl_seek a start_vcn 0) (\<lambda>i.
               obind (aget a i) (\<lambda>e.
               if rlen e = 0 then Err EIO
               else obind (aset a i (e\<lparr>rlen := start_vcn - vcn e\<rparr>)) (\<lambda>a.
                    if start_vcn - vcn e \<noteq> 0
                    then rl_upd a (i + 1)
                           (\<lambda>n. n\<lparr>vcn := start_vcn, rlen := 0, lcn := LCN_ENOENT\<rparr>)
                    else rl_upd a i (\<lambda>n. n\<lparr>lcn := LCN_ENOENT\<rparr>))))))"

text \<open>The result 1 of the source is \<open>True\<close>, 0 is \<open>False\<close>.\<close>

fun rl_sparse_from :: "runlist \<Rightarrow> bool outcome" where
  "rl_sparse_from [] = Fault"
| "rl_sparse_from (e # es) =
     (if rlen e = 0 then Ok False
      else if lcn e < 0 then (if lcn e \<noteq> LCN_HOLE then Err EINVAL else Ok True)
      else rl_sparse_from es)"

definition ntfs_rl_sparse :: "runlist option \<Rightarrow> bool outcome" where
  "ntfs_rl_sparse orl = (case orl of None \<Rightarrow> Err EINVAL | Some rl \<Rightarrow> rl_sparse_from rl)"

fun rl_csize_from :: "int \<Rightarrow> runlist \<Rightarrow> int outcome" where
  "rl_csize_from ret [] = Fault"
| "rl_csize_from ret (e # es) =
     (if rlen e = 0 then Ok ret
      else if lcn e < 0
      then (if lcn e \<noteq> LCN_HOLE then Err EINVAL else rl_csize_from ret es)
      else rl_csize_from (ret + rlen e) es)"

definition ntfs_rl_get_compressed_size :: "nat \<Rightarrow> runlist option \<Rightarrow> int outcome" where
  "ntfs_rl_get_compressed_size cluster_size_bits orl =
     (case orl of None \<Rightarrow> Err EINVAL
      | Some rl \<Rightarrow> obind (rl_csize_from 0 rl) (\<lambda>ret. Ok (push_bit cluster_size_bits ret)))"

end
