(* ===== verification/Runlist_Splice.thy ===== *)
theory Runlist_Splice
  imports Runlist
begin

text \<open>
  The four splice primitives of \<^verbatim>\<open>runlist.c\<close> against pure list specifications. Each
  \<open>_refines\<close> lemma says that, when the allocator serves the request and the destination block
  holds its elements rounded up to 4 kiB, the C function touches no memory outside its blocks and
  leaves exactly the list of the specification, followed by spare elements of the block.
\<close>

section \<open>Blocks and reallocation\<close>

text \<open>\<open>rl_room arr n\<close>: the block \<open>arr\<close> has the size \<^verbatim>\<open>ntfs_rl_realloc\<close> gives to
  \<open>n\<close> elements, or more.\<close>

definition rl_room :: "runlist \<Rightarrow> int \<Rightarrow> bool" where
  "rl_room arr n \<longleftrightarrow> rl_blocks n div rle_size \<le> int (length arr)"

lemma rl_blocks_eq: "rl_blocks n = 4096 * ((n * 24 + 4095) div 4096)"
proof -
  have "(x AND NOT 4095 :: int) = 4096 * (x div 4096)" for x
  proof -
    have m: "(4095::int) = mask 12" by (simp add: mask_eq_exp_minus_1)
    have "x AND NOT (mask 12) = push_bit 12 (drop_bit 12 x)"
      by (rule bit_eqI) (auto simp: bit_simps)
    then show ?thesis by (simp add: m push_bit_eq_mult drop_bit_eq_div)
  qed
  then show ?thesis by (simp add: rl_blocks_def rle_size_def)
qed

lemma rl_blocks_mono: "m \<le> n \<Longrightarrow> rl_blocks m \<le> rl_blocks n"
  by (simp add: rl_blocks_eq zdiv_mono1)

lemma rl_blocks_ge: "n \<le> rl_blocks n div rle_size"
proof -
  have "n * 24 \<le> rl_blocks n"
    unfolding rl_blocks_eq by simp
  then show ?thesis
    unfolding rle_size_def using zdiv_mono1 [of "n * 24" "rl_blocks n" 24] by simp
qed

lemma realloc_grow:
  assumes ok: "\<And>n. alloc_ok H n" and X: "int (length X) = old" and le: "old \<le> new"
    and room: "rl_room (X @ J) old"
  obtains J' where "ntfs_rl_realloc H (X @ J) old new = Ok (X @ J')" "rl_room (X @ J') new"
    "new \<le> int (length X + length J')"
proof (cases "rl_blocks old = rl_blocks new")
  case True
  with room have r: "rl_room (X @ J) new" by (simp add: rl_room_def)
  then have "new \<le> int (length X + length J)"
    using rl_blocks_ge [of new] by (simp add: rl_room_def)
  with r True that [of J] show ?thesis by (simp add: ntfs_rl_realloc_def)
next
  case False
  let ?n = "nat (rl_blocks new div rle_size)"
  let ?J' = "take (?n - length X) J @ replicate (?n - length (X @ J)) (alloc_junk H)"
  have "new \<le> rl_blocks new div rle_size" by (rule rl_blocks_ge)
  then have n: "length X \<le> ?n" "int ?n = rl_blocks new div rle_size" "new \<le> int ?n"
    using X le by simp_all
  then have "take ?n (X @ J) @ replicate (?n - length (X @ J)) (alloc_junk H) = X @ ?J'"
    by simp
  moreover have "length X + length ?J' = ?n"
    using n by simp
  ultimately show ?thesis
    using that [of ?J'] False n ok
    by (simp add: ntfs_rl_realloc_def c_realloc_def rl_room_def Let_def)
qed

section \<open>Opening a gap and copying runs into it\<close>

lemma splice_window:
  assumes P: "take (length P) arr = P" "length P + length S + length T \<le> length arr"
    and T: "take (length T) (drop (nat s) arr) = T" "0 \<le> s" "s + t \<le> int (length arr)"
    and idx: "p = int (length P)" "d = p + int (length S)" "t = int (length T)"
      "y = int (length Y)" "k = int (length S)"
  obtains M R where "ntfs_rl_mm arr d s t = Ok M"
    "ntfs_rl_mc M p (Y @ S @ Z) y k = Ok (P @ S @ T @ R)" "length (P @ S @ T @ R) = length arr"
proof -
  let ?R = "drop (length P + length S + length T) arr"
  have nd: "nat d = length P + length S" "nat (d + t) = length P + length S + length T"
    using idx by simp_all
  obtain M where M: "ntfs_rl_mm arr d s t = Ok M"
    and len: "length M = length arr" and pre: "take (length P) M = P"
    and post: "drop (length P + length S) M = T @ ?R"
  proof (cases "d \<noteq> s \<and> t > 0")
    case True
    let ?M = "take (length P + length S) arr @ T @ ?R"
    have "ntfs_rl_mm arr d s t = Ok ?M"
      using True T P(2) idx nd by (simp add: ntfs_rl_mm_def acopy_def)
    moreover have "length ?M = length arr" "drop (length P + length S) ?M = T @ ?R"
      using P(2) by simp_all
    moreover have "take (length P) ?M = P"
      using P by (simp add: min_def)
    ultimately show ?thesis using that by blast
  next
    case False
    have "drop (length P + length S) arr = T @ ?R"
    proof (cases "T = []")
      case False
      then have "nat s = length P + length S" using \<open>\<not> (d \<noteq> s \<and> t > 0)\<close> idx nd by auto
      with T(1) have "drop (length P + length S) arr = T @ drop (length T) (drop (length P + length S) arr)"
        by (metis append_take_drop_id)
      then show ?thesis by (simp add: add.commute)
    qed simp
    moreover have "ntfs_rl_mm arr d s t = Ok arr"
      using False by (auto simp: ntfs_rl_mm_def)
    ultimately show ?thesis using P(1) that by blast
  qed
  have "ntfs_rl_mc M p (Y @ S @ Z) y k = Ok (P @ S @ T @ ?R)"
  proof (cases "S = []")
    case True
    then show ?thesis
      using idx pre post by (simp add: ntfs_rl_mc_def) (metis append_take_drop_id)
  next
    case False
    have "nat (p + k) = length P + length S" "nat p = length P" "nat y = length Y" "nat k = length S"
      using idx by simp_all
    then show ?thesis
      using False idx pre post len P(2) by (simp add: ntfs_rl_mc_def acopy_def)
  qed
  moreover have "length (P @ S @ T @ ?R) = length arr"
    using P(2) by simp
  ultimately show ?thesis using M that by blast
qed

lemma splice_gap:
  assumes arr: "arr = P @ G @ T @ J" and fits: "length P + length S + length T \<le> length arr"
    and idx: "p = int (length P)" "d = p + int (length S)" "s = p + int (length G)"
      "t = int (length T)" "y = int (length Y)" "k = int (length S)"
  obtains M R where "ntfs_rl_mm arr d s t = Ok M"
    "ntfs_rl_mc M p (Y @ S @ Z) y k = Ok (P @ S @ T @ R)" "length (P @ S @ T @ R) = length arr"
proof (rule splice_window [of P arr S T s t p d y Y k Z])
  show "take (length P) arr = P" by (simp add: arr)
  have "nat s = length P + length G" using idx by simp
  then show "take (length T) (drop (nat s) arr) = T" by (simp add: arr)
qed (use assms that in auto)

section \<open>Append and replace\<close>

definition rl_fix_end :: "runlist_element \<Rightarrow> runlist_element \<Rightarrow> runlist_element" where
  "rl_fix_end p m = (if lcn m = LCN_ENOENT then m\<lparr>vcn := vcn p + rlen p\<rparr> else m)"

fun rl_fix_hd :: "runlist_element \<Rightarrow> runlist \<Rightarrow> runlist" where
  "rl_fix_hd p [] = []"
| "rl_fix_hd p (m # T) = rl_fix_end p m # T"

definition rl_merge_right :: "runlist \<Rightarrow> runlist \<Rightarrow> bool" where
  "rl_merge_right S T \<longleftrightarrow> T \<noteq> [] \<and> ntfs_rl_are_mergeable (last S) (hd T)"

definition rl_merge_left :: "runlist \<Rightarrow> runlist \<Rightarrow> bool" where
  "rl_merge_left A S \<longleftrightarrow> A \<noteq> [] \<and> ntfs_rl_are_mergeable (last A) (hd S)"

definition rl_join_last :: "runlist \<Rightarrow> runlist_element \<Rightarrow> runlist" where
  "rl_join_last S t = butlast S @ [rl_merge_elt (last S) t]"

definition rl_append_spec :: "runlist \<Rightarrow> runlist_element \<Rightarrow> runlist \<Rightarrow> runlist \<Rightarrow> runlist" where
  "rl_append_spec A h T S =
     (let right = rl_merge_right S T;
          S' = (if right then rl_join_last S (hd T) else S);
          T' = (if right then tl T else T)
      in A @ [h\<lparr>rlen := vcn (hd S') - vcn h\<rparr>] @ S' @ rl_fix_hd (last S') T')"

definition rl_replace_spec :: "runlist \<Rightarrow> runlist \<Rightarrow> runlist \<Rightarrow> runlist" where
  "rl_replace_spec A T S =
     (let right = rl_merge_right S T; left = rl_merge_left A S;
          S' = (if right then rl_join_last S (hd T) else S);
          T' = (if right then tl T else T);
          A' = (if left then rl_join_last A (hd S') else A);
          S'' = (if left then tl S' else S')
      in A' @ S'' @ rl_fix_hd (last (A' @ S'')) T')"

lemma rl_upd_app [c_arr]: "i = int (length A) \<Longrightarrow> rl_upd (A @ x # B) i f = Ok (A @ f x # B)"
  by (simp add: rl_upd_def c_arr)

lemma length_rl_fix_hd [simp]: "length (rl_fix_hd p T) = length T"
  by (cases T) simp_all

lemma rl_room_cong: "rl_room a n \<Longrightarrow> length b = length a \<Longrightarrow> m = n \<Longrightarrow> rl_room b m"
  by (simp add: rl_room_def)

lemma agetI: "xs = A @ x # B \<Longrightarrow> i = int (length A) \<Longrightarrow> aget xs i = Ok x"
  by (simp add: aget_app)

lemma asetI: "xs = A @ x # B \<Longrightarrow> i = int (length A) \<Longrightarrow> ys = A @ v # B \<Longrightarrow> aset xs i v = Ok ys"
  by (simp add: aset_app)

lemma aget_last: "S \<noteq> [] \<Longrightarrow> xs = P @ S @ Z \<Longrightarrow> i = int (length P + length S) - 1 \<Longrightarrow> aget xs i = Ok (last S)"
  by (rule agetI [of _ "P @ butlast S" _ Z]) (simp_all add: of_nat_diff Suc_leI)

lemma aget_hd: "T \<noteq> [] \<Longrightarrow> xs = P @ T @ Z \<Longrightarrow> i = int (length P) \<Longrightarrow> aget xs i = Ok (hd T)"
  by (rule agetI [of _ P _ "tl T @ Z"]) simp_all

lemma length_rl_join_last [simp]: "S \<noteq> [] \<Longrightarrow> length (rl_join_last S t) = length S"
  by (simp add: rl_join_last_def)

lemma rl_join_last_not_Nil [simp]: "rl_join_last S t \<noteq> []"
  by (simp add: rl_join_last_def)

lemma rl_merge_at_last:
  assumes "S \<noteq> []" "i = int (length S) - 1"
  shows "rl_merge_at (S @ Z) i t = Ok (rl_join_last S t @ Z)"
  using assms unfolding rl_merge_at_def rl_join_last_def
  by (simp add: aget_last [of S _ "[]" Z]) (rule asetI [of _ "butlast S" "last S" Z], simp_all add: of_nat_diff Suc_leI)

lemma rl_fix_hd_at:
  assumes "T \<noteq> []" "Q \<noteq> []" "i = int (length Q)" "xs = Q @ T @ R"
  shows "rl_fix_marker xs i = Ok (Q @ rl_fix_hd (last Q) T @ R)"
proof (cases T)
  case (Cons m T')
  have "aget xs i = Ok m" "aget xs (i - 1) = Ok (last Q)"
    using assms Cons aget_hd [of T xs Q R i] aget_last [of Q xs "[]" "T @ R" "i - 1"] by simp_all
  then show ?thesis
    using assms Cons by (auto simp: rl_fix_marker_def rl_fix_end_def intro!: asetI)
qed (use assms in simp)

lemma ntfs_rl_append_refines:
  assumes ok: "\<And>n. alloc_ok H n" and dst: "dst = A @ h # T @ J" and T: "T \<noteq> []" and S: "S \<noteq> []"
    and tl: "rl_merge_right S T \<Longrightarrow> tl T \<noteq> []"
    and room: "rl_room dst dsize" and src: "src = S @ Z"
    and idx: "dsize = int (length A + 1 + length T)" "ssize = int (length S)" "loc = int (length A)"
  obtains R where
    "ntfs_rl_append H (Some dst) dsize (Some src) ssize loc = Ok (rl_append_spec A h T S @ R)"
    "rl_room (rl_append_spec A h T S @ R) (int (length (rl_append_spec A h T S)))"
proof -
  define right where "right = rl_merge_right S T"
  define S' where "S' = (if right then rl_join_last S (hd T) else S)"
  define T' where "T' = (if right then tl T else T)"
  have lS': "length S' = length S" "S' \<noteq> []" and T': "T' \<noteq> []" and lT': "int (length T') = int (length T) - b2i right"
    using S T tl by (auto simp: S'_def T'_def right_def of_nat_diff Suc_leI)
  have bS: "b2i right \<le> int (length S)"
    using S by (cases S) (auto simp: b2i_def)
  let ?n = "dsize + ssize - b2i right"
  obtain J1 where J1: "ntfs_rl_realloc H dst dsize ?n = Ok (A @ h # T @ J1)"
    "rl_room (A @ h # T @ J1) ?n" "?n \<le> int (length A + 1 + length T + length J1)"
  proof (rule realloc_grow [of H "A @ h # T" dsize ?n J])
  qed (use ok dst room idx bS in auto)
  have r: "(if loc + 1 < dsize then obind (aget src (ssize - 1)) (\<lambda>s.
        obind (aget dst (loc + 1)) (\<lambda>d. Ok (ntfs_rl_are_mergeable s d))) else Ok False) = Ok right"
    using idx T S src dst aget_last [of S src "[]" Z "ssize - 1"] aget_hd [of T dst "A @ [h]" J "loc + 1"]
    by (auto simp: right_def rl_merge_right_def)
  have m: "(if right then obind (aget (A @ h # T @ J1) (loc + 1)) (\<lambda>d. rl_merge_at src (ssize - 1) d)
      else Ok src) = Ok (S' @ Z)"
    using idx S src T aget_hd [of T "A @ h # T @ J1" "A @ [h]" J1 "loc + 1"]
    by (simp add: S'_def rl_merge_at_last)
  let ?G = "if right then [hd T] else []"
  have arr: "A @ h # T @ J1 = (A @ [h]) @ ?G @ T' @ J1"
    using T by (auto simp: T'_def)
  obtain M R where M: "ntfs_rl_mm (A @ h # T @ J1) (loc + ssize + 1) (loc + 1 + b2i right) (dsize - loc - 1 - b2i right) = Ok M"
    "ntfs_rl_mc M (loc + 1) (S' @ Z) 0 ssize = Ok (A @ h # S' @ T' @ R)"
    "length (A @ h # S' @ T' @ R) = length (A @ h # T @ J1)"
  proof (rule splice_gap [OF arr, of S' "loc + 1" "loc + ssize + 1" "loc + 1 + b2i right"
        "dsize - loc - 1 - b2i right" 0 "[]" ssize Z])
  qed (use J1(3) idx lS' lT' in auto)
  let ?h = "h\<lparr>rlen := vcn (hd S') - vcn h\<rparr>"
  let ?Q = "A @ ?h # S'"
  have n: "aget (A @ h # S' @ T' @ R) (loc + 1) = Ok (hd S')"
    using aget_hd [of S' _ "A @ [h]" "T' @ R" "loc + 1"] lS' idx by simp
  have u: "rl_upd (A @ h # S' @ T' @ R) loc (\<lambda>e. e\<lparr>rlen := vcn (hd S') - vcn e\<rparr>) = Ok (?Q @ T' @ R)"
    using idx by (simp add: c_arr)
  have f: "rl_fix_marker (?Q @ T' @ R) (loc + ssize + 1) = Ok (?Q @ rl_fix_hd (last ?Q) T' @ R)"
    by (rule rl_fix_hd_at) (use T' idx lS' in auto)
  have spec: "rl_append_spec A h T S = ?Q @ rl_fix_hd (last ?Q) T'"
    using lS' by (simp add: rl_append_spec_def Let_def right_def [symmetric] S'_def [symmetric] T'_def [symmetric])
  show ?thesis
  proof (rule that [of R])
    show "ntfs_rl_append H (Some dst) dsize (Some src) ssize loc = Ok (rl_append_spec A h T S @ R)"
      unfolding ntfs_rl_append_def spec using r J1(1) m M(1,2) n u f by (simp add: Let_def)
    show "rl_room (rl_append_spec A h T S @ R) (int (length (rl_append_spec A h T S)))"
      by (rule rl_room_cong [OF J1(2)]) (use M(3) idx lS' lT' spec in simp_all)
  qed
qed

lemma ntfs_rl_replace_refines:
  assumes ok: "\<And>n. alloc_ok H n" and dst: "dst = A @ h # T @ J" and S: "S \<noteq> []"
    and room: "rl_room dst dsize" and src: "src = S @ Z"
    and idx: "dsize = int (length A + 1 + length T)" "ssize = int (length S)" "loc = int (length A)"
  obtains R where
    "ntfs_rl_replace H (Some dst) dsize (Some src) ssize loc = Ok (rl_replace_spec A T S @ R)"
    "rl_room (rl_replace_spec A T S @ R) (int (length (rl_replace_spec A T S)))"
proof -
  define right where "right = rl_merge_right S T"
  define left where "left = rl_merge_left A S"
  define S' where "S' = (if right then rl_join_last S (hd T) else S)"
  define T' where "T' = (if right then tl T else T)"
  define A' where "A' = (if left then rl_join_last A (hd S') else A)"
  define S'' where "S'' = (if left then tl S' else S')"
  define Y where "Y = (if left then [hd S'] else [])"
  have lS': "length S' = length S" "S' \<noteq> []" "S' = Y @ S''"
    using S by (auto simp: S'_def S''_def Y_def right_def)
  have lT': "int (length T') = int (length T) - b2i right" "right \<Longrightarrow> T \<noteq> []"
    by (auto simp: T'_def right_def rl_merge_right_def of_nat_diff Suc_leI)
  have lA': "length A' = length A" "left \<Longrightarrow> A \<noteq> []"
    by (auto simp: A'_def left_def rl_merge_left_def)
  have lS'': "int (length S'') = int (length S) - b2i left" "int (length Y) = b2i left"
    using lS'(1,3) by (auto simp: Y_def split: if_splits)
  let ?d = "ssize - 1 - b2i left - b2i right"
  obtain J1 where J1: "(if ?d > 0 then ntfs_rl_realloc H dst dsize (dsize + ?d) else Ok dst) = Ok (A @ h # T @ J1)"
    "rl_room (A @ h # T @ J1) (dsize + ?d)" "dsize + ?d \<le> int (length A + 1 + length T + length J1)"
  proof (cases "?d > 0")
    case True
    obtain J2 where "ntfs_rl_realloc H ((A @ h # T) @ J) dsize (dsize + ?d) = Ok ((A @ h # T) @ J2)"
      "rl_room ((A @ h # T) @ J2) (dsize + ?d)" "dsize + ?d \<le> int (length (A @ h # T) + length J2)"
      by (rule realloc_grow [of H "A @ h # T" dsize "dsize + ?d" J]) (use ok dst room idx True in auto)
    then show ?thesis using True dst that [of J2] by simp
  next
    case False
    have "rl_room (A @ h # T @ J) (dsize + ?d)"
      using room dst False rl_blocks_mono [of "dsize + ?d" dsize] zdiv_mono1 [of "rl_blocks (dsize + ?d)" "rl_blocks dsize" rle_size]
      by (simp add: rl_room_def rle_size_def)
    then show ?thesis using False dst idx that [of J] by simp
  qed
  have r: "(if loc + 1 < dsize then obind (aget src (ssize - 1)) (\<lambda>s.
        obind (aget dst (loc + 1)) (\<lambda>d. Ok (ntfs_rl_are_mergeable s d))) else Ok False) = Ok right"
    using idx S src dst aget_last [of S src "[]" Z "ssize - 1"] aget_hd [of T dst "A @ [h]" J "loc + 1"]
    by (auto simp: right_def rl_merge_right_def)
  have l: "(if loc > 0 then obind (aget dst (loc - 1)) (\<lambda>d.
        obind (aget src 0) (\<lambda>s. Ok (ntfs_rl_are_mergeable d s))) else Ok False) = Ok left"
    using idx S src dst aget_last [of A dst "[]" "h # T @ J" "loc - 1"] aget_hd [of S src "[]" Z 0]
    by (auto simp: left_def rl_merge_left_def)
  have m: "(if right then obind (aget (A @ h # T @ J1) (loc + 1)) (\<lambda>d. rl_merge_at src (ssize - 1) d)
      else Ok src) = Ok (S' @ Z)"
    using idx S src lT'(2) aget_hd [of T "A @ h # T @ J1" "A @ [h]" J1 "loc + 1"]
    by (simp add: S'_def rl_merge_at_last)
  have m2: "(if left then obind (aget (S' @ Z) 0) (\<lambda>s. rl_merge_at (A @ h # T @ J1) (loc - 1) s)
      else Ok (A @ h # T @ J1)) = Ok (A' @ h # T @ J1)"
    using idx lS'(2) lA'(2) aget_hd [of S' "S' @ Z" "[]" Z 0] by (simp add: A'_def rl_merge_at_last)
  let ?tail = "loc + b2i right + 1" and ?mk = "loc + ssize - b2i left"
  let ?G = "h # (if right then [hd T] else [])"
  have arr: "A' @ h # T @ J1 = A' @ ?G @ T' @ J1"
    using lT'(2) by (auto simp: T'_def)
  have src': "S' @ Z = Y @ S'' @ Z"
    using lS'(3) by simp
  obtain M R where M: "ntfs_rl_mm (A' @ h # T @ J1) ?mk ?tail (dsize - ?tail) = Ok M"
    "ntfs_rl_mc M loc (S' @ Z) (b2i left) (ssize - b2i left) = Ok (A' @ S'' @ T' @ R)"
    "length (A' @ S'' @ T' @ R) = length (A' @ h # T @ J1)"
  proof (unfold src', rule splice_gap [OF arr, of S'' loc ?mk ?tail "dsize - ?tail" "b2i left" Y "ssize - b2i left" Z])
  qed (use J1(3) idx lS' lT' lA' lS'' in auto)
  let ?Q = "A' @ S''"
  have Q: "?Q \<noteq> []"
  proof
    assume "?Q = []"
    then have "A = []" "S'' = []" using lA'(1) by auto
    then show False using lA'(2) lS'(2) by (simp add: S''_def split: if_splits)
  qed
  have f: "(if dsize - ?tail > 0 then rl_fix_marker (A' @ S'' @ T' @ R) ?mk else Ok (A' @ S'' @ T' @ R))
      = Ok (A' @ S'' @ rl_fix_hd (last ?Q) T' @ R)"
  proof (cases "T' = []")
    case True
    then show ?thesis using lT'(1) idx by simp
  next
    case False
    then have "0 < int (length T')" by simp
    then have "?mk = int (length ?Q)" "dsize - ?tail > 0"
      using idx lA' lS'' lT'(1) by simp_all
    then show ?thesis using rl_fix_hd_at [OF False Q _ refl, of ?mk R] by simp
  qed
  have spec: "rl_replace_spec A T S = ?Q @ rl_fix_hd (last ?Q) T'"
    unfolding rl_replace_spec_def Let_def A'_def S''_def S'_def T'_def left_def right_def by simp
  show ?thesis
  proof (rule that [of R])
    show "ntfs_rl_replace H (Some dst) dsize (Some src) ssize loc = Ok (rl_replace_spec A T S @ R)"
      unfolding ntfs_rl_replace_def spec using r l J1(1) m m2 M(1,2) f by (simp add: Let_def)
    show "rl_room (rl_replace_spec A T S @ R) (int (length (rl_replace_spec A T S)))"
      by (rule rl_room_cong [OF J1(2)]) (use M(3) idx lT' lA' lS'' spec in simp_all)
  qed
qed

section \<open>Insert\<close>

definition rl_insert_disc :: "runlist \<Rightarrow> runlist \<Rightarrow> bool" where
  "rl_insert_disc A S \<longleftrightarrow>
     (if A = [] then vcn (hd S) > 0
      else vcn (hd S) > vcn (last A) + (if rl_merge_left A S then rlen (last A) + rlen (hd S) else rlen (last A)))"

definition rl_insert_mark :: "runlist_element \<Rightarrow> runlist_element \<Rightarrow> runlist \<Rightarrow> runlist_element" where
  "rl_insert_mark p m T =
     (let m1 = m\<lparr>vcn := vcn p + rlen p\<rparr>
      in if lcn m = LCN_HOLE \<or> lcn m = LCN_RL_NOT_MAPPED then m1\<lparr>rlen := vcn (hd T) - vcn m1\<rparr> else m1)"

definition rl_gap :: "runlist \<Rightarrow> runlist \<Rightarrow> runlist" where
  "rl_gap A S =
     (let v = (if A = [] then 0 else vcn (last A) + rlen (last A))
      in [\<lparr>vcn = v, lcn = LCN_RL_NOT_MAPPED, rlen = vcn (hd S) - v\<rparr>])"

definition rl_insert_spec :: "runlist \<Rightarrow> runlist_element \<Rightarrow> runlist \<Rightarrow> runlist \<Rightarrow> runlist" where
  "rl_insert_spec A m T S =
     (let left = rl_merge_left A S;
          A' = (if left then rl_join_last A (hd S) else A);
          S' = (if left then tl S else S);
          gap = (if rl_insert_disc A S then rl_gap A S else [])
      in A' @ gap @ S' @ rl_insert_mark (last (A' @ S')) m T # T)"

lemma ntfs_rl_insert_refines:
  assumes ok: "\<And>n. alloc_ok H n" and dst: "dst = A @ m # T @ J" and S: "S \<noteq> []"
    and T: "lcn m = LCN_HOLE \<or> lcn m = LCN_RL_NOT_MAPPED \<Longrightarrow> T \<noteq> []"
    and nd: "\<not> (rl_merge_left A S \<and> rl_insert_disc A S)"
    and room: "rl_room dst dsize" and src: "src = S @ Z"
    and idx: "dsize = int (length A + 1 + length T)" "ssize = int (length S)" "loc = int (length A)"
  obtains R where
    "ntfs_rl_insert H (Some dst) dsize (Some src) ssize loc = Ok (rl_insert_spec A m T S @ R)"
    "rl_room (rl_insert_spec A m T S @ R) (int (length (rl_insert_spec A m T S)))"
proof -
  define left where "left = rl_merge_left A S"
  define disc where "disc = rl_insert_disc A S"
  define A' where "A' = (if left then rl_join_last A (hd S) else A)"
  define S' where "S' = (if left then tl S else S)"
  define Y where "Y = (if left then [hd S] else [])"
  define G where "G = (if disc then [m] else [])"
  have lA: "left \<Longrightarrow> A \<noteq> []" by (simp add: left_def rl_merge_left_def)
  have lA': "length A' = length A" using lA by (auto simp: A'_def)
  have lS': "int (length S') = int (length S) - b2i left" "int (length Y) = b2i left" "S = Y @ S'"
    using S by (auto simp: S'_def Y_def of_nat_diff Suc_leI)
  have lG: "int (length G) = b2i disc" by (simp add: G_def)
  have nd': "\<not> (left \<and> disc)" using nd by (simp add: left_def disc_def)
  have s0: "aget src 0 = Ok (hd S)" using aget_hd [of S src "[]" Z 0] S src by simp
  have ld: "(if loc = 0 then Ok (False, vcn (hd S) > 0)
                 else obind (aget dst (loc - 1)) (\<lambda>d.
                      let left = ntfs_rl_are_mergeable d (hd S);
                          merged_length = (if left then rlen d + rlen (hd S) else rlen d)
                      in Ok (left, vcn (hd S) > vcn d + merged_length))) = Ok (left, disc)"
    using idx dst aget_last [of A dst "[]" "m # T @ J" "loc - 1"]
    by (auto simp: left_def disc_def rl_merge_left_def rl_insert_disc_def Let_def)
  have bS: "b2i left \<le> int (length S)" using S by (cases S) (auto simp: b2i_def)
  let ?n = "dsize + ssize - b2i left + b2i disc"
  obtain J1 where J1: "ntfs_rl_realloc H dst dsize ?n = Ok (A @ m # T @ J1)"
    "rl_room (A @ m # T @ J1) ?n" "?n \<le> int (length A + 1 + length T + length J1)"
  proof (rule realloc_grow [of H "A @ m # T" dsize ?n J])
  qed (use ok dst room idx bS in \<open>auto simp: b2i_def\<close>)
  have m2: "(if left then rl_merge_at (A @ m # T @ J1) (loc - 1) (hd S) else Ok (A @ m # T @ J1)) = Ok (A' @ m # T @ J1)"
    using idx lA by (simp add: A'_def rl_merge_at_last)
  let ?mk = "loc + ssize - b2i left + b2i disc"
  have src': "src = Y @ S' @ Z" using src lS'(3) by simp
  obtain M R where M0: "ntfs_rl_mm (A' @ m # T @ J1) ?mk loc (dsize - loc) = Ok M"
    "ntfs_rl_mc M (loc + b2i disc) src (b2i left) (ssize - b2i left) = Ok ((A' @ G) @ S' @ (m # T) @ R)"
    "length ((A' @ G) @ S' @ (m # T) @ R) = length (A' @ m # T @ J1)"
  proof (unfold src', rule splice_window [of "A' @ G" "A' @ m # T @ J1" S' "m # T" loc "dsize - loc" "loc + b2i disc" ?mk "b2i left" Y "ssize - b2i left" Z])
    show "take (length (A' @ G)) (A' @ m # T @ J1) = A' @ G"
      by (simp add: G_def)
  qed (use J1(3) idx lS'(1,2) lA' lG in simp_all)
  note M = M0 [unfolded append_assoc append_Cons]
  let ?Q = "A' @ G @ S'"
  have lQ: "?mk = int (length ?Q)" using idx lA' lG lS'(1,2) by simp
  have Q: "A' @ S' \<noteq> []" "disc \<Longrightarrow> S' \<noteq> []" "last ?Q = last (A' @ S')"
    using lA nd' S lA' by (auto simp: S'_def A'_def G_def)
  have Qn: "?Q \<noteq> []" using Q(1) by auto
  have p: "aget (A' @ G @ S' @ m # T @ R) (?mk - 1) = Ok (last (A' @ S'))"
    using aget_last [OF Qn, of _ "[]" "m # T @ R" "?mk - 1"] lQ Q(3) by simp
  let ?m1 = "m\<lparr>vcn := vcn (last (A' @ S')) + rlen (last (A' @ S'))\<rparr>"
  let ?m2 = "rl_insert_mark (last (A' @ S')) m T"
  have u: "rl_upd (A' @ G @ S' @ m # T @ R) ?mk (\<lambda>e. e\<lparr>vcn := vcn (last (A' @ S')) + rlen (last (A' @ S'))\<rparr>) = Ok (A' @ G @ S' @ ?m1 # T @ R)"
    using rl_upd_app [OF lQ, of m "T @ R"] by simp
  have m1: "aget (A' @ G @ S' @ ?m1 # T @ R) ?mk = Ok ?m1"
    using aget_app [OF lQ, of ?m1 "T @ R"] by simp
  have n2: "T \<noteq> [] \<Longrightarrow> aget (A' @ G @ S' @ ?m1 # T @ R) (?mk + 1) = Ok (hd T)"
    using aget_hd [of T _ "?Q @ [?m1]" R "?mk + 1"] lQ by simp
  have w: "(if lcn ?m1 = LCN_HOLE \<or> lcn ?m1 = LCN_RL_NOT_MAPPED
                 then obind (aget (A' @ G @ S' @ ?m1 # T @ R) (?mk + 1)) (\<lambda>n. aset (A' @ G @ S' @ ?m1 # T @ R) ?mk (?m1\<lparr>rlen := vcn n - vcn ?m1\<rparr>))
                 else Ok (A' @ G @ S' @ ?m1 # T @ R)) = Ok (A' @ G @ S' @ ?m2 # T @ R)"
    using n2 T aset_app [OF lQ, of ?m1 "T @ R"] by (simp add: rl_insert_mark_def Let_def)
  have g: "(if disc then obind (aget (A' @ G @ S' @ ?m2 # T @ R) (loc + 1)) (\<lambda>n.
               obind (if loc > 0 then obind (aget (A' @ G @ S' @ ?m2 # T @ R) (loc - 1)) (\<lambda>b. Ok (vcn b + rlen b))
                      else Ok 0) (\<lambda>v.
               rl_upd (A' @ G @ S' @ ?m2 # T @ R) loc (\<lambda>e. e\<lparr>vcn := v, rlen := vcn n - v, lcn := LCN_RL_NOT_MAPPED\<rparr>)))
          else Ok (A' @ G @ S' @ ?m2 # T @ R)) = Ok (rl_insert_spec A m T S @ R)"
  proof (cases disc)
    case True
    with nd' have e: "A' = A" "S' = S" "G = [m]" "\<not> left"
      by (simp_all add: A'_def S'_def G_def)
    have "aget (A @ [m] @ S @ ?m2 # T @ R) (loc + 1) = Ok (hd S)"
      using aget_hd [of S _ "A @ [m]" "?m2 # T @ R" "loc + 1"] S idx by simp
    moreover have "A \<noteq> [] \<Longrightarrow> aget (A @ [m] @ S @ ?m2 # T @ R) (loc - 1) = Ok (last A)"
      using aget_last [of A _ "[]" "[m] @ S @ ?m2 # T @ R" "loc - 1"] idx by simp
    moreover have "rl_upd (A @ [m] @ S @ ?m2 # T @ R) loc f = Ok (A @ f m # S @ ?m2 # T @ R)" for f
      using rl_upd_app [OF idx(3)] by simp
    ultimately show ?thesis
      using True e idx by (auto simp: rl_insert_spec_def rl_gap_def Let_def left_def disc_def)
  next
    case False
    then show ?thesis
      by (simp add: rl_insert_spec_def Let_def A'_def S'_def G_def left_def disc_def)
  qed
  show ?thesis
  proof (rule that [of R])
    show "ntfs_rl_insert H (Some dst) dsize (Some src) ssize loc = Ok (rl_insert_spec A m T S @ R)"
      unfolding ntfs_rl_insert_def using s0 ld J1(1) m2 M(1,2) p u m1 w g by (simp add: Let_def)
    have "length (rl_insert_spec A m T S) = length ?Q + 1 + length T"
      by (simp add: rl_insert_spec_def Let_def A'_def S'_def G_def left_def disc_def rl_gap_def)
    then show "rl_room (rl_insert_spec A m T S @ R) (int (length (rl_insert_spec A m T S)))"
      by (intro rl_room_cong [OF J1(2)]) (use M(3) idx lA' lS'(1,2) lG in simp_all)
  qed
qed

section \<open>Split\<close>

definition rl_split_spec :: "runlist \<Rightarrow> runlist_element \<Rightarrow> runlist \<Rightarrow> runlist \<Rightarrow> runlist" where
  "rl_split_spec A h T S =
     (let e = vcn (last S) + rlen (last S)
      in A @ h\<lparr>rlen := vcn (hd S) - vcn h\<rparr> # S @ h\<lparr>vcn := e, rlen := vcn (hd T) - e\<rparr> # T)"

lemma ntfs_rl_split_refines:
  assumes ok: "\<And>n. alloc_ok H n" and dst: "dst = A @ h # T @ J" and S: "S \<noteq> []" and T: "T \<noteq> []"
    and room: "rl_room dst dsize" and src: "src = S @ Z"
    and idx: "dsize = int (length A + 1 + length T)" "ssize = int (length S)" "loc = int (length A)"
  obtains R where
    "ntfs_rl_split H (Some dst) dsize (Some src) ssize loc = Ok (rl_split_spec A h T S @ R)"
    "rl_room (rl_split_spec A h T S @ R) (int (length (rl_split_spec A h T S)))"
proof -
  let ?n = "dsize + ssize + 1"
  obtain J1 where J1: "ntfs_rl_realloc H dst dsize ?n = Ok (A @ h # T @ J1)"
    "rl_room (A @ h # T @ J1) ?n" "?n \<le> int (length A + 1 + length T + length J1)"
  proof (rule realloc_grow [of H "A @ h # T" dsize ?n J])
  qed (use ok dst room idx in auto)
  obtain M R where M0: "ntfs_rl_mm (A @ h # T @ J1) (loc + 1 + ssize) loc (dsize - loc) = Ok M"
    "ntfs_rl_mc M (loc + 1) src 0 ssize = Ok ((A @ [h]) @ S @ (h # T) @ R)"
    "length ((A @ [h]) @ S @ (h # T) @ R) = length (A @ h # T @ J1)"
  proof (rule splice_window [of "A @ [h]" "A @ h # T @ J1" S "h # T" loc "dsize - loc" "loc + 1" "loc + 1 + ssize" 0 "[]" ssize Z])
  qed (use J1(3) idx src in auto)
  note M = M0 [unfolded append_assoc append_Cons append_Nil]
  let ?h1 = "h\<lparr>rlen := vcn (hd S) - vcn h\<rparr>"
  let ?e = "vcn (last S) + rlen (last S)"
  let ?Q = "A @ ?h1 # S"
  have lQ: "loc + ssize + 1 = int (length ?Q)" using idx by simp
  have n: "aget (A @ h # S @ h # T @ R) (loc + 1) = Ok (hd S)"
    using aget_hd [of S _ "A @ [h]" "h # T @ R" "loc + 1"] S idx by simp
  have u: "rl_upd (A @ h # S @ h # T @ R) loc (\<lambda>e. e\<lparr>rlen := vcn (hd S) - vcn e\<rparr>) = Ok (A @ ?h1 # S @ h # T @ R)"
    using rl_upd_app [OF idx(3)] by simp
  have l: "aget (A @ ?h1 # S @ h # T @ R) (loc + ssize) = Ok (last S)"
    using aget_last [of S _ "A @ [?h1]" "h # T @ R" "loc + ssize"] S idx by simp
  have u2: "rl_upd (A @ ?h1 # S @ x # T @ R) (loc + ssize + 1) f = Ok (A @ ?h1 # S @ f x # T @ R)" for x f
    using rl_upd_app [OF lQ] by simp
  have n2: "aget (A @ ?h1 # S @ x # T @ R) (loc + ssize + 2) = Ok (hd T)" for x
    using aget_hd [of T _ "?Q @ [x]" R "loc + ssize + 2"] T lQ by simp
  have res: "ntfs_rl_split H (Some dst) dsize (Some src) ssize loc = Ok (rl_split_spec A h T S @ R)"
    unfolding ntfs_rl_split_def using J1(1) M(1,2) n u l u2 n2 by (simp add: rl_split_spec_def Let_def)
  moreover have "rl_room (rl_split_spec A h T S @ R) (int (length (rl_split_spec A h T S)))"
    by (rule rl_room_cong [OF J1(2)]) (use M(3) idx in \<open>simp_all add: rl_split_spec_def Let_def\<close>)
  ultimately show ?thesis by (rule that)
qed
end
