(* ===== verification/Runlist_Merge.thy ===== *)
theory Runlist_Merge
  imports Runlist_Splice
begin

text \<open>
  What \<^verbatim>\<open>ntfs_runlists_merge\<close> and \<^verbatim>\<open>ntfs_rl_truncate\<close> do to the mapping: a runlist is read as a
  partial map from virtual to logical clusters, the lookup loop is shown to compute that map, and
  the list specifications of the splice primitives are shown to overlay one map on another.
\<close>

section \<open>The meaning of a runlist\<close>

text \<open>\<open>rl_chain a R b\<close>: the runs of \<open>R\<close> are non-empty, in order, and cover exactly the
  clusters from \<open>a\<close> to \<open>b\<close>. \<open>rl_at\<close> is the partial map a runlist stands for, \<open>rl_term t e\<close> says
  that \<open>t\<close> is an end marker at \<open>e\<close>.\<close>

fun rl_chain :: "int \<Rightarrow> runlist \<Rightarrow> int \<Rightarrow> bool" where
  "rl_chain a [] b \<longleftrightarrow> a = b"
| "rl_chain a (r # rs) b \<longleftrightarrow> vcn r = a \<and> rlen r > 0 \<and> rl_chain (a + rlen r) rs b"

fun rl_at :: "runlist \<Rightarrow> int \<Rightarrow> int option" where
  "rl_at [] v = None"
| "rl_at (r # rs) v =
     (if vcn r \<le> v \<and> v < vcn r + rlen r then Some (if lcn r \<ge> 0 then lcn r + (v - vcn r) else lcn r)
      else rl_at rs v)"

definition rl_term :: "runlist_element \<Rightarrow> int \<Rightarrow> bool" where
  "rl_term t e \<longleftrightarrow> vcn t = e \<and> rlen t = 0 \<and> (lcn t = LCN_ENOENT \<or> lcn t = LCN_RL_NOT_MAPPED)"

lemma rl_chain_append: "rl_chain a (X @ Y) b \<longleftrightarrow> (\<exists>m. rl_chain a X m \<and> rl_chain m Y b)"
  by (induction X arbitrary: a) auto

lemma rl_at_append: "rl_at (X @ Y) v = (case rl_at X v of None \<Rightarrow> rl_at Y v | r \<Rightarrow> r)"
  by (induction X) auto

lemma rl_chain_le: "rl_chain a R b \<Longrightarrow> a \<le> b"
  by (induction R arbitrary: a) force+

lemma rl_at_None_iff: "rl_chain a R b \<Longrightarrow> rl_at R v = None \<longleftrightarrow> v < a \<or> b \<le> v"
proof (induction R arbitrary: a)
  case (Cons r R)
  then show ?case using rl_chain_le [of "a + rlen r" R b] by auto
qed auto

lemma rl_chain_last: "rl_chain a R b \<Longrightarrow> R \<noteq> [] \<Longrightarrow> vcn (last R) + rlen (last R) = b"
  by (induction R arbitrary: a) (auto split: if_splits)

lemma rl_chain_hd: "rl_chain a R b \<Longrightarrow> R \<noteq> [] \<Longrightarrow> vcn (hd R) = a \<and> a < b"
  by (cases R) (auto dest: rl_chain_le)

lemma rl_join:
  assumes "ntfs_rl_are_mergeable d s" "rl_chain a (X @ d # s # Y) b"
  shows "rl_chain a (X @ rl_merge_elt d s # Y) b" "rl_at (X @ rl_merge_elt d s # Y) = rl_at (X @ d # s # Y)"
proof -
  show "rl_chain a (X @ rl_merge_elt d s # Y) b"
    using assms(2) by (auto simp: rl_chain_append rl_merge_elt_def add.assoc)
  show "rl_at (X @ rl_merge_elt d s # Y) = rl_at (X @ d # s # Y)"
    using assms
    by (auto simp: fun_eq_iff rl_at_append rl_chain_append rl_merge_elt_def ntfs_rl_are_mergeable_def
        lcn_defs split: option.splits if_splits)
qed

lemma rl_join_mid:
  assumes "A \<noteq> []" "S \<noteq> []" "ntfs_rl_are_mergeable (last A) (hd S)" "rl_chain a (X @ A @ S @ Y) b"
  shows "rl_chain a (X @ rl_join_last A (hd S) @ tl S @ Y) b \<and>
    rl_at (X @ rl_join_last A (hd S) @ tl S @ Y) = rl_at (X @ A @ S @ Y)"
proof -
  have e: "X @ A @ S @ Y = (X @ butlast A) @ last A # hd S # tl S @ Y"
    using assms(1,2) by (cases A rule: rev_cases; cases S) auto
  show ?thesis
    unfolding e using rl_join [OF assms(3) assms(4) [unfolded e]] by (simp add: rl_join_last_def)
qed

section \<open>Lookup\<close>

lemma rl_lookup_loop_eq:
  assumes "rl_chain a R e" "rl_term t e" "a \<le> v"
  shows "rl_lookup_loop (P @ R @ t # Z) v (int (length P)) =
    Ok (case rl_at R v of Some l \<Rightarrow> l | None \<Rightarrow> lcn t)"
  using assms
proof (induction R arbitrary: P a)
  case Nil
  then show ?case
    by (subst rl_lookup_loop.simps) (auto simp: rl_term_def lcn_defs)
next
  case (Cons r R)
  let ?n = "hd (R @ [t])"
  have n: "aget (P @ (r # R) @ t # Z) (int (length P) + 1) = Ok ?n"
    using aget_hd [of "R @ [t]" _ "P @ [r]" Z "int (length P) + 1"] by simp
  have v: "vcn ?n = a + rlen r" 
    using Cons.prems by (cases R) (auto simp: rl_term_def)
  show ?case
  proof (cases "v < vcn ?n")
    case True
    then show ?thesis
      using Cons.prems n v by (subst rl_lookup_loop.simps) simp
  next
    case False
    have "rl_lookup_loop ((P @ [r]) @ R @ t # Z) v (int (length (P @ [r]))) =
       Ok (case rl_at R v of Some l \<Rightarrow> l | None \<Rightarrow> lcn t)"
      by (rule Cons.IH [of "a + rlen r"]) (use Cons.prems False v in auto)
    moreover have "rl_at (r # R) v = rl_at R v" using False v Cons.prems by simp
    ultimately show ?thesis
      using Cons.prems False n v by (subst rl_lookup_loop.simps) (simp add: add.commute)
  qed
qed

lemma ntfs_rl_vcn_to_lcn_eq:
  assumes "rl_chain a R e" "rl_term t e"
  shows "ntfs_rl_vcn_to_lcn (Some (R @ t # Z)) v =
    Ok (if v < 0 then LCN_EINVAL else if v < a then LCN_ENOENT
        else case rl_at R v of Some l \<Rightarrow> l | None \<Rightarrow> lcn t)"
proof -
  have "aget (R @ t # Z) 0 = Ok (hd (R @ [t]))"
    using aget_hd [of "R @ [t]" _ "[]" Z 0] by simp
  moreover have "vcn (hd (R @ [t])) = a"
    using assms by (cases R) (auto simp: rl_term_def)
  ultimately show ?thesis
    using rl_lookup_loop_eq [OF assms, of v "[]" Z] by (simp add: ntfs_rl_vcn_to_lcn_def)
qed

section \<open>Filling a hole\<close>

text \<open>\<open>rl_fills D S D'\<close>: \<open>D'\<close> maps what \<open>S\<close> maps, and is \<open>D\<close> elsewhere.\<close>

definition rl_fills :: "runlist \<Rightarrow> runlist \<Rightarrow> runlist \<Rightarrow> bool" where
  "rl_fills D S D' \<longleftrightarrow>
     (\<forall>v. rl_at D' v = (case rl_at S v of Some l \<Rightarrow> Some l | None \<Rightarrow> rl_at D v))"

definition hole_elt :: "runlist_element \<Rightarrow> bool" where
  "hole_elt h \<longleftrightarrow> lcn h = LCN_HOLE \<or> lcn h = LCN_RL_NOT_MAPPED"

lemma fill_pieces:
  assumes D: "rl_chain x (A @ h # T) e" and h: "hole_elt h" and S: "rl_chain a S b" "S \<noteq> []"
    and inside: "vcn h \<le> a" "b \<le> vcn h + rlen h"
    and H1: "H1 = (if vcn h = a then [] else [h\<lparr>rlen := a - vcn h\<rparr>])"
    and H2: "H2 = (if b = vcn h + rlen h then [] else [h\<lparr>vcn := b, rlen := vcn h + rlen h - b\<rparr>])"
  shows "rl_chain x (A @ H1 @ S @ H2 @ T) e" "rl_fills (A @ h # T) S (A @ H1 @ S @ H2 @ T)"
proof -
  have ab: "a < b" using S rl_chain_hd by blast
  obtain m where m: "rl_chain x A m" "vcn h = m" "rlen h > 0" "rl_chain (m + rlen h) T e"
    using D by (auto simp: rl_chain_append)
  show "rl_chain x (A @ H1 @ S @ H2 @ T) e"
    unfolding rl_chain_append
    by (rule exI [of _ m], intro conjI, rule m(1), rule exI [of _ a], intro conjI, simp add: H1 m,
        (use inside m in simp), rule exI [of _ b], intro conjI, rule S(1), rule exI [of _ "m + rlen h"])
      (use inside m H2 ab in auto)
  show "rl_fills (A @ h # T) S (A @ H1 @ S @ H2 @ T)"
    unfolding rl_fills_def
  proof
    fix v
    have nA: "rl_at A v = None \<longleftrightarrow> v < x \<or> m \<le> v" using rl_at_None_iff [OF m(1)] .
    have nS: "rl_at S v = None \<longleftrightarrow> v < a \<or> b \<le> v" using rl_at_None_iff [OF S(1)] .
    have nT: "v < m + rlen h \<Longrightarrow> rl_at T v = None" using rl_at_None_iff [OF m(4)] by simp
    show "rl_at (A @ H1 @ S @ H2 @ T) v = (case rl_at S v of Some l \<Rightarrow> Some l | None \<Rightarrow> rl_at (A @ h # T) v)"
    proof (cases "a \<le> v \<and> v < b")
      case True
      then have "rl_at A v = None" "rl_at H1 v = None" "rl_at S v \<noteq> None"
        using nA nS inside m H1 by auto
      then show ?thesis by (auto simp: rl_at_append)
    next
      case False
      then have "rl_at S v = None" using nS by auto
      moreover have "rl_at (H1 @ H2 @ T) v = rl_at (h # T) v"
        using False h inside m H1 H2 nT ab by (auto simp: hole_elt_def lcn_defs rl_at_append)
      moreover have "rl_at (H1 @ S @ H2 @ T) v = rl_at (H1 @ H2 @ T) v"
        using calculation(1) by (simp add: rl_at_append split: option.splits)
      ultimately show ?thesis by (simp only: rl_at_append [of A] option.case)
    qed
  qed
qed

section \<open>The specifications fill the hole\<close>

lemma rl_fix_hd_id:
  assumes "rl_chain b T' e" "rl_term t e" "list_all (\<lambda>r. lcn r \<ge> LCN_RL_NOT_MAPPED) T'" "vcn p + rlen p = b"
  shows "rl_fix_hd p (T' @ [t]) = T' @ [t]"
  using assms by (cases T') (auto simp: rl_fix_end_def rl_term_def lcn_defs)

lemma rl_merge_right_term:
  assumes "rl_merge_right S (T' @ [t])" "rl_term t e" "lcn (last S) \<ge> LCN_HOLE"
  shows "T' \<noteq> []"
  using assms by (auto simp: rl_merge_right_def rl_term_def ntfs_rl_are_mergeable_def lcn_defs split: if_splits)

lemma rl_join_right:
  assumes "rl_merge_right S (T' @ [t])" "T' \<noteq> []" "S \<noteq> []" "rl_chain x (X @ S @ T') e"
  shows "rl_chain x (X @ rl_join_last S (hd T') @ tl T') e"
    "rl_at (X @ rl_join_last S (hd T') @ tl T') = rl_at (X @ S @ T')"
  using rl_join_mid [of S T' x X "[]" e] assms by (simp_all add: rl_merge_right_def)

lemma rl_last_join:
  "S \<noteq> [] \<Longrightarrow> vcn (last (rl_join_last S t)) + rlen (last (rl_join_last S t)) = vcn (last S) + rlen (last S) + rlen t"
  by (simp add: rl_join_last_def rl_merge_elt_def)

lemma append_spec_fill:
  assumes D: "rl_chain x (A @ H @ S @ T') e" and t: "rl_term t e" and S: "S \<noteq> []" "lcn (last S) \<ge> LCN_HOLE"
    and H: "H = [h\<lparr>rlen := vcn (hd S) - vcn h\<rparr>]" and T': "list_all (\<lambda>r. lcn r \<ge> LCN_RL_NOT_MAPPED) T'"
  shows "\<exists>D'. rl_append_spec A h (T' @ [t]) S = D' @ [t] \<and> rl_chain x D' e \<and> rl_at D' = rl_at (A @ H @ S @ T')"
proof (cases "rl_merge_right S (T' @ [t])")
  case True
  note T'0 = rl_merge_right_term [OF True t S(2)]
  let ?S = "rl_join_last S (hd T')"
  have j: "rl_chain x ((A @ H) @ ?S @ tl T') e" "rl_at ((A @ H) @ ?S @ tl T') = rl_at ((A @ H) @ S @ T')"
    using rl_join_right [OF True T'0 S(1), of x "A @ H" e] D by simp_all
  then obtain m where m: "rl_chain m (tl T') e" "rl_chain x ((A @ H) @ ?S) m"
    by (auto simp: rl_chain_append)
  have "vcn (last ?S) + rlen (last ?S) = m"
    using rl_chain_last [OF m(2)] by simp
  then have "rl_fix_hd (last ?S) (tl T' @ [t]) = tl T' @ [t]"
    using rl_fix_hd_id [OF m(1) t] T' by (cases T') auto
  moreover have "hd (?S) = hd S \<or> (length S = 1 \<and> vcn (hd ?S) = vcn (hd S))"
    using S(1) by (cases S) (auto simp: rl_join_last_def rl_merge_elt_def)
  ultimately have "rl_append_spec A h (T' @ [t]) S = ((A @ H) @ ?S @ tl T') @ [t]"
    using True T'0 H by (auto simp: rl_append_spec_def Let_def)
  with j show ?thesis by (metis append.assoc)
next
  case False
  obtain m where m: "rl_chain m T' e" "rl_chain x (A @ H @ S) m"
    using D by (metis append.assoc rl_chain_append)
  have "vcn (last S) + rlen (last S) = m" using rl_chain_last [OF m(2)] S(1) by simp
  then have "rl_append_spec A h (T' @ [t]) S = (A @ H @ S @ T') @ [t]"
    using False rl_fix_hd_id [OF m(1) t T'] H by (simp add: rl_append_spec_def Let_def)
  with D show ?thesis by blast
qed

lemma rl_chain_join_left:
  assumes "rl_merge_left A S" "S \<noteq> []" "rl_chain x (A @ S @ Y) e"
  shows "rl_chain x (rl_join_last A (hd S) @ tl S @ Y) e" "rl_at (rl_join_last A (hd S) @ tl S @ Y) = rl_at (A @ S @ Y)"
  using rl_join_mid [of A S x "[]" Y e] assms by (simp_all add: rl_merge_left_def)

lemma replace_spec_fill:
  assumes D: "rl_chain x (A @ S @ T') e" and t: "rl_term t e" and S: "S \<noteq> []" "lcn (last S) \<ge> LCN_HOLE"
    and T': "list_all (\<lambda>r. lcn r \<ge> LCN_RL_NOT_MAPPED) T'"
  shows "\<exists>D'. rl_replace_spec A (T' @ [t]) S = D' @ [t] \<and> rl_chain x D' e \<and> rl_at D' = rl_at (A @ S @ T')"
proof -
  define right where "right = rl_merge_right S (T' @ [t])"
  define S1 where "S1 = (if right then rl_join_last S (hd T') else S)"
  define T1 where "T1 = (if right then tl T' else T')"
  have T'0: "right \<Longrightarrow> T' \<noteq> []" using rl_merge_right_term [OF _ t S(2)] by (simp add: right_def)
  have j1: "rl_chain x (A @ S1 @ T1) e" "rl_at (A @ S1 @ T1) = rl_at (A @ S @ T')"
    using rl_join_right [of S T' t x A e] T'0 S(1) D by (auto simp: S1_def T1_def right_def)
  have S1: "S1 \<noteq> []" "vcn (hd S1) = vcn (hd S)" "lcn (hd S1) = lcn (hd S)"
    using S(1) by (cases S; auto simp: S1_def rl_join_last_def rl_merge_elt_def)+
  define left where "left = rl_merge_left A S"
  have l1: "left \<longleftrightarrow> rl_merge_left A S1"
    using S1 by (auto simp: left_def rl_merge_left_def ntfs_rl_are_mergeable_def)
  define A1 where "A1 = (if left then rl_join_last A (hd S1) else A)"
  define S2 where "S2 = (if left then tl S1 else S1)"
  have j2: "rl_chain x (A1 @ S2 @ T1) e" "rl_at (A1 @ S2 @ T1) = rl_at (A @ S1 @ T1)"
    using rl_chain_join_left [of A S1 x T1 e] S1(1) j1(1) by (auto simp: A1_def S2_def l1)
  obtain m where m: "rl_chain m T1 e" "rl_chain x (A1 @ S2) m"
    using j2(1) by (metis append.assoc rl_chain_append)
  have "A1 @ S2 \<noteq> []" using S1(1) by (auto simp: A1_def S2_def)
  then have "vcn (last (A1 @ S2)) + rlen (last (A1 @ S2)) = m"
    using rl_chain_last [OF m(2)] by simp
  then have f: "rl_fix_hd (last (A1 @ S2)) (T1 @ [t]) = T1 @ [t]"
    using rl_fix_hd_id [OF m(1) t] T' by (cases T') (auto simp: T1_def)
  have "(if right then tl (T' @ [t]) else T' @ [t]) = T1 @ [t]" "right \<Longrightarrow> hd (T' @ [t]) = hd T'"
    using T'0 by (auto simp: T1_def)
  then have "rl_replace_spec A (T' @ [t]) S = A1 @ S2 @ rl_fix_hd (last (A1 @ S2)) (T1 @ [t])"
    unfolding rl_replace_spec_def Let_def right_def [symmetric] left_def [symmetric]
    by (simp add: S1_def [symmetric] A1_def S2_def cong: if_cong)
  with f have "rl_replace_spec A (T' @ [t]) S = (A1 @ S2 @ T1) @ [t]" by simp
  with j1 j2 show ?thesis by metis
qed

lemma insert_spec_fill:
  assumes D: "rl_chain x (A @ S @ H @ T') e" and t: "rl_term t e" and S: "S \<noteq> []" and h: "hole_elt h"
    and H: "H = [h\<lparr>vcn := b, rlen := vcn (hd (T' @ [t])) - b\<rparr>]" and b: "b = vcn (last S) + rlen (last S)"
    and x: "A = [] \<Longrightarrow> x = 0"
  shows "\<not> rl_insert_disc A S"
    "\<exists>D'. rl_insert_spec A h (T' @ [t]) S = D' @ [t] \<and> rl_chain x D' e \<and> rl_at D' = rl_at (A @ S @ H @ T')"
proof -
  obtain m where m: "rl_chain x A m" "rl_chain m (S @ H @ T') e" using D by (auto simp: rl_chain_append)
  have hs: "vcn (hd S) = m" "rlen (hd S) > 0" using m(2) S by (cases S; simp)+
  show nd: "\<not> rl_insert_disc A S"
    using m(1) hs x rl_chain_last [OF m(1)] by (auto simp: rl_insert_disc_def)
  define left where "left = rl_merge_left A S"
  define A1 where "A1 = (if left then rl_join_last A (hd S) else A)"
  define S2 where "S2 = (if left then tl S else S)"
  have j2: "rl_chain x (A1 @ S2 @ H @ T') e" "rl_at (A1 @ S2 @ H @ T') = rl_at (A @ S @ H @ T')"
    using rl_chain_join_left [of A S x "H @ T'" e] S D by (auto simp: A1_def S2_def left_def)
  then obtain k where k: "rl_chain x (A1 @ S2) k" "rl_chain k (H @ T') e"
    by (metis append.assoc rl_chain_append)
  have "A1 @ S2 \<noteq> []" using S by (auto simp: A1_def S2_def)
  then have l: "vcn (last (A1 @ S2)) + rlen (last (A1 @ S2)) = k" using rl_chain_last [OF k(1)] by simp
  have "k = b" using k(2) H by simp
  then have "rl_insert_mark (last (A1 @ S2)) h (T' @ [t]) # T' = H @ T'"
    using l h H by (auto simp: rl_insert_mark_def hole_elt_def Let_def)
  then have "rl_insert_spec A h (T' @ [t]) S = (A1 @ S2 @ H @ T') @ [t]"
    using nd by (simp add: rl_insert_spec_def Let_def left_def [symmetric] A1_def S2_def)
  with j2 show "\<exists>D'. rl_insert_spec A h (T' @ [t]) S = D' @ [t] \<and> rl_chain x D' e \<and> rl_at D' = rl_at (A @ S @ H @ T')"
    by blast
qed

lemma split_spec_fill:
  assumes "b = vcn (last S) + rlen (last S)" "a = vcn (hd S)"
  shows "rl_split_spec A h (T' @ [t]) S =
    (A @ [h\<lparr>rlen := a - vcn h\<rparr>] @ S @ [h\<lparr>vcn := b, rlen := vcn (hd (T' @ [t])) - b\<rparr>] @ T') @ [t]"
  using assms by (simp add: rl_split_spec_def Let_def)

section \<open>The scans and the dispatch of the merge\<close>

lemma rl_scan_app:
  assumes "list_all (\<lambda>r. rlen r \<noteq> 0 \<and> P r) X" "\<not> (rlen y \<noteq> 0 \<and> P y)"
  shows "rl_scan P (Q @ X @ y # Z) (int (length Q)) = Ok (int (length Q + length X))"
  using assms
proof (induction X arbitrary: Q)
  case Nil
  then show ?case by (subst rl_scan.simps) auto
next
  case (Cons r X)
  then show ?case
    using Cons.IH [of "Q @ [r]"] by (subst rl_scan.simps) (simp add: add.commute)
qed

lemma rl_scan_0:
  assumes "list_all (\<lambda>r. rlen r \<noteq> 0 \<and> P r) X" "\<not> (rlen y \<noteq> 0 \<and> P y)"
  shows "rl_scan P (X @ y # Z) 0 = Ok (int (length X))"
  using rl_scan_app [OF assms, of "[]" Z] by simp

lemma rl_scan_back_stop:
  "xs = A @ x # B \<Longrightarrow> i = int (length A) \<Longrightarrow> lcn x \<ge> LCN_HOLE \<Longrightarrow> rl_scan_back xs i = Ok i"
  by (subst rl_scan_back.simps) simp

lemma rl_scan_back_step:
  "xs = A @ x # B \<Longrightarrow> i = int (length A) \<Longrightarrow> lcn x < LCN_HOLE \<Longrightarrow> rl_scan_back xs i = rl_scan_back xs (i - 1)"
  by (subst rl_scan_back.simps) simp

lemma rl_scan_back_last:
  assumes "S \<noteq> []" "lcn (last S) \<ge> LCN_HOLE" "lcn t < LCN_HOLE" "i = int (length U + length S)"
  shows "rl_scan_back (U @ S @ t # Z) i = Ok (i - 1)"
proof -
  have "rl_scan_back (U @ S @ t # Z) i = rl_scan_back (U @ S @ t # Z) (i - 1)"
    by (rule rl_scan_back_step [of _ "U @ S" t Z]) (use assms in simp_all)
  also have "\<dots> = Ok (i - 1)"
    by (rule rl_scan_back_stop [of _ "U @ butlast S" "last S" "t # Z"])
      (use assms in \<open>simp_all add: of_nat_diff Suc_leI\<close>)
  finally show ?thesis .
qed

lemma rl_chain_rlen: "rl_chain a R b \<Longrightarrow> list_all (\<lambda>r. rlen r \<noteq> 0) R"
  by (induction R arbitrary: a) auto

lemma rl_chain_before: "rl_chain a R b \<Longrightarrow> b \<le> c \<Longrightarrow> list_all (\<lambda>r. rlen r \<noteq> 0 \<and> \<not> vcn r + rlen r > c) R"
  by (induction R arbitrary: a) (auto dest: rl_chain_le)

text \<open>A source runlist as the merge expects it: unmapped elements \<open>U\<close>, then runs and holes \<open>S\<close>
  covering \<open>a\<close> to \<open>b\<close>, then the end marker \<open>ts\<close>.\<close>

definition rl_source :: "runlist \<Rightarrow> runlist \<Rightarrow> runlist_element \<Rightarrow> int \<Rightarrow> int \<Rightarrow> bool" where
  "rl_source U S ts a b \<longleftrightarrow>
     list_all (\<lambda>r. rlen r \<noteq> 0 \<and> lcn r < LCN_HOLE) U \<and> S \<noteq> [] \<and> rl_chain a S b \<and>
     list_all (\<lambda>r. lcn r \<ge> LCN_HOLE) S \<and> rl_term ts b"

lemma merge_dispatch:
  assumes src: "rl_source U S ts a b" and srl: "srl = U @ S @ ts # Z"
    and drl: "drl = A @ d # T" and A: "rl_chain x A m" "m \<le> a"
    and d: "rlen d = 0 \<or> vcn d + rlen d > a" "lcn d < 0"
    and dend: "rl_scan (\<lambda>_. True) drl (int (length A)) = Ok dend"
  shows "ntfs_runlists_merge H (Some drl) (Some srl) =
    obind (rl_merge_splice H drl srl (lcn ts = LCN_ENOENT) (int (length U)) (int (length U + length S))
      (int (length U + length S) - 1) (int (length A)) dend)
      (\<lambda>drl. if lcn ts = LCN_ENOENT then obind (rl_merge_marker H drl dend (vcn ts)) (\<lambda>r. Ok (Some r))
         else Ok (Some drl))"
proof -
  have S: "S \<noteq> []" "rl_chain a S b" "list_all (\<lambda>r. lcn r \<ge> LCN_HOLE) S" "rl_term ts b"
    and U: "list_all (\<lambda>r. rlen r \<noteq> 0 \<and> lcn r < LCN_HOLE) U"
    using src by (auto simp: rl_source_def)
  have hs: "vcn (hd S) = a" "lcn (hd S) \<ge> LCN_HOLE" "lcn (last S) \<ge> LCN_HOLE" "rlen (hd S) \<noteq> 0"
    using S by (auto simp: rl_chain_hd list_all_iff dest: rl_chain_rlen)
  have si: "rl_scan (\<lambda>e. lcn e < LCN_HOLE) srl 0 = Ok (int (length U))"
    using rl_scan_0 [OF U, of "hd S" "tl S @ ts # Z"] hs S(1) srl by (cases S) auto
  have s0: "aget srl (int (length U)) = Ok (hd S)"
    using aget_hd [OF S(1), of srl U "ts # Z"] srl by simp
  have di: "rl_scan (\<lambda>e. \<not> vcn e + rlen e > vcn (hd S)) drl 0 = Ok (int (length A))"
    unfolding drl hs(1) using d by (intro rl_scan_0 rl_chain_before [OF A]) auto
  have dd: "aget drl (int (length A)) = Ok d"
    unfolding drl by (simp add: c_arr)
  have "list_all (\<lambda>r. rlen r \<noteq> 0 \<and> True) S" using rl_chain_rlen [OF S(2)] by simp
  then have se: "rl_scan (\<lambda>_. True) srl (int (length U)) = Ok (int (length U + length S))"
    unfolding srl using S(4) by (intro rl_scan_app) (auto simp: rl_term_def)
  have st: "aget srl (int (length U + length S)) = Ok ts"
    unfolding srl by (rule agetI [of _ "U @ S" _ Z]) simp_all
  have sf: "rl_scan_back srl (int (length U + length S)) = Ok (int (length U + length S) - 1)"
    unfolding srl using S(4) by (intro rl_scan_back_last [OF S(1) hs(3)]) (auto simp: rl_term_def lcn_defs)
  show ?thesis
    unfolding ntfs_runlists_merge_def ntfs_runlists_merge_i_def
    using si s0 hs(4) di dd d(2) dend se st sf by (simp add: Let_def)
qed

lemma rl_merge_splice_eq:
  assumes src: "rl_source U S ts a b" and srl: "srl = U @ S @ ts # Z" and drl: "drl = A @ d # T"
  shows "rl_merge_splice H drl srl marker (int (length U)) (int (length U + length S))
      (int (length U + length S) - 1) (int (length A)) dend =
    (let start = (lcn d < LCN_RL_NOT_MAPPED \<or> vcn d = a);
         finish0 = (lcn d \<ge> LCN_RL_NOT_MAPPED \<and> vcn d + rlen d \<le> b);
         ss = int (length S) + b2i (finish0 \<and> rlen d = 0);
         finish = (finish0 \<and> \<not> (marker \<and> vcn d + rlen d > vcn (last S)));
         f = (if start then if finish then ntfs_rl_replace else ntfs_rl_insert
              else if finish then ntfs_rl_append else ntfs_rl_split)
     in f H (Some drl) (dend + 1) (Some (S @ ts # Z)) ss (int (length A)))"
proof -
  have S: "S \<noteq> []" "vcn (hd S) = a" "vcn (last S) + rlen (last S) = b"
    using src rl_chain_hd [of a S b] rl_chain_last [of a S b] by (auto simp: rl_source_def)
  have "aget drl (int (length A)) = Ok d" unfolding drl by (simp add: c_arr)
  moreover have "aget srl (int (length U)) = Ok (hd S)"
    using aget_hd [OF S(1), of srl U "ts # Z"] srl by simp
  moreover have "aget srl (int (length U + length S) - 1) = Ok (last S)"
    using aget_last [OF S(1), of srl U "ts # Z"] srl by simp
  moreover have "drop (nat (int (length U))) srl = S @ ts # Z" unfolding srl by simp
  ultimately show ?thesis
    unfolding rl_merge_splice_def using S by (auto simp: Let_def b2i_def)
qed

section \<open>Merging into a hole\<close>

lemma splice_fills:
  assumes ok: "\<And>n. alloc_ok H n" and D: "rl_chain 0 (A @ h # T) e" and t: "rl_term t e"
    and T: "list_all (\<lambda>r. lcn r \<ge> LCN_RL_NOT_MAPPED) T" and h: "hole_elt h"
    and src: "rl_source U S ts a b" and inside: "vcn h \<le> a" "b \<le> vcn h + rlen h"
    and room: "rl_room (A @ h # T @ t # J) dsize" and dsize: "dsize = int (length A + 1 + length (T @ [t]))"
    and f: "f = (if vcn h = a then if vcn h + rlen h = b then ntfs_rl_replace else ntfs_rl_insert
              else if vcn h + rlen h = b then ntfs_rl_append else ntfs_rl_split)"
  shows "\<exists>D' R. f H (Some (A @ h # T @ t # J)) dsize (Some (S @ ts # Z)) (int (length S)) (int (length A))
       = Ok (D' @ t # R) \<and> rl_room (D' @ t # R) (int (length D' + 1)) \<and> rl_chain 0 D' e \<and> rl_fills (A @ h # T) S D'"
proof -
  have S: "S \<noteq> []" "rl_chain a S b" "lcn (last S) \<ge> LCN_HOLE" "vcn (hd S) = a" "b = vcn (last S) + rlen (last S)"
    using src rl_chain_hd [of a S b] rl_chain_last [of a S b] by (auto simp: rl_source_def list_all_iff)
  define H1 where "H1 = (if vcn h = a then [] else [h\<lparr>rlen := a - vcn h\<rparr>])"
  define H2 where "H2 = (if b = vcn h + rlen h then [] else [h\<lparr>vcn := b, rlen := vcn h + rlen h - b\<rparr>])"
  note pieces = fill_pieces [OF D h S(2,1) inside H1_def H2_def]
  have nxt: "vcn (hd (T @ [t])) = vcn h + rlen h"
    using D t by (cases T) (auto simp: rl_chain_append rl_term_def)
  have dst: "A @ h # T @ t # J = A @ h # (T @ [t]) @ J" by simp
  have fin: ?thesis if "f H (Some (A @ h # T @ t # J)) dsize (Some (S @ ts # Z)) (int (length S)) (int (length A)) = Ok (L @ R)"
    "rl_room (L @ R) (int (length L))" "L = D' @ [t]" "rl_chain 0 D' e" "rl_at D' = rl_at (A @ H1 @ S @ H2 @ T)" for L R D'
    using that pieces(2) by (intro exI [of _ D'] exI [of _ R]) (auto simp: rl_fills_def)
  consider (r) "vcn h = a" "vcn h + rlen h = b" | (i) "vcn h = a" "vcn h + rlen h \<noteq> b"
    | (p) "vcn h \<noteq> a" "vcn h + rlen h = b" | (s) "vcn h \<noteq> a" "vcn h + rlen h \<noteq> b" by blast
  then show ?thesis
  proof cases
    case r
    obtain R where R: "ntfs_rl_replace H (Some (A @ h # T @ t # J)) dsize (Some (S @ ts # Z)) (int (length S)) (int (length A)) = Ok (rl_replace_spec A (T @ [t]) S @ R)"
      "rl_room (rl_replace_spec A (T @ [t]) S @ R) (int (length (rl_replace_spec A (T @ [t]) S)))"
      by (rule ntfs_rl_replace_refines [OF ok dst S(1) room refl dsize refl refl])
    obtain D' where "rl_replace_spec A (T @ [t]) S = D' @ [t]" "rl_chain 0 D' e" "rl_at D' = rl_at (A @ S @ T)"
      using replace_spec_fill [of 0 A S T e t] pieces(1) t T S r by (auto simp: H1_def H2_def)
    with R r f fin [of "rl_replace_spec A (T @ [t]) S" R D'] show ?thesis by (simp add: H1_def H2_def)
  next
    case i
    have d: "\<not> rl_insert_disc A S" "\<exists>D'. rl_insert_spec A h (T @ [t]) S = D' @ [t] \<and> rl_chain 0 D' e \<and> rl_at D' = rl_at (A @ S @ H2 @ T)"
      using insert_spec_fill [of 0 A S H2 T e t h b] pieces(1) t h S i nxt by (simp_all add: H1_def H2_def)
    obtain R where R: "ntfs_rl_insert H (Some (A @ h # T @ t # J)) dsize (Some (S @ ts # Z)) (int (length S)) (int (length A)) = Ok (rl_insert_spec A h (T @ [t]) S @ R)"
      "rl_room (rl_insert_spec A h (T @ [t]) S @ R) (int (length (rl_insert_spec A h (T @ [t]) S)))"
      by (rule ntfs_rl_insert_refines [OF ok dst S(1) _ _ room refl dsize refl refl]) (use d(1) in auto)
    from d(2) obtain D' where "rl_insert_spec A h (T @ [t]) S = D' @ [t]" "rl_chain 0 D' e" "rl_at D' = rl_at (A @ S @ H2 @ T)"
      by blast
    with R i f fin [of "rl_insert_spec A h (T @ [t]) S" R D'] show ?thesis by (simp add: H1_def)
  next
    case p
    have "\<exists>D'. rl_append_spec A h (T @ [t]) S = D' @ [t] \<and> rl_chain 0 D' e \<and> rl_at D' = rl_at (A @ H1 @ S @ T)"
      by (rule append_spec_fill) (use pieces(1) t T S p in \<open>simp_all add: H1_def H2_def\<close>)
    then obtain D' where D': "rl_append_spec A h (T @ [t]) S = D' @ [t]" "rl_chain 0 D' e" "rl_at D' = rl_at (A @ H1 @ S @ T)"
      by blast
    have tl: "rl_merge_right S (T @ [t]) \<Longrightarrow> tl (T @ [t]) \<noteq> []"
      using rl_merge_right_term [OF _ t S(3)] by auto
    obtain R where R: "ntfs_rl_append H (Some (A @ h # T @ t # J)) dsize (Some (S @ ts # Z)) (int (length S)) (int (length A)) = Ok (rl_append_spec A h (T @ [t]) S @ R)"
      "rl_room (rl_append_spec A h (T @ [t]) S @ R) (int (length (rl_append_spec A h (T @ [t]) S)))"
      by (rule ntfs_rl_append_refines [OF ok dst _ S(1) tl room refl dsize refl refl]) auto
    with D' p f fin [of "rl_append_spec A h (T @ [t]) S" R D'] show ?thesis by (simp add: H2_def)
  next
    case s
    obtain R where R: "ntfs_rl_split H (Some (A @ h # T @ t # J)) dsize (Some (S @ ts # Z)) (int (length S)) (int (length A)) = Ok (rl_split_spec A h (T @ [t]) S @ R)"
      "rl_room (rl_split_spec A h (T @ [t]) S @ R) (int (length (rl_split_spec A h (T @ [t]) S)))"
      by (rule ntfs_rl_split_refines [OF ok dst S(1) _ room refl dsize refl refl]) auto
    moreover have "rl_split_spec A h (T @ [t]) S = (A @ H1 @ S @ H2 @ T) @ [t]"
      using split_spec_fill [OF S(5) S(4) [symmetric]] s nxt by (simp add: H1_def H2_def)
    ultimately show ?thesis using s f pieces(1) by (intro fin) simp_all
  qed
qed

lemma merge_fill_hole:
  assumes ok: "\<And>n. alloc_ok H n" and D: "rl_chain 0 (A @ h # T) e" and t: "rl_term t e"
    and T: "list_all (\<lambda>r. lcn r \<ge> LCN_RL_NOT_MAPPED) T" and h: "hole_elt h"
    and src: "rl_source U S ts a b" and ts: "lcn ts = LCN_RL_NOT_MAPPED"
    and inside: "vcn h \<le> a" "b \<le> vcn h + rlen h"
    and room: "rl_room (A @ h # T @ t # J) (int (length (A @ h # T)) + 1)"
  shows "\<exists>D' R. ntfs_runlists_merge H (Some (A @ h # T @ t # J)) (Some (U @ S @ ts # Z)) = Ok (Some (D' @ t # R)) \<and>
     rl_room (D' @ t # R) (int (length D') + 1) \<and> rl_chain 0 D' e \<and> rl_fills (A @ h # T) S D'"
proof -
  let ?drl = "A @ h # T @ t # J" and ?srl = "U @ S @ ts # Z"
  obtain m where m: "rl_chain 0 A m" "vcn h = m" "rlen h > 0" "rl_chain (m + rlen h) T e"
    using D by (auto simp: rl_chain_append)
  have ab: "a < b" using src rl_chain_hd [of a S b] by (auto simp: rl_source_def)
  have hl: "lcn h < 0" "lcn h \<ge> LCN_RL_NOT_MAPPED" using h by (auto simp: hole_elt_def lcn_defs)
  have dend: "rl_scan (\<lambda>_. True) ?drl (int (length A)) = Ok (int (length A + 1 + length T))"
    using rl_scan_app [of "\<lambda>_. True" "h # T" t A J] rl_chain_rlen [OF m(4)] m(3) t by (simp add: rl_term_def)
  have 1: "ntfs_runlists_merge H (Some ?drl) (Some ?srl) =
      obind (rl_merge_splice H ?drl ?srl False (int (length U)) (int (length U + length S))
        (int (length U + length S) - 1) (int (length A)) (int (length A + 1 + length T))) (\<lambda>r. Ok (Some r))"
    using merge_dispatch [OF src refl refl m(1) _ _ _ dend] m inside ab hl ts by (simp add: lcn_defs)
  let ?f = "(if vcn h = a then if vcn h + rlen h = b then ntfs_rl_replace else ntfs_rl_insert
              else if vcn h + rlen h = b then ntfs_rl_append else ntfs_rl_split)"
  have 2: "rl_merge_splice H ?drl ?srl False (int (length U)) (int (length U + length S))
        (int (length U + length S) - 1) (int (length A)) (int (length A + 1 + length T)) =
      ?f H (Some ?drl) (int (length A + 1 + length (T @ [t]))) (Some (S @ ts # Z)) (int (length S)) (int (length A))"
    using rl_merge_splice_eq [OF src refl refl, where H = H and A = A and d = h and T = "T @ t # J" and marker = False] m inside hl by (simp add: Let_def add.commute)
  obtain D' R where "?f H (Some ?drl) (int (length A + 1 + length (T @ [t]))) (Some (S @ ts # Z)) (int (length S)) (int (length A)) = Ok (D' @ t # R)"
    "rl_room (D' @ t # R) (int (length D' + 1))" "rl_chain 0 D' e" "rl_fills (A @ h # T) S D'"
    using splice_fills [OF ok D t T h src inside _ refl refl, where J = J and Z = Z] room by (auto simp: add.commute)
  then show ?thesis using 1 2 by (intro exI [of _ D'] exI [of _ R]) (simp add: add.commute)
qed

section \<open>Mapping the extents of an attribute in turn\<close>

lemma rl_chain_find:
  assumes "rl_chain a R e" "a \<le> v" "v < e"
  obtains X r Y where "R = X @ r # Y" "vcn r \<le> v" "v < vcn r + rlen r" "rl_chain a X (vcn r)" "rl_chain (vcn r + rlen r) Y e"
proof -
  have "\<exists>X r Y. R = X @ r # Y \<and> vcn r \<le> v \<and> v < vcn r + rlen r \<and> rl_chain a X (vcn r) \<and> rl_chain (vcn r + rlen r) Y e"
    using assms
  proof (induction R arbitrary: a)
    case (Cons r R)
    show ?case
    proof (cases "v < a + rlen r")
      case True
      then show ?thesis using Cons.prems by (intro exI [of _ "[]"]) auto
    next
      case False
      then obtain X r' Y where "R = X @ r' # Y" "vcn r' \<le> v" "v < vcn r' + rlen r'" "rl_chain (a + rlen r) X (vcn r')" "rl_chain (vcn r' + rlen r') Y e"
        using Cons.IH [of "a + rlen r"] Cons.prems by auto
      then show ?thesis using Cons.prems by (intro exI [of _ "r # X"]) auto
    qed
  qed simp
  then show ?thesis using that by blast
qed

lemma replace_spec_next:
  assumes D: "rl_chain 0 D e" and S: "S \<noteq> []" "rl_chain e S b"
  shows "\<exists>D'. rl_replace_spec D [] (S @ [ts]) = D' @ [ts] \<and> rl_chain 0 D' b \<and> rl_at D' = rl_at (D @ S) \<and> length D \<le> length D'"
proof (cases "rl_merge_left D (S @ [ts])")
  case True
  then have l: "rl_merge_left D S" using S(1) by (simp add: rl_merge_left_def)
  have "rl_chain 0 (D @ S @ []) b" using D S(2) by (auto simp: rl_chain_append)
  from rl_chain_join_left [OF l S(1) this] show ?thesis
    using True S(1) rl_merge_left_def [of D S] l
    by (intro exI [of _ "rl_join_last D (hd S) @ tl S"])
      (simp add: rl_replace_spec_def rl_merge_right_def Let_def)
next
  case False
  then show ?thesis
    using D S(2) by (intro exI [of _ "D @ S"]) (auto simp: rl_replace_spec_def rl_merge_right_def Let_def rl_chain_append)
qed

lemma rl_merge_marker_id:
  assumes "rl_chain 0 D' b" "rl_term t b" "lcn t = LCN_ENOENT" "n \<le> length D'"
  shows "rl_merge_marker H (D' @ t # R) (int n) b = Ok (D' @ t # R)"
proof -
  let ?X = "take n D'" and ?Y = "drop n D'"
  have "list_all (\<lambda>r. rlen r \<noteq> 0 \<and> True) ?Y"
    using rl_chain_rlen [OF assms(1)] by (auto simp: list_all_iff dest: in_set_dropD)
  then have "rl_scan (\<lambda>_. True) (?X @ ?Y @ t # R) (int (length ?X)) = Ok (int (length ?X + length ?Y))"
    by (rule rl_scan_app) (use assms(2) in \<open>simp add: rl_term_def\<close>)
  then have "rl_scan (\<lambda>_. True) (D' @ t # R) (int n) = Ok (int (length D'))"
    using assms(4) by (simp add: of_nat_diff min.absorb2 flip: append_assoc)
  moreover have "t\<lparr>lcn := LCN_ENOENT\<rparr> = t" using assms(3) by (cases t) simp
  ultimately show ?thesis
    using assms(2) unfolding rl_merge_marker_def by (simp add: c_arr rl_term_def)
qed

lemma merge_next_extent:
  assumes ok: "\<And>n. alloc_ok H n" and D: "rl_chain 0 D e" and t: "rl_term t e" "lcn t = LCN_RL_NOT_MAPPED"
    and src: "rl_source U S ts e b" and room: "rl_room (D @ t # J) (int (length D) + 1)"
  shows "\<exists>D' R. ntfs_runlists_merge H (Some (D @ t # J)) (Some (U @ S @ ts # Z)) = Ok (Some (D' @ ts # R)) \<and>
     rl_room (D' @ ts # R) (int (length D') + 1) \<and> rl_chain 0 D' b \<and> rl_at D' = rl_at (D @ S)"
proof -
  let ?drl = "D @ t # J" and ?srl = "U @ S @ ts # Z"
  have S: "S \<noteq> []" "rl_chain e S b" "rl_term ts b" using src by (auto simp: rl_source_def)
  have eb: "e < b" using rl_chain_hd [OF S(2,1)] by simp
  have dend: "rl_scan (\<lambda>_. True) ?drl (int (length D)) = Ok (int (length D))"
    using rl_scan_app [of "\<lambda>_. True" "[]" t D J] t by (simp add: rl_term_def)
  note 1 = merge_dispatch [OF src refl refl D order_refl _ _ dend, where Z = Z and H = H]
  obtain R where R: "ntfs_rl_replace H (Some ?drl) (int (length D) + 1) (Some (S @ ts # Z)) (int (length S) + 1) (int (length D))
      = Ok (rl_replace_spec D [] (S @ [ts]) @ R)"
     "rl_room (rl_replace_spec D [] (S @ [ts]) @ R) (int (length (rl_replace_spec D [] (S @ [ts]))))"
    by (rule ntfs_rl_replace_refines [where H = H and dst = ?drl and A = D and h = t and T = "[]" and J = J and S = "S @ [ts]"
        and src = "S @ ts # Z" and Z = Z and dsize = "int (length D) + 1" and ssize = "int (length S) + 1" and loc = "int (length D)"])
      (use ok room in simp_all)
  obtain D' where D': "rl_replace_spec D [] (S @ [ts]) = D' @ [ts]" "rl_chain 0 D' b" "rl_at D' = rl_at (D @ S)" "length D \<le> length D'"
    using replace_spec_next [OF D S(1,2)] by blast
  have "e \<le> vcn (last S)"
  proof -
    have "rl_chain e (butlast S) (vcn (last S))"
      using S(1,2) by (cases S rule: rev_cases) (auto simp: rl_chain_append)
    then show ?thesis by (rule rl_chain_le)
  qed
  then have "rl_merge_splice H ?drl ?srl (lcn ts = LCN_ENOENT) (int (length U)) (int (length U + length S))
        (int (length U + length S) - 1) (int (length D)) (int (length D)) = Ok (D' @ ts # R)"
    using rl_merge_splice_eq [OF src refl refl, where H = H and A = D and d = t and T = J and marker = "lcn ts = LCN_ENOENT"]
      t eb R(1) D'(1) by (simp add: Let_def rl_term_def lcn_defs)
  then have "ntfs_runlists_merge H (Some ?drl) (Some ?srl) = Ok (Some (D' @ ts # R))"
    using 1 t S(3) rl_merge_marker_id [OF D'(2) S(3) _ D'(4), of H R] by (simp add: rl_term_def lcn_defs)
  then show ?thesis using R(2) D' by - (rule exI [of _ D'], rule exI [of _ R], simp add: add.commute)
qed

lemma merge_first_extent:
  assumes ok: "\<And>n. alloc_ok H n" and S: "rl_chain a S b" "S \<noteq> []" "0 \<le> a" and t: "rl_term t b"
    and room: "rl_room (S @ t # J) (int (length S) + 1)"
  shows "\<exists>D' R. ntfs_runlists_merge H None (Some (S @ t # J)) = Ok (Some (D' @ t # R)) \<and>
     rl_room (D' @ t # R) (int (length D') + 1) \<and> rl_chain 0 D' b \<and>
     (\<forall>v. rl_at D' v = (if 0 \<le> v \<and> v < a then Some LCN_RL_NOT_MAPPED else rl_at S v))"
proof -
  have e0: "aget (S @ t # J) 0 = Ok (hd S)" "vcn (hd S) = a"
    using aget_hd [OF S(2), of _ "[]" "t # J" 0] rl_chain_hd [OF S(1,2)] by simp_all
  show ?thesis
  proof (cases "a = 0")
    case True
    then show ?thesis
      using e0 S room by - (rule exI [of _ S], rule exI [of _ J],
        auto simp add: ntfs_runlists_merge_def ntfs_runlists_merge_i_def rl_first_mapping_def)
  next
    case False
    let ?g = "\<lparr>vcn = 0, lcn = LCN_RL_NOT_MAPPED, rlen = a\<rparr>"
    let ?n = "int (length S) + 1"
    have sc: "rl_scan (\<lambda>_. True) (S @ t # J) 0 = Ok (int (length S))"
      using rl_chain_rlen [OF S(1)] t by (intro rl_scan_0) (auto simp: rl_term_def)
    obtain J1 where J1: "ntfs_rl_realloc H (S @ t # J) ?n (?n + 1) = Ok (S @ t # J1)"
      "rl_room (S @ t # J1) (?n + 1)" "?n + 1 \<le> int (length S + 1 + length J1)"
      by (rule realloc_grow [of H "S @ [t]" ?n "?n + 1" J]) (use ok room in auto)
    then obtain j J2 where j: "J1 = j # J2" by (cases J1) auto
    have mm: "ntfs_rl_mm (S @ t # J1) 1 0 ?n = Ok (hd S # S @ t # J2)"
    proof -
      have "nat (int (length S)) = length S" "Suc (length S) = nat ?n" by simp_all
      then show ?thesis using j S(2) by (cases S) (simp_all add: ntfs_rl_mm_def acopy_def nat_add_distrib eval_nat_numeral)
    qed
    have "aget (hd S # S @ t # J2) 1 = Ok (hd S)"
      using aget_hd [OF S(2), of _ "[hd S]" "t # J2" 1] by simp
    then have "rl_first_mapping H (S @ t # J) = Ok ((?g # S) @ t # J2)"
      using e0 False sc J1(1) mm rl_upd_app [of 0 "[]" "hd S" "S @ t # J2"]
      by (simp add: rl_first_mapping_def add.assoc)
    moreover have "rl_room ((?g # S) @ t # J2) (int (length (?g # S)) + 1)"
      by (rule rl_room_cong [OF J1(2)]) (simp_all add: j)
    moreover have "rl_chain 0 (?g # S) b" using S False by simp
    moreover have "rl_at (?g # S) v = (if 0 \<le> v \<and> v < a then Some LCN_RL_NOT_MAPPED else rl_at S v)" for v
      by (simp add: lcn_defs)
    ultimately show ?thesis
      by - (rule exI [of _ "?g # S"], rule exI [of _ J2],
        simp add: ntfs_runlists_merge_def ntfs_runlists_merge_i_def)
  qed
qed

section \<open>Truncation\<close>

lemma rl_seek_app:
  assumes "rl_chain (vcn r + rlen r) Y e" "rl_term t e" "rl_chain c X (vcn r)" "vcn r \<le> v" "v < vcn r + rlen r"
  shows "rl_seek (Q @ X @ r # Y @ t # J) v (int (length Q)) = Ok (int (length Q + length X))"
  using assms(3)
proof (induction X arbitrary: Q c)
  case Nil
  have "aget (Q @ r # Y @ t # J) (int (length Q) + 1) = Ok (hd (Y @ [t]))"
    using aget_hd [of "Y @ [t]" _ "Q @ [r]" J "int (length Q) + 1"] by simp
  moreover have "vcn (hd (Y @ [t])) = vcn r + rlen r" using assms(1,2) by (cases Y) (auto simp: rl_term_def)
  ultimately show ?case using assms(4,5) by (subst rl_seek.simps) simp
next
  case (Cons x X)
  have n: "aget (Q @ x # X @ r # Y @ t # J) (int (length Q) + 1) = Ok (hd (X @ [r]))"
    using aget_hd [of "X @ [r]" _ "Q @ [x]" "Y @ t # J" "int (length Q) + 1"] by simp
  have "vcn (hd (X @ [r])) \<le> v" using Cons.prems assms(4) rl_chain_le by (cases X) force+
  then show ?case
    using Cons.prems n Cons.IH [of "c + rlen x" "Q @ [x]"] by (subst rl_seek.simps) (simp add: add.commute)
qed

lemma truncate_keeps_prefix:
  assumes D: "rl_chain a D e" and t: "rl_term t e" and v: "a \<le> v" "v < e"
  shows "\<exists>D' t' R. ntfs_rl_truncate (Some (D @ t # J)) v = Ok (D' @ t' # R) \<and> length (D' @ t' # R) = length (D @ t # J) \<and>
     rl_chain a D' v \<and> rl_term t' v \<and> lcn t' = LCN_ENOENT \<and> (\<forall>w. rl_at D' w = (if w < v then rl_at D w else None))"
proof -
  obtain X r Y where D': "D = X @ r # Y" "vcn r \<le> v" "v < vcn r + rlen r" "rl_chain a X (vcn r)" "rl_chain (vcn r + rlen r) Y e"
    using rl_chain_find [OF D v] by blast
  let ?r = "r\<lparr>rlen := v - vcn r\<rparr>"
  have "aget (D @ t # J) 0 = Ok (hd (D @ [t]))" using aget_hd [of "D @ [t]" _ "[]" J 0] by simp
  moreover have "vcn (hd (D @ [t])) = a" using D t by (cases D) (auto simp: rl_term_def)
  moreover have "rl_seek (D @ t # J) v 0 = Ok (int (length X))"
    using rl_seek_app [OF D'(5) t D'(4,2,3), of "[]" J] D'(1) by simp
  moreover have "aget (D @ t # J) (int (length X)) = Ok r" "\<And>y. aset (D @ t # J) (int (length X)) y = Ok (X @ y # Y @ t # J)"
    using D'(1) by (simp_all add: c_arr)
  ultimately have tr: "ntfs_rl_truncate (Some (D @ t # J)) v =
      (if v - vcn r \<noteq> 0 then rl_upd (X @ ?r # Y @ t # J) (int (length X) + 1) (\<lambda>n. n\<lparr>vcn := v, rlen := 0, lcn := LCN_ENOENT\<rparr>)
       else rl_upd (X @ ?r # Y @ t # J) (int (length X)) (\<lambda>n. n\<lparr>lcn := LCN_ENOENT\<rparr>))"
    using D'(2,3) v by (simp add: ntfs_rl_truncate_def)
  have bX: "rl_at X w = None \<longleftrightarrow> w < a \<or> vcn r \<le> w" and bY: "rl_at Y w = None \<longleftrightarrow> w < vcn r + rlen r \<or> e \<le> w" for w
    using rl_at_None_iff [OF D'(4)] rl_at_None_iff [OF D'(5)] by blast+
  show ?thesis
  proof (cases "v = vcn r")
    case True
    then have "ntfs_rl_truncate (Some (D @ t # J)) v = Ok (X @ ?r\<lparr>lcn := LCN_ENOENT\<rparr> # Y @ t # J)"
      using tr by (simp add: c_arr)
    moreover have "rl_at X w = (if w < v then rl_at D w else None)" for w
      using True D'(1) bX [of w] bY [of w] v D'(3) by (auto simp: rl_at_append split: option.splits)
    ultimately show ?thesis
      using True D'(1,4) by - (rule exI [of _ X], rule exI [of _ "?r\<lparr>lcn := LCN_ENOENT\<rparr>"], rule exI [of _ "Y @ t # J"],
        simp add: rl_term_def)
  next
    case False
    let ?t = "(hd (Y @ [t]))\<lparr>vcn := v, rlen := 0, lcn := LCN_ENOENT\<rparr>"
    have c: "Y @ t # J = hd (Y @ [t]) # tl (Y @ [t]) @ J" by (cases Y) simp_all
    have "ntfs_rl_truncate (Some (D @ t # J)) v = Ok ((X @ [?r]) @ ?t # tl (Y @ [t]) @ J)"
      using tr False rl_upd_app [of "int (length X) + 1" "X @ [?r]" "hd (Y @ [t])" "tl (Y @ [t]) @ J"] unfolding c by simp
    moreover have "rl_chain a (X @ [?r]) v" using D'(2,4) False by (auto simp: rl_chain_append)
    moreover have "rl_at (X @ [?r]) w = (if w < v then rl_at D w else None)" for w
      using D' bX [of w] bY [of w] v False by (auto simp: rl_at_append split: option.splits)
    moreover have "length ((X @ [?r]) @ ?t # tl (Y @ [t]) @ J) = length (D @ t # J)"
      using D'(1) by (cases Y) simp_all
    ultimately show ?thesis
      by - (rule exI [of _ "X @ [?r]"], rule exI [of _ ?t], rule exI [of _ "tl (Y @ [t]) @ J"], simp add: rl_term_def)
  qed
qed

end
