(* ===== verification/Runlist_Props.thy ===== *)
theory Runlist_Props
  imports Runlist_Merge
begin

text \<open>
  The properties of the runlist component, stated on what callers observe: the answers of
  \<^verbatim>\<open>ntfs_rl_vcn_to_lcn\<close> before and after \<^verbatim>\<open>ntfs_runlists_merge\<close> and
  \<^verbatim>\<open>ntfs_rl_truncate\<close>.
\<close>

section \<open>Properties\<close>

lemma rl_at_snd:
  assumes "rl_chain u U a" "a \<le> v"
  shows "rl_at (U @ S) v = rl_at S v"
  using rl_at_None_iff [OF assms(1), of v] assms(2) by (simp add: rl_at_append)

lemma rl_at_fst:
  assumes "rl_chain e S b" "v < e"
  shows "rl_at (D @ S) v = rl_at D v"
  using rl_at_None_iff [OF assms(1), of v] assms(2) by (simp add: rl_at_append split: option.splits)

lemma lookup_in_source:
  assumes "rl_source U S ts a b" "rl_chain u U a" "0 \<le> u" "a \<le> v" "v < b"
  shows "ntfs_rl_vcn_to_lcn (Some (U @ S @ ts # Z)) v = Ok (the (rl_at S v))" "rl_at S v \<noteq> None"
proof -
  have c: "rl_chain u (U @ S) b" "rl_term ts b" "rl_chain a S b" using assms by (auto simp: rl_source_def rl_chain_append)
  show n: "rl_at S v \<noteq> None" using rl_at_None_iff [OF c(3)] assms by auto
  then show "ntfs_rl_vcn_to_lcn (Some (U @ S @ ts # Z)) v = Ok (the (rl_at S v))"
    using ntfs_rl_vcn_to_lcn_eq [OF c(1,2), of Z v] rl_at_snd [OF assms(2,4), of S] rl_chain_le [OF assms(2)] assms
    by (auto split: option.splits)
qed

text \<open>Concrete data for the witnesses: an allocator that never fails and a block with spare room.\<close>

definition ex_heap :: "runlist_element heap" where
  "ex_heap = \<lparr>alloc_ok = \<lambda>_. True, alloc_junk = \<lparr>vcn = 7, lcn = 7, rlen = 7\<rparr>\<rparr>"

definition ex_spare :: runlist where
  "ex_spare = replicate 200 \<lparr>vcn = 9, lcn = 9, rlen = 9\<rparr>"

definition rle :: "int \<Rightarrow> int \<Rightarrow> int \<Rightarrow> runlist_element" where
  "rle v l n = \<lparr>vcn = v, lcn = l, rlen = n\<rparr>"

lemma ex_room: "length X < 100 \<Longrightarrow> rl_room (X @ ex_spare) (int (length X))"
proof -
  assume "length X < 100"
  then have "rl_blocks (int (length X)) \<le> rl_blocks 100" by (intro rl_blocks_mono) simp
  then have "rl_blocks (int (length X)) div rle_size \<le> rl_blocks 100 div rle_size"
    by (simp add: rle_size_def zdiv_mono1)
  also have "\<dots> \<le> int (length (X @ ex_spare))" by (simp add: rl_blocks_eq rle_size_def ex_spare_def)
  finally show ?thesis by (simp add: rl_room_def)
qed

lemmas ex_simps = ex_heap_def rle_def rl_term_def hole_elt_def rl_source_def lcn_defs

text \<open>C1. Merging a mapped source into a hole or an unmapped run of a well-formed runlist
  succeeds, touches no memory outside its blocks, and yields a well-formed runlist whose lookup
  answers as the source inside the merged range and as the old runlist everywhere else.\<close>

theorem merge_into_hole_lookup:
  assumes "\<And>n. alloc_ok H n" "rl_chain 0 (A @ h # T) e" "rl_term t e"
    "list_all (\<lambda>r. lcn r \<ge> LCN_RL_NOT_MAPPED) T" "hole_elt h"
    "rl_source U S ts a b" "rl_chain u U a" "0 \<le> u" "lcn ts = LCN_RL_NOT_MAPPED"
    "vcn h \<le> a" "b \<le> vcn h + rlen h"
    "rl_room (A @ h # T @ t # J) (int (length (A @ h # T)) + 1)"
  shows "\<exists>D' R. ntfs_runlists_merge H (Some (A @ h # T @ t # J)) (Some (U @ S @ ts # Z)) = Ok (Some (D' @ t # R)) \<and>
     rl_room (D' @ t # R) (int (length D') + 1) \<and> rl_chain 0 D' e \<and>
     (\<forall>v. ntfs_rl_vcn_to_lcn (Some (D' @ t # R)) v =
        (if a \<le> v \<and> v < b then ntfs_rl_vcn_to_lcn (Some (U @ S @ ts # Z)) v
         else ntfs_rl_vcn_to_lcn (Some (A @ h # T @ t # J)) v))"
proof -
  obtain D' R where m: "ntfs_runlists_merge H (Some (A @ h # T @ t # J)) (Some (U @ S @ ts # Z)) = Ok (Some (D' @ t # R))"
    "rl_room (D' @ t # R) (int (length D') + 1)" "rl_chain 0 D' e" "rl_fills (A @ h # T) S D'"
    using merge_fill_hole [OF assms(1-6,9-12), of Z] by blast
  have S: "rl_chain a S b" "0 \<le> a" using assms rl_chain_le [OF assms(7)] by (auto simp: rl_source_def)
  have "ntfs_rl_vcn_to_lcn (Some (D' @ t # R)) v =
        (if a \<le> v \<and> v < b then ntfs_rl_vcn_to_lcn (Some (U @ S @ ts # Z)) v
         else ntfs_rl_vcn_to_lcn (Some (A @ h # T @ t # J)) v)" for v
    using ntfs_rl_vcn_to_lcn_eq [OF m(3) assms(3), of R v] ntfs_rl_vcn_to_lcn_eq [OF assms(2,3), of J v]
      lookup_in_source(1) [OF assms(6-8), of v Z] lookup_in_source(2) [OF assms(6-8), of v] m(4) rl_at_None_iff [OF S(1), of v] S(2)
    by (auto simp: rl_fills_def)
  with m show ?thesis by blast
qed

theorem merge_into_hole_lookup_witness:
  "\<exists>D' R. ntfs_runlists_merge ex_heap
      (Some ([rle 0 100 4] @ rle 4 (-1) 8 # [rle 12 50 3] @ rle 15 (-3) 0 # ex_spare))
      (Some ([rle 0 (-2) 6] @ [rle 6 300 2] @ rle 8 (-2) 0 # [])) = Ok (Some (D' @ rle 15 (-3) 0 # R)) \<and>
     rl_chain 0 D' 15 \<and> ntfs_rl_vcn_to_lcn (Some (D' @ rle 15 (-3) 0 # R)) 7 =
     ntfs_rl_vcn_to_lcn (Some ([rle 0 (-2) 6] @ [rle 6 300 2] @ rle 8 (-2) 0 # [])) 7"
proof -
  note w = merge_into_hole_lookup [of ex_heap "[rle 0 100 4]" "rle 4 (-1) 8" "[rle 12 50 3]" 15 "rle 15 (-3) 0"
     "[rle 0 (-2) 6]" "[rle 6 300 2]" "rle 8 (-2) 0" 6 8 0 ex_spare "[]"]
  have "rl_room ([rle 0 100 4] @ rle 4 (-1) 8 # [rle 12 50 3] @ rle 15 (-3) 0 # ex_spare)
      (int (length ([rle 0 100 4] @ rle 4 (-1) 8 # [rle 12 50 3])) + 1)"
    using ex_room [of "[rle 0 100 4, rle 4 (-1) 8, rle 12 50 3, rle 15 (-3) 0]"] by simp
  from w [OF _ _ _ _ _ _ _ _ _ _ _ this] show ?thesis
    by (force simp: ex_simps)
qed

lemma lookup_append:
  assumes "rl_chain 0 D e" "rl_chain e S b" "rl_term t e" "rl_term ts b" "rl_chain 0 D' b" "rl_at D' = rl_at (D @ S)"
    "rl_source U S ts e b" "rl_chain u U e" "0 \<le> u"
  shows "ntfs_rl_vcn_to_lcn (Some (D' @ ts # R)) v =
    (if v < e then ntfs_rl_vcn_to_lcn (Some (D @ t # J)) v
     else if v < b then ntfs_rl_vcn_to_lcn (Some (U @ S @ ts # Z)) v else Ok (lcn ts))"
proof -
  have e: "0 \<le> e" "e \<le> b" using rl_chain_le [OF assms(1)] rl_chain_le [OF assms(2)] by simp_all
  have "v < e \<Longrightarrow> rl_at (D @ S) v = rl_at D v" using rl_at_fst [OF assms(2)] .
  moreover have "e \<le> v \<Longrightarrow> rl_at (D @ S) v = rl_at S v" using rl_at_snd [OF assms(1)] .
  ultimately show ?thesis
    using ntfs_rl_vcn_to_lcn_eq [OF assms(5,4), of R v] ntfs_rl_vcn_to_lcn_eq [OF assms(1,3), of J v]
      lookup_in_source(1) [OF assms(7-9), of v Z] lookup_in_source(2) [OF assms(7-9), of v]
      rl_at_None_iff [OF assms(1), of v] rl_at_None_iff [OF assms(2), of v] assms(6) e
    by (auto split: option.splits)
qed

text \<open>C11. Mapping the next extent of an attribute: when the runlist built so far ends with an
  unmapped end marker and the source starts there, the merge succeeds and the result looks up as
  the old runlist below the seam, as the source above it, and ends with the source's end marker.\<close>

theorem merge_next_extent_lookup:
  assumes "\<And>n. alloc_ok H n" "rl_chain 0 D e" "rl_term t e" "lcn t = LCN_RL_NOT_MAPPED"
    "rl_source U S ts e b" "rl_chain u U e" "0 \<le> u" "rl_room (D @ t # J) (int (length D) + 1)"
  shows "\<exists>D' R. ntfs_runlists_merge H (Some (D @ t # J)) (Some (U @ S @ ts # Z)) = Ok (Some (D' @ ts # R)) \<and>
     rl_room (D' @ ts # R) (int (length D') + 1) \<and> rl_chain 0 D' b \<and>
     (\<forall>v. ntfs_rl_vcn_to_lcn (Some (D' @ ts # R)) v =
       (if v < e then ntfs_rl_vcn_to_lcn (Some (D @ t # J)) v
        else if v < b then ntfs_rl_vcn_to_lcn (Some (U @ S @ ts # Z)) v else Ok (lcn ts)))"
proof -
  obtain D' R where m: "ntfs_runlists_merge H (Some (D @ t # J)) (Some (U @ S @ ts # Z)) = Ok (Some (D' @ ts # R))"
    "rl_room (D' @ ts # R) (int (length D') + 1)" "rl_chain 0 D' b" "rl_at D' = rl_at (D @ S)"
    using merge_next_extent [OF assms(1-5,8), of Z] by blast
  have "rl_chain e S b" "rl_term ts b" using assms(5) by (auto simp: rl_source_def)
  then show ?thesis using m lookup_append [OF assms(2) _ assms(3) _ m(3,4) assms(5-7)] by blast
qed

theorem merge_next_extent_lookup_witness:
  "\<exists>D' R. ntfs_runlists_merge ex_heap (Some ([rle 0 100 4] @ rle 4 (-2) 0 # ex_spare))
      (Some ([rle 0 (-2) 4] @ [rle 4 104 2, rle 6 (-1) 3] @ rle 9 (-3) 0 # [])) = Ok (Some (D' @ rle 9 (-3) 0 # R)) \<and>
     rl_chain 0 D' 9 \<and> ntfs_rl_vcn_to_lcn (Some (D' @ rle 9 (-3) 0 # R)) 9 = Ok (-3)"
proof -
  note w = merge_next_extent_lookup [of ex_heap "[rle 0 100 4]" 4 "rle 4 (-2) 0" "[rle 0 (-2) 4]" "[rle 4 104 2, rle 6 (-1) 3]"
     "rle 9 (-3) 0" 9 0 ex_spare "[]"]
  have "rl_room ([rle 0 100 4] @ rle 4 (-2) 0 # ex_spare) (int (length [rle 0 100 4]) + 1)"
    using ex_room [of "[rle 0 100 4, rle 4 (-2) 0]"] by simp
  from w [OF _ _ _ _ _ _ _ this] show ?thesis
    by (force simp: ex_simps)
qed

text \<open>The first extent mapped for an attribute becomes its runlist as it is when it starts at
  cluster 0; otherwise an unmapped element covers the clusters before it, so that lookups there
  answer ``not mapped'' and lookups in the extent are unchanged.\<close>

theorem merge_first_extent_lookup:
  assumes "\<And>n. alloc_ok H n" "rl_chain a S b" "S \<noteq> []" "0 \<le> a" "rl_term t b"
    "rl_room (S @ t # J) (int (length S) + 1)"
  shows "\<exists>D' R. ntfs_runlists_merge H None (Some (S @ t # J)) = Ok (Some (D' @ t # R)) \<and>
     rl_room (D' @ t # R) (int (length D') + 1) \<and> rl_chain 0 D' b \<and>
     (\<forall>v. ntfs_rl_vcn_to_lcn (Some (D' @ t # R)) v =
        (if 0 \<le> v \<and> v < a then Ok LCN_RL_NOT_MAPPED else ntfs_rl_vcn_to_lcn (Some (S @ t # J)) v))"
proof -
  obtain D' R where m: "ntfs_runlists_merge H None (Some (S @ t # J)) = Ok (Some (D' @ t # R))"
    "rl_room (D' @ t # R) (int (length D') + 1)" "rl_chain 0 D' b"
     "\<And>v. rl_at D' v = (if 0 \<le> v \<and> v < a then Some LCN_RL_NOT_MAPPED else rl_at S v)"
    using merge_first_extent [OF assms] by blast
  have "ntfs_rl_vcn_to_lcn (Some (D' @ t # R)) v =
        (if 0 \<le> v \<and> v < a then Ok LCN_RL_NOT_MAPPED else ntfs_rl_vcn_to_lcn (Some (S @ t # J)) v)" for v
    using ntfs_rl_vcn_to_lcn_eq [OF m(3) assms(5), of R v] ntfs_rl_vcn_to_lcn_eq [OF assms(2,5), of J v] m(4) [of v]
      assms(4) by auto
  with m show ?thesis by blast
qed

theorem merge_first_extent_lookup_witness:
  "\<exists>D' R. ntfs_runlists_merge ex_heap None (Some ([rle 5 100 4] @ rle 9 (-2) 0 # ex_spare)) = Ok (Some (D' @ rle 9 (-2) 0 # R)) \<and>
     rl_chain 0 D' 9 \<and> ntfs_rl_vcn_to_lcn (Some (D' @ rle 9 (-2) 0 # R)) 3 = Ok (-2)"
proof -
  have "rl_room ([rle 5 100 4] @ rle 9 (-2) 0 # ex_spare) (int (length [rle 5 100 4]) + 1)"
    using ex_room [of "[rle 5 100 4, rle 9 (-2) 0]"] by simp
  from merge_first_extent_lookup [OF _ _ _ _ _ this, of ex_heap 5 9] show ?thesis
    by (force simp: ex_simps)
qed

text \<open>Truncating a well-formed runlist inside its range keeps the block, ends it at the new
  size with the ``no entry'' marker, keeps every lookup below it and answers ``no entry'' above.\<close>

theorem truncate_lookup:
  assumes "rl_chain 0 D e" "rl_term t e" "0 \<le> n" "n < e"
  shows "\<exists>D' t' R. ntfs_rl_truncate (Some (D @ t # J)) n = Ok (D' @ t' # R) \<and>
     length (D' @ t' # R) = length (D @ t # J) \<and> rl_chain 0 D' n \<and> rl_term t' n \<and>
     (\<forall>v. ntfs_rl_vcn_to_lcn (Some (D' @ t' # R)) v =
        (if v < n then ntfs_rl_vcn_to_lcn (Some (D @ t # J)) v else Ok LCN_ENOENT))"
proof -
  obtain D' t' R where m: "ntfs_rl_truncate (Some (D @ t # J)) n = Ok (D' @ t' # R)"
    "length (D' @ t' # R) = length (D @ t # J)" "rl_chain 0 D' n" "rl_term t' n" "lcn t' = LCN_ENOENT"
    "\<And>w. rl_at D' w = (if w < n then rl_at D w else None)"
    using truncate_keeps_prefix [OF assms, of J] by blast
  have "ntfs_rl_vcn_to_lcn (Some (D' @ t' # R)) v =
        (if v < n then ntfs_rl_vcn_to_lcn (Some (D @ t # J)) v else Ok LCN_ENOENT)" for v
    using ntfs_rl_vcn_to_lcn_eq [OF m(3,4), of R v] ntfs_rl_vcn_to_lcn_eq [OF assms(1,2), of J v] m(5,6)
      rl_at_None_iff [OF assms(1), of v] assms(3,4) by (auto split: option.splits)
  with m show ?thesis by blast
qed

theorem truncate_lookup_witness:
  "\<exists>D' t' R. ntfs_rl_truncate (Some ([rle 0 10 4, rle 4 (-1) 6] @ rle 10 (-3) 0 # [])) 7 = Ok (D' @ t' # R) \<and>
     ntfs_rl_vcn_to_lcn (Some (D' @ t' # R)) 8 = Ok LCN_ENOENT"
  using truncate_lookup [of "[rle 0 10 4, rle 4 (-1) 6]" 10 "rle 10 (-3) 0" 7 "[]"]
  by (force simp: ex_simps)

text \<open>The merge refuses what it cannot place: a source with no mapped run is an invalid
  argument, and a mapped source that starts where the destination is already mapped is a range
  error.\<close>

theorem merge_refusals:
  assumes "rl_term ts b" "list_all (\<lambda>r. rlen r \<noteq> 0 \<and> lcn r < LCN_HOLE) U"
    and a: "rl_chain x A (vcn d)" "0 < rlen d" "0 \<le> lcn d" "vcn s = vcn d" "0 < rlen s" "0 \<le> lcn s"
  shows "ntfs_runlists_merge H (Some drl) (Some (U @ ts # Z)) = Err EINVAL \<and>
     ntfs_runlists_merge H (Some (A @ d # T)) (Some (U @ s # Y)) = Err ERANGE"
proof
  have "rl_scan (\<lambda>e. lcn e < LCN_HOLE) (U @ ts # Z) 0 = Ok (int (length U))"
    using assms by (intro rl_scan_0) (auto simp: rl_term_def)
  then show "ntfs_runlists_merge H (Some drl) (Some (U @ ts # Z)) = Err EINVAL"
    using assms by (simp add: ntfs_runlists_merge_def ntfs_runlists_merge_i_def c_arr rl_term_def)
next
  have "rl_scan (\<lambda>e. lcn e < LCN_HOLE) (U @ s # Y) 0 = Ok (int (length U))"
    using assms(2) a by (intro rl_scan_0) (auto simp: lcn_defs)
  moreover have "rl_scan (\<lambda>e. \<not> vcn e + rlen e > vcn s) (A @ d # T) 0 = Ok (int (length A))"
    using a rl_chain_before [OF a(1), of "vcn s"] by (intro rl_scan_0) auto
  ultimately show "ntfs_runlists_merge H (Some (A @ d # T)) (Some (U @ s # Y)) = Err ERANGE"
    using a by (simp add: ntfs_runlists_merge_def ntfs_runlists_merge_i_def c_arr)
qed

theorem merge_refusals_witness:
  "ntfs_runlists_merge ex_heap (Some [rle 0 5 5]) (Some ([rle 0 (-2) 5] @ rle 5 (-3) 0 # [])) = Err EINVAL \<and>
   ntfs_runlists_merge ex_heap (Some ([rle 0 5 5] @ rle 5 70 3 # [])) (Some ([rle 0 (-2) 5] @ rle 5 80 2 # [])) = Err ERANGE"
  using merge_refusals [of "rle 5 (-3) 0" 5 "[rle 0 (-2) 5]" 0 "[rle 0 5 5]" "rle 5 70 3" "rle 5 80 2" ex_heap "[rle 0 5 5]" "[]" "[]" "[]"]
  by (simp add: ex_simps)

text \<open>The compressed size of a fully mapped runlist is the number of clusters of its real
  runs in bytes, and a runlist is reported sparse exactly when one of its runs is a hole.\<close>

theorem compressed_size_and_sparse:
  assumes "rl_chain a D e" "rl_term t e" "list_all (\<lambda>r. lcn r \<ge> LCN_HOLE) D"
  shows "ntfs_rl_get_compressed_size k (Some (D @ t # J)) = Ok ((\<Sum>r\<leftarrow>filter (\<lambda>r. lcn r \<ge> 0) D. rlen r) * 2 ^ k) \<and>
    ntfs_rl_sparse (Some (D @ t # J)) = Ok (\<exists>r\<in>set D. lcn r = LCN_HOLE)"
proof
  have "rl_csize_from n (D @ t # J) = Ok (n + (\<Sum>r\<leftarrow>filter (\<lambda>r. lcn r \<ge> 0) D. rlen r))" for n
    using assms(1,3) by (induction D arbitrary: n a) (use assms(2) in \<open>auto simp: rl_term_def lcn_defs\<close>)
  then show "ntfs_rl_get_compressed_size k (Some (D @ t # J)) = Ok ((\<Sum>r\<leftarrow>filter (\<lambda>r. lcn r \<ge> 0) D. rlen r) * 2 ^ k)"
    by (simp add: ntfs_rl_get_compressed_size_def push_bit_eq_mult)
  show "ntfs_rl_sparse (Some (D @ t # J)) = Ok (\<exists>r\<in>set D. lcn r = LCN_HOLE)"
    using assms(1,3) unfolding ntfs_rl_sparse_def
    by (induction D arbitrary: a) (use assms(2) in \<open>auto simp: rl_term_def lcn_defs\<close>)
qed

theorem compressed_size_and_sparse_witness:
  "ntfs_rl_get_compressed_size 3 (Some ([rle 0 10 4, rle 4 (-1) 12] @ rle 16 (-3) 0 # [])) = Ok 32 \<and>
   ntfs_rl_sparse (Some ([rle 0 10 4, rle 4 (-1) 12] @ rle 16 (-3) 0 # [])) = Ok True"
  using compressed_size_and_sparse [of 0 "[rle 0 10 4, rle 4 (-1) 12]" 16 "rle 16 (-3) 0" 3 "[]"]
  by (simp add: ex_simps)

end
