(* ===== verification/Mst.thy ===== *)
theory Mst
  imports Ntfs_Prelude
begin

text \<open>
  Multi sector transfer protection, \<^verbatim>\<open>mst.c\<close>: before a record is written, the last 16-bit
  word of each of its 512-byte sectors is saved in the update sequence array and replaced by the
  update sequence number; after a read the words are compared with that number and restored. The
  record is a byte buffer with checked 16-bit accesses.
\<close>

section \<open>Record access\<close>

definition NTFS_BLOCK_SIZE :: nat where "NTFS_BLOCK_SIZE = 512"

definition rd16 :: "u8 list \<Rightarrow> nat \<Rightarrow> u16 outcome" where
  "rd16 b i = (if i + 1 < length b then Ok (le16_at b i) else Fault)"

definition wr16 :: "u8 list \<Rightarrow> nat \<Rightarrow> u16 \<Rightarrow> u8 list outcome" where
  "wr16 b i w = (if i + 1 < length b then Ok (set_le16 b i w) else Fault)"

text \<open>\<^verbatim>\<open>NTFS_RECORD\<close>: the magic in bytes 0 to 3, \<^verbatim>\<open>usa_ofs\<close> at 4, \<^verbatim>\<open>usa_count\<close> at 6.\<close>

definition magic_BAAD :: "u8 list" where "magic_BAAD = [0x42, 0x41, 0x41, 0x44]"
definition magic_HOLE :: "u8 list" where "magic_HOLE = [0x48, 0x4f, 0x4c, 0x45]"

definition rd_magic :: "u8 list \<Rightarrow> u8 list outcome" where
  "rd_magic b = (if 4 \<le> length b then Ok (take 4 b) else Fault)"

definition wr_magic :: "u8 list \<Rightarrow> u8 list \<Rightarrow> u8 list outcome" where
  "wr_magic b m = (if 4 \<le> length b then Ok (m @ drop 4 b) else Fault)"

definition is_valid_record :: "u32 \<Rightarrow> u16 \<Rightarrow> u16 \<Rightarrow> bool" where
  "is_valid_record sz usa_ofs usa_count \<longleftrightarrow>
     unat sz mod NTFS_BLOCK_SIZE = 0 \<and> unat usa_ofs mod 2 = 0 \<and>
     unat usa_count = 1 + unat sz div NTFS_BLOCK_SIZE \<and>
     unat usa_ofs + unat usa_count * 2 \<le> NTFS_BLOCK_SIZE - 2"

section \<open>The loops over the sectors\<close>

text \<open>\<^verbatim>\<open>while (--usa_count)\<close> runs \<^verbatim>\<open>usa_count - 1\<close> times in 16-bit arithmetic. \<open>p\<close> is the
  position of the protected word, \<open>u\<close> the one in the update sequence array.\<close>

fun mst_check :: "u8 list \<Rightarrow> u16 \<Rightarrow> nat \<Rightarrow> nat \<Rightarrow> bool outcome" where
  "mst_check b usn p 0 = Ok True"
| "mst_check b usn p (Suc n) =
     obind (rd16 b p) (\<lambda>d. if d \<noteq> usn then Ok False else mst_check b usn (p + NTFS_BLOCK_SIZE) n)"

fun mst_restore :: "u8 list \<Rightarrow> nat \<Rightarrow> nat \<Rightarrow> nat \<Rightarrow> u8 list outcome" where
  "mst_restore b u p 0 = Ok b"
| "mst_restore b u p (Suc n) =
     obind (rd16 b (u + 2)) (\<lambda>w. obind (wr16 b p w) (\<lambda>b. mst_restore b (u + 2) (p + NTFS_BLOCK_SIZE) n))"

fun mst_protect :: "u8 list \<Rightarrow> u16 \<Rightarrow> nat \<Rightarrow> nat \<Rightarrow> nat \<Rightarrow> u8 list outcome" where
  "mst_protect b usn u p 0 = Ok b"
| "mst_protect b usn u p (Suc n) =
     obind (rd16 b p) (\<lambda>w. obind (wr16 b (u + 2) w) (\<lambda>b.
     obind (wr16 b p usn) (\<lambda>b. mst_protect b usn (u + 2) (p + NTFS_BLOCK_SIZE) n)))"

section \<open>Operations\<close>

text \<open>Each operation gives the buffer and the error number, if any. \<open>warn\<close> only affects
  logging.\<close>

definition ntfs_mst_post_read_fixup_warn :: "u8 list \<Rightarrow> u32 \<Rightarrow> bool \<Rightarrow> (u8 list \<times> errno option) outcome" where
  "ntfs_mst_post_read_fixup_warn b sz warn =
     obind (rd16 b 4) (\<lambda>usa_ofs. obind (rd16 b 6) (\<lambda>usa_count.
     if \<not> is_valid_record sz usa_ofs usa_count then Ok (b, Some EINVAL)
     else let u = unat usa_ofs; p = NTFS_BLOCK_SIZE - 2; n = unat (usa_count - 1) in
          obind (rd16 b u) (\<lambda>usn. obind (mst_check b usn p n) (\<lambda>good.
          if \<not> good then obind (wr_magic b magic_BAAD) (\<lambda>b. Ok (b, Some EIO))
          else obind (mst_restore b u p n) (\<lambda>b. Ok (b, None))))))"

definition ntfs_mst_post_read_fixup :: "u8 list \<Rightarrow> u32 \<Rightarrow> (u8 list \<times> errno option) outcome" where
  "ntfs_mst_post_read_fixup b sz = ntfs_mst_post_read_fixup_warn b sz True"

text \<open>The next update sequence number, never 0 nor \<^verbatim>\<open>0xffff\<close>.\<close>

definition mst_next_usn :: "u16 \<Rightarrow> u16" where
  "mst_next_usn w = (let usn = w + 1 in if usn = 0xffff \<or> usn = 0 then 1 else usn)"

definition ntfs_mst_pre_write_fixup :: "u8 list option \<Rightarrow> u32 \<Rightarrow> (u8 list option \<times> errno option) outcome" where
  "ntfs_mst_pre_write_fixup ob sz =
     (case ob of None \<Rightarrow> Ok (None, Some EINVAL)
      | Some b \<Rightarrow>
     obind (rd_magic b) (\<lambda>m.
     if m = magic_BAAD \<or> m = magic_HOLE then Ok (Some b, Some EINVAL)
     else obind (rd16 b 4) (\<lambda>usa_ofs. obind (rd16 b 6) (\<lambda>usa_count.
     if \<not> is_valid_record sz usa_ofs usa_count then Ok (Some b, Some EINVAL)
     else let u = unat usa_ofs in
          obind (rd16 b u) (\<lambda>w. let usn = mst_next_usn w in
          obind (wr16 b u usn) (\<lambda>b.
          obind (mst_protect b usn u (NTFS_BLOCK_SIZE - 2) (unat (usa_count - 1))) (\<lambda>b.
          Ok (Some b, None))))))))"

definition ntfs_mst_post_write_fixup :: "u8 list \<Rightarrow> u8 list outcome" where
  "ntfs_mst_post_write_fixup b =
     obind (rd16 b 4) (\<lambda>usa_ofs. obind (rd16 b 6) (\<lambda>usa_count.
     mst_restore b (2 * (unat usa_ofs div 2)) (NTFS_BLOCK_SIZE - 2) (unat (usa_count - 1))))"

section \<open>What the loops do\<close>

lemma le16_at_cong: "b ! i = c ! i \<Longrightarrow> b ! (i + 1) = c ! (i + 1) \<Longrightarrow> le16_at b i = le16_at c i"
  by (simp add: le16_at_def)

lemma le16_at_inj:
  assumes "le16_at b i = le16_at c i"
  shows "b ! i = c ! i" "b ! (i + 1) = c ! (i + 1)"
proof -
  have lo: "(ucast (le16_at b i) :: u8) = b ! i" and hi: "(ucast (drop_bit 8 (le16_at b i)) :: u8) = b ! (i + 1)" for b i
    by (rule bit_word_eqI; auto simp: le16_at_def bit_simps dest: bit_imp_le_length)+
  show "b ! i = c ! i" using lo [of b i] lo [of c i] assms by simp
  show "b ! (i + 1) = c ! (i + 1)" using hi [of b i] hi [of c i] assms by simp
qed

text \<open>\<open>mst_tail p n k\<close>: byte \<open>k\<close> belongs to one of the \<open>n\<close> protected words from \<open>p\<close> on.\<close>

definition mst_tail :: "nat \<Rightarrow> nat \<Rightarrow> nat \<Rightarrow> bool" where
  "mst_tail p n k \<longleftrightarrow> (\<exists>i < n. k = p + 512 * i \<or> k = p + 512 * i + 1)"

lemma mst_tail_0 [simp]: "\<not> mst_tail p 0 k"
  by (simp add: mst_tail_def)

lemma mst_tail_Suc: "mst_tail p (Suc n) k \<longleftrightarrow> k = p \<or> k = p + 1 \<or> mst_tail (p + 512) n k"
proof -
  have "(\<exists>i < Suc n. Q i) \<longleftrightarrow> Q 0 \<or> (\<exists>i < n. Q (Suc i))" for Q
    using less_Suc_eq_0_disj by auto
  then show ?thesis unfolding mst_tail_def by (simp add: algebra_simps)
qed

lemma mst_tail_ge: "mst_tail p n k \<Longrightarrow> p \<le> k"
  by (auto simp: mst_tail_def)

definition mst_fits :: "u8 list \<Rightarrow> nat \<Rightarrow> nat \<Rightarrow> nat \<Rightarrow> bool" where
  "mst_fits b u p n \<longleftrightarrow> u + 2 + 2 * n \<le> p \<and> (\<forall>i < n. p + 512 * i + 1 < length b) \<and> u + 1 < length b"

lemma mst_fits_Suc: "mst_fits b u p (Suc n) \<Longrightarrow> length b' = length b \<Longrightarrow>
    p + 1 < length b \<and> u + 3 < length b \<and> u + 4 \<le> p \<and> mst_fits b' (u + 2) (p + 512) n"
proof -
  assume f: "mst_fits b u p (Suc n)" and l: "length b' = length b"
  have "p + 512 * i + 1 < length b" if "i < Suc n" for i using f that by (simp add: mst_fits_def)
  from this [of 0] this [of "Suc i" for i] show ?thesis
    using f l by (auto simp: mst_fits_def algebra_simps)
qed

lemma all_less_Suc: "(\<forall>i < Suc n. Q i) \<longleftrightarrow> Q 0 \<and> (\<forall>i < n. Q (Suc i))"
  using less_Suc_eq_0_disj by auto

lemma mst_step: "u + 2 + 2 * Suc i = u + 4 + 2 * i" "p + 512 * Suc i = p + 512 + 512 * i"
  by simp_all

lemma mst_protect_ok:
  assumes "mst_fits b u p n"
  shows "\<exists>b'. mst_protect b usn u p n = Ok b' \<and> length b' = length b \<and>
    (\<forall>i < n. le16_at b' (u + 2 + 2 * i) = le16_at b (p + 512 * i)) \<and>
    (\<forall>i < n. le16_at b' (p + 512 * i) = usn) \<and>
    (\<forall>k. (k < u + 2 \<or> u + 2 + 2 * n \<le> k) \<and> \<not> mst_tail p n k \<longrightarrow> b' ! k = b ! k)"
  using assms
proof (induction n arbitrary: b u p)
  case (Suc n)
  let ?b1 = "set_le16 b (u + 2) (le16_at b p)"
  let ?b2 = "set_le16 ?b1 p usn"
  have f: "p + 1 < length b" "u + 3 < length b" "u + 4 \<le> p" "mst_fits ?b2 (u + 2) (p + 512) n"
    using mst_fits_Suc [OF Suc.prems, of ?b2] by simp_all
  have up: "u + 4 + 2 * n \<le> p" using Suc.prems by (simp add: mst_fits_def)
  have e: "u + 2 + 2 = u + 4" by simp
  obtain b' where b': "mst_protect ?b2 usn (u + 2) (p + 512) n = Ok b'" "length b' = length ?b2"
    "\<forall>i < n. le16_at b' (u + 4 + 2 * i) = le16_at ?b2 (p + 512 + 512 * i)"
    "\<forall>i < n. le16_at b' (p + 512 + 512 * i) = usn"
    "\<forall>k. (k < u + 4 \<or> u + 4 + 2 * n \<le> k) \<and> \<not> mst_tail (p + 512) n k \<longrightarrow> b' ! k = ?b2 ! k"
    using Suc.IH [OF f(4)] unfolding e by blast
  have keep: "b' ! k = ?b2 ! k" if "k < p + 512" "k < u + 4 \<or> u + 4 + 2 * n \<le> k" for k
    using b'(5) that mst_tail_ge [of "p + 512" n k] by auto
  have far: "le16_at ?b2 (p + 512 + 512 * i) = le16_at b (p + 512 + 512 * i)" for i
    using f(3) by (simp add: le16_at_set_other)
  have 1: "le16_at b' (u + 2) = le16_at b p"
  proof -
    have "le16_at b' (u + 2) = le16_at ?b2 (u + 2)" using keep f(3) by (intro le16_at_cong) simp_all
    also have "\<dots> = le16_at ?b1 (u + 2)" using f(3) by (intro le16_at_set_other) simp
    finally show ?thesis using f(2) by (simp add: le16_at_set_same)
  qed
  have 2: "le16_at b' p = usn"
  proof -
    have "le16_at b' p = le16_at ?b2 p" using keep up by (intro le16_at_cong) simp_all
    then show ?thesis using f(1) by (simp add: le16_at_set_same)
  qed
  have 3: "b' ! k = b ! k" if "k < u + 2 \<or> u + 4 + 2 * n \<le> k" "\<not> mst_tail p (Suc n) k" for k
    using b'(5) that f(3) up by (auto simp: mst_tail_Suc set_le16_nth_other)
  have "mst_protect b usn u p (Suc n) = Ok b'"
    using b'(1) f(1-3) by (simp add: rd16_def wr16_def NTFS_BLOCK_SIZE_def)
  moreover have "\<forall>i < Suc n. le16_at b' (u + 2 + 2 * i) = le16_at b (p + 512 * i)"
    unfolding all_less_Suc mst_step using 1 b'(3) far by simp
  moreover have "\<forall>i < Suc n. le16_at b' (p + 512 * i) = usn"
    unfolding all_less_Suc mst_step using 2 b'(4) by simp
  ultimately show ?case using b'(2) 3 unfolding mst_step by (intro exI [of _ b']) simp
qed simp

lemma mst_restore_ok:
  assumes "mst_fits b u p n"
  shows "\<exists>b'. mst_restore b u p n = Ok b' \<and> length b' = length b \<and>
    (\<forall>i < n. le16_at b' (p + 512 * i) = le16_at b (u + 2 + 2 * i)) \<and>
    (\<forall>k. \<not> mst_tail p n k \<longrightarrow> b' ! k = b ! k)"
  using assms
proof (induction n arbitrary: b u p)
  case (Suc n)
  let ?b1 = "set_le16 b p (le16_at b (u + 2))"
  have f: "p + 1 < length b" "u + 3 < length b" "u + 4 \<le> p" "mst_fits ?b1 (u + 2) (p + 512) n"
    using mst_fits_Suc [OF Suc.prems, of ?b1] by simp_all
  have up: "u + 4 + 2 * n \<le> p" using Suc.prems by (simp add: mst_fits_def)
  have e: "u + 2 + 2 = u + 4" by simp
  obtain b' where b': "mst_restore ?b1 (u + 2) (p + 512) n = Ok b'" "length b' = length ?b1"
    "\<forall>i < n. le16_at b' (p + 512 + 512 * i) = le16_at ?b1 (u + 4 + 2 * i)"
    "\<forall>k. \<not> mst_tail (p + 512) n k \<longrightarrow> b' ! k = ?b1 ! k"
    using Suc.IH [OF f(4)] unfolding e by blast
  have "le16_at b' p = le16_at ?b1 p"
    using b'(4) mst_tail_ge [of "p + 512" n p] mst_tail_ge [of "p + 512" n "p + 1"] by (intro le16_at_cong) auto
  then have 1: "le16_at b' p = le16_at b (u + 2)" using f(1) by (simp add: le16_at_set_same)
  have 2: "le16_at ?b1 (u + 4 + 2 * i) = le16_at b (u + 4 + 2 * i)" if "i < n" for i
    using up that by (intro le16_at_set_other) simp
  have "mst_restore b u p (Suc n) = Ok b'"
    using b'(1) f(1,2) by (simp add: rd16_def wr16_def NTFS_BLOCK_SIZE_def)
  moreover have "\<forall>i < Suc n. le16_at b' (p + 512 * i) = le16_at b (u + 2 + 2 * i)"
    unfolding all_less_Suc mst_step using 1 2 b'(3) by simp
  ultimately show ?case
    using b'(2,4) by (intro exI [of _ b']) (auto simp: mst_tail_Suc set_le16_nth_other)
qed simp

lemma mst_check_eq:
  assumes "\<forall>i < n. p + 512 * i + 1 < length b"
  shows "mst_check b usn p n = Ok (\<forall>i < n. le16_at b (p + 512 * i) = usn)"
  using assms
proof (induction n arbitrary: p)
  case (Suc n)
  have "mst_check b usn (p + 512) n = Ok (\<forall>i < n. le16_at b (p + 512 + 512 * i) = usn)"
    using Suc.prems by (intro Suc.IH) (auto simp: algebra_simps dest: spec [of _ "Suc _"])
  moreover have "p + 1 < length b" using Suc.prems by (auto dest: spec [of _ 0])
  moreover have "(\<forall>i < Suc n. le16_at b (p + 512 * i) = usn) \<longleftrightarrow> le16_at b p = usn \<and> (\<forall>i < n. le16_at b (p + 512 + 512 * i) = usn)"
    unfolding all_less_Suc mst_step by simp
  ultimately show ?case by (simp add: rd16_def NTFS_BLOCK_SIZE_def)
qed simp

section \<open>Properties\<close>

text \<open>A buffer of at least a sector that holds a record of \<open>sz\<close> bytes with a well-placed update
  sequence array.\<close>

definition mst_record :: "u8 list \<Rightarrow> u32 \<Rightarrow> bool" where
  "mst_record b sz \<longleftrightarrow> 512 \<le> length b \<and> unat sz \<le> length b \<and> is_valid_record sz (le16_at b 4) (le16_at b 6)"

lemma mst_record_fits:
  assumes "mst_record b sz"
  shows "unat (le16_at b 6 - 1) = unat sz div 512" "unat (le16_at b 6) = 1 + unat sz div 512"
    "length b' = length b \<Longrightarrow> mst_fits b' (unat (le16_at b 4)) 510 (unat sz div 512)"
    "unat (le16_at b 4) + 2 + 2 * (unat sz div 512) \<le> 510"
proof -
  let ?n = "unat sz div 512"
  have c: "unat (le16_at b 6) = 1 + ?n" "unat (le16_at b 4) + (1 + ?n) * 2 \<le> 510" "?n * 512 = unat sz"
    using assms by (auto simp: mst_record_def is_valid_record_def NTFS_BLOCK_SIZE_def)
  then have "le16_at b 6 \<noteq> 0" by auto
  then show "unat (le16_at b 6 - 1) = ?n" using c(1) by (simp add: unat_minus_one)
  have "510 + 512 * i + 1 < length b" if "i < ?n" for i
  proof -
    have "(i + 1) * 512 \<le> ?n * 512" using that by (intro mult_right_mono) simp_all
    then show ?thesis using c(3) assms by (simp add: mst_record_def)
  qed
  then show "length b' = length b \<Longrightarrow> mst_fits b' (unat (le16_at b 4)) 510 ?n"
    using c(2) assms by (simp add: mst_fits_def mst_record_def)
  show "unat (le16_at b 6) = 1 + ?n" "unat (le16_at b 4) + 2 + 2 * ?n \<le> 510" using c by simp_all
qed

text \<open>What a read of a valid record does.\<close>

lemma post_read_valid:
  assumes r: "mst_record b sz"
  defines "u \<equiv> unat (le16_at b 4)" and "n \<equiv> unat sz div 512"
  shows "(\<forall>i < n. le16_at b (510 + 512 * i) = le16_at b u) \<Longrightarrow>
      \<exists>b'. mst_restore b u 510 n = Ok b' \<and> ntfs_mst_post_read_fixup b sz = Ok (b', None)"
    "\<not> (\<forall>i < n. le16_at b (510 + 512 * i) = le16_at b u) \<Longrightarrow>
      ntfs_mst_post_read_fixup b sz = Ok (magic_BAAD @ drop 4 b, Some EIO)"
proof -
  note f = mst_record_fits [OF r]
  have fit: "mst_fits b u 510 n" using f(3) [OF refl] by (simp add: u_def n_def)
  have l: "512 \<le> length b" "is_valid_record sz (le16_at b 4) (le16_at b 6)" using r by (simp_all add: mst_record_def)
  have chk: "mst_check b (le16_at b u) 510 n = Ok (\<forall>i < n. le16_at b (510 + 512 * i) = le16_at b u)"
    using fit by (intro mst_check_eq) (auto simp: mst_fits_def)
  have rd: "rd16 b 4 = Ok (le16_at b 4)" "rd16 b 6 = Ok (le16_at b 6)" "rd16 b u = Ok (le16_at b u)"
    using l fit by (auto simp: rd16_def mst_fits_def)
  obtain b' where "mst_restore b u 510 n = Ok b'" using mst_restore_ok [OF fit] by blast
  then show "(\<forall>i < n. le16_at b (510 + 512 * i) = le16_at b u) \<Longrightarrow>
      \<exists>b'. mst_restore b u 510 n = Ok b' \<and> ntfs_mst_post_read_fixup b sz = Ok (b', None)"
    using rd l(2) chk f(1)
    by (simp add: ntfs_mst_post_read_fixup_def ntfs_mst_post_read_fixup_warn_def Let_def NTFS_BLOCK_SIZE_def u_def n_def)
  show "\<not> (\<forall>i < n. le16_at b (510 + 512 * i) = le16_at b u) \<Longrightarrow>
      ntfs_mst_post_read_fixup b sz = Ok (magic_BAAD @ drop 4 b, Some EIO)"
    using rd l chk f(1)
    by (simp add: ntfs_mst_post_read_fixup_def ntfs_mst_post_read_fixup_warn_def Let_def NTFS_BLOCK_SIZE_def u_def n_def wr_magic_def)
qed

text \<open>What the preparation of a write leaves.\<close>

lemma pre_write_valid:
  assumes r: "mst_record b sz" and m: "take 4 b \<noteq> magic_BAAD" "take 4 b \<noteq> magic_HOLE" and u8: "8 \<le> unat (le16_at b 4)"
  defines "u \<equiv> unat (le16_at b 4)" and "n \<equiv> unat sz div 512" and "usn \<equiv> mst_next_usn (le16_at b (unat (le16_at b 4)))"
  shows "\<exists>p. ntfs_mst_pre_write_fixup (Some b) sz = Ok (Some p, None) \<and> length p = length b \<and> le16_at p u = usn \<and>
    (\<forall>i < n. le16_at p (u + 2 + 2 * i) = le16_at b (510 + 512 * i)) \<and> (\<forall>i < n. le16_at p (510 + 512 * i) = usn) \<and>
    (\<forall>k. (k < u \<or> u + 2 + 2 * n \<le> k) \<and> \<not> mst_tail 510 n k \<longrightarrow> p ! k = b ! k) \<and> mst_record p sz \<and> le16_at p 4 = le16_at b 4"
proof -
  note f = mst_record_fits [OF r]
  let ?b1 = "set_le16 b u usn"
  have fit: "mst_fits ?b1 u 510 n" using f(3) by (simp add: u_def n_def)
  have l: "512 \<le> length b" "is_valid_record sz (le16_at b 4) (le16_at b 6)" "unat sz \<le> length b" using r by (simp_all add: mst_record_def)
  obtain p where p: "mst_protect ?b1 usn u 510 n = Ok p" "length p = length ?b1"
    "\<forall>i < n. le16_at p (u + 2 + 2 * i) = le16_at ?b1 (510 + 512 * i)"
    "\<forall>i < n. le16_at p (510 + 512 * i) = usn"
    "\<forall>k. (k < u + 2 \<or> u + 2 + 2 * n \<le> k) \<and> \<not> mst_tail 510 n k \<longrightarrow> p ! k = ?b1 ! k"
    using mst_protect_ok [OF fit] by blast
  have un: "u + 2 + 2 * n \<le> 510" using f(4) by (simp add: u_def n_def)
  have low: "p ! k = ?b1 ! k" if "k < u + 2" for k
    using p(5) that un mst_tail_ge [of 510 n k] by auto
  have usn: "le16_at p u = usn"
  proof -
    have "le16_at p u = le16_at ?b1 u" using low by (intro le16_at_cong) simp_all
    then show ?thesis using l(1) un by (simp add: le16_at_set_same)
  qed
  have keep: "p ! k = b ! k" if "k < u \<or> u + 2 + 2 * n \<le> k" "\<not> mst_tail 510 n k" for k
    using p(5) that by (auto simp: set_le16_nth_other)
  have hdr: "le16_at p 4 = le16_at b 4" "le16_at p 6 = le16_at b 6"
    using low u8 by (auto intro!: le16_at_cong simp: set_le16_nth_other u_def)
  have data: "\<forall>i < n. le16_at p (u + 2 + 2 * i) = le16_at b (510 + 512 * i)"
    using p(3) un by (auto simp: le16_at_set_other)
  have rd: "rd16 b 4 = Ok (le16_at b 4)" "rd16 b 6 = Ok (le16_at b 6)" "rd16 b u = Ok (le16_at b u)" "wr16 b u usn = Ok ?b1" "rd_magic b = Ok (take 4 b)"
    using l un by (auto simp: rd16_def wr16_def rd_magic_def)
  have "ntfs_mst_pre_write_fixup (Some b) sz = Ok (Some p, None)"
    using rd l(2) m p(1) f(1) by (simp add: ntfs_mst_pre_write_fixup_def Let_def NTFS_BLOCK_SIZE_def u_def n_def usn_def)
  moreover have "mst_record p sz" using l hdr p(2) by (simp add: mst_record_def)
  ultimately show ?thesis using p(2,4) usn keep hdr(1) data by (intro exI [of _ p]) simp
qed

definition ex_rec :: "u8 list" where
  "ex_rec = [0x46, 0x49, 0x4c, 0x45, 0x30, 0, 3, 0] @ replicate 1016 7"

lemma le16_at_replicate: "length X \<le> i \<Longrightarrow> i + 1 < length X + n \<Longrightarrow> le16_at (X @ replicate n c) i = le16_at [c, c] 0"
  by (simp add: le16_at_def nth_append)

lemma ex_rec_ok: "mst_record ex_rec 1024" "take 4 ex_rec \<noteq> magic_BAAD" "take 4 ex_rec \<noteq> magic_HOLE" "8 \<le> unat (le16_at ex_rec 4)"
proof -
  have "le16_at ex_rec 4 = 0x30" "le16_at ex_rec 6 = 3"
    by (simp_all add: ex_rec_def le16_at_def nth_append)
  then show "mst_record ex_rec 1024" "8 \<le> unat (le16_at ex_rec 4)"
    by (simp_all add: mst_record_def is_valid_record_def NTFS_BLOCK_SIZE_def) (simp add: ex_rec_def)
  show "take 4 ex_rec \<noteq> magic_BAAD" "take 4 ex_rec \<noteq> magic_HOLE"
    by (simp_all add: ex_rec_def magic_BAAD_def magic_HOLE_def)
qed

lemma mst_pre_post:
  assumes "mst_record b sz" "take 4 b \<noteq> magic_BAAD" "take 4 b \<noteq> magic_HOLE" "8 \<le> unat (le16_at b 4)"
  shows "\<exists>p r. ntfs_mst_pre_write_fixup (Some b) sz = Ok (Some p, None) \<and> length p = length b \<and>
    ntfs_mst_post_read_fixup p sz = Ok (r, None) \<and> ntfs_mst_post_write_fixup p = Ok r \<and> length r = length b \<and>
    (\<forall>k < length b. \<not> (unat (le16_at b 4) \<le> k \<and> k < unat (le16_at b 4) + 2 * unat (le16_at b 6)) \<longrightarrow> r ! k = b ! k)"
proof -
  define u n where "u = unat (le16_at b 4)" and "n = unat sz div 512"
  note f = mst_record_fits [OF assms(1), folded u_def n_def]
  obtain p where p: "ntfs_mst_pre_write_fixup (Some b) sz = Ok (Some p, None)" "length p = length b"
    "\<forall>i < n. le16_at p (u + 2 + 2 * i) = le16_at b (510 + 512 * i)" "\<forall>i < n. le16_at p (510 + 512 * i) = le16_at p u"
    "\<forall>k. (k < u \<or> u + 2 + 2 * n \<le> k) \<and> \<not> mst_tail 510 n k \<longrightarrow> p ! k = b ! k" "mst_record p sz" "le16_at p 4 = le16_at b 4"
    using pre_write_valid [OF assms] unfolding u_def n_def by metis
  obtain r where r: "mst_restore p u 510 n = Ok r" "ntfs_mst_post_read_fixup p sz = Ok (r, None)"
    using post_read_valid(1) [OF p(6)] p(4,7) by (auto simp: u_def n_def)
  have rs: "length r = length p" "\<forall>i < n. le16_at r (510 + 512 * i) = le16_at p (u + 2 + 2 * i)" "\<forall>k. \<not> mst_tail 510 n k \<longrightarrow> r ! k = p ! k"
    using mst_restore_ok [of p u 510 n] f(3) [OF p(2)] r(1) by auto
  have w: "ntfs_mst_post_write_fixup p = Ok r"
  proof -
    have "u mod 2 = 0" using p(6,7) by (simp add: mst_record_def is_valid_record_def u_def)
    then have "2 * (u div 2) = u" using minus_mod_eq_mult_div [of u 2] by simp
    then show ?thesis
      using r(1) mst_record_fits(1) [OF p(6)] p(6,7) by (auto simp: ntfs_mst_post_write_fixup_def rd16_def mst_record_def u_def n_def NTFS_BLOCK_SIZE_def)
  qed
  have "r ! k = b ! k" if "\<not> (u \<le> k \<and> k < u + 2 * unat (le16_at b 6))" for k
  proof (cases "mst_tail 510 n k")
    case True
    then obtain i where i: "i < n" "k = 510 + 512 * i \<or> k = 510 + 512 * i + 1" by (auto simp: mst_tail_def)
    have "le16_at r (510 + 512 * i) = le16_at b (510 + 512 * i)" using rs(2) p(3) i(1) by simp
    from le16_at_inj [OF this] i(2) show ?thesis by auto
  next
    case False
    then show ?thesis using rs(3) p(5) that f(2) by auto
  qed
  then show ?thesis using p(1,2) r(2) w rs(1) by (intro exI [of _ p] exI [of _ r]) (auto simp: u_def)
qed

text \<open>Round trip of the protection: a valid record that is protected for writing reads back
  without error, and both ways of removing the protection, after the write and after a read, give
  the original record outside the update sequence array.\<close>

theorem mst_roundtrip:
  assumes "mst_record b sz" "take 4 b \<noteq> magic_BAAD" "take 4 b \<noteq> magic_HOLE" "8 \<le> unat (le16_at b 4)"
  shows "\<exists>p r. ntfs_mst_pre_write_fixup (Some b) sz = Ok (Some p, None) \<and>
    ntfs_mst_post_read_fixup p sz = Ok (r, None) \<and> ntfs_mst_post_write_fixup p = Ok r \<and> length r = length b \<and>
    (\<forall>k < length b. \<not> (unat (le16_at b 4) \<le> k \<and> k < unat (le16_at b 4) + 2 * unat (le16_at b 6)) \<longrightarrow> r ! k = b ! k)"
  using mst_pre_post [OF assms] by blast

theorem mst_roundtrip_witness:
  "\<exists>p r. ntfs_mst_pre_write_fixup (Some ex_rec) 1024 = Ok (Some p, None) \<and> ntfs_mst_post_read_fixup p 1024 = Ok (r, None)"
  using mst_roundtrip [OF ex_rec_ok] by blast

text \<open>C8. Torn writes are detected: if only the first \<open>j\<close> sectors of a newly protected record
  reach the disk, and the remaining sectors still carry the previous update sequence number, a read
  fails with \<^verbatim>\<open>EIO\<close> and marks the record \<^verbatim>\<open>BAAD\<close>, changing nothing else.\<close>

theorem mst_detects_torn_write:
  assumes "mst_record b sz" "take 4 b \<noteq> magic_BAAD" "take 4 b \<noteq> magic_HOLE" "8 \<le> unat (le16_at b 4)"
    "ntfs_mst_pre_write_fixup (Some b) sz = Ok (Some p, None)"
    "length old = length b" "\<forall>i < unat sz div 512. le16_at old (510 + 512 * i) = le16_at b (unat (le16_at b 4))"
    "0 < j" "j < unat sz div 512"
  shows "ntfs_mst_post_read_fixup (take (512 * j) p @ drop (512 * j) old) sz =
    Ok (magic_BAAD @ drop 4 (take (512 * j) p @ drop (512 * j) old), Some EIO)"
proof -
  define u n where "u = unat (le16_at b 4)" and "n = unat sz div 512"
  let ?d = "take (512 * j) p @ drop (512 * j) old"
  obtain p' where p': "ntfs_mst_pre_write_fixup (Some b) sz = Ok (Some p', None)" "length p' = length b" "le16_at p' u = mst_next_usn (le16_at b u)"
    "mst_record p' sz" "le16_at p' 4 = le16_at b 4"
    using pre_write_valid [OF assms(1-4)] unfolding u_def n_def by metis
  then have p: "length p = length b" "le16_at p u = mst_next_usn (le16_at b u)" "mst_record p sz" "le16_at p 4 = le16_at b 4" using assms(5) by auto
  have fit: "mst_fits b u 510 n" using mst_record_fits(3) [OF assms(1) refl] by (simp add: u_def n_def)
  have j: "512 * j + 511 < length b" using fit assms(9) by (auto simp: mst_fits_def n_def)
  have un: "u + 1 < 512 * j" using mst_record_fits(4) [OF assms(1)] assms(8) by (simp add: u_def)
  have lo: "le16_at ?d k = le16_at p k" if "k + 1 < 512 * j" for k
    using that j p(1) by (intro le16_at_cong) (auto simp: nth_append)
  have hi: "le16_at ?d (510 + 512 * j) = le16_at old (510 + 512 * j)"
    using j p(1) assms(6) by (intro le16_at_cong) (auto simp: nth_append add.commute)
  have "mst_record ?d sz" using p(1,3) assms(6) lo [of 4] lo [of 6] assms(8) j by (auto simp: mst_record_def)
  moreover have "le16_at ?d 4 = le16_at b 4" using lo [of 4] p(4) assms(8) by simp
  moreover have "le16_at ?d u = mst_next_usn (le16_at b u)" using lo un p(2) by simp
  moreover have "mst_next_usn w \<noteq> w" for w by (auto simp: mst_next_usn_def Let_def)
  moreover have "le16_at ?d (510 + 512 * j) = le16_at b u" using hi assms(7,9) by (simp add: u_def)
  ultimately show ?thesis
    using post_read_valid(2) [of ?d sz] assms(9) by (metis u_def)
qed

theorem mst_detects_torn_write_witness:
  "\<exists>p d. ntfs_mst_pre_write_fixup (Some ex_rec) 1024 = Ok (Some p, None) \<and> d = take 512 p @ drop 512 (replicate 1024 7) \<and>
     ntfs_mst_post_read_fixup d 1024 = Ok (magic_BAAD @ drop 4 d, Some EIO)"
proof -
  obtain p where p: "ntfs_mst_pre_write_fixup (Some ex_rec) 1024 = Ok (Some p, None)"
    using pre_write_valid [OF ex_rec_ok] by blast
  have "le16_at ex_rec (unat (le16_at ex_rec 4)) = le16_at [7, 7] 0"
    by (simp add: ex_rec_def le16_at_def nth_append)
  then have "\<forall>i < unat (1024 :: u32) div 512. le16_at (replicate 1024 7) (510 + 512 * i) = le16_at ex_rec (unat (le16_at ex_rec 4))"
    using le16_at_replicate [of "[]" _ 1024 7] by simp
  from mst_detects_torn_write [OF ex_rec_ok p _ this, of 1] p show ?thesis by (auto simp: ex_rec_def)
qed

text \<open>On any buffer of at least a sector and of the stated size, the read fixup is memory safe;
  it keeps the length, refuses exactly the records whose update sequence array is ill-placed, and
  then leaves the buffer untouched.\<close>

theorem mst_read_total:
  assumes "512 \<le> length b" "unat sz \<le> length b"
  shows "\<exists>b' e. ntfs_mst_post_read_fixup b sz = Ok (b', e) \<and> length b' = length b \<and>
    (e = Some EINVAL \<longleftrightarrow> \<not> is_valid_record sz (le16_at b 4) (le16_at b 6)) \<and> (e = Some EINVAL \<longrightarrow> b' = b)"
proof (cases "is_valid_record sz (le16_at b 4) (le16_at b 6)")
  case True
  then have r: "mst_record b sz" using assms by (simp add: mst_record_def)
  show ?thesis
  proof (cases "\<forall>i < unat sz div 512. le16_at b (510 + 512 * i) = le16_at b (unat (le16_at b 4))")
    case T: True
    then obtain b' where "mst_restore b (unat (le16_at b 4)) 510 (unat sz div 512) = Ok b'" "ntfs_mst_post_read_fixup b sz = Ok (b', None)"
      using post_read_valid(1) [OF r] by blast
    then show ?thesis using mst_restore_ok [OF mst_record_fits(3) [OF r refl]] True by auto
  next
    case False
    then show ?thesis using post_read_valid(2) [OF r] True assms by (simp add: magic_BAAD_def)
  qed
next
  case False
  then show ?thesis using assms
    by (simp add: ntfs_mst_post_read_fixup_def ntfs_mst_post_read_fixup_warn_def rd16_def)
qed

theorem mst_read_total_witness:
  "\<exists>b' e. ntfs_mst_post_read_fixup (replicate 600 0) 512 = Ok (b', e) \<and> length b' = 600"
  using mst_read_total [of "replicate 600 0" 512] by auto

end
