(* ===== verification/Volume.thy ===== *)
theory Volume
  imports Ntfs_Prelude
begin

text \<open>
  The part of \<^verbatim>\<open>struct _ntfs_volume\<close> that the modelled functions read or write: version,
  sizes with their logarithms, the geometry set up from the boot sector, and the
  \<^verbatim>\<open>NV_ReadOnly\<close> bit of its state. Sizes keep the width
  of their C type; cluster numbers are signed 64-bit values.
\<close>

record ntfs_volume =
  major_ver :: u8
  sector_size :: u16
  sector_size_bits :: u8
  cluster_size :: u32
  mft_record_size :: u32
  indx_record_size :: u32
  cluster_size_bits :: u8
  mft_record_size_bits :: u8
  indx_record_size_bits :: u8
  nr_clusters :: int
  mft_lcn :: int
  mftmirr_lcn :: int
  mftmirr_size :: int
  vol_readonly :: bool

end
