(* ===== verification/Device.thy ===== *)
theory Device
  imports Mst Volume
begin

text \<open>
  Positioned device I/O: the loops of \<^verbatim>\<open>device.c\<close> over the operations of a device, with the
  multi sector transfer variants and the cluster variants, and the UEFI operations of
  \<^verbatim>\<open>uefi_io.c\<close> on top of the firmware's disk protocol. The firmware is an argument of the model.
\<close>

section \<open>Devices\<close>

text \<open>The operations \<^verbatim>\<open>dev->d_ops\<close> that the loops call. A read gives the bytes read, a write the
  number of bytes written, both possibly fewer than asked; \<open>Err\<close> is a return value of -1. A sync
  gives \<open>True\<close> when it fails.\<close>

record 'd dev_ops =
  op_pread :: "'d \<Rightarrow> int \<Rightarrow> int \<Rightarrow> u8 list outcome"
  op_pwrite :: "'d \<Rightarrow> u8 list \<Rightarrow> int \<Rightarrow> 'd \<times> int outcome"
  op_sync :: "'d \<Rightarrow> 'd \<times> bool"

record 'd ndev =
  d_private :: 'd
  d_readonly :: bool
  d_sync :: bool
  d_dirty :: bool

section \<open>Positioned read and write\<close>

text \<open>The loop of \<^verbatim>\<open>ntfs_pread\<close>; \<open>acc\<close> holds the bytes read so far. An operation that returns
  more than it was asked for overruns the buffer.\<close>

function dev_pread_loop :: "'d dev_ops \<Rightarrow> 'd \<Rightarrow> int \<Rightarrow> int \<Rightarrow> u8 list \<Rightarrow> u8 list outcome" where
  "dev_pread_loop ops d pos count acc =
     (if count \<le> 0 then Ok acc
      else case op_pread ops d count (pos + int (length acc)) of
        Ok bs \<Rightarrow> if int (length bs) > count then Fault
                 else if bs = [] then Ok acc
                 else dev_pread_loop ops d pos (count - int (length bs)) (acc @ bs)
      | Err e \<Rightarrow> if acc \<noteq> [] then Ok acc else Err e
      | Fault \<Rightarrow> Fault)"
  by pat_completeness auto
termination
  by (relation "measure (\<lambda>(ops, d, pos, count, acc). nat count)") auto

declare dev_pread_loop.simps [simp del]

definition ntfs_pread :: "'d dev_ops \<Rightarrow> 'd ndev \<Rightarrow> int \<Rightarrow> int \<Rightarrow> u8 list outcome" where
  "ntfs_pread ops dev pos count =
     (if count < 0 \<or> pos < 0 then Err EINVAL
      else if count = 0 then Ok []
      else dev_pread_loop ops (d_private dev) pos count [])"

text \<open>The loop of \<^verbatim>\<open>ntfs_pwrite\<close> on the bytes \<open>b\<close> left to write; \<open>written\<close> bytes are done.\<close>

function dev_pwrite_loop :: "'d dev_ops \<Rightarrow> 'd \<Rightarrow> int \<Rightarrow> u8 list \<Rightarrow> int \<Rightarrow> 'd \<times> int outcome" where
  "dev_pwrite_loop ops d pos b written =
     (if b = [] then (d, Ok written)
      else case op_pwrite ops d b (pos + written) of
        (d, Ok w) \<Rightarrow> if w > int (length b) then (d, Fault)
                     else if w > 0 then dev_pwrite_loop ops d pos (drop (nat w) b) (written + w)
                     else (d, Ok written)
      | (d, Err e) \<Rightarrow> if written \<noteq> 0 then (d, Ok written) else (d, Err e)
      | (d, Fault) \<Rightarrow> (d, Fault))"
  by pat_completeness auto
termination
  by (relation "measure (\<lambda>(ops, d, pos, b, written). length b)") auto

declare dev_pwrite_loop.simps [simp del]

text \<open>The return value of a call, with -1 for an error.\<close>

fun ret_val :: "int outcome \<Rightarrow> int" where
  "ret_val (Ok x) = x"
| "ret_val _ = -1"

text \<open>The sync after a write: on a failure the count is decremented, also that of an error.\<close>

definition dev_sync_after :: "'d dev_ops \<Rightarrow> bool \<Rightarrow> 'd \<Rightarrow> int outcome \<Rightarrow> 'd \<times> int outcome" where
  "dev_sync_after ops sync d r =
     (if r \<noteq> Fault \<and> sync \<and> ret_val r \<noteq> 0
      then (let (d, failed) = op_sync ops d in (d, if failed then Ok (ret_val r - 1) else r))
      else (d, r))"

definition ntfs_pwrite :: "'d dev_ops \<Rightarrow> 'd ndev \<Rightarrow> int \<Rightarrow> u8 list \<Rightarrow> 'd ndev \<times> int outcome" where
  "ntfs_pwrite ops dev pos b =
     (if pos < 0 then (dev, Err EINVAL)
      else if b = [] then (dev, Ok 0)
      else if d_readonly dev then (dev, Err EROFS)
      else (let (d, r) = dev_pwrite_loop ops (d_private dev) pos b 0;
                (d, r) = dev_sync_after ops (d_sync dev) d r
            in (dev\<lparr>d_private := d, d_dirty := True\<rparr>, r)))"

section \<open>Multi sector transfers\<close>

text \<open>The fixup of block \<open>i\<close> of \<open>sz\<close> bytes in a buffer; its error is disregarded.\<close>

definition mst_read_block :: "u32 \<Rightarrow> u8 list \<Rightarrow> nat \<Rightarrow> u8 list outcome" where
  "mst_read_block sz b i =
     obind (ntfs_mst_post_read_fixup (drop (i * unat sz) b) sz) (\<lambda>(b', e). Ok (take (i * unat sz) b @ b'))"

fun mst_read_blocks :: "u32 \<Rightarrow> u8 list \<Rightarrow> nat \<Rightarrow> nat \<Rightarrow> u8 list outcome" where
  "mst_read_blocks sz b i 0 = Ok b"
| "mst_read_blocks sz b i (Suc n) = obind (mst_read_block sz b i) (\<lambda>b. mst_read_blocks sz b (i + 1) n)"

text \<open>The result is the buffer and the number of whole blocks. A block size of 0 passes the test
  and is divided by.\<close>

definition ntfs_mst_pread :: "'d dev_ops \<Rightarrow> 'd ndev \<Rightarrow> int \<Rightarrow> int \<Rightarrow> u32 \<Rightarrow> (u8 list \<times> int) outcome" where
  "ntfs_mst_pread ops dev pos count bksize =
     (if bksize AND (bksize - 1) \<noteq> 0 \<or> unat bksize mod NTFS_BLOCK_SIZE \<noteq> 0 then Err EINVAL
      else obind (ntfs_pread ops dev pos (count * uint bksize)) (\<lambda>b.
           if bksize = 0 then Fault
           else let n = length b div unat bksize in
                obind (mst_read_blocks bksize b 0 n) (\<lambda>b. Ok (b, int n))))"

text \<open>Protecting the blocks from \<open>i\<close> on: the buffer, the number protected, and the error that
  stopped it, if any.\<close>

fun mst_write_blocks :: "u32 \<Rightarrow> u8 list \<Rightarrow> nat \<Rightarrow> nat \<Rightarrow> (u8 list \<times> nat \<times> errno option) outcome" where
  "mst_write_blocks sz b i 0 = Ok (b, i, None)"
| "mst_write_blocks sz b i (Suc n) =
     obind (ntfs_mst_pre_write_fixup (Some (drop (i * unat sz) b)) sz) (\<lambda>(ob, e).
     case (ob, e) of
       (Some b', None) \<Rightarrow> mst_write_blocks sz (take (i * unat sz) b @ b') (i + 1) n
     | (_, Some e) \<Rightarrow> Ok (b, i, Some e)
     | (None, None) \<Rightarrow> Fault)"

fun mst_unwrite_blocks :: "u32 \<Rightarrow> u8 list \<Rightarrow> nat \<Rightarrow> nat \<Rightarrow> u8 list outcome" where
  "mst_unwrite_blocks sz b i 0 = Ok b"
| "mst_unwrite_blocks sz b i (Suc n) =
     obind (ntfs_mst_post_write_fixup (drop (i * unat sz) b)) (\<lambda>b'.
     mst_unwrite_blocks sz (take (i * unat sz) b @ b') (i + 1) n)"

definition ntfs_mst_pwrite :: "'d dev_ops \<Rightarrow> 'd ndev \<Rightarrow> int \<Rightarrow> int \<Rightarrow> u32 \<Rightarrow> u8 list \<Rightarrow> 'd ndev \<times> (u8 list \<times> int) outcome" where
  "ntfs_mst_pwrite ops dev pos count bksize b =
     (if count < 0 \<or> unat bksize mod NTFS_BLOCK_SIZE \<noteq> 0 then (dev, Err EINVAL)
      else if count = 0 then (dev, Ok (b, 0))
      else case mst_write_blocks bksize b 0 (nat count) of
        Err e \<Rightarrow> (dev, Err e) | Fault \<Rightarrow> (dev, Fault)
      | Ok (b, n, err) \<Rightarrow>
          if err \<noteq> None \<and> n = 0 then (dev, Err (the err))
          else let (dev, r) = ntfs_pwrite ops dev pos (take (n * unat bksize) b) in
               (dev, obind (mst_unwrite_blocks bksize b 0 n) (\<lambda>b.
                     obind r (\<lambda>written.
                     if written \<le> 0 then Ok (b, written)
                     else if bksize = 0 then Fault
                     else Ok (b, written div uint bksize)))))"

section \<open>Whole clusters\<close>

definition ntfs_cluster_read :: "'d dev_ops \<Rightarrow> 'd ndev \<Rightarrow> ntfs_volume option \<Rightarrow> int \<Rightarrow> int \<Rightarrow> (u8 list \<times> int) outcome" where
  "ntfs_cluster_read ops dev ovol lc count =
     (case ovol of None \<Rightarrow> Err EINVAL
      | Some vol \<Rightarrow>
          if lc < 0 \<or> count < 0 then Err EINVAL
          else if nr_clusters vol < lc + count then Err ESPIPE
          else let bits = unat (cluster_size_bits vol) in
               obind (ntfs_pread ops dev (push_bit bits lc) (push_bit bits count)) (\<lambda>b.
               Ok (b, drop_bit bits (int (length b)))))"

text \<open>The buffer of a write holds at least the clusters to be written.\<close>

definition ntfs_cluster_write :: "'d dev_ops \<Rightarrow> 'd ndev \<Rightarrow> ntfs_volume option \<Rightarrow> int \<Rightarrow> int \<Rightarrow> u8 list \<Rightarrow> 'd ndev \<times> int outcome" where
  "ntfs_cluster_write ops dev ovol lc count b =
     (case ovol of None \<Rightarrow> (dev, Err EINVAL)
      | Some vol \<Rightarrow>
          if lc < 0 \<or> count < 0 then (dev, Err EINVAL)
          else if nr_clusters vol < lc + count then (dev, Err ESPIPE)
          else let bits = unat (cluster_size_bits vol);
                   (dev, bw) = (if \<not> vol_readonly vol
                                then ntfs_pwrite ops dev (push_bit bits lc) (take (nat (push_bit bits count)) b)
                                else (dev, Ok (push_bit bits count)))
               in (dev, obind bw (\<lambda>bw. if bw < 0 then Ok bw else Ok (drop_bit bits bw))))"

section \<open>The UEFI device\<close>

text \<open>The firmware protocols: media geometry from \<^verbatim>\<open>BlockIo->Media\<close>, and \<^verbatim>\<open>DiskIo\<close>'s
  \<^verbatim>\<open>ReadDisk\<close> and \<^verbatim>\<open>WriteDisk\<close>. A failed call gives no bytes, respectively \<open>False\<close>; the device
  functions return -1 then and leave \<^verbatim>\<open>errno\<close> as it was, which is the argument \<open>stale\<close>.\<close>

record 'd disk_io =
  last_block :: int
  block_size :: int
  ReadDisk :: "'d \<Rightarrow> int \<Rightarrow> int \<Rightarrow> u8 list option"
  WriteDisk :: "'d \<Rightarrow> int \<Rightarrow> u8 list \<Rightarrow> 'd \<times> bool"

datatype whence = SEEK_SET | SEEK_CUR | SEEK_END | SEEK_OTHER

text \<open>The new \<^verbatim>\<open>Volume->Pos\<close> is the returned offset.\<close>

definition uefi_part_length :: "'d disk_io \<Rightarrow> int" where
  "uefi_part_length io = s64 (last_block io * block_size io)"

definition ntfs_device_uefi_seek :: "'d disk_io \<Rightarrow> int \<Rightarrow> int \<Rightarrow> whence \<Rightarrow> int outcome" where
  "ntfs_device_uefi_seek io pos offset whence =
     obind (case whence of
              SEEK_SET \<Rightarrow> Ok offset
            | SEEK_CUR \<Rightarrow> Ok (pos + offset)
            | SEEK_END \<Rightarrow> if uefi_part_length io = -1 then Err EOPNOTSUPP else Ok (uefi_part_length io + offset)
            | SEEK_OTHER \<Rightarrow> Err EINVAL) (\<lambda>abs_ofs.
     if abs_ofs < 0 \<or> abs_ofs > uefi_part_length io then Err EINVAL else Ok abs_ofs)"

definition ntfs_device_uefi_pread :: "'d disk_io \<Rightarrow> errno \<Rightarrow> 'd \<Rightarrow> int \<Rightarrow> int \<Rightarrow> u8 list outcome" where
  "ntfs_device_uefi_pread io stale d count offset =
     (case ReadDisk io d offset count of Some b \<Rightarrow> Ok b | None \<Rightarrow> Err stale)"

definition ntfs_device_uefi_pwrite :: "'d disk_io \<Rightarrow> errno \<Rightarrow> 'd \<Rightarrow> u8 list \<Rightarrow> int \<Rightarrow> 'd \<times> int outcome" where
  "ntfs_device_uefi_pwrite io stale d b offset =
     (case WriteDisk io d offset b of (d, good) \<Rightarrow> (d, if good then Ok (int (length b)) else Err stale))"

definition ntfs_device_uefi_sync :: "'d \<Rightarrow> 'd \<times> bool" where
  "ntfs_device_uefi_sync d = (d, False)"

definition ntfs_device_uefi_io_ops :: "'d disk_io \<Rightarrow> errno \<Rightarrow> 'd dev_ops" where
  "ntfs_device_uefi_io_ops io stale =
     \<lparr>op_pread = ntfs_device_uefi_pread io stale, op_pwrite = ntfs_device_uefi_pwrite io stale,
      op_sync = ntfs_device_uefi_sync\<rparr>"

end
