(* ===== verification/Bitmap.thy ===== *)
theory Bitmap
  imports Ntfs_Prelude
begin

text \<open>
  Bit operations of \<^verbatim>\<open>bitmap.c\<close>. The single-bit functions work on a byte buffer in memory;
  \<^verbatim>\<open>ntfs_bitmap_set_bits_in_run\<close> works on an attribute through \<^verbatim>\<open>ntfs_attr_pread\<close> and
  \<^verbatim>\<open>ntfs_attr_pwrite\<close>, which are arguments of the model here; their contract is the locale
  \<open>byte_store\<close>.
\<close>

section \<open>Single bits\<close>

text \<open>\<open>None\<close> is a null bitmap. The functions ignore their errors or return -1.\<close>

definition ntfs_bit_set :: "u8 list option \<Rightarrow> nat \<Rightarrow> u8 \<Rightarrow> u8 list option outcome" where
  "ntfs_bit_set bitmap k new_value =
     (case bitmap of None \<Rightarrow> Ok None
      | Some b \<Rightarrow>
          if new_value > 1 then Ok (Some b)
          else obind (aget b (int (drop_bit 3 k))) (\<lambda>x.
               obind (aset b (int (drop_bit 3 k))
                 (if new_value = 0 then x AND NOT (push_bit (k mod 8) 1) else x OR push_bit (k mod 8) 1)) (\<lambda>b.
               Ok (Some b))))"

definition ntfs_bit_get :: "u8 list option \<Rightarrow> nat \<Rightarrow> int outcome" where
  "ntfs_bit_get bitmap k =
     (case bitmap of None \<Rightarrow> Ok (-1)
      | Some b \<Rightarrow> obind (aget b (int (drop_bit 3 k))) (\<lambda>x. Ok (uint (drop_bit (k mod 8) x AND 1))))"

definition ntfs_bit_get_and_set :: "u8 list option \<Rightarrow> nat \<Rightarrow> u8 \<Rightarrow> (u8 list option \<times> int) outcome" where
  "ntfs_bit_get_and_set bitmap k new_value =
     (case bitmap of None \<Rightarrow> Ok (None, -1)
      | Some b \<Rightarrow>
          if new_value > 1 then Ok (Some b, -1)
          else obind (aget b (int (drop_bit 3 k))) (\<lambda>x.
               let old_bit = drop_bit (k mod 8) x AND 1 in
               obind (if new_value \<noteq> old_bit then aset b (int (drop_bit 3 k)) (x XOR push_bit (k mod 8) 1) else Ok b) (\<lambda>b.
               Ok (Some b, uint old_bit))))"

section \<open>Rotations\<close>

definition ntfs_rol32 :: "u32 \<Rightarrow> nat \<Rightarrow> u32" where
  "ntfs_rol32 w shift = push_bit shift w OR drop_bit (32 - shift) w"

definition ntfs_ror32 :: "u32 \<Rightarrow> nat \<Rightarrow> u32" where
  "ntfs_ror32 w shift = drop_bit shift w OR push_bit (32 - shift) w"

section \<open>Runs of bits in an attribute\<close>

text \<open>\<^verbatim>\<open>ntfs_attr_pread\<close> gives the bytes read, \<^verbatim>\<open>ntfs_attr_pwrite\<close> the new state and the
  number of bytes written.\<close>

type_synonym 's pread_fn = "'s \<Rightarrow> int \<Rightarrow> int \<Rightarrow> u8 list outcome"
type_synonym 's pwrite_fn = "'s \<Rightarrow> int \<Rightarrow> u8 list \<Rightarrow> 's \<times> int outcome"

text \<open>A value stored in a variable of C type \<^verbatim>\<open>int\<close>.\<close>

definition s32 :: "int \<Rightarrow> int" where
  "s32 x = signed_take_bit 31 x"

definition bm_put :: "bool \<Rightarrow> u8 \<Rightarrow> nat \<Rightarrow> u8" where
  "bm_put value b k = (if value then b OR push_bit k 1 else b AND NOT (push_bit k 1))"

definition bm_fill :: "bool \<Rightarrow> u8" where
  "bm_fill value = (if value then 0xff else 0)"

text \<open>\<^verbatim>\<open>while ((bit & 7) && count--)\<close> on the first byte, and \<^verbatim>\<open>while (bit && count--)\<close> on
  the last one. Both give the byte and the count left; the post-decrement also happens on the test
  that ends the loop.\<close>

function bm_first_bits :: "bool \<Rightarrow> u8 \<Rightarrow> nat \<Rightarrow> int \<Rightarrow> u8 \<times> int" where
  "bm_first_bits value b k count =
     (if k mod 8 \<noteq> 0
      then if count \<noteq> 0 then bm_first_bits value (bm_put value b k) (k + 1) (count - 1) else (b, count - 1)
      else (b, count))"
  by pat_completeness auto
termination
  by (relation "measure (\<lambda>(v, b, k, count). (8 - k mod 8) mod 8)") (auto simp: mod_Suc)

declare bm_first_bits.simps [simp del]

fun bm_last_bits :: "bool \<Rightarrow> u8 \<Rightarrow> nat \<Rightarrow> int \<Rightarrow> u8 \<times> int" where
  "bm_last_bits value b 0 count = (b, count)"
| "bm_last_bits value b (Suc k) count =
     (if count \<noteq> 0 then bm_last_bits value (bm_put value b k) k (count - 1) else (b, count - 1))"

text \<open>Reading one byte, with the errors the caller reports.\<close>

definition bm_read1 :: "'s pread_fn \<Rightarrow> 's \<Rightarrow> int \<Rightarrow> u8 outcome" where
  "bm_read1 pread s pos =
     obind (pread s pos 1) (\<lambda>bs. case bs of [x] \<Rightarrow> Ok x | _ \<Rightarrow> Err EIO)"

text \<open>The last partial byte, when it lies in the current window: the buffer, the count left and
  whether it was handled.\<close>

definition bm_last :: "'s pread_fn \<Rightarrow> bool \<Rightarrow> 's \<Rightarrow> u8 list \<Rightarrow> int \<Rightarrow> int \<Rightarrow> int \<Rightarrow> int \<Rightarrow> nat \<Rightarrow> (u8 list \<times> int \<times> bool) outcome" where
  "bm_last pread value s buf bufsize start_bit count firstbyte k =
     (if count > 0 \<and> k \<noteq> 0
      then (let lastbyte_pos = s32 (drop_bit 3 (count + 7) + firstbyte) in
            if lastbyte_pos = 0 then Err EIO
            else if lastbyte_pos \<le> bufsize
            then obind (bm_read1 pread s (drop_bit 3 (start_bit + count))) (\<lambda>x.
                 let (y, count') = bm_last_bits value x k count in
                 obind (aset buf (lastbyte_pos - 1) y) (\<lambda>buf. Ok (buf, count', True)))
            else Ok (buf, count, False))
      else Ok (buf, count, False))"

text \<open>The bytes passed to \<^verbatim>\<open>ntfs_attr_pwrite\<close>, checked against the buffer.\<close>

definition bm_window :: "u8 list \<Rightarrow> int \<Rightarrow> u8 list outcome" where
  "bm_window buf bufsize = (if bufsize \<le> int (length buf) then Ok (take (nat bufsize) buf) else Fault)"

partial_function (option) bm_loop ::
  "'s pread_fn \<Rightarrow> 's pwrite_fn \<Rightarrow> bool \<Rightarrow> 's \<Rightarrow> u8 list \<Rightarrow> int \<Rightarrow> int \<Rightarrow> int \<Rightarrow> int \<Rightarrow> nat \<Rightarrow> ('s \<times> unit outcome) option" where
  "bm_loop pread pwrite value s buf bufsize start_bit count firstbyte k =
     (case bm_last pread value s buf bufsize start_bit count firstbyte k of
        Err e \<Rightarrow> Some (s, Err e) | Fault \<Rightarrow> Some (s, Fault)
      | Ok (buf, count, lastbyte) \<Rightarrow>
     (case bm_window buf bufsize of
        Err e \<Rightarrow> Some (s, Err e) | Fault \<Rightarrow> Some (s, Fault)
      | Ok w \<Rightarrow>
     (case pwrite s (s32 (drop_bit 3 start_bit - firstbyte)) w of
        (s, Err e) \<Rightarrow> Some (s, Err e) | (s, Fault) \<Rightarrow> Some (s, Fault)
      | (s, Ok br) \<Rightarrow>
          if br \<noteq> bufsize then Some (s, Err EIO)
          else (let tmp = s32 (push_bit 3 (bufsize - firstbyte - b2i lastbyte));
                    buf = (if firstbyte \<noteq> 0 then buf[0 := bm_fill value] else buf);
                    count = count - tmp;
                    n = s32 (drop_bit 3 (count + 7)) in
                if lastbyte \<and> count \<noteq> 0 then Some (s, Err EIO)
                else if count > 0
                then bm_loop pread pwrite value s buf (if bufsize > n then n else bufsize) (start_bit + tmp) count 0
                       (if lastbyte then 0 else k)
                else Some (s, Ok ())))))"

declare bm_loop.simps [code]

text \<open>\<open>None\<close> for \<^verbatim>\<open>na\<close> is a null attribute; \<open>alloc\<close> tells which sizes \<^verbatim>\<open>ntfs_malloc\<close> serves.\<close>

definition ntfs_bitmap_set_bits_in_run ::
  "(int \<Rightarrow> bool) \<Rightarrow> 's pread_fn \<Rightarrow> 's pwrite_fn \<Rightarrow> 's option \<Rightarrow> int \<Rightarrow> int \<Rightarrow> bool \<Rightarrow> ('s option \<times> unit outcome) option" where
  "ntfs_bitmap_set_bits_in_run alloc pread pwrite na start_bit count value =
     (case na of None \<Rightarrow> Some (None, Err EINVAL)
      | Some s \<Rightarrow>
          if start_bit < 0 \<or> count < 0 then Some (Some s, Err EINVAL)
          else let k = nat (start_bit mod 8);
                   firstbyte = b2i (k \<noteq> 0);
                   n = drop_bit 3 (count - (if k \<noteq> 0 then 8 - int k else 0) + 7) + firstbyte;
                   bufsize = (if n > 8192 then 8192 else n) in
          if \<not> alloc bufsize then Some (Some s, Err ENOMEM)
          else let buf = replicate (nat bufsize) (bm_fill value) in
               (case (if k \<noteq> 0
                      then obind (bm_read1 pread s (drop_bit 3 start_bit)) (\<lambda>x.
                           let (y, count') = bm_first_bits value x k count in
                           obind (aset buf 0 y) (\<lambda>buf. Ok (buf, (start_bit + 7) AND NOT 7, count')))
                      else Ok (buf, start_bit, count)) of
                  Err e \<Rightarrow> Some (Some s, Err e) | Fault \<Rightarrow> Some (Some s, Fault)
                | Ok (buf, start_bit, count) \<Rightarrow>
                    map_option (\<lambda>(s, r). (Some s, r))
                      (bm_loop pread pwrite value s buf bufsize start_bit count firstbyte (nat (count mod 8)))))"

definition ntfs_bitmap_set_run where
  "ntfs_bitmap_set_run alloc pread pwrite na start_bit count =
     ntfs_bitmap_set_bits_in_run alloc pread pwrite na start_bit count True"

definition ntfs_bitmap_clear_run where
  "ntfs_bitmap_clear_run alloc pread pwrite na start_bit count =
     ntfs_bitmap_set_bits_in_run alloc pread pwrite na start_bit count False"

definition ntfs_bitmap_set_bit where
  "ntfs_bitmap_set_bit alloc pread pwrite na k = ntfs_bitmap_set_run alloc pread pwrite na k 1"

definition ntfs_bitmap_clear_bit where
  "ntfs_bitmap_clear_bit alloc pread pwrite na k = ntfs_bitmap_clear_run alloc pread pwrite na k 1"

end
