(* ===== verification/Bitmap_Run.thy ===== *)
theory Bitmap_Run
  imports Bitmap
begin

text \<open>
  Setting and clearing runs of bits. The contract of the attribute's read and write functions is
  the locale \<open>byte_store\<close>; inside it the windowed loop of \<^verbatim>\<open>ntfs_bitmap_set_bits_in_run\<close> is shown to
  end and to change exactly the bits of the run.
\<close>

section \<open>The interface of an attribute's contents\<close>

text \<open>What the bitmap code relies on: an attribute is a byte string of fixed length; a read inside it
  returns its bytes, a write inside it succeeds and replaces exactly the bytes written.\<close>

definition bsplice :: "'a list \<Rightarrow> nat \<Rightarrow> 'a list \<Rightarrow> 'a list" where
  "bsplice c p w = take p c @ w @ drop (p + length w) c"

locale byte_store =
  fixes pread :: "'s \<Rightarrow> int \<Rightarrow> int \<Rightarrow> u8 list outcome"
    and pwrite :: "'s \<Rightarrow> int \<Rightarrow> u8 list \<Rightarrow> 's \<times> int outcome"
    and content :: "'s \<Rightarrow> u8 list"
    and good :: "'s \<Rightarrow> bool"
  assumes pread_in: "good s \<Longrightarrow> p + n \<le> length (content s) \<Longrightarrow>
      pread s (int p) (int n) = Ok (take n (drop p (content s)))"
    and pwrite_in: "good s \<Longrightarrow> p + length w \<le> length (content s) \<Longrightarrow>
      \<exists>s'. pwrite s (int p) w = (s', Ok (int (length w))) \<and> good s' \<and> content s' = bsplice (content s) p w"

section \<open>Bytes and bits\<close>

definition bm_bit :: "u8 list \<Rightarrow> nat \<Rightarrow> bool" where
  "bm_bit c j = bit (c ! (j div 8)) (j mod 8)"

lemma bit_bm_put: "k < 8 \<Longrightarrow> j < 8 \<Longrightarrow> bit (bm_put v b k) j = (if j = k then v else bit b j)"
  by (auto simp: bm_put_def bit_simps)

lemma bit_bm_fill: "j < 8 \<Longrightarrow> bit (bm_fill v) j = v"
proof (cases v)
  case True
  have "bm_fill True = - 1" by (simp add: bm_fill_def)
  moreover assume "j < 8"
  ultimately show ?thesis using True by (simp only: bit_simps) simp
next
  case False
  then show ?thesis by (simp add: bm_fill_def)
qed

lemma bm_first_bits_eq:
  assumes "1 \<le> k" "k \<le> 8" "0 \<le> count"
  shows "\<exists>y. bm_first_bits v b k count = (y, if count < 8 - int k then -1 else count - (8 - int k)) \<and>
    (\<forall>j < 8. bit y j = (if k \<le> j \<and> int j < int k + count then v else bit b j))"
  using assms
proof (induction "8 - k" arbitrary: k b count)
  case 0
  then show ?case by (subst bm_first_bits.simps) auto
next
  case (Suc d)
  then have k: "k < 8" "k mod 8 \<noteq> 0" and d: "d = 8 - (k + 1)" by auto
  show ?case
  proof (cases "count = 0")
    case True
    then show ?thesis using k by (subst bm_first_bits.simps) auto
  next
    case False
    obtain y where y: "bm_first_bits v (bm_put v b k) (k + 1) (count - 1) = (y, if count - 1 < 8 - int (k + 1) then -1 else count - 1 - (8 - int (k + 1)))"
      "\<forall>j < 8. bit y j = (if k + 1 \<le> j \<and> int j < int (k + 1) + (count - 1) then v else bit (bm_put v b k) j)"
      using Suc.hyps(1) [OF d, of "count - 1" "bm_put v b k"] Suc.prems k False by auto
    have "bm_first_bits v b k count = (y, if count < 8 - int k then -1 else count - (8 - int k))"
      using y(1) k False by (subst bm_first_bits.simps) auto
    moreover have "bit y j = (if k \<le> j \<and> int j < int k + count then v else bit b j)" if "j < 8" for j
      using y(2) that k(1) False Suc.prems(3) by (auto simp: bit_bm_put)
    ultimately show ?thesis by blast
  qed
qed

lemma bm_last_bits_eq:
  assumes "k \<le> 8" "int k \<le> count"
  shows "\<exists>y. bm_last_bits v b k count = (y, count - int k) \<and> (\<forall>j < 8. bit y j = (if j < k then v else bit b j))"
  using assms
proof (induction k arbitrary: b count)
  case (Suc k)
  obtain y where "bm_last_bits v (bm_put v b k) k (count - 1) = (y, count - 1 - int k)"
    "\<forall>j < 8. bit y j = (if j < k then v else bit (bm_put v b k) j)"
    using Suc.IH [of "count - 1" "bm_put v b k"] Suc.prems by auto
  then show ?case using Suc.prems by (auto simp: bit_bm_put less_Suc_eq)
qed simp

lemma nth_bsplice:
  assumes "p + length w \<le> length c" "i < length c"
  shows "bsplice c p w ! i = (if p \<le> i \<and> i < p + length w then w ! (i - p) else c ! i)"
  using assms by (auto simp: bsplice_def nth_append)

lemma length_bsplice [simp]: "p + length w \<le> length c \<Longrightarrow> length (bsplice c p w) = length c"
  by (simp add: bsplice_def)

lemma bm_bit_bsplice:
  assumes "p + length w \<le> length c" "j < 8 * length c"
  shows "bm_bit (bsplice c p w) j = (if p \<le> j div 8 \<and> j div 8 < p + length w then bit (w ! (j div 8 - p)) (j mod 8) else bm_bit c j)"
proof -
  have "j div 8 < length c" using assms(2) by (simp add: less_mult_imp_div_less mult.commute)
  then show ?thesis using nth_bsplice [OF assms(1)] by (simp add: bm_bit_def)
qed

lemma s32_id: "- (2 ^ 31) \<le> x \<Longrightarrow> x < 2 ^ 31 \<Longrightarrow> s32 x = x"
  unfolding s32_def by (rule signed_take_bit_int_eq_self) simp_all

text \<open>\<open>bm_run c c' v a n\<close>: the bits \<open>a\<close> to \<open>a + n - 1\<close> of \<open>c'\<close> are \<open>v\<close>, the others are those of \<open>c\<close>.\<close>

definition bm_run :: "u8 list \<Rightarrow> u8 list \<Rightarrow> bool \<Rightarrow> int \<Rightarrow> int \<Rightarrow> bool" where
  "bm_run c c' v a n \<longleftrightarrow> length c' = length c \<and>
     (\<forall>j < 8 * length c. bm_bit c' j = (if a \<le> int j \<and> int j < a + n then v else bm_bit c j))"

text \<open>The write of one window. \<open>F\<close> is 1 when the first byte of the buffer is the prepared partial
  byte \<open>x\<close>, and the window starts there, one byte before \<open>q\<close>.\<close>

lemma bm_run_window:
  assumes w: "length w = F + m" "F \<le> 1" "F \<le> q" "q + m \<le> length c"
    and fst: "F = 1 \<Longrightarrow> w ! 0 = x" and mid: "\<And>i. F \<le> i \<Longrightarrow> i < length w \<Longrightarrow> \<not> (L = True \<and> i = F + m - 1) \<Longrightarrow> w ! i = bm_fill v"
    and lst: "L = True \<Longrightarrow> 0 < m \<and> k < 8 \<and> (\<forall>j < 8. bit (w ! (F + m - 1)) j = (if j < k then v else bit (c ! (q + m - 1)) j))"
    and c0: "c0 = (if F = 1 then c[q - 1 := x] else c)"
  shows "bm_run c0 (bsplice c (q - F) w) v (8 * int q) (8 * int m - (if L = True then 8 - int k else 0))"
  unfolding bm_run_def
proof (intro conjI allI impI)
  have l0: "length c0 = length c" by (simp add: c0)
  show "length (bsplice c (q - F) w) = length c0" using w l0 by simp
  fix j assume j: "j < 8 * length c0"
  let ?i = "j div 8" and ?b = "j mod 8"
  have i: "?i < length c" "?b < 8" "j = 8 * ?i + ?b" using j l0 by (auto simp: less_mult_imp_div_less mult.commute)
  have s: "bm_bit (bsplice c (q - F) w) j = (if q - F \<le> ?i \<and> ?i < q + m then bit (w ! (?i - (q - F))) ?b else bm_bit c j)"
    using bm_bit_bsplice [of "q - F" w c j] w j l0 by (simp add: algebra_simps)
  show "bm_bit (bsplice c (q - F) w) j =
      (if 8 * int q \<le> int j \<and> int j < 8 * int q + (8 * int m - (if L = True then 8 - int k else 0)) then v else bm_bit c0 j)"
  proof (cases "q \<le> ?i \<and> ?i < q + m")
    case True
    then have n: "?i - (q - F) = F + (?i - q)" using w by simp
    have c: "bm_bit c0 j = bit (c ! ?i) ?b" using True w(3) by (auto simp: c0 bm_bit_def)
    show ?thesis
    proof (cases "L = True \<and> ?i = q + m - 1")
      case T: True
      then have "w ! (?i - (q - F)) = w ! (F + m - 1)" using n True by simp
      then have "bm_bit (bsplice c (q - F) w) j = (if ?b < k then v else bit (c ! ?i) ?b)"
        using lst T s True i(2) by auto
      moreover have "int j < 8 * int q + (8 * int m - (8 - int k)) \<longleftrightarrow> ?b < k" using T True i(3) by linarith
      moreover have "8 * int q \<le> int j" using True i(3) by linarith
      ultimately show ?thesis using T c by simp
    next
      case F: False
      have "w ! (F + (?i - q)) = bm_fill v"
        by (rule mid) (use F True w(1) in arith)+
      then have "w ! (?i - (q - F)) = bm_fill v" unfolding n .
      moreover have "q - F \<le> ?i" using True by arith
      ultimately have "bm_bit (bsplice c (q - F) w) j = v" using s True i(2) by (simp add: bit_bm_fill)
      moreover have "8 * int q \<le> int j" using True i(3) by linarith
      moreover have "int j < 8 * int q + (8 * int m - (if L = True then 8 - int k else 0))"
      proof (cases "L = True")
        case True
        then have "?i < q + m - 1" using F \<open>q \<le> ?i \<and> ?i < q + m\<close> by auto
        then show ?thesis using True i(2,3) by auto
      qed (use True i(2,3) in auto)
      ultimately show ?thesis by simp
    qed
  next
    case False
    have out: "\<not> (8 * int q \<le> int j \<and> int j < 8 * int q + (8 * int m - (if L = True then 8 - int k else 0)))"
      using False i(2,3) lst by auto
    show ?thesis
    proof (cases "F = 1 \<and> ?i = q - 1")
      case True
      then show ?thesis using s out fst w i(1) by (auto simp: c0 bm_bit_def)
    next
      case N: False
      then have "\<not> (q - F \<le> ?i \<and> ?i < q + m)" using False w(2,3) by auto
      moreover have "bm_bit c0 j = bm_bit c j" using N by (auto simp: c0 bm_bit_def)
      ultimately show ?thesis unfolding s by (simp only: if_not_P [OF out] if_not_P if_False)
    qed
  qed
qed

lemma bm_run_trans:
  "bm_run c c1 v a n \<Longrightarrow> bm_run c1 c2 v (a + n) m \<Longrightarrow> 0 \<le> n \<Longrightarrow> 0 \<le> m \<Longrightarrow> bm_run c c2 v a (n + m)"
  by (auto simp: bm_run_def)

section \<open>The loop over the windows\<close>

context byte_store
begin

lemma bm_read1_in:
  assumes "good s" "p < length (content s)"
  shows "bm_read1 pread s (int p) = Ok (content s ! p)"
proof -
  have "pread s (int p) 1 = Ok (take 1 (drop p (content s)))"
    using pread_in [OF assms(1), of p 1] assms(2) by simp
  moreover have "take 1 (drop p (content s)) = [content s ! p]"
    using assms(2) by (simp add: take_Suc_conv_app_nth Cons_nth_drop_Suc [symmetric])
  ultimately show ?thesis by (simp add: bm_read1_def)
qed

text \<open>One pass: the window of \<open>m\<close> whole bytes from byte \<open>q\<close>, after the prepared first byte.\<close>

lemma bm_window_write:
  assumes "good s" "F \<le> q" "q + m \<le> length (content s)" "F + m \<le> length buf" "int q < 2 ^ 31" "F \<le> 1"
  shows "\<exists>s'. pwrite s (s32 (drop_bit 3 (8 * int q) - int F)) (take (F + m) buf) = (s', Ok (int (F + m))) \<and> good s' \<and>
    content s' = bsplice (content s) (q - F) (take (F + m) buf)"
proof -
  have "drop_bit 3 (8 * int q) = int q" by (simp add: drop_bit_eq_div)
  moreover have "s32 (int q - int F) = int (q - F)" using assms(2,5,6) by (subst s32_id) (simp_all add: of_nat_diff)
  ultimately show ?thesis
    using pwrite_in [OF assms(1), of "q - F" "take (F + m) buf"] assms(2-4) by simp
qed

lemma bm_loop_step:
  assumes "bm_last pread v s buf (int n) a count (int F) k = Ok (buf', count', lb)" "n \<le> length buf'"
    "pwrite s (s32 (drop_bit 3 a - int F)) (take n buf') = (s', Ok (int n))"
    "s32 (push_bit 3 (int n - int F - b2i lb)) = tmp"
  shows "bm_loop pread pwrite v s buf (int n) a count (int F) k =
    (if lb \<and> count' - tmp \<noteq> 0 then Some (s', Err EIO)
     else if count' - tmp > 0
     then bm_loop pread pwrite v s' (if int F \<noteq> 0 then buf'[0 := bm_fill v] else buf')
       (if int n > s32 (drop_bit 3 (count' - tmp + 7)) then s32 (drop_bit 3 (count' - tmp + 7)) else int n)
       (a + tmp) (count' - tmp) 0 (if lb then 0 else k)
     else Some (s', Ok ()))"
proof -
  have w: "bm_window buf' (int n) = Ok (take n buf')" using assms(2) by (simp add: bm_window_def)
  show ?thesis
    by (subst bm_loop.simps) (simp only: assms(1,3,4) w outcome.case prod.case Let_def refl simp_thms if_False)
qed

lemma bm_loop_ok:
  assumes "good s" "F \<le> 1" "F \<le> q" "-1 \<le> count" "8 * int q + count \<le> 8 * int (length (content s))" "q \<le> length (content s)"
    "8 * int q + count < 2 ^ 34 - 64"
    "F + 1 \<le> cap" "cap \<le> 8192" "n = min cap (F + nat ((count + 7) div 8))" "n \<le> length buf"
    "\<And>i. F \<le> i \<Longrightarrow> i < length buf \<Longrightarrow> buf ! i = bm_fill v" "k = nat (count mod 8)"
  shows "\<exists>s'. bm_loop pread pwrite v s buf (int n) (8 * int q) count (int F) k = Some (s', Ok ()) \<and> good s' \<and>
    bm_run (if F = 1 then (content s)[q - 1 := buf ! 0] else content s) (content s') v (8 * int q) count"
  using assms
proof (induction "nat (count + 1)" arbitrary: s F q count n buf k rule: less_induct)
  case less
  note prems = less.prems
  let ?c0 = "if F = 1 then (content s)[q - 1 := buf ! 0] else content s"
  have q31: "int q < 2 ^ 31" using prems(4,7) by simp
  have d8: "drop_bit 3 x = x div 8" for x :: int by (simp add: drop_bit_eq_div)
  show ?case
  proof (cases "count \<le> 0")
    case True
    then have "count = 0 \<or> count = -1" using prems(4) by auto
    then have c7: "(count + 7) div 8 = 0" by auto
    then have n: "n = F" using prems(8,10) by simp
    obtain s' where s': "pwrite s (s32 (drop_bit 3 (8 * int q) - int F)) (take (F + 0) buf) = (s', Ok (int (F + 0)))" "good s'"
      "content s' = bsplice (content s) (q - F) (take (F + 0) buf)"
      using bm_window_write [OF prems(1,3), of 0 buf] prems(2,6,11) q31 n by auto
    have run: "bm_run ?c0 (content s') v (8 * int q) 0"
      using bm_run_window [where w = "take (F + 0) buf" and F = F and m = 0 and q = q and c = "content s" and x = "buf ! 0" and L = False and v = v and k = 0 and ?c0.0 = ?c0]
        prems(2,3,6,11) n s'(3) by auto
    have "bm_loop pread pwrite v s buf (int n) (8 * int q) count (int F) k = Some (s', Ok ())"
      using True s'(1) n c7 prems(11) by (subst bm_loop.simps) (simp add: bm_last_def bm_window_def d8 s32_def)
    moreover have "bm_run ?c0 (content s') v (8 * int q) count"
      using run True by (auto simp: bm_run_def)
    ultimately show ?thesis using s'(2) by blast
  next
    case False
    define M where "M = nat ((count + 7) div 8)"
    have M: "int M = (count + 7) div 8" "1 \<le> M" "int M < 2 ^ 31 - 1" using False prems(7) by (auto simp: M_def)
    have k: "int k = count mod 8" "k < 8" using prems(13) by auto
    show ?thesis
    proof (cases "F + M \<le> cap")
      case fin: True
      then have n: "n = F + M" using prems(10) by (simp add: M_def)
      have qm: "q + M \<le> length (content s)" using prems(5) M(1) by linarith
      have lp: "s32 (drop_bit 3 (count + 7) + int F) = int (F + M)" using M prems(2) by (subst s32_id) (auto simp: d8)
      show ?thesis
      proof (cases "k = 0")
        case True
        then have M8: "8 * int M = count" using k(1) M(1) by presburger
        have lst: "bm_last pread v s buf (int n) (8 * int q) count (int F) k = Ok (buf, count, False)"
          using True by (simp add: bm_last_def)
        obtain s' where s': "pwrite s (s32 (drop_bit 3 (8 * int q) - int F)) (take (F + M) buf) = (s', Ok (int (F + M)))" "good s'"
          "content s' = bsplice (content s) (q - F) (take (F + M) buf)"
          using bm_window_write [OF prems(1,3) qm, of buf] prems(2,11) q31 n by auto
        have run: "bm_run ?c0 (content s') v (8 * int q) (8 * int M)"
          using bm_run_window [where w = "take (F + M) buf" and F = F and m = M and q = q and c = "content s" and x = "buf ! 0" and L = False and v = v and k = 0 and ?c0.0 = ?c0]
            prems(2,3,11,12) n qm s'(3) by auto
        have t1: "s32 (push_bit 3 (int n - int F - b2i False)) = count"
          using n M8 fin prems(9) by (subst s32_id) (auto simp: push_bit_eq_mult)
        have "bm_loop pread pwrite v s buf (int n) (8 * int q) count (int F) k = Some (s', Ok ())"
          by (subst bm_loop_step [OF lst _ _ t1, of s']) (use s'(1) n prems(11) in simp_all)
        then show ?thesis using s'(2) run M8 by auto
      next
        case kn: False
        have cd: "count = 8 * (count div 8) + int k" using k(1) by simp
        have k1: "1 \<le> int k" using kn by simp
        have Md: "int M = count div 8 + 1"
          unfolding M(1) by (rule int_div_pos_eq [of _ _ _ "int k - 1"]) (use cd k1 k(2) in auto)
        have M8: "8 * int M = count + 8 - int k" "q + M - 1 < length (content s)" using Md cd M(2) qm by auto
        have r3: "(8 * int q + count) div 8 = int (q + M - 1)"
          by (rule int_div_pos_eq [of _ _ _ "int k"]) (use cd k(2) Md M(2) in \<open>auto simp: of_nat_diff\<close>)
        let ?x = "content s ! (q + M - 1)"
        have rd: "bm_read1 pread s (drop_bit 3 (8 * int q + count)) = Ok ?x"
          using bm_read1_in [OF prems(1) M8(2)] r3 by (simp add: d8)
        obtain y where y: "bm_last_bits v ?x k count = (y, count - int k)" "\<forall>j < 8. bit y j = (if j < k then v else bit ?x j)"
          using bm_last_bits_eq [of k count v ?x] k False M8(1) M(2) by auto
        let ?buf = "buf[F + M - 1 := y]"
        have lst: "bm_last pread v s buf (int n) (8 * int q) count (int F) k = Ok (?buf, count - int k, True)"
        proof -
          have "aset buf (int (F + M) - 1) y = Ok ?buf" using n prems(11) M(2) by (simp add: aset_def nat_diff_distrib' nat_add_distrib)
          then show ?thesis using rd y(1) lp n kn False M(2) by (simp add: bm_last_def Let_def)
        qed
        obtain s' where s': "pwrite s (s32 (drop_bit 3 (8 * int q) - int F)) (take (F + M) ?buf) = (s', Ok (int (F + M)))" "good s'"
          "content s' = bsplice (content s) (q - F) (take (F + M) ?buf)"
          using bm_window_write [OF prems(1,3) qm, of ?buf] prems(2,11) q31 n by auto
        have b0: "F = 1 \<Longrightarrow> ?buf ! 0 = buf ! 0" using M(2) by simp
        have run: "bm_run ?c0 (content s') v (8 * int q) (8 * int M - (if True = True then 8 - int k else 0))"
          unfolding s'(3)
        proof (rule bm_run_window [where x = "buf ! 0"])
          show "take (F + M) ?buf ! i = bm_fill v" if "F \<le> i" "i < length (take (F + M) ?buf)" "\<not> (True = True \<and> i = F + M - 1)" for i
            using prems(12) that by auto
          show "0 < M \<and> k < 8 \<and> (\<forall>j < 8. bit (take (F + M) ?buf ! (F + M - 1)) j = (if j < k then v else bit ?x j))"
            using M(2) k(2) y(2) n prems(11) by simp
        qed (use prems(2,3,11) n qm b0 M(2) in auto)
        have t1: "s32 (push_bit 3 (int n - int F - b2i True)) = count - int k"
          using n M8(1) fin prems(9) by (subst s32_id) (auto simp: push_bit_eq_mult)
        have "bm_loop pread pwrite v s buf (int n) (8 * int q) count (int F) k = Some (s', Ok ())"
          by (subst bm_loop_step [OF lst _ _ t1, of s']) (use s'(1) n prems(11) in simp_all)
        then show ?thesis using s'(2) run M8(1) by auto
      qed
    next
      case nf: False
      then have n: "n = cap" using prems(10) by (simp add: M_def)
      define m where "m = cap - F"
      have m: "F + m = cap" "1 \<le> m" "m < M" using nf prems(8) by (auto simp: m_def)
      have cm: "8 * int m < count" using m(3) M(1) by linarith
      have qm: "q + m \<le> length (content s)" using cm prems(5) by linarith
      have lp: "s32 (drop_bit 3 (count + 7) + int F) = int (F + M)" using M prems(2) by (subst s32_id) (auto simp: d8)
      have lst: "bm_last pread v s buf (int n) (8 * int q) count (int F) k = Ok (buf, count, False)"
        using nf n lp M(2) by (auto simp: bm_last_def Let_def)
      obtain s' where s': "pwrite s (s32 (drop_bit 3 (8 * int q) - int F)) (take (F + m) buf) = (s', Ok (int (F + m)))" "good s'"
        "content s' = bsplice (content s) (q - F) (take (F + m) buf)"
        using bm_window_write [OF prems(1,3) qm, of buf] prems(2,11) q31 n m(1) by auto
      have run: "bm_run ?c0 (content s') v (8 * int q) (8 * int m)"
        using bm_run_window [where w = "take (F + m) buf" and F = F and m = m and q = q and c = "content s" and x = "buf ! 0" and L = False and v = v and k = 0 and ?c0.0 = ?c0]
          prems(2,3,11,12) n m(1) qm s'(3) by auto
      let ?buf = "if int F \<noteq> 0 then buf[0 := bm_fill v] else buf"
      let ?count = "count - 8 * int m" and ?q = "q + m"
      let ?n = "min cap (0 + nat ((?count + 7) div 8))"
      have len: "length (content s') = length (content s)" using run by (auto simp: bm_run_def)
      have t1: "s32 (push_bit 3 (int n - int F - b2i False)) = 8 * int m"
        using n m(1) prems(9) by (subst s32_id) (auto simp: push_bit_eq_mult)
      have t2: "s32 (drop_bit 3 (?count + 7)) = (?count + 7) div 8"
        using cm prems(7) by (subst s32_id) (auto simp: d8)
      have t3: "(if int n > (?count + 7) div 8 then (?count + 7) div 8 else int n) = int ?n"
        using n cm by (auto simp: min_def)
      have step: "bm_loop pread pwrite v s buf (int n) (8 * int q) count (int F) k =
          bm_loop pread pwrite v s' ?buf (int ?n) (8 * int ?q) ?count (int 0) k"
        by (subst bm_loop_step [OF lst _ _ t1, of s']) (use s'(1) n m(1) prems(11) t2 t3 cm in \<open>simp_all add: algebra_simps\<close>)
      have "\<exists>s''. bm_loop pread pwrite v s' ?buf (int ?n) (8 * int ?q) ?count (int 0) k = Some (s'', Ok ()) \<and> good s'' \<and>
         bm_run (if (0::nat) = 1 then (content s')[?q - 1 := ?buf ! 0] else content s') (content s'') v (8 * int ?q) ?count"
      proof (rule less.hyps)
        show "nat (?count + 1) < nat (count + 1)" using cm m(2) by simp
        show "k = nat (?count mod 8)" using prems(13) mod_mult_self1 [of count "- int m" 8] by (simp add: algebra_simps)
        show "?n \<le> length ?buf" using prems(11) n by (auto simp: min_def)
        show "?buf ! i = bm_fill v" if "i < length ?buf" for i
          using prems(2,12) that by (cases "i = 0"; cases "F = 0") auto
      qed (use s'(2) len prems(5-9) cm qm m(2) in auto)
      then obtain s'' where s'': "bm_loop pread pwrite v s' ?buf (int ?n) (8 * int ?q) ?count (int 0) k = Some (s'', Ok ())" "good s''"
        "bm_run (content s') (content s'') v (8 * int q + 8 * int m) ?count" by auto
      have "bm_run ?c0 (content s'') v (8 * int q) (8 * int m + ?count)"
        by (rule bm_run_trans [OF run s''(3)]) (use cm in auto)
      with step s'' show ?thesis by auto
    qed
  qed
qed

text \<open>The whole operation.\<close>

lemma set_bits_in_run_ok:
  assumes "good s" "0 \<le> a" "0 \<le> count" "a + count \<le> 8 * int (length (content s))" "a + count < 2 ^ 34 - 128" "\<And>n. alloc n"
  shows "\<exists>s'. ntfs_bitmap_set_bits_in_run alloc pread pwrite (Some s) a count v = Some (Some s', Ok ()) \<and> good s' \<and>
    bm_run (content s) (content s') v a count"
proof -
  have d8: "drop_bit 3 x = x div 8" for x :: int by (simp add: drop_bit_eq_div)
  define k where "k = nat (a mod 8)"
  have k: "int k = a mod 8" "k < 8" by (auto simp: k_def)
  define F where "F = (if k = 0 then 0 else 1 :: nat)"
  have Fb: "b2i (k \<noteq> 0) = int F" by (simp add: F_def)
  define n where "n = min 8192 (F + nat ((count - (if k \<noteq> 0 then 8 - int k else 0) + 7) div 8))"
  have pos: "0 \<le> (count - (if k \<noteq> 0 then 8 - int k else 0) + 7) div 8" using assms(3) k(2) by (auto simp: pos_imp_zdiv_nonneg_iff)
  have bs: "(if drop_bit 3 (count - (if k \<noteq> 0 then 8 - int k else 0) + 7) + int F > 8192 then 8192
      else drop_bit 3 (count - (if k \<noteq> 0 then 8 - int k else 0) + 7) + int F) = int n"
    using pos unfolding d8 n_def by (auto simp: min_def)
  let ?buf = "replicate n (bm_fill v)"
  define q where "q = nat ((a + 7) div 8)"
  have q: "int q = (a + 7) div 8" using assms(2) by (simp add: q_def)
  show ?thesis
  proof (cases "k = 0")
    case True
    then have aq: "a = 8 * int q" using k(1) q by presburger
    have "\<exists>s'. bm_loop pread pwrite v s ?buf (int n) (8 * int q) count (int 0) (nat (count mod 8)) = Some (s', Ok ()) \<and> good s' \<and>
      bm_run (if (0::nat) = 1 then (content s)[q - 1 := ?buf ! 0] else content s) (content s') v (8 * int q) count"
      by (rule bm_loop_ok [where cap = 8192]) (use assms aq True n_def F_def in auto)
    then show ?thesis
      using assms True bs Fb aq
      by (auto simp: ntfs_bitmap_set_bits_in_run_def k_def [symmetric] Let_def F_def)
  next
    case False
    have F: "F = 1" using False by (simp add: F_def)
    have ad: "a = 8 * (a div 8) + int k" "0 \<le> a div 8" using k(1) assms(2) by (simp_all add: pos_imp_zdiv_nonneg_iff)
    have qd: "int q = a div 8 + 1"
      unfolding q by (rule int_div_pos_eq [of _ _ _ "int k - 1"]) (use ad(1) k(2) False in auto)
    have q1: "1 \<le> q" "int (q - 1) = a div 8" "8 * int q = a + (8 - int k)" using qd ad by linarith+
    let ?x = "content s ! (q - 1)"
    have ql: "q - 1 < length (content s)" using q1 assms(3,4) k False by linarith
    have rd: "bm_read1 pread s (drop_bit 3 a) = Ok ?x" using bm_read1_in [OF assms(1) ql] q1(2) by (simp add: d8)
    define count' where "count' = (if count < 8 - int k then -1 else count - (8 - int k))"
    obtain y where y: "bm_first_bits v ?x k count = (y, count')" "\<forall>j < 8. bit y j = (if k \<le> j \<and> int j < int k + count then v else bit ?x j)"
      using bm_first_bits_eq [of k count v ?x] False k(2) assms(3) by (auto simp: count'_def)
    have n1: "1 \<le> n" by (simp add: n_def F)
    have st: "aset ?buf 0 y = Ok (?buf[0 := y])" using n1 by (simp add: aset_def)
    have al: "(a + 7) AND NOT 7 = 8 * int q"
    proof -
      have "(x AND NOT 7 :: int) = 8 * (x div 8)" for x
      proof -
        have m: "(7::int) = mask 3" by (simp add: mask_eq_exp_minus_1)
        have "x AND NOT (mask 3) = push_bit 3 (drop_bit 3 x)" by (rule bit_eqI) (auto simp: bit_simps)
        then show ?thesis by (simp add: m push_bit_eq_mult drop_bit_eq_div)
      qed
      then show ?thesis by (simp add: q)
    qed
    have nn: "n = min 8192 (1 + nat ((count' + 7) div 8))"
    proof (cases "count < 8 - int k")
      case True
      have "(count - (8 - int k) + 7) div 8 = 0" using True assms(3) False by (intro div_pos_pos_trivial) auto
      then show ?thesis using True False by (simp add: n_def F count'_def)
    next
      case N: False
      then show ?thesis using False by (simp add: n_def F count'_def)
    qed
    have "\<exists>s'. bm_loop pread pwrite v s (?buf[0 := y]) (int n) (8 * int q) count' (int 1) (nat (count' mod 8)) = Some (s', Ok ()) \<and> good s' \<and>
      bm_run (if (1::nat) = 1 then (content s)[q - 1 := (?buf[0 := y]) ! 0] else content s) (content s') v (8 * int q) count'"
    proof (rule bm_loop_ok [where cap = 8192])
      have "8 * int q + count' \<le> a + count \<or> 8 * int q + count' = 8 * int q - 1" using q1(3) by (auto simp: count'_def)
      then show "8 * int q + count' \<le> 8 * int (length (content s))" "8 * int q + count' < 2 ^ 34 - 64"
        using assms(3-5) ql q1 by auto
      show "- 1 \<le> count'" using k(2) by (auto simp: count'_def)
      show "?buf[0 := y] ! i = bm_fill v" if "1 \<le> i" "i < length (?buf[0 := y])" for i using that by simp
    qed (use assms(1) q1(1) ql nn in auto)
    then obtain s' where s': "bm_loop pread pwrite v s (?buf[0 := y]) (int n) (8 * int q) count' (int 1) (nat (count' mod 8)) = Some (s', Ok ())" "good s'"
      "bm_run ((content s)[q - 1 := y]) (content s') v (8 * int q) count'" using n1 by auto
    have run: "bm_run (content s) (content s') v a count"
      unfolding bm_run_def
    proof (intro conjI allI impI)
      show "length (content s') = length (content s)" using s'(3) by (simp add: bm_run_def)
      fix j assume j: "j < 8 * length (content s)"
      let ?i = "j div 8" and ?b = "j mod 8"
      have jb: "j = 8 * ?i + ?b" "?b < 8" by auto
      have b: "bm_bit (content s') j = (if 8 * int q \<le> int j \<and> int j < 8 * int q + count' then v else bm_bit ((content s)[q - 1 := y]) j)"
        using s'(3) j by (auto simp: bm_run_def)
      show "bm_bit (content s') j = (if a \<le> int j \<and> int j < a + count then v else bm_bit (content s) j)"
      proof (cases "?i = q - 1")
        case True
        have j2: "int j = a - int k + int ?b" using jb(1) True q1 by linarith
        have "bm_bit ((content s)[q - 1 := y]) j = bit y ?b" using True ql by (simp add: bm_bit_def)
        moreover have "\<not> 8 * int q \<le> int j" using j2 q1(3) jb(2) by linarith
        ultimately show ?thesis using b y(2) jb(2) j2 True by (auto simp: bm_bit_def)
      next
        case N: False
        have c: "bm_bit ((content s)[q - 1 := y]) j = bm_bit (content s) j" using N by (simp add: bm_bit_def)
        have "8 * int q \<le> int j \<and> int j < 8 * int q + count' \<longleftrightarrow> a \<le> int j \<and> int j < a + count"
        proof (cases "?i < q")
          case True
          then have "?i < q - 1" using N by simp
          then have "int j < a" using jb q1 by linarith
          then show ?thesis using q1(3) k(2) by linarith
        next
          case F: False
          then have "8 * int q \<le> int j" using jb(1) by linarith
          then show ?thesis using q1(3) k(2) by (auto simp: count'_def)
        qed
        then show ?thesis using b c by simp
      qed
    qed
    show ?thesis
      unfolding ntfs_bitmap_set_bits_in_run_def Let_def k_def [symmetric] option.case Fb bs
      using assms(2,3,6) False rd y(1) st al s'(1,2) run by (simp add: F)
  qed
qed

end

end
