(* ===== verification/Runlist_IO.thy ===== *)
theory Runlist_IO
  imports Device Runlist_Merge Bitmap_Run
begin

text \<open>
  Gather reads and scatter writes through a runlist, \<^verbatim>\<open>ntfs_rl_pread\<close> and \<^verbatim>\<open>ntfs_rl_pwrite\<close>
  of \<^verbatim>\<open>runlist.c\<close>. An interrupted call is retried without end, so the loops are partial
  functions whose value is \<open>None\<close> when they do not return.
\<close>

section \<open>Definitions\<close>

text \<open>The seek to the run that contains \<open>pos\<close>: its index and the byte offset where it starts.\<close>

function rl_seek_pos :: "runlist \<Rightarrow> nat \<Rightarrow> int \<Rightarrow> int \<Rightarrow> int \<Rightarrow> (int \<times> int) outcome" where
  "rl_seek_pos rl bits pos i ofs =
     (if 0 \<le> i \<and> i < int (length rl)
      then (let e = rl ! nat i in
            if rlen e \<noteq> 0 \<and> ofs + push_bit bits (rlen e) \<le> pos
            then rl_seek_pos rl bits pos (i + 1) (ofs + push_bit bits (rlen e))
            else Ok (i, ofs))
      else Fault)"
  by pat_completeness auto
termination
  by (relation "measure (\<lambda>(rl, bits, pos, i, ofs). nat (int (length rl) - i))") auto

declare rl_seek_pos.simps [simp del]

text \<open>The label \<^verbatim>\<open>rl_err_out\<close>: a partial transfer is returned as such.\<close>

definition rl_read_fail :: "u8 list \<Rightarrow> errno \<Rightarrow> u8 list outcome option" where
  "rl_read_fail acc err = Some (if acc \<noteq> [] then Ok acc else Err err)"

partial_function (option) rl_read_loop ::
  "(int \<Rightarrow> int \<Rightarrow> u8 list outcome) \<Rightarrow> nat \<Rightarrow> runlist \<Rightarrow> int \<Rightarrow> int \<Rightarrow> int \<Rightarrow> u8 list \<Rightarrow> u8 list outcome option" where
  "rl_read_loop pread bits rl i ofs count acc =
     (if count = 0 then Some (Ok acc)
      else case aget rl i of Err e \<Rightarrow> Some (Err e) | Fault \<Rightarrow> Some Fault
      | Ok e \<Rightarrow>
          if rlen e = 0 then rl_read_fail acc EIO
          else let to_read = min count (push_bit bits (rlen e) - ofs) in
          if lcn e < 0
          then if lcn e \<noteq> LCN_HOLE then rl_read_fail acc EIO
               else rl_read_loop pread bits rl (i + 1) 0 (count - to_read) (acc @ replicate (nat to_read) 0)
          else case pread (push_bit bits (lcn e) + ofs) to_read of
                 Ok bs \<Rightarrow> if bs \<noteq> []
                          then rl_read_loop pread bits rl (i + 1) 0 (count - int (length bs)) (acc @ bs)
                          else rl_read_fail acc EIO
               | Err err \<Rightarrow> if err = EINTR then rl_read_loop pread bits rl i ofs count acc
                            else rl_read_fail acc err
               | Fault \<Rightarrow> Some Fault)"

declare rl_read_loop.simps [code]

definition ntfs_rl_pread ::
  "'d dev_ops \<Rightarrow> 'd ndev \<Rightarrow> ntfs_volume option \<Rightarrow> runlist option \<Rightarrow> int \<Rightarrow> int \<Rightarrow> u8 list outcome option" where
  "ntfs_rl_pread ops dev ovol orl pos count =
     (case (ovol, orl) of
        (Some vol, Some rl) \<Rightarrow>
          if pos < 0 \<or> count < 0 then Some (Err EINVAL)
          else if count = 0 then Some (Ok [])
          else let bits = unat (cluster_size_bits vol) in
               (case rl_seek_pos rl bits pos 0 0 of
                  Err e \<Rightarrow> Some (Err e) | Fault \<Rightarrow> Some Fault
                | Ok (i, ofs) \<Rightarrow> rl_read_loop (ntfs_pread ops dev) bits rl i (pos - ofs) count [])
      | _ \<Rightarrow> Some (Err EINVAL))"

text \<open>The write loop; \<open>b\<close> are the bytes left to write, \<open>written\<close> those done.\<close>

definition rl_write_fail :: "'d ndev \<Rightarrow> int \<Rightarrow> errno \<Rightarrow> ('d ndev \<times> int outcome) option" where
  "rl_write_fail dev written err = Some (dev, if written \<noteq> 0 then Ok written else Err err)"

partial_function (option) rl_write_loop ::
  "'d dev_ops \<Rightarrow> 'd ndev \<Rightarrow> bool \<Rightarrow> nat \<Rightarrow> runlist \<Rightarrow> int \<Rightarrow> int \<Rightarrow> u8 list \<Rightarrow> int \<Rightarrow> ('d ndev \<times> int outcome) option" where
  "rl_write_loop ops dev ro bits rl i ofs b written =
     (if b = [] then Some (dev, Ok written)
      else case aget rl i of Err e \<Rightarrow> Some (dev, Err e) | Fault \<Rightarrow> Some (dev, Fault)
      | Ok e \<Rightarrow>
          if rlen e = 0 then rl_write_fail dev written EIO
          else let to_write = min (int (length b)) (push_bit bits (rlen e) - ofs) in
          if lcn e < 0
          then if lcn e \<noteq> LCN_HOLE then rl_write_fail dev written EIO
               else rl_write_loop ops dev ro bits rl (i + 1) 0 (drop (nat to_write) b) (written + to_write)
          else case (if \<not> ro then ntfs_pwrite ops dev (push_bit bits (lcn e) + ofs) (take (nat to_write) b)
                     else (dev, Ok to_write)) of
                 (dev, Ok w) \<Rightarrow>
                   if w > 0 then rl_write_loop ops dev ro bits rl (i + 1) 0 (drop (nat w) b) (written + w)
                   else rl_write_fail dev written EIO
               | (dev, Err err) \<Rightarrow>
                   if err = EINTR then rl_write_loop ops dev ro bits rl i ofs b written
                   else rl_write_fail dev written err
               | (dev, Fault) \<Rightarrow> Some (dev, Fault))"

declare rl_write_loop.simps [code]

text \<open>\<open>ofs\<close> is the file offset of the first element of the runlist passed.\<close>

definition ntfs_rl_pwrite ::
  "'d dev_ops \<Rightarrow> 'd ndev \<Rightarrow> ntfs_volume option \<Rightarrow> runlist option \<Rightarrow> int \<Rightarrow> int \<Rightarrow> u8 list \<Rightarrow> ('d ndev \<times> int outcome) option" where
  "ntfs_rl_pwrite ops dev ovol orl ofs pos b =
     (case (ovol, orl) of
        (Some vol, Some rl) \<Rightarrow>
          if pos < 0 then Some (dev, Err EINVAL)
          else if b = [] then Some (dev, Ok 0)
          else let bits = unat (cluster_size_bits vol) in
               (case rl_seek_pos rl bits pos 0 ofs of
                  Err e \<Rightarrow> Some (dev, Err e) | Fault \<Rightarrow> Some (dev, Fault)
                | Ok (i, ofs) \<Rightarrow> rl_write_loop ops dev (vol_readonly vol) bits rl i (pos - ofs) b 0)
      | _ \<Rightarrow> Some (dev, Err EINVAL))"

end
