(* ===== verification/Runlist_Disk.thy ===== *)
theory Runlist_Disk
  imports Runlist_IO
begin

text \<open>
  Reading and writing through a runlist on the firmware's disk. The locale \<open>disk\<close> is the contract of
  \<^verbatim>\<open>EFI_DISK_IO_PROTOCOL\<close>; under it \<^verbatim>\<open>ntfs_rl_pread\<close> returns the bytes the runlist stands for,
  \<^verbatim>\<open>ntfs_rl_pwrite\<close> changes exactly the addressed ones, and an attribute stored in real runs is a
  \<open>byte_store\<close>, so the bitmap code works on it.
\<close>

section \<open>The contract of the firmware's disk\<close>

text \<open>\<^verbatim>\<open>EFI_DISK_IO_PROTOCOL\<close>: reads and writes of any byte range inside the media succeed; a read
  returns the bytes of the media, a write replaces exactly those it covers.\<close>

locale disk =
  fixes io :: "'d disk_io" and media :: "'d \<Rightarrow> u8 list" and stale :: errno
  assumes ReadDisk_in: "p + n \<le> length (media d) \<Longrightarrow> ReadDisk io d (int p) (int n) = Some (take n (drop p (media d)))"
    and WriteDisk_in: "p + length b \<le> length (media d) \<Longrightarrow>
      \<exists>d'. WriteDisk io d (int p) b = (d', True) \<and> media d' = bsplice (media d) p b"
begin

lemma ntfs_pread_in:
  assumes "p + n \<le> length (media (d_private dev))"
  shows "ntfs_pread (ntfs_device_uefi_io_ops io stale) dev (int p) (int n) = Ok (take n (drop p (media (d_private dev))))"
proof (cases "n = 0")
  case False
  let ?bs = "take n (drop p (media (d_private dev)))"
  have l: "length ?bs = n" using assms by simp
  have "dev_pread_loop (ntfs_device_uefi_io_ops io stale) (d_private dev) (int p) (int n) [] = Ok ?bs"
    using False l ReadDisk_in [OF assms]
    by (subst dev_pread_loop.simps, subst dev_pread_loop.simps)
      (auto simp: ntfs_device_uefi_io_ops_def ntfs_device_uefi_pread_def)
  then show ?thesis using False by (simp add: ntfs_pread_def)
qed (simp add: ntfs_pread_def)

lemma ntfs_pwrite_in:
  assumes "p + length b \<le> length (media (d_private dev))" "\<not> d_readonly dev"
  shows "\<exists>d'. ntfs_pwrite (ntfs_device_uefi_io_ops io stale) dev (int p) b = (dev\<lparr>d_private := d', d_dirty := d_dirty dev \<or> b \<noteq> []\<rparr>, Ok (int (length b))) \<and>
    media d' = bsplice (media (d_private dev)) p b"
proof (cases "b = []")
  case True
  then show ?thesis by (intro exI [of _ "d_private dev"]) (simp add: ntfs_pwrite_def bsplice_def)
next
  case False
  obtain d' where d': "WriteDisk io (d_private dev) (int p) b = (d', True)" "media d' = bsplice (media (d_private dev)) p b"
    using WriteDisk_in [OF assms(1)] by blast
  have "dev_pwrite_loop (ntfs_device_uefi_io_ops io stale) (d_private dev) (int p) b 0 = (d', Ok (int (length b)))"
    using False d'(1)
    by (subst dev_pwrite_loop.simps, subst dev_pwrite_loop.simps)
      (auto simp: ntfs_device_uefi_io_ops_def ntfs_device_uefi_pwrite_def)
  then show ?thesis
    using False assms(2) d'(2) by (auto simp: ntfs_pwrite_def dev_sync_after_def ntfs_device_uefi_io_ops_def ntfs_device_uefi_sync_def)
qed

end

section \<open>The bytes a runlist stands for\<close>

definition run_size :: "nat \<Rightarrow> runlist_element \<Rightarrow> nat" where
  "run_size bits r = nat (rlen r) * 2 ^ bits"

definition run_bytes :: "nat \<Rightarrow> u8 list \<Rightarrow> runlist_element \<Rightarrow> u8 list" where
  "run_bytes bits m r =
     (if lcn r < 0 then replicate (run_size bits r) 0
      else take (run_size bits r) (drop (nat (lcn r) * 2 ^ bits) m))"

definition rl_bytes :: "nat \<Rightarrow> u8 list \<Rightarrow> runlist \<Rightarrow> u8 list" where
  "rl_bytes bits m R = concat (map (run_bytes bits m) R)"

text \<open>A run that is a hole or lies on the media.\<close>

definition run_ok :: "nat \<Rightarrow> nat \<Rightarrow> runlist_element \<Rightarrow> bool" where
  "run_ok bits n r \<longleftrightarrow> 0 < rlen r \<and> LCN_HOLE \<le> lcn r \<and> (0 \<le> lcn r \<longrightarrow> nat (lcn r) * 2 ^ bits + run_size bits r \<le> n)"

lemma length_run_bytes: "run_ok bits (length m) r \<Longrightarrow> length (run_bytes bits m r) = run_size bits r"
  by (auto simp: run_ok_def run_bytes_def)

lemma rl_bytes_simps [simp]: "rl_bytes bits m [] = []" "rl_bytes bits m (r # R) = run_bytes bits m r @ rl_bytes bits m R"
  by (simp_all add: rl_bytes_def)

lemma rl_bytes_append: "rl_bytes bits m (X @ Y) = rl_bytes bits m X @ rl_bytes bits m Y"
  by (simp add: rl_bytes_def)

lemma run_size_pos: "run_ok bits n r \<Longrightarrow> 0 < run_size bits r"
  by (simp add: run_ok_def run_size_def)

lemma push_bit_run: "run_ok bits n r \<Longrightarrow> push_bit bits (rlen r) = int (run_size bits r)"
  by (simp add: run_ok_def run_size_def push_bit_eq_mult)

lemma rl_seek_pos_eq:
  assumes "list_all (run_ok bits (length m)) R" "rlen t = 0" "o0 \<le> pos"
  shows "\<exists>X Y. R = X @ Y \<and> rl_seek_pos (Q @ R @ t # J) bits (int pos) (int (length Q)) (int o0) =
      Ok (int (length Q + length X), int (o0 + length (rl_bytes bits m X))) \<and>
    o0 + length (rl_bytes bits m X) \<le> pos \<and> (Y \<noteq> [] \<longrightarrow> pos < o0 + length (rl_bytes bits m X) + run_size bits (hd Y))"
  using assms(1,3)
proof (induction R arbitrary: Q o0)
  case Nil
  then show ?case using assms(2) by (subst rl_seek_pos.simps) auto
next
  case (Cons r R)
  have r: "run_ok bits (length m) r" "rlen r \<noteq> 0" using Cons.prems by (auto simp: run_ok_def)
  show ?case
  proof (cases "o0 + run_size bits r \<le> pos")
    case True
    have s: "rl_seek_pos (Q @ (r # R) @ t # J) bits (int pos) (int (length Q)) (int o0) =
        rl_seek_pos ((Q @ [r]) @ R @ t # J) bits (int pos) (int (length (Q @ [r]))) (int (o0 + run_size bits r))"
      using True r push_bit_run [OF r(1)] by (subst rl_seek_pos.simps) (simp add: add.commute)
    have "list_all (run_ok bits (length m)) R" using Cons.prems(1) by simp
    from Cons.IH [OF this True, of "Q @ [r]"]
    obtain X Y where "R = X @ Y" "rl_seek_pos ((Q @ [r]) @ R @ t # J) bits (int pos) (int (length (Q @ [r]))) (int (o0 + run_size bits r)) =
      Ok (int (length (Q @ [r]) + length X), int (o0 + run_size bits r + length (rl_bytes bits m X)))"
      "o0 + run_size bits r + length (rl_bytes bits m X) \<le> pos" "Y \<noteq> [] \<longrightarrow> pos < o0 + run_size bits r + length (rl_bytes bits m X) + run_size bits (hd Y)"
      by (elim exE conjE) (rule that)
    then show ?thesis
      using s length_run_bytes [OF r(1)] by (intro exI [of _ "r # X"] exI [of _ Y]) (simp add: add.assoc)
  next
    case False
    then show ?thesis
      using r push_bit_run [OF r(1)] Cons.prems(2)
      by (intro exI [of _ "[]"] exI [of _ "r # R"]) (subst rl_seek_pos.simps, simp)
  qed
qed

lemma take_drop_append:
  assumes "p \<le> length A"
  shows "take n (drop p (A @ B)) = take (min n (length A - p)) (drop p A) @ take (n - min n (length A - p)) B"
  using assms by (auto simp: min_def)

section \<open>Reading\<close>

context disk
begin

abbreviation "ops \<equiv> ntfs_device_uefi_io_ops io stale"

lemma rl_read_loop_eq:
  assumes "list_all (run_ok bits (length (media (d_private dev)))) R"
    "p + n \<le> length (rl_bytes bits (media (d_private dev)) R)" "R \<noteq> [] \<longrightarrow> p < run_size bits (hd R)"
  shows "rl_read_loop (ntfs_pread ops dev) bits (Q @ R @ t # J) (int (length Q)) (int p) (int n) acc =
    Some (Ok (acc @ take n (drop p (rl_bytes bits (media (d_private dev)) R))))"
  using assms
proof (induction R arbitrary: Q p n acc)
  case Nil
  then show ?case by (subst rl_read_loop.simps) simp
next
  case (Cons r R)
  let ?m = "media (d_private dev)"
  have r: "run_ok bits (length ?m) r" "rlen r \<noteq> 0" using Cons.prems by (auto simp: run_ok_def)
  have p: "p < run_size bits r" using Cons.prems(3) by simp
  note lr = length_run_bytes [OF r(1)]
  show ?case
  proof (cases "n = 0")
    case True
    then show ?thesis by (subst rl_read_loop.simps) simp
  next
    case False
    define k where "k = min n (run_size bits r - p)"
    have k: "min (int n) (push_bit bits (rlen r) - int p) = int k" "0 < k" "k \<le> n" "p + k \<le> run_size bits r"
      using p False push_bit_run [OF r(1)] by (auto simp: k_def min_def)
    have g: "aget (Q @ (r # R) @ t # J) (int (length Q)) = Ok r" by (simp add: c_arr)
    let ?bs = "take k (drop p (run_bytes bits ?m r))"
    have lb: "length ?bs = k" using lr k(4) by simp
    have IH: "rl_read_loop (ntfs_pread ops dev) bits ((Q @ [r]) @ R @ t # J) (int (length (Q @ [r]))) (int 0) (int (n - k)) (acc @ ?bs) =
      Some (Ok ((acc @ ?bs) @ take (n - k) (drop 0 (rl_bytes bits ?m R))))"
    proof (rule Cons.IH)
      show "0 + (n - k) \<le> length (rl_bytes bits ?m R)" using Cons.prems(2) lr by (auto simp: k_def min_def)
      show "R \<noteq> [] \<longrightarrow> 0 < run_size bits (hd R)" using Cons.prems(1) run_size_pos by (cases R) auto
    qed (use Cons.prems(1) in simp)
    have res: "acc @ take n (drop p (rl_bytes bits ?m (r # R))) = (acc @ ?bs) @ take (n - k) (drop 0 (rl_bytes bits ?m R))"
      using take_drop_append [of p "run_bytes bits ?m r" n "rl_bytes bits ?m R"] p lr by (simp add: k_def)
    show ?thesis
    proof (cases "lcn r < 0")
      case True
      then have "lcn r = LCN_HOLE" "?bs = replicate k 0" using r(1) k(4) by (auto simp: run_ok_def lcn_defs run_bytes_def)
      then show ?thesis
        unfolding res using True IH False g r(2) k(1,3)
        by (subst rl_read_loop.simps) (simp add: Let_def of_nat_diff add.commute)
    next
      case real: False
      have "nat (lcn r) * 2 ^ bits + p + k \<le> length ?m" using r(1) k(4) real by (auto simp: run_ok_def)
      then have "ntfs_pread ops dev (int (nat (lcn r) * 2 ^ bits + p)) (int k) = Ok (take k (drop (nat (lcn r) * 2 ^ bits + p) ?m))"
        by (rule ntfs_pread_in)
      moreover have "take k (drop (nat (lcn r) * 2 ^ bits + p) ?m) = ?bs"
        using real k(4) by (simp add: run_bytes_def drop_take take_take add.commute min.absorb1)
      moreover have "int (nat (lcn r) * 2 ^ bits + p) = push_bit bits (lcn r) + int p" using real by (simp add: push_bit_eq_mult)
      ultimately have pr: "ntfs_pread ops dev (push_bit bits (lcn r) + int p) (int k) = Ok ?bs" by simp
      have "?bs \<noteq> []" using lb k(2) by auto
      then show ?thesis
        unfolding res using real IH False g r(2) k(1,3) pr lb
        by (subst rl_read_loop.simps) (simp add: Let_def of_nat_diff add.commute)
    qed
  qed
qed

lemma ntfs_rl_pread_eq:
  assumes "list_all (run_ok (unat (cluster_size_bits vol)) (length (media (d_private dev)))) R" "rlen t = 0"
    "p + n \<le> length (rl_bytes (unat (cluster_size_bits vol)) (media (d_private dev)) R)"
  shows "ntfs_rl_pread ops dev (Some vol) (Some (R @ t # J)) (int p) (int n) =
    Some (Ok (take n (drop p (rl_bytes (unat (cluster_size_bits vol)) (media (d_private dev)) R))))"
proof (cases "n = 0")
  case False
  let ?bits = "unat (cluster_size_bits vol)" and ?m = "media (d_private dev)"
  from rl_seek_pos_eq [OF assms(1,2) le0 [of p], of "[]" J]
  obtain X Y where XY: "R = X @ Y" "rl_seek_pos ([] @ R @ t # J) ?bits (int p) (int (length ([] :: runlist))) (int 0) =
      Ok (int (length ([] :: runlist) + length X), int (0 + length (rl_bytes ?bits ?m X)))"
    "0 + length (rl_bytes ?bits ?m X) \<le> p" "Y \<noteq> [] \<longrightarrow> p < 0 + length (rl_bytes ?bits ?m X) + run_size ?bits (hd Y)"
    by (elim exE conjE) (rule that)
  let ?o = "p - length (rl_bytes ?bits ?m X)"
  have "rl_read_loop (ntfs_pread ops dev) ?bits (X @ Y @ t # J) (int (length X)) (int ?o) (int n) [] =
      Some (Ok ([] @ take n (drop ?o (rl_bytes ?bits ?m Y))))"
    by (rule rl_read_loop_eq) (use XY assms in \<open>auto simp: list_all_append rl_bytes_append\<close>)
  then show ?thesis
    using False XY by (simp add: ntfs_rl_pread_def Let_def of_nat_diff rl_bytes_append)
qed (simp add: ntfs_rl_pread_def)

end

section \<open>Writing\<close>

text \<open>The media addresses behind a runlist of real runs, in the order of the bytes they hold. Two runs
  of one attribute never share a cluster, so the addresses are distinct.\<close>

definition run_addrs :: "nat \<Rightarrow> runlist_element \<Rightarrow> nat list" where
  "run_addrs bits r = [nat (lcn r) * 2 ^ bits ..< nat (lcn r) * 2 ^ bits + run_size bits r]"

definition rl_addrs :: "nat \<Rightarrow> runlist \<Rightarrow> nat list" where
  "rl_addrs bits R = concat (map (run_addrs bits) R)"

definition real_runs :: "nat \<Rightarrow> nat \<Rightarrow> runlist \<Rightarrow> bool" where
  "real_runs bits n R \<longleftrightarrow> list_all (\<lambda>r. run_ok bits n r \<and> 0 \<le> lcn r) R \<and> distinct (rl_addrs bits R)"

lemma rl_addrs_simps [simp]: "rl_addrs bits [] = []" "rl_addrs bits (r # R) = run_addrs bits r @ rl_addrs bits R"
  by (simp_all add: rl_addrs_def)

lemma rl_addrs_append: "rl_addrs bits (X @ Y) = rl_addrs bits X @ rl_addrs bits Y"
  by (simp add: rl_addrs_def)

lemma length_run_addrs [simp]: "length (run_addrs bits r) = run_size bits r"
  by (simp add: run_addrs_def)

lemma nth_run_addrs: "j < run_size bits r \<Longrightarrow> run_addrs bits r ! j = nat (lcn r) * 2 ^ bits + j"
  by (simp add: run_addrs_def)

lemma real_runs_Cons:
  "real_runs bits n (r # R) \<longleftrightarrow> run_ok bits n r \<and> 0 \<le> lcn r \<and> real_runs bits n R \<and> set (run_addrs bits r) \<inter> set (rl_addrs bits R) = {}"
  by (auto simp: real_runs_def run_addrs_def)

lemma real_runs_append: "real_runs bits n (X @ Y) \<longleftrightarrow> real_runs bits n X \<and> real_runs bits n Y \<and> set (rl_addrs bits X) \<inter> set (rl_addrs bits Y) = {}"
  by (induction X) (auto simp: real_runs_Cons rl_addrs_append, simp add: real_runs_def)

lemma real_runs_ok: "real_runs bits n R \<Longrightarrow> list_all (run_ok bits n) R"
  by (auto simp: real_runs_def list_all_iff)

lemma rl_addrs_in: "real_runs bits n R \<Longrightarrow> i \<in> set (rl_addrs bits R) \<Longrightarrow> i < n"
  by (auto simp: real_runs_def list_all_iff rl_addrs_def run_addrs_def run_ok_def)

lemma rl_bytes_addrs: "real_runs bits (length m) R \<Longrightarrow> rl_bytes bits m R = map ((!) m) (rl_addrs bits R)"
proof (induction R)
  case (Cons r R)
  have "run_bytes bits m r = map ((!) m) (run_addrs bits r)"
    using Cons.prems by (auto simp: real_runs_Cons run_ok_def run_bytes_def run_addrs_def intro!: nth_equalityI)
  then show ?case using Cons by (simp add: real_runs_Cons)
qed simp

text \<open>\<open>scatter m m' A p b\<close>: \<open>m'\<close> holds \<open>b\<close> at the addresses from position \<open>p\<close> of \<open>A\<close> on, and is \<open>m\<close> elsewhere.\<close>

definition scatter :: "u8 list \<Rightarrow> u8 list \<Rightarrow> nat list \<Rightarrow> nat \<Rightarrow> u8 list \<Rightarrow> bool" where
  "scatter m m' A p b \<longleftrightarrow> length m' = length m \<and>
     (\<forall>j < length A. m' ! (A ! j) = (if p \<le> j \<and> j < p + length b then b ! (j - p) else m ! (A ! j))) \<and>
     (\<forall>i < length m. i \<notin> set A \<longrightarrow> m' ! i = m ! i)"

lemma scatter_bytes:
  assumes "real_runs bits (length m) R" "scatter m m' (rl_addrs bits R) p b" "p + length b \<le> length (rl_addrs bits R)"
  shows "rl_bytes bits m' R = bsplice (rl_bytes bits m R) p b"
proof -
  have l: "length m' = length m" using assms(2) by (simp add: scatter_def)
  show ?thesis
    unfolding rl_bytes_addrs [OF assms(1)] using assms(1) l
    by (subst rl_bytes_addrs) (use assms(2,3) in \<open>auto simp: scatter_def nth_bsplice intro!: nth_equalityI\<close>)
qed

lemma scatter_nil: "scatter m m A p []"
  by (auto simp: scatter_def)

lemma scatter_step:
  assumes r: "real_runs bits (length m) (r # R)" "p < run_size bits r" "k = min (length b) (run_size bits r - p)"
    and m1: "m1 = bsplice m (nat (lcn r) * 2 ^ bits + p) (take k b)"
    and m2: "scatter m1 m2 (rl_addrs bits R) 0 (drop k b)"
  shows "scatter m m2 (rl_addrs bits (r # R)) p b"
proof -
  let ?a = "nat (lcn r) * 2 ^ bits"
  have ro: "?a + run_size bits r \<le> length m" using r(1) by (auto simp: real_runs_Cons run_ok_def)
  have k: "k \<le> length b" "p + k \<le> run_size bits r" using r(2,3) by auto
  have l1: "length m1 = length m" using ro k by (simp add: m1)
  have n1: "m1 ! i = (if ?a + p \<le> i \<and> i < ?a + p + k then b ! (i - (?a + p)) else m ! i)" if "i < length m" for i
    using that ro k by (auto simp: m1 nth_bsplice)
  have disj: "i \<notin> set (run_addrs bits r)" if "i \<in> set (rl_addrs bits R)" for i using r(1) that by (auto simp: real_runs_Cons)
  have R: "real_runs bits (length m) R" using r(1) by (simp add: real_runs_Cons)
  have "m2 ! (rl_addrs bits (r # R) ! j) = (if p \<le> j \<and> j < p + length b then b ! (j - p) else m ! (rl_addrs bits (r # R) ! j))"
    if j: "j < length (rl_addrs bits (r # R))" for j
  proof (cases "j < run_size bits r")
    case True
    have A: "rl_addrs bits (r # R) ! j = ?a + j" using True by (simp add: nth_append nth_run_addrs)
    have "?a + j \<in> set (run_addrs bits r)" using True by (simp add: run_addrs_def)
    then have "?a + j \<notin> set (rl_addrs bits R)" using disj by blast
    then have "m2 ! (?a + j) = m1 ! (?a + j)" using m2 True ro l1 by (simp add: scatter_def)
    then show ?thesis using A n1 [of "?a + j"] True ro r(3) by auto
  next
    case False
    let ?j = "j - run_size bits r"
    have j': "?j < length (rl_addrs bits R)" using j False by simp
    have A: "rl_addrs bits (r # R) ! j = rl_addrs bits R ! ?j" using False by (simp add: nth_append)
    have i: "rl_addrs bits R ! ?j \<in> set (rl_addrs bits R)" using j' by simp
    have "m1 ! (rl_addrs bits R ! ?j) = m ! (rl_addrs bits R ! ?j)"
      using n1 [OF rl_addrs_in [OF R i]] disj [OF i] k(2) by (auto simp: run_addrs_def)
    moreover have "m2 ! (rl_addrs bits R ! ?j) = (if ?j < length b - k then drop k b ! ?j else m1 ! (rl_addrs bits R ! ?j))"
      using m2 j' by (simp add: scatter_def)
    ultimately show ?thesis using A False r(2,3) by (auto simp: min_def)
  qed
  moreover have "m2 ! i = m ! i" if "i < length m" "i \<notin> set (rl_addrs bits (r # R))" for i
    using m2 that l1 n1 [OF that(1)] k(2) by (auto simp: scatter_def run_addrs_def)
  ultimately show ?thesis using m2 l1 by (simp add: scatter_def)
qed

context disk
begin

lemma rl_write_loop_eq:
  assumes "real_runs bits (length (media (d_private dev))) R" "\<not> d_readonly dev"
    "p + length b \<le> length (rl_addrs bits R)" "R \<noteq> [] \<longrightarrow> p < run_size bits (hd R)"
  shows "\<exists>dev'. rl_write_loop ops dev False bits (Q @ R @ t # J) (int (length Q)) (int p) b w = Some (dev', Ok (w + int (length b))) \<and>
    \<not> d_readonly dev' \<and> scatter (media (d_private dev)) (media (d_private dev')) (rl_addrs bits R) p b"
  using assms
proof (induction R arbitrary: Q p b w dev)
  case Nil
  then show ?case by (subst rl_write_loop.simps) (auto simp: scatter_nil)
next
  case (Cons r R)
  let ?m = "media (d_private dev)"
  have r: "run_ok bits (length ?m) r" "rlen r \<noteq> 0" "0 \<le> lcn r" using Cons.prems by (auto simp: real_runs_Cons run_ok_def)
  have p: "p < run_size bits r" using Cons.prems(4) by simp
  show ?case
  proof (cases "b = []")
    case True
    then show ?thesis using Cons.prems(2) by (subst rl_write_loop.simps) (auto simp: scatter_nil)
  next
    case False
    define k where "k = min (length b) (run_size bits r - p)"
    have k: "min (int (length b)) (push_bit bits (rlen r) - int p) = int k" "0 < k" "k \<le> length b" "p + k \<le> run_size bits r"
      using p False push_bit_run [OF r(1)] by (auto simp: k_def min_def)
    have g: "aget (Q @ (r # R) @ t # J) (int (length Q)) = Ok r" by (simp add: c_arr)
    have pos: "int (nat (lcn r) * 2 ^ bits + p) = push_bit bits (lcn r) + int p" using r(3) by (simp add: push_bit_eq_mult)
    have "nat (lcn r) * 2 ^ bits + p + length (take k b) \<le> length ?m" using r(1,3) k(3,4) by (auto simp: run_ok_def)
    then obtain d1 where d1: "ntfs_pwrite ops dev (push_bit bits (lcn r) + int p) (take k b) =
        (dev\<lparr>d_private := d1, d_dirty := d_dirty dev \<or> take k b \<noteq> []\<rparr>, Ok (int (length (take k b))))"
      "media d1 = bsplice ?m (nat (lcn r) * 2 ^ bits + p) (take k b)"
      using ntfs_pwrite_in [of "nat (lcn r) * 2 ^ bits + p" "take k b" dev] Cons.prems(2) unfolding pos by blast
    define dev1 where "dev1 = dev\<lparr>d_private := d1, d_dirty := d_dirty dev \<or> take k b \<noteq> []\<rparr>"
    have pw: "ntfs_pwrite ops dev (push_bit bits (lcn r) + int p) (take k b) = (dev1, Ok (int k))" using d1(1) k(3) by (simp add: dev1_def)
    have lm: "length (media d1) = length ?m" using d1(2) r(1,3) k(3,4) by (simp add: run_ok_def)
    have "\<exists>dev'. rl_write_loop ops dev1 False bits ((Q @ [r]) @ R @ t # J) (int (length (Q @ [r]))) (int 0) (drop k b) (w + int k) =
        Some (dev', Ok (w + int k + int (length (drop k b)))) \<and>
      \<not> d_readonly dev' \<and> scatter (media (d_private dev1)) (media (d_private dev')) (rl_addrs bits R) 0 (drop k b)"
    proof (rule Cons.IH)
      show "0 + length (drop k b) \<le> length (rl_addrs bits R)" using Cons.prems(3) by (auto simp: k_def min_def)
      show "R \<noteq> [] \<longrightarrow> 0 < run_size bits (hd R)"
        using real_runs_ok [OF Cons.prems(1)] run_size_pos by (cases R) auto
    qed (use Cons.prems(1,2) lm in \<open>auto simp: real_runs_Cons dev1_def\<close>)
    then obtain dev' where dev': "rl_write_loop ops dev1 False bits ((Q @ [r]) @ R @ t # J) (int (length (Q @ [r]))) (int 0) (drop k b) (w + int k) =
        Some (dev', Ok (w + int k + int (length (drop k b))))" "\<not> d_readonly dev'"
      "scatter (media d1) (media (d_private dev')) (rl_addrs bits R) 0 (drop k b)" by (auto simp: dev1_def)
    have "rl_write_loop ops dev False bits (Q @ (r # R) @ t # J) (int (length Q)) (int p) b w = Some (dev', Ok (w + int (length b)))"
      using dev'(1) False g r(2,3) k(1-3) pw by (subst rl_write_loop.simps) (simp add: Let_def of_nat_diff add.commute)
    moreover have "scatter ?m (media (d_private dev')) (rl_addrs bits (r # R)) p b"
      by (rule scatter_step [OF Cons.prems(1) p k_def d1(2) dev'(3)])
    ultimately show ?thesis using dev'(2) by blast
  qed
qed

lemma ntfs_rl_pwrite_eq:
  assumes "real_runs (unat (cluster_size_bits vol)) (length (media (d_private dev))) R" "rlen t = 0" "\<not> d_readonly dev" "\<not> vol_readonly vol"
    "p + length b \<le> length (rl_addrs (unat (cluster_size_bits vol)) R)"
  shows "\<exists>dev'. ntfs_rl_pwrite ops dev (Some vol) (Some (R @ t # J)) 0 (int p) b = Some (dev', Ok (int (length b))) \<and>
    \<not> d_readonly dev' \<and> scatter (media (d_private dev)) (media (d_private dev')) (rl_addrs (unat (cluster_size_bits vol)) R) p b"
proof (cases "b = []")
  case False
  let ?bits = "unat (cluster_size_bits vol)" and ?m = "media (d_private dev)"
  from rl_seek_pos_eq [OF real_runs_ok [OF assms(1)] assms(2) le0 [of p], of "[]" J]
  obtain X Y where XY: "R = X @ Y" "rl_seek_pos ([] @ R @ t # J) ?bits (int p) (int (length ([] :: runlist))) (int 0) =
      Ok (int (length ([] :: runlist) + length X), int (0 + length (rl_bytes ?bits ?m X)))"
    "0 + length (rl_bytes ?bits ?m X) \<le> p" "Y \<noteq> [] \<longrightarrow> p < 0 + length (rl_bytes ?bits ?m X) + run_size ?bits (hd Y)"
    by (elim exE conjE) (rule that)
  have rr: "real_runs ?bits (length ?m) X" "real_runs ?bits (length ?m) Y" "set (rl_addrs ?bits X) \<inter> set (rl_addrs ?bits Y) = {}"
    using assms(1) XY(1) by (simp_all add: real_runs_append)
  have lX: "length (rl_bytes ?bits ?m X) = length (rl_addrs ?bits X)" using rr(1) by (simp add: rl_bytes_addrs)
  let ?o = "p - length (rl_addrs ?bits X)"
  have "\<exists>dev'. rl_write_loop ops dev False ?bits (X @ Y @ t # J) (int (length X)) (int ?o) b 0 = Some (dev', Ok (0 + int (length b))) \<and>
    \<not> d_readonly dev' \<and> scatter ?m (media (d_private dev')) (rl_addrs ?bits Y) ?o b"
    by (rule rl_write_loop_eq) (use XY(1,3,4) lX assms(3,5) rr in \<open>auto simp: rl_addrs_append\<close>)
  then obtain dev' where dev': "rl_write_loop ops dev False ?bits (X @ Y @ t # J) (int (length X)) (int ?o) b 0 = Some (dev', Ok (int (length b)))"
    "\<not> d_readonly dev'" "scatter ?m (media (d_private dev')) (rl_addrs ?bits Y) ?o b" by auto
  have "scatter ?m (media (d_private dev')) (rl_addrs ?bits R) p b"
    using dev'(3) XY(3) lX rr(3) rl_addrs_in [OF rr(1)] unfolding XY(1) rl_addrs_append scatter_def
    by (auto simp: nth_append disjoint_iff)
  then show ?thesis
    using dev'(1,2) False XY(1-3) lX assms(4) by (simp add: ntfs_rl_pwrite_def Let_def of_nat_diff)
qed (use assms(3) in \<open>auto simp: ntfs_rl_pwrite_def scatter_nil\<close>)

end

section \<open>An attribute in real runs is a byte store\<close>

text \<open>The attribute's read and write functions on a device, for an attribute whose runlist is fully
  mapped.\<close>

definition rl_store_pread :: "'d disk_io \<Rightarrow> errno \<Rightarrow> ntfs_volume \<Rightarrow> runlist \<Rightarrow> 'd ndev pread_fn" where
  "rl_store_pread io stale vol rl dev pos count =
     (case ntfs_rl_pread (ntfs_device_uefi_io_ops io stale) dev (Some vol) (Some rl) pos count of
        None \<Rightarrow> Fault | Some r \<Rightarrow> r)"

definition rl_store_pwrite :: "'d disk_io \<Rightarrow> errno \<Rightarrow> ntfs_volume \<Rightarrow> runlist \<Rightarrow> 'd ndev pwrite_fn" where
  "rl_store_pwrite io stale vol rl dev pos b =
     (case ntfs_rl_pwrite (ntfs_device_uefi_io_ops io stale) dev (Some vol) (Some rl) 0 pos b of
        None \<Rightarrow> (dev, Fault) | Some r \<Rightarrow> r)"

locale disk_runs = disk io media stale
  for io :: "'d disk_io" and media :: "'d \<Rightarrow> u8 list" and stale :: errno +
  fixes vol :: ntfs_volume and R :: runlist and t :: runlist_element
  assumes terminator: "rlen t = 0" and writable: "\<not> vol_readonly vol"

text \<open>A good state: the device is writable and the runs lie on its media.\<close>

definition runs_good :: "('d \<Rightarrow> u8 list) \<Rightarrow> ntfs_volume \<Rightarrow> runlist \<Rightarrow> 'd ndev \<Rightarrow> bool" where
  "runs_good media vol R dev \<longleftrightarrow> \<not> d_readonly dev \<and>
     real_runs (unat (cluster_size_bits vol)) (length (media (d_private dev))) R"

definition runs_content :: "('d \<Rightarrow> u8 list) \<Rightarrow> ntfs_volume \<Rightarrow> runlist \<Rightarrow> 'd ndev \<Rightarrow> u8 list" where
  "runs_content media vol R dev = rl_bytes (unat (cluster_size_bits vol)) (media (d_private dev)) R"

sublocale disk_runs \<subseteq> byte_store "rl_store_pread io stale vol (R @ [t])" "rl_store_pwrite io stale vol (R @ [t])"
  "runs_content media vol R" "runs_good media vol R"
proof unfold_locales
  fix s p n
  assume "runs_good media vol R s" "p + n \<le> length (runs_content media vol R s)"
  then show "rl_store_pread io stale vol (R @ [t]) s (int p) (int n) = Ok (take n (drop p (runs_content media vol R s)))"
    using ntfs_rl_pread_eq [of vol s R t p n "[]"] terminator real_runs_ok
    by (auto simp: rl_store_pread_def runs_good_def runs_content_def)
next
  fix s p and w :: "u8 list"
  let ?bits = "unat (cluster_size_bits vol)"
  assume good: "runs_good media vol R s" and len: "p + length w \<le> length (runs_content media vol R s)"
  have rr: "real_runs ?bits (length (media (d_private s))) R" using good by (simp add: runs_good_def)
  have la: "p + length w \<le> length (rl_addrs ?bits R)" using len rr by (simp add: runs_content_def rl_bytes_addrs)
  obtain s' where s': "ntfs_rl_pwrite ops s (Some vol) (Some (R @ t # [])) 0 (int p) w = Some (s', Ok (int (length w)))"
    "\<not> d_readonly s'" "scatter (media (d_private s)) (media (d_private s')) (rl_addrs ?bits R) p w"
    using ntfs_rl_pwrite_eq [OF rr terminator _ writable la] good by (auto simp: runs_good_def)
  moreover have "length (media (d_private s')) = length (media (d_private s))" using s'(3) by (simp add: scatter_def)
  ultimately show "\<exists>s'. rl_store_pwrite io stale vol (R @ [t]) s (int p) w = (s', Ok (int (length w))) \<and> runs_good media vol R s' \<and>
      runs_content media vol R s' = bsplice (runs_content media vol R s) p w"
    using rr scatter_bytes [OF rr s'(3) la] by (auto simp: rl_store_pwrite_def runs_good_def runs_content_def)
qed

context disk_runs
begin

lemmas runs_set_bits = set_bits_in_run_ok

end

section \<open>A disk in memory\<close>

text \<open>The contract can be met: the media is a byte list.\<close>

definition ram_disk :: "u8 list disk_io" where
  "ram_disk = \<lparr>last_block = 0, block_size = 512,
     ReadDisk = (\<lambda>d p n. if 0 \<le> p \<and> 0 \<le> n \<and> p + n \<le> int (length d) then Some (take (nat n) (drop (nat p) d)) else None),
     WriteDisk = (\<lambda>d p b. if 0 \<le> p \<and> p + int (length b) \<le> int (length d) then (bsplice d (nat p) b, True) else (d, False))\<rparr>"

interpretation ram: disk ram_disk "\<lambda>d. d" EIO
  by unfold_locales (auto simp: ram_disk_def nat_add_distrib)

end
