(* ===== verification/Mapping_Pairs.thy ===== *)
theory Mapping_Pairs
  imports Runlist_Merge Volume
begin

text \<open>
  The on-disk form of a runlist, \<^verbatim>\<open>runlist.c\<close>: each run is a header byte with two byte
  counts, the run length and the change of the logical cluster number as little-endian signed
  numbers of minimal size, and a zero byte ends the array. The theory models the byte counting,
  the writer with its bounds checks, the parser with its checks on corrupt input, and relates
  them to a reference encoding.
\<close>

section \<open>Significant bytes\<close>

text \<open>The \<^verbatim>\<open>do ... while (l)\<close> loop of \<^verbatim>\<open>ntfs_get_nr_significant_bytes\<close>.\<close>

function nr_sig_loop :: "nat \<Rightarrow> int \<Rightarrow> int" where
  "nr_sig_loop l i = (let l' = drop_bit 8 l in if l' \<noteq> 0 then nr_sig_loop l' (i + 1) else i + 1)"
  by pat_completeness auto
termination
  by (relation "measure fst") (auto simp: drop_bit_eq_div)

declare nr_sig_loop.simps [simp del]

definition ntfs_get_nr_significant_bytes :: "int \<Rightarrow> int" where
  "ntfs_get_nr_significant_bytes n =
     (let l = nat (if n < 0 then NOT n else n)
      in if l \<ge> 128 then nr_sig_loop (drop_bit 7 l) 1 else 1)"

text \<open>\<^verbatim>\<open>ntfs_write_significant_bytes(dst + p, dst_max, n)\<close>: the buffer with the bytes
  written so far and the number of bytes, or \<open>-1\<close> when \<^verbatim>\<open>dst_max\<close> is passed.\<close>

function write_sig_loop :: "u8 list \<Rightarrow> int \<Rightarrow> int \<Rightarrow> int \<Rightarrow> int \<Rightarrow> (u8 list \<times> int) outcome" where
  "write_sig_loop dst p dst_max l i =
     (if l > 0x7f \<or> l < -0x80
      then if p > dst_max then Ok (dst, -1)
           else (let l' = drop_bit 8 l in
                 obind (aset dst p (word_of_int l')) (\<lambda>dst. write_sig_loop dst (p + 1) dst_max l' (i + 1)))
      else Ok (dst, i))"
  by pat_completeness auto
termination
  by (relation "measure (\<lambda>(dst, p, dst_max, l, i). nat \<bar>l\<bar>)") (auto simp: drop_bit_eq_div)

declare write_sig_loop.simps [simp del]

definition ntfs_write_significant_bytes ::
  "u8 list \<Rightarrow> int \<Rightarrow> int \<Rightarrow> int \<Rightarrow> (u8 list \<times> int) outcome" where
  "ntfs_write_significant_bytes dst p dst_max n =
     (if p > dst_max then Ok (dst, -1)
      else obind (aset dst p (word_of_int n)) (\<lambda>dst. write_sig_loop dst (p + 1) dst_max n 1))"

section \<open>Size of the mapping pairs array\<close>

text \<open>Whether the logical cluster number of a run is stored: holes are not from NTFS 3.0 on.\<close>

definition mp_store_lcn :: "ntfs_volume \<Rightarrow> runlist_element \<Rightarrow> bool" where
  "mp_store_lcn vol e \<longleftrightarrow> lcn e \<ge> 0 \<or> major_ver vol < 3"

text \<open>The error code of the \<^verbatim>\<open>err_out\<close> label.\<close>

definition mp_bad_run :: "runlist_element \<Rightarrow> errno" where
  "mp_bad_run e = (if lcn e = LCN_RL_NOT_MAPPED then EINVAL else EIO)"

text \<open>The loop over the full runs, from element \<open>i\<close> on.\<close>

function mp_size_full :: "ntfs_volume \<Rightarrow> runlist \<Rightarrow> int \<Rightarrow> int \<Rightarrow> int \<Rightarrow> int \<Rightarrow> int outcome" where
  "mp_size_full vol rl i prev_lcn rls max_size =
     (if 0 \<le> i \<and> i < int (length rl)
      then (let e = rl ! nat i in
            if rlen e \<noteq> 0 \<and> rls \<le> max_size
            then if rlen e < 0 \<or> lcn e < LCN_HOLE then Err (mp_bad_run e)
                 else (let rls = rls + 1 + ntfs_get_nr_significant_bytes (rlen e) in
                       if mp_store_lcn vol e
                       then mp_size_full vol rl (i + 1) (lcn e)
                              (rls + ntfs_get_nr_significant_bytes (lcn e - prev_lcn)) max_size
                       else mp_size_full vol rl (i + 1) prev_lcn rls max_size)
            else Ok rls)
      else Fault)"
  by pat_completeness auto
termination
  by (relation "measure (\<lambda>(vol, rl, i, p, r, m). nat (int (length rl) - i))") auto

declare mp_size_full.simps [simp del]

text \<open>The first partial run, when \<open>start_vcn\<close> lies inside element \<open>i\<close>: the new size and
  previous logical cluster number.\<close>

definition mp_size_partial ::
  "ntfs_volume \<Rightarrow> runlist_element \<Rightarrow> int \<Rightarrow> int \<Rightarrow> (int \<times> int) outcome" where
  "mp_size_partial vol e start_vcn rls =
     (if rlen e < 0 \<or> lcn e < LCN_HOLE then Err (mp_bad_run e)
      else (let delta = start_vcn - vcn e;
                rls = rls + 1 + ntfs_get_nr_significant_bytes (rlen e - delta) in
            if mp_store_lcn vol e
            then (let prev_lcn = (if lcn e \<ge> 0 then lcn e + delta else lcn e)
                  in Ok (rls + ntfs_get_nr_significant_bytes prev_lcn, prev_lcn))
            else Ok (rls, 0)))"

definition ntfs_get_size_for_mapping_pairs ::
  "ntfs_volume \<Rightarrow> runlist option \<Rightarrow> int \<Rightarrow> int \<Rightarrow> int outcome" where
  "ntfs_get_size_for_mapping_pairs vol orl start_vcn max_size =
     (if start_vcn < 0 then Err EINVAL
      else case orl of
        None \<Rightarrow> if start_vcn \<noteq> 0 then Err EINVAL else Ok 1
      | Some rl \<Rightarrow>
          obind (rl_seek rl start_vcn 0) (\<lambda>i.
          obind (aget rl i) (\<lambda>e.
          if rlen e = 0 \<and> start_vcn > vcn e \<or> start_vcn < vcn e then Err EINVAL
          else if start_vcn > vcn e
          then obind (mp_size_partial vol e start_vcn 1) (\<lambda>(rls, prev_lcn).
               mp_size_full vol rl (i + 1) prev_lcn rls max_size)
          else mp_size_full vol rl i 0 1 max_size)))"

section \<open>Building the array\<close>

text \<open>What \<^verbatim>\<open>ntfs_mapping_pairs_build\<close> leaves: the buffer, the index stored in
  \<^verbatim>\<open>*stop_rl\<close> if one is, and the error number, if any.\<close>

record mp_result =
  mp_dst :: "u8 list"
  mp_stop :: "int option"
  mp_err :: "errno option"

text \<open>One mapping pair at \<open>p\<close>: the new position, or \<open>-1\<close> for \<^verbatim>\<open>size_err\<close>. \<open>dlcn\<close> is the
  change of the logical cluster number, \<open>None\<close> when it is not stored.\<close>

definition mp_put ::
  "u8 list \<Rightarrow> int \<Rightarrow> int \<Rightarrow> int \<Rightarrow> int option \<Rightarrow> (u8 list \<times> int) outcome" where
  "mp_put dst p dst_max len dlcn =
     obind (ntfs_write_significant_bytes dst (p + 1) dst_max len) (\<lambda>(dst, len_len).
     if len_len < 0 then Ok (dst, -1)
     else obind (case dlcn of
                   Some d \<Rightarrow> ntfs_write_significant_bytes dst (p + 1 + len_len) dst_max d
                 | None \<Rightarrow> Ok (dst, 0)) (\<lambda>(dst, lcn_len).
     if lcn_len < 0 then Ok (dst, -1)
     else (let dst_next = p + len_len + lcn_len + 1 in
           if dst_next > dst_max then Ok (dst, -1)
           else obind (aset dst p (word_of_int (push_bit 4 lcn_len OR len_len))) (\<lambda>dst.
                Ok (dst, dst_next)))))"

text \<open>The labels \<^verbatim>\<open>ok\<close> and \<^verbatim>\<open>size_err\<close>: store the stop element and the terminator.\<close>

definition mp_finish :: "u8 list \<Rightarrow> int \<Rightarrow> int \<Rightarrow> errno option \<Rightarrow> mp_result outcome" where
  "mp_finish dst p i err =
     obind (aset dst p 0) (\<lambda>dst. Ok \<lparr>mp_dst = dst, mp_stop = Some i, mp_err = err\<rparr>)"

definition mp_fail :: "u8 list \<Rightarrow> errno \<Rightarrow> mp_result outcome" where
  "mp_fail dst err = Ok \<lparr>mp_dst = dst, mp_stop = None, mp_err = Some err\<rparr>"

function mp_build_full ::
  "ntfs_volume \<Rightarrow> u8 list \<Rightarrow> int \<Rightarrow> int \<Rightarrow> runlist \<Rightarrow> int \<Rightarrow> int \<Rightarrow> mp_result outcome" where
  "mp_build_full vol dst p dst_max rl i prev_lcn =
     (if 0 \<le> i \<and> i < int (length rl)
      then (let e = rl ! nat i in
            if rlen e = 0 then mp_finish dst p i None
            else if rlen e < 0 \<or> lcn e < LCN_HOLE then mp_fail dst (mp_bad_run e)
            else (let store = mp_store_lcn vol e in
                  obind (mp_put dst p dst_max (rlen e) (if store then Some (lcn e - prev_lcn) else None)) (\<lambda>(dst, p').
                  if p' < 0 then mp_finish dst p i (Some ENOSPC)
                  else mp_build_full vol dst p' dst_max rl (i + 1) (if store then lcn e else prev_lcn))))
      else Fault)"
  by pat_completeness auto
termination
  by (relation "measure (\<lambda>(vol, dst, p, dm, rl, i, pl). nat (int (length rl) - i))") auto

declare mp_build_full.simps [simp del]

definition mp_build_partial ::
  "ntfs_volume \<Rightarrow> u8 list \<Rightarrow> int \<Rightarrow> runlist \<Rightarrow> int \<Rightarrow> runlist_element \<Rightarrow> int \<Rightarrow> mp_result outcome" where
  "mp_build_partial vol dst dst_max rl i e start_vcn =
     (if rlen e < 0 \<or> lcn e < LCN_HOLE then mp_fail dst (mp_bad_run e)
      else (let delta = start_vcn - vcn e;
                store = mp_store_lcn vol e;
                prev_lcn = (if store then if lcn e \<ge> 0 then lcn e + delta else lcn e else 0) in
            obind (mp_put dst 0 dst_max (rlen e - delta) (if store then Some prev_lcn else None)) (\<lambda>(dst, p).
            if p < 0 then mp_finish dst 0 i (Some ENOSPC)
            else mp_build_full vol dst p dst_max rl (i + 1) prev_lcn)))"

definition ntfs_mapping_pairs_build ::
  "ntfs_volume \<Rightarrow> u8 list \<Rightarrow> int \<Rightarrow> runlist option \<Rightarrow> int \<Rightarrow> mp_result outcome" where
  "ntfs_mapping_pairs_build vol dst dst_len orl start_vcn =
     (if start_vcn < 0 then mp_fail dst EINVAL
      else case orl of
        None \<Rightarrow>
          if start_vcn \<noteq> 0 then mp_fail dst EINVAL
          else if dst_len < 1 then mp_fail dst ENOSPC
          else obind (aset dst 0 0) (\<lambda>dst. Ok \<lparr>mp_dst = dst, mp_stop = None, mp_err = None\<rparr>)
      | Some rl \<Rightarrow>
          obind (rl_seek rl start_vcn 0) (\<lambda>i.
          obind (aget rl i) (\<lambda>e.
          if rlen e = 0 \<and> start_vcn > vcn e \<or> start_vcn < vcn e then mp_fail dst EINVAL
          else if start_vcn > vcn e then mp_build_partial vol dst (dst_len - 1) rl i e start_vcn
          else mp_build_full vol dst 0 (dst_len - 1) rl i 0)))"

section \<open>Parsing the array\<close>

text \<open>A non-resident attribute record: its decoded header fields and \<open>ar_mem\<close>, the readable
  memory from the start of the record on.\<close>

record attr_nonres =
  ar_mem :: "u8 list"
  ar_non_resident :: bool
  ar_length :: u32
  ar_mapping_pairs_offset :: u16
  ar_lowest_vcn :: int
  ar_highest_vcn :: int
  ar_allocated_size :: int

text \<open>\<^verbatim>\<open>for (deltaxcn = (s8)buf[b--]; b > lo; b--) deltaxcn = (deltaxcn << 8) + buf[b]\<close>\<close>

fun mp_num_loop :: "u8 list \<Rightarrow> int \<Rightarrow> nat \<Rightarrow> nat \<Rightarrow> int \<Rightarrow> int outcome" where
  "mp_num_loop mem buf lo 0 d = Ok d"
| "mp_num_loop mem buf lo (Suc b) d =
     (if Suc b > lo
      then obind (aget mem (buf + int (Suc b))) (\<lambda>x.
           mp_num_loop mem buf lo b (s64 (push_bit 8 d + uint x)))
      else Ok d)"

definition mp_num :: "u8 list \<Rightarrow> int \<Rightarrow> nat \<Rightarrow> nat \<Rightarrow> int outcome" where
  "mp_num mem buf lo b =
     obind (aget mem (buf + int b)) (\<lambda>x. mp_num_loop mem buf lo (b - 1) (sint x))"

text \<open>One mapping pair at \<open>buf\<close>: the length and the new logical cluster number together with
  that of the run. Both error labels set \<^verbatim>\<open>EIO\<close>.\<close>

definition mp_take :: "u8 list \<Rightarrow> int \<Rightarrow> int \<Rightarrow> u8 \<Rightarrow> int \<Rightarrow> (int \<times> int \<times> int) outcome" where
  "mp_take mem attr_end buf h l =
     (let b = unat (h AND 0xf); b2 = unat (h AND 0xf) + unat (drop_bit 4 h AND 0xf) in
      obind (if b \<noteq> 0
             then if buf + int b > attr_end then Err EIO else mp_num mem buf 0 b
             else Ok (-1)) (\<lambda>len.
      if len < 0 then Err EIO
      else if h AND 0xf0 = 0 then Ok (len, LCN_HOLE, l)
      else if buf + int b2 > attr_end then Err EIO
      else obind (mp_num mem buf b b2) (\<lambda>delta.
           let l' = s64 (l + delta) in
           if l' < -1 then Err EIO else Ok (len, l', l'))))"

text \<open>The bytes of a mapping pair, from its header.\<close>

definition mp_skip :: "u8 \<Rightarrow> nat" where
  "mp_skip h = unat (h AND 0xf) + unat (drop_bit 4 h AND 0xf) + 1"

lemma mp_skip_pos [simp]: "0 < mp_skip h"
  by (simp add: mp_skip_def)

text \<open>The parse loop; \<open>rlsize\<close> is the size of the block in bytes, \<open>rlpos\<close> is a 16-bit index.
  The result is the position, the cluster numbers, the block and the index at the end.\<close>

function mp_parse ::
  "runlist_element heap \<Rightarrow> u8 list \<Rightarrow> int \<Rightarrow> int \<Rightarrow> int \<Rightarrow> int \<Rightarrow> runlist \<Rightarrow> int \<Rightarrow> int \<Rightarrow>
     (int \<times> int \<times> runlist \<times> int) outcome" where
  "mp_parse H mem attr_end buf v l rl rlsize rlpos =
     (if buf < attr_end
      then obind (aget mem buf) (\<lambda>h.
           if h = 0 then Ok (buf, v, rl, rlpos)
           else let grow = (rlpos + 3) * rle_size > rlsize;
                    rlsize' = (if grow then rlsize + 0x1000 else rlsize) in
                obind (if grow then c_realloc H rl rlsize' rle_size else Ok rl) (\<lambda>rl.
                obind (mp_take mem attr_end buf h l) (\<lambda>(len, rlcn, l').
                obind (aset rl rlpos \<lparr>vcn = v, lcn = rlcn, rlen = len\<rparr>) (\<lambda>rl.
                mp_parse H mem attr_end (buf + int (mp_skip h))
                  (s64 (v + len)) l' rl rlsize' ((rlpos + 1) mod 0x10000)))))
      else Ok (buf, v, rl, rlpos))"
  by pat_completeness auto
termination
  by (relation "measure (\<lambda>(H, mem, attr_end, buf, v, l, rl, rlsize, rlpos). nat (attr_end - buf))") auto

declare mp_parse.simps [simp del]

text \<open>After the loop: the checks against \<^verbatim>\<open>highest_vcn\<close> and \<^verbatim>\<open>allocated_size\<close>, the unmapped
  element that stands for further extents, and the terminator.\<close>

definition mp_terminate ::
  "ntfs_volume \<Rightarrow> attr_nonres \<Rightarrow> int \<Rightarrow> runlist \<Rightarrow> int \<Rightarrow> runlist outcome" where
  "mp_terminate vol attr v rl rlpos =
     (if ar_highest_vcn attr \<noteq> 0 \<and> v - 1 \<noteq> ar_highest_vcn attr then Err EIO
      else if ar_lowest_vcn attr = 0
      then (let num_clusters =
                  drop_bit (unat (cluster_size_bits vol))
                    (s64 (ar_allocated_size attr + uint (cluster_size vol) - 1)) in
            if num_clusters > v
            then obind (aset rl rlpos \<lparr>vcn = v, lcn = LCN_RL_NOT_MAPPED, rlen = num_clusters - v\<rparr>) (\<lambda>rl.
                 aset rl ((rlpos + 1) mod 0x10000) \<lparr>vcn = num_clusters, lcn = LCN_ENOENT, rlen = 0\<rparr>)
            else if v > num_clusters then Err EIO
            else aset rl rlpos \<lparr>vcn = v, lcn = LCN_ENOENT, rlen = 0\<rparr>)
      else aset rl rlpos \<lparr>vcn = v, lcn = LCN_RL_NOT_MAPPED, rlen = 0\<rparr>)"

definition ntfs_mapping_pairs_decompress_i ::
  "runlist_element heap \<Rightarrow> ntfs_volume \<Rightarrow> attr_nonres option \<Rightarrow> runlist option \<Rightarrow> runlist option outcome" where
  "ntfs_mapping_pairs_decompress_i H vol oattr old_rl =
     (case oattr of None \<Rightarrow> Err EINVAL
      | Some attr \<Rightarrow>
          if \<not> ar_non_resident attr \<or> ar_lowest_vcn attr < 0 then Err EINVAL
          else let v = ar_lowest_vcn attr;
                   buf = uint (ar_mapping_pairs_offset attr);
                   attr_end = uint (ar_length attr) in
          if buf > attr_end then Err EIO
          else if \<not> alloc_ok H 0x1000 then Err ENOMEM
          else let rl = replicate (nat (0x1000 div rle_size)) (alloc_junk H) in
          obind (if v \<noteq> 0 then aset rl 0 \<lparr>vcn = 0, lcn = LCN_RL_NOT_MAPPED, rlen = v\<rparr> else Ok rl) (\<lambda>rl.
          obind (mp_parse H (ar_mem attr) attr_end buf v 0 rl 0x1000 (b2i (v \<noteq> 0))) (\<lambda>(buf, v, rl, rlpos).
          if buf \<ge> attr_end then Err EIO
          else obind (mp_terminate vol attr v rl rlpos) (\<lambda>rl.
               if old_rl = None then Ok (Some rl) else ntfs_runlists_merge H old_rl (Some rl)))))"

definition ntfs_mapping_pairs_decompress ::
  "runlist_element heap \<Rightarrow> ntfs_volume \<Rightarrow> attr_nonres option \<Rightarrow> runlist option \<Rightarrow> runlist option outcome" where
  "ntfs_mapping_pairs_decompress H vol attr old_rl = ntfs_mapping_pairs_decompress_i H vol attr old_rl"

end
