(* ===== verification/Mapping_Codec.thy ===== *)
theory Mapping_Codec
  imports Mapping_Pairs
begin

text \<open>
  The mapping pairs writer, size computation and parser of \<^verbatim>\<open>runlist.c\<close> against a reference
  encoding: a number is its minimal little-endian signed byte string, a run is a header with the
  two byte counts followed by the two numbers. The lemmas show what the writer leaves in every
  case, that the size is exact, that the parser inverts the encoding, and that it is memory safe on
  arbitrary bytes.
\<close>

section \<open>The reference encoding of a number\<close>

function sig_bytes :: "int \<Rightarrow> u8 list" where
  "sig_bytes n = word_of_int n # (if n > 0x7f \<or> n < -0x80 then sig_bytes (n div 256) else [])"
  by pat_completeness auto
termination
  by (relation "measure (\<lambda>n. nat \<bar>n\<bar>)") auto

declare sig_bytes.simps [simp del]

lemma sig_bytes_small: "-0x80 \<le> n \<Longrightarrow> n \<le> 0x7f \<Longrightarrow> sig_bytes n = [word_of_int n]"
  by (subst sig_bytes.simps) simp

lemma sig_bytes_big: "n > 0x7f \<or> n < -0x80 \<Longrightarrow> sig_bytes n = word_of_int n # sig_bytes (n div 256)"
  by (subst sig_bytes.simps) simp

lemma sig_bytes_not_Nil [simp]: "sig_bytes n \<noteq> []"
  by (subst sig_bytes.simps) simp

text \<open>The value of a little-endian signed byte string.\<close>

fun sig_val :: "u8 list \<Rightarrow> int" where
  "sig_val [] = 0"
| "sig_val [b] = sint b"
| "sig_val (b # c # bs) = uint b + 256 * sig_val (c # bs)"

lemma sig_val_Cons: "bs \<noteq> [] \<Longrightarrow> sig_val (b # bs) = uint b + 256 * sig_val bs"
  by (cases bs) simp_all

lemma sig_val_sig_bytes: "sig_val (sig_bytes n) = n"
proof (induction n rule: sig_bytes.induct)
  case (1 n)
  show ?case
  proof (cases "n > 0x7f \<or> n < -0x80")
    case True
    then have "sig_val (sig_bytes n) = uint (word_of_int n :: u8) + 256 * (n div 256)"
      using 1 by (simp add: sig_bytes_big sig_val_Cons)
    then show ?thesis by (simp add: uint_word_of_int)
  next
    case False
    then have "signed_take_bit 7 n = n" by (intro signed_take_bit_int_eq_self) simp_all
    with False show ?thesis by (simp add: sig_bytes_small sint_sbintrunc')
  qed
qed

lemma length_sig_bytes_not: "length (sig_bytes (- n - 1)) = length (sig_bytes n)"
proof (induction n rule: sig_bytes.induct)
  case (1 n)
  have d: "(- n - 1) div 256 = - (n div 256) - 1"
    by (rule int_div_pos_eq [of _ _ _ "255 - n mod 256"]) (simp_all add: algebra_simps)
  show ?case
  proof (cases "n > 0x7f \<or> n < -0x80")
    case True
    then have "- n - 1 > 0x7f \<or> - n - 1 < -0x80" by auto
    then show ?thesis using 1 [OF True] sig_bytes_big [OF True] sig_bytes_big [of "- n - 1"] d by simp
  next
    case False
    then show ?thesis by (simp add: sig_bytes_small)
  qed
qed

lemma nr_sig_loop_eq: "128 \<le> m \<Longrightarrow> nr_sig_loop (m div 128) i = i + int (length (sig_bytes (int m))) - 1"
proof (induction m arbitrary: i rule: less_induct)
  case (less m)
  have b: "length (sig_bytes (int m)) = Suc (length (sig_bytes (int (m div 256))))"
    using less.prems sig_bytes_big [of "int m"] by (simp add: zdiv_int)
  have d: "drop_bit 8 (m div 128) = m div 256 div 128"
    by (simp add: drop_bit_eq_div div_mult2_eq [symmetric])
  show ?case
  proof (cases "128 \<le> m div 256")
    case True
    then have "m div 256 div 128 \<noteq> 0" by simp
    then show ?thesis
      using less.IH [of "m div 256" "i + 1"] True b d less.prems by (subst nr_sig_loop.simps) (simp add: Let_def)
  next
    case False
    then have "m div 256 div 128 = 0" "length (sig_bytes (int (m div 256))) = 1"
      by (simp_all add: sig_bytes_small)
    then show ?thesis using b d by (subst nr_sig_loop.simps) (simp add: Let_def)
  qed
qed

lemma nr_significant_bytes_eq: "ntfs_get_nr_significant_bytes n = int (length (sig_bytes n))"
proof -
  define l where "l = nat (if n < 0 then NOT n else n)"
  have l: "length (sig_bytes (int l)) = length (sig_bytes n)"
    using length_sig_bytes_not [of n] by (simp add: l_def not_int_def)
  show ?thesis
  proof (cases "l \<ge> 128")
    case True
    then show ?thesis
      using nr_sig_loop_eq [OF True, of 1] l
      by (simp add: ntfs_get_nr_significant_bytes_def l_def [symmetric] Let_def drop_bit_eq_div)
  next
    case False
    then have "length (sig_bytes (int l)) = 1" by (simp add: sig_bytes_small)
    then show ?thesis
      using False l by (simp add: ntfs_get_nr_significant_bytes_def l_def [symmetric] Let_def)
  qed
qed

lemma length_sig_bytes_bound: "- (2 ^ (8 * k - 1)) \<le> n \<Longrightarrow> n < 2 ^ (8 * k - 1) \<Longrightarrow> 0 < k \<Longrightarrow> length (sig_bytes n) \<le> k"
proof (induction k arbitrary: n)
  case (Suc k)
  show ?case
  proof (cases "n > 0x7f \<or> n < -0x80")
    case True
    have k: "0 < k"
    proof (rule ccontr)
      assume "\<not> 0 < k" with Suc.prems True show False by simp
    qed
    then have e: "(2::int) ^ (8 * Suc k - 1) = 2 ^ (8 * k - 1) * 256"
      by (cases k) (simp_all add: power_add)
    have "- (2 ^ (8 * k - 1)) \<le> n div 256" "n div 256 < 2 ^ (8 * k - 1)"
      using Suc.prems(1,2) unfolding e by linarith+
    then show ?thesis using Suc.IH [of "n div 256"] k True by (simp add: sig_bytes_big)
  qed (simp add: sig_bytes_small)
qed simp

lemma length_sig_bytes_s64: "in_s64 n \<Longrightarrow> length (sig_bytes n) \<le> 8"
  using length_sig_bytes_bound [of 8 n] by (simp add: in_s64_def)

section \<open>Writing a number\<close>

lemma write_sig_loop_ok:
  assumes "length M = length (sig_bytes n) - 1" "p = int (length A)" "p + int (length M) \<le> dst_max + 1"
  shows "write_sig_loop (A @ M @ B) p dst_max n i =
    Ok (A @ tl (sig_bytes n) @ B, i + int (length (sig_bytes n)) - 1)"
  using assms
proof (induction n arbitrary: A M p i rule: sig_bytes.induct)
  case (1 n)
  show ?case
  proof (cases "n > 0x7f \<or> n < -0x80")
    case True
    note b = sig_bytes_big [OF True]
    obtain m M' where M: "M = m # M'" using 1(2) b by (cases M) (auto simp: Suc_le_eq)
    have hd: "sig_bytes (n div 256) = word_of_int (n div 256) # tl (sig_bytes (n div 256))"
      by (subst (1 2) sig_bytes.simps) simp
    have "write_sig_loop ((A @ [word_of_int (n div 256)]) @ M' @ B) (p + 1) dst_max (n div 256) (i + 1) =
        Ok ((A @ [word_of_int (n div 256)]) @ tl (sig_bytes (n div 256)) @ B, i + 1 + int (length (sig_bytes (n div 256))) - 1)"
      by (rule 1(1) [OF True]) (use 1(2-4) M b in auto)
    moreover have "p \<le> dst_max" using 1(4) M by simp
    ultimately show ?thesis
      using True M 1(3) hd by (subst write_sig_loop.simps) (simp add: drop_bit_eq_div aset_app b Let_def)
  next
    case False
    then show ?thesis using 1(2) by (subst write_sig_loop.simps) (simp add: sig_bytes_small)
  qed
qed

lemma write_sig_ok:
  assumes "length M = length (sig_bytes n)" "p = int (length A)" "p + int (length M) \<le> dst_max + 1"
  shows "ntfs_write_significant_bytes (A @ M @ B) p dst_max n = Ok (A @ sig_bytes n @ B, int (length (sig_bytes n)))"
proof -
  obtain m M' where M: "M = m # M'" using assms(1) by (cases M) auto
  have hd: "sig_bytes n = word_of_int n # tl (sig_bytes n)" by (subst (1 2) sig_bytes.simps) simp
  have "write_sig_loop ((A @ [word_of_int n]) @ M' @ B) (p + 1) dst_max n 1 =
      Ok ((A @ [word_of_int n]) @ tl (sig_bytes n) @ B, 1 + int (length (sig_bytes n)) - 1)"
    by (rule write_sig_loop_ok) (use assms M in auto)
  then show ?thesis
    using assms(2,3) M hd by (simp add: ntfs_write_significant_bytes_def aset_app)
qed

text \<open>A write that may run out of room changes nothing before its start nor after \<open>dst_max\<close>.\<close>

definition same_outside :: "int \<Rightarrow> int \<Rightarrow> u8 list \<Rightarrow> u8 list \<Rightarrow> bool" where
  "same_outside p q a b \<longleftrightarrow> length a = length b \<and> (\<forall>k < length a. int k < p \<or> q < int k \<longrightarrow> a ! k = b ! k)"

lemma same_outside_refl [simp]: "same_outside p q a a"
  by (simp add: same_outside_def)

lemma same_outside_trans: "same_outside p q a b \<Longrightarrow> same_outside p' q b c \<Longrightarrow> p \<le> p' \<Longrightarrow> same_outside p q a c"
  by (auto simp: same_outside_def)

lemma aset_outside: "0 \<le> i \<Longrightarrow> p \<le> i \<Longrightarrow> i \<le> q \<Longrightarrow> q < int (length a) \<Longrightarrow> \<exists>b. aset a i x = Ok b \<and> same_outside p q a b"
  by (auto simp: aset_def same_outside_def nth_list_update)

lemma write_sig_loop_nospace:
  assumes "0 \<le> p" "dst_max < int (length dst)" "p + int (length (sig_bytes n)) - 1 > dst_max + 1" "p \<le> dst_max + 1"
  shows "\<exists>d. write_sig_loop dst p dst_max n i = Ok (d, -1) \<and> same_outside p dst_max dst d"
  using assms
proof (induction n arbitrary: dst p i rule: sig_bytes.induct)
  case (1 n)
  show ?case
  proof (cases "n > 0x7f \<or> n < -0x80")
    case True
    note b = sig_bytes_big [OF True]
    show ?thesis
    proof (cases "p > dst_max")
      case False
      obtain d where d: "aset dst p (word_of_int (drop_bit 8 n)) = Ok d" "same_outside p dst_max dst d"
        using aset_outside [of p p dst_max dst] False 1(2,3) by auto
      then have "dst_max < int (length d)" using 1(3) by (simp add: same_outside_def)
      then obtain d' where "write_sig_loop d (p + 1) dst_max (n div 256) (i + 1) = Ok (d', -1)" "same_outside (p + 1) dst_max d d'"
        using 1(1) [OF True, of "p + 1" d "i + 1"] 1(2-5) b False by auto
      then show ?thesis
        using True False d same_outside_trans [OF d(2), of "p + 1" d']
        by (subst write_sig_loop.simps) (simp add: drop_bit_eq_div Let_def)
    qed (use True in \<open>subst write_sig_loop.simps, simp\<close>)
  next
    case False
    then show ?thesis using 1(4,5) by (simp add: sig_bytes_small)
  qed
qed

lemma write_sig_nospace:
  assumes "0 \<le> p" "p \<le> dst_max + 1" "dst_max < int (length dst)" "p + int (length (sig_bytes n)) > dst_max + 1"
  shows "\<exists>d. ntfs_write_significant_bytes dst p dst_max n = Ok (d, -1) \<and> same_outside p dst_max dst d"
proof (cases "p > dst_max")
  case False
  obtain d where d: "aset dst p (word_of_int n) = Ok d" "same_outside p dst_max dst d"
    using aset_outside [of p p dst_max dst] False assms by auto
  then have "dst_max < int (length d)" using assms(3) by (simp add: same_outside_def)
  then obtain d' where "write_sig_loop d (p + 1) dst_max n 1 = Ok (d', -1)" "same_outside (p + 1) dst_max d d'"
    using write_sig_loop_nospace [of "p + 1" dst_max d n 1] assms False by auto
  then show ?thesis
    using False d same_outside_trans [OF d(2), of "p + 1" d'] by (simp add: ntfs_write_significant_bytes_def)
qed (simp add: ntfs_write_significant_bytes_def)

section \<open>One mapping pair\<close>

definition mp_pair :: "int \<Rightarrow> int option \<Rightarrow> u8 list" where
  "mp_pair len dlcn =
     (let bs = sig_bytes len; cs = (case dlcn of Some d \<Rightarrow> sig_bytes d | None \<Rightarrow> [])
      in word_of_int (push_bit 4 (int (length cs)) OR int (length bs)) # bs @ cs)"

lemma mp_put_ok:
  assumes "length M = length (mp_pair len dlcn)" "p = int (length A)" "p + int (length M) \<le> dst_max"
  shows "mp_put (A @ M @ B) p dst_max len dlcn = Ok (A @ mp_pair len dlcn @ B, p + int (length (mp_pair len dlcn)))"
proof -
  define cs where "cs = (case dlcn of Some d \<Rightarrow> sig_bytes d | None \<Rightarrow> [])"
  obtain m M1 where M1: "M = m # M1" "length M1 = length (sig_bytes len) + length cs"
    using assms(1) by (cases M) (auto simp: mp_pair_def Let_def cs_def split: option.splits)
  define X Y where "X = take (length (sig_bytes len)) M1" and "Y = drop (length (sig_bytes len)) M1"
  have XY: "M1 = X @ Y" "length X = length (sig_bytes len)" "length Y = length cs"
    using M1(2) by (simp_all add: X_def Y_def)
  have w1: "ntfs_write_significant_bytes (A @ m # X @ Y @ B) (p + 1) dst_max len = Ok (A @ m # sig_bytes len @ Y @ B, int (length (sig_bytes len)))"
    using write_sig_ok [of X len "p + 1" "A @ [m]" dst_max "Y @ B"] assms M1 XY by simp
  have w2: "(case dlcn of Some d \<Rightarrow> ntfs_write_significant_bytes (A @ m # sig_bytes len @ Y @ B) (p + 1 + int (length (sig_bytes len))) dst_max d
                 | None \<Rightarrow> Ok (A @ m # sig_bytes len @ Y @ B, 0)) = Ok (A @ m # sig_bytes len @ cs @ B, int (length cs))"
  proof (cases dlcn)
    case (Some d)
    then show ?thesis
      using write_sig_ok [of Y d "p + 1 + int (length (sig_bytes len))" "A @ m # sig_bytes len" dst_max B] assms M1 XY
      by (simp add: cs_def)
  qed (use XY in \<open>simp add: cs_def\<close>)
  show ?thesis
    unfolding mp_put_def M1(1) XY(1) append_assoc append_Cons w1
    using w2 assms(2,3) M1 XY by (simp add: mp_pair_def Let_def cs_def [symmetric] aset_app)
qed

lemma mp_put_nospace:
  assumes "0 \<le> p" "p \<le> dst_max" "dst_max < int (length dst)" "p + int (length (mp_pair len dlcn)) > dst_max"
  shows "\<exists>d. mp_put dst p dst_max len dlcn = Ok (d, -1) \<and> same_outside p dst_max dst d"
proof (cases "p + 1 + int (length (sig_bytes len)) > dst_max + 1")
  case True
  then obtain d where "ntfs_write_significant_bytes dst (p + 1) dst_max len = Ok (d, -1)" "same_outside (p + 1) dst_max dst d"
    using write_sig_nospace [of "p + 1" dst_max dst len] assms by auto
  then show ?thesis by (auto simp: mp_put_def same_outside_def)
next
  case False
  let ?q = "p + 1 + int (length (sig_bytes len))"
  define A M B where "A = take (nat (p + 1)) dst" and "M = take (length (sig_bytes len)) (drop (nat (p + 1)) dst)"
    and "B = drop (nat (p + 1) + length (sig_bytes len)) dst"
  have dst: "dst = A @ M @ B" unfolding A_def M_def B_def by (metis append_take_drop_id drop_drop add.commute)
  have l: "length M = length (sig_bytes len)" "p + 1 = int (length A)"
    using False assms by (simp_all add: A_def M_def)
  let ?d = "A @ sig_bytes len @ B"
  have w1: "ntfs_write_significant_bytes dst (p + 1) dst_max len = Ok (?d, int (length (sig_bytes len)))"
    unfolding dst by (rule write_sig_ok) (use l False in auto)
  have s1: "same_outside p dst_max dst ?d"
    unfolding same_outside_def dst using l False by (auto simp: nth_append)
  show ?thesis
  proof (cases dlcn)
    case None
    then show ?thesis using w1 s1 assms(4) by (simp add: mp_put_def mp_pair_def Let_def)
  next
    case (Some d)
    show ?thesis
    proof (cases "?q + int (length (sig_bytes d)) > dst_max + 1")
      case True
      then obtain d' where "ntfs_write_significant_bytes ?d ?q dst_max d = Ok (d', -1)" "same_outside ?q dst_max ?d d'"
        using write_sig_nospace [of ?q dst_max ?d d] assms l dst False by auto
      then show ?thesis
        using w1 Some same_outside_trans [OF s1, of ?q d'] assms(1) by (simp add: mp_put_def)
    next
      case F: False
      define A' M' B' where "A' = A @ sig_bytes len" and "M' = take (length (sig_bytes d)) B" and "B' = drop (length (sig_bytes d)) B"
      have B': "B = M' @ B'" by (simp add: M'_def B'_def)
      have l': "length M' = length (sig_bytes d)" "?q = int (length A')"
        using F False l assms(3) dst by (simp_all add: A'_def M'_def)
      have w2: "ntfs_write_significant_bytes ?d ?q dst_max d = Ok (A' @ sig_bytes d @ B', int (length (sig_bytes d)))"
        using write_sig_ok [of M' d ?q A' dst_max B'] l' F by (simp add: B' A'_def)
      have "same_outside p dst_max dst (A' @ sig_bytes d @ B')"
        unfolding same_outside_def dst A'_def using l l' F B' by (auto simp: nth_append)
      then show ?thesis using w1 w2 Some assms(4) F by (simp add: mp_put_def mp_pair_def Let_def)
    qed
  qed
qed

section \<open>The reference encoding of a runlist\<close>

definition mp_dlcn :: "ntfs_volume \<Rightarrow> int \<Rightarrow> runlist_element \<Rightarrow> int option" where
  "mp_dlcn vol prev r = (if mp_store_lcn vol r then Some (lcn r - prev) else None)"

definition mp_next :: "ntfs_volume \<Rightarrow> int \<Rightarrow> runlist_element \<Rightarrow> int" where
  "mp_next vol prev r = (if mp_store_lcn vol r then lcn r else prev)"

fun mp_enc :: "ntfs_volume \<Rightarrow> int \<Rightarrow> runlist \<Rightarrow> u8 list" where
  "mp_enc vol prev [] = []"
| "mp_enc vol prev (r # R) = mp_pair (rlen r) (mp_dlcn vol prev r) @ mp_enc vol (mp_next vol prev r) R"

text \<open>The part of a runlist from cluster \<open>v\<close> on.\<close>

definition rl_cut :: "int \<Rightarrow> runlist_element \<Rightarrow> runlist_element" where
  "rl_cut v r = r\<lparr>vcn := v, lcn := (if lcn r \<ge> 0 then lcn r + (v - vcn r) else lcn r), rlen := rlen r - (v - vcn r)\<rparr>"

fun rl_from :: "int \<Rightarrow> runlist \<Rightarrow> runlist" where
  "rl_from v [] = []"
| "rl_from v (r # R) = (if vcn r + rlen r \<le> v then rl_from v R else if v \<le> vcn r then r # R else rl_cut v r # R)"

lemma rl_from_append: "rl_chain a X m \<Longrightarrow> m \<le> v \<Longrightarrow> rl_from v (X @ Y) = rl_from v Y"
proof (induction X arbitrary: a)
  case (Cons x X)
  then show ?case using rl_chain_le [of "a + rlen x" X m] by auto
qed simp

lemma rl_from_end: "rl_chain a X m \<Longrightarrow> m \<le> v \<Longrightarrow> rl_from v X = []"
  using rl_from_append [of a X m v "[]"] by simp

lemma rl_from_start: "rl_chain a D e \<Longrightarrow> rl_from a D = D"
  by (cases D) auto

lemma rl_chain_pos: "rl_chain a R b \<Longrightarrow> list_all (\<lambda>r. rlen r > 0) R"
  by (induction R arbitrary: a) auto

section \<open>What the writer leaves\<close>

text \<open>\<open>mp_built\<close>: the longest prefix of the runs that fits between \<open>p\<close> and \<open>dst_max\<close> is in
  the buffer, terminated; nothing outside is changed; the error is \<^verbatim>\<open>ENOSPC\<close> exactly when runs
  are left, and the stop element is the first of them.\<close>

definition mp_built :: "ntfs_volume \<Rightarrow> u8 list \<Rightarrow> int \<Rightarrow> int \<Rightarrow> int \<Rightarrow> runlist \<Rightarrow> int \<Rightarrow> mp_result outcome \<Rightarrow> bool" where
  "mp_built vol dst p dst_max prev R i res \<longleftrightarrow>
     (\<exists>n d. res = Ok \<lparr>mp_dst = d, mp_stop = Some (i + int n), mp_err = (if n = length R then None else Some ENOSPC)\<rparr> \<and>
        n \<le> length R \<and> same_outside p dst_max dst d \<and>
        p + int (length (mp_enc vol prev (take n R))) \<le> dst_max \<and>
        (n < length R \<longrightarrow> p + int (length (mp_enc vol prev (take (Suc n) R))) > dst_max) \<and>
        (\<exists>Z. d = take (nat p) dst @ mp_enc vol prev (take n R) @ 0 # Z))"

lemma mp_finish_built:
  assumes "0 \<le> p" "p \<le> dst_max" "dst_max < int (length d)" "same_outside p dst_max dst d"
    "R = [] \<and> err = None \<or> R \<noteq> [] \<and> err = Some ENOSPC \<and> p + int (length (mp_enc vol prev (take 1 R))) > dst_max"
  shows "mp_built vol dst p dst_max prev R i (mp_finish d p i err)"
proof -
  have t: "take (nat p) d = take (nat p) dst"
    using assms(1,4) by (intro nth_equalityI) (auto simp: same_outside_def)
  have "d[nat p := 0] = take (nat p) dst @ [] @ 0 # drop (Suc (nat p)) d"
    using assms(1-3) t by (simp add: upd_conv_take_nth_drop)
  moreover have "mp_finish d p i err = Ok \<lparr>mp_dst = d[nat p := 0], mp_stop = Some (i + int 0), mp_err = err\<rparr>"
    using assms(1-3) by (simp add: mp_finish_def aset_def)
  moreover have "same_outside p dst_max dst (d[nat p := 0])"
    using assms(1-4) by (auto simp: same_outside_def nth_list_update)
  ultimately show ?thesis
    unfolding mp_built_def using assms(2,5) by (intro exI [of _ 0] exI [of _ "d[nat p := 0]"]) auto
qed

definition mp_build_run ::
  "ntfs_volume \<Rightarrow> u8 list \<Rightarrow> int \<Rightarrow> int \<Rightarrow> runlist \<Rightarrow> int \<Rightarrow> int \<Rightarrow> runlist_element \<Rightarrow> mp_result outcome" where
  "mp_build_run vol dst p dst_max rl i prev r =
     obind (mp_put dst p dst_max (rlen r) (mp_dlcn vol prev r)) (\<lambda>(dst, p').
     if p' < 0 then mp_finish dst p i (Some ENOSPC)
     else mp_build_full vol dst p' dst_max rl (i + 1) (mp_next vol prev r))"

lemma mp_build_run_built:
  assumes p: "0 \<le> p" "p \<le> dst_max" "dst_max < int (length dst)"
    and rest: "\<And>d q. 0 \<le> q \<Longrightarrow> q \<le> dst_max \<Longrightarrow> dst_max < int (length d) \<Longrightarrow>
        mp_built vol d q dst_max (mp_next vol prev r) R (i + 1) (mp_build_full vol d q dst_max rl (i + 1) (mp_next vol prev r))"
  shows "mp_built vol dst p dst_max prev (r # R) i (mp_build_run vol dst p dst_max rl i prev r)"
proof -
  let ?pair = "mp_pair (rlen r) (mp_dlcn vol prev r)"
  show ?thesis
  proof (cases "p + int (length ?pair) \<le> dst_max")
    case True
    define A M B where "A = take (nat p) dst" and "M = take (length ?pair) (drop (nat p) dst)" and "B = drop (nat p + length ?pair) dst"
    have dst: "dst = A @ M @ B" unfolding A_def M_def B_def by (metis append_take_drop_id drop_drop add.commute)
    have l: "length M = length ?pair" "p = int (length A)"
      using True p by (simp_all add: A_def M_def)
    let ?d = "A @ ?pair @ B" and ?q = "p + int (length ?pair)"
    have put: "mp_put dst p dst_max (rlen r) (mp_dlcn vol prev r) = Ok (?d, ?q)"
      unfolding dst by (rule mp_put_ok) (use l True in auto)
    have s: "same_outside p dst_max dst ?d" unfolding same_outside_def dst using l True by (auto simp: nth_append)
    have "mp_built vol ?d ?q dst_max (mp_next vol prev r) R (i + 1) (mp_build_full vol ?d ?q dst_max rl (i + 1) (mp_next vol prev r))"
      by (rule rest) (use p True s in \<open>auto simp: same_outside_def\<close>)
    then obtain n d Z where n: "mp_build_full vol ?d ?q dst_max rl (i + 1) (mp_next vol prev r) =
        Ok \<lparr>mp_dst = d, mp_stop = Some (i + 1 + int n), mp_err = (if n = length R then None else Some ENOSPC)\<rparr>"
      "n \<le> length R" "same_outside ?q dst_max ?d d" "?q + int (length (mp_enc vol (mp_next vol prev r) (take n R))) \<le> dst_max"
      "n < length R \<longrightarrow> ?q + int (length (mp_enc vol (mp_next vol prev r) (take (Suc n) R))) > dst_max"
      "d = take (nat ?q) ?d @ mp_enc vol (mp_next vol prev r) (take n R) @ 0 # Z"
      unfolding mp_built_def by blast
    have "take (nat ?q) ?d = take (nat p) dst @ ?pair"
      using l by (simp add: A_def nat_add_distrib)
    then have "d = take (nat p) dst @ mp_enc vol prev (take (Suc n) (r # R)) @ 0 # Z" using n(6) by simp
    moreover have "same_outside p dst_max dst d" by (rule same_outside_trans [OF s n(3)]) simp
    ultimately show ?thesis
      unfolding mp_built_def mp_build_run_def put using n(1,2,4,5) p(1)
      by (intro exI [of _ "Suc n"] exI [of _ d]) auto
  next
    case False
    then obtain d where d: "mp_put dst p dst_max (rlen r) (mp_dlcn vol prev r) = Ok (d, -1)" "same_outside p dst_max dst d"
      using mp_put_nospace [OF p, of "rlen r" "mp_dlcn vol prev r"] by auto
    then show ?thesis
      using mp_finish_built [OF p(1,2) _ d(2), of "r # R" "Some ENOSPC" vol prev i] p(3) False
      by (auto simp: mp_build_run_def same_outside_def)
  qed
qed

lemma mp_build_full_built:
  assumes "list_all (\<lambda>r. rlen r > 0 \<and> lcn r \<ge> LCN_HOLE) R" "rlen t = 0" "0 \<le> p" "p \<le> dst_max" "dst_max < int (length dst)"
  shows "mp_built vol dst p dst_max prev R (int (length Q)) (mp_build_full vol dst p dst_max (Q @ R @ t # J) (int (length Q)) prev)"
  using assms(1,3-5)
proof (induction R arbitrary: Q dst p prev)
  case Nil
  have "mp_build_full vol dst p dst_max (Q @ [] @ t # J) (int (length Q)) prev = mp_finish dst p (int (length Q)) None"
    using assms(2) by (subst mp_build_full.simps) simp
  then show ?case using mp_finish_built [of p dst_max dst dst "[]" None] Nil by simp
next
  case (Cons r R)
  have "mp_build_full vol dst p dst_max (Q @ (r # R) @ t # J) (int (length Q)) prev =
      mp_build_run vol dst p dst_max (Q @ (r # R) @ t # J) (int (length Q)) prev r"
    using Cons.prems(1) by (subst mp_build_full.simps) (simp add: Let_def mp_build_run_def mp_dlcn_def mp_next_def cong: if_cong)
  moreover have "mp_built vol dst p dst_max prev (r # R) (int (length Q)) (mp_build_run vol dst p dst_max (Q @ (r # R) @ t # J) (int (length Q)) prev r)"
  proof (rule mp_build_run_built [OF Cons.prems(2-4)])
    fix d :: "u8 list" and q assume "0 \<le> q" "q \<le> dst_max" "dst_max < int (length d)"
    then show "mp_built vol d q dst_max (mp_next vol prev r) R (int (length Q) + 1)
       (mp_build_full vol d q dst_max (Q @ (r # R) @ t # J) (int (length Q) + 1) (mp_next vol prev r))"
      using Cons.IH [of q d "mp_next vol prev r" "Q @ [r]"] Cons.prems(1) by (simp add: add.commute)
  qed
  ultimately show ?case by simp
qed

lemma rl_seek_end:
  assumes "rl_chain a X e" "rl_term t e" "e \<le> v"
  shows "rl_seek (Q @ X @ t # J) v (int (length Q)) = Ok (int (length Q + length X))"
  using assms(1)
proof (induction X arbitrary: Q a)
  case Nil
  then show ?case using assms(2) by (subst rl_seek.simps) (simp add: rl_term_def)
next
  case (Cons x X)
  have n: "aget (Q @ x # X @ t # J) (int (length Q) + 1) = Ok (hd (X @ [t]))"
    using aget_hd [of "X @ [t]" _ "Q @ [x]" J "int (length Q) + 1"] by simp
  have "vcn (hd (X @ [t])) \<le> v"
    using Cons.prems assms rl_chain_le [of "a + rlen x" X e] by (cases X) (auto simp: rl_term_def)
  then show ?case
    using Cons.prems n Cons.IH [of "a + rlen x" "Q @ [x]"] by (subst rl_seek.simps) (simp add: add.commute)
qed

text \<open>Where the search for the start cluster ends.\<close>

lemma rl_seek_cases:
  assumes D: "rl_chain a D e" and t: "rl_term t e" and v: "a \<le> v" "v \<le> e"
  obtains (fin) "v = e" "rl_seek (D @ t # J) v 0 = Ok (int (length D))" "rl_from v D = []"
  | (inside) X r Y where "D = X @ r # Y" "rl_seek (D @ t # J) v 0 = Ok (int (length X))"
      "vcn r \<le> v" "v < vcn r + rlen r" "rl_from v D = (if v = vcn r then r else rl_cut v r) # Y"
proof (cases "v = e")
  case True
  then show ?thesis using rl_seek_end [OF D t, of v "[]" J] rl_from_end [OF D, of v] fin by simp
next
  case False
  then obtain X r Y where c: "D = X @ r # Y" "vcn r \<le> v" "v < vcn r + rlen r" "rl_chain a X (vcn r)" "rl_chain (vcn r + rlen r) Y e"
    using rl_chain_find [OF D v(1)] v by auto
  then show ?thesis
    using rl_seek_app [OF c(5) t c(4) c(2,3), of "[]" J] rl_from_append [OF c(4,2), of "r # Y"] by (intro inside) auto
qed

lemma ntfs_mapping_pairs_build_built:
  assumes D: "rl_chain a D e" "list_all (\<lambda>r. lcn r \<ge> LCN_HOLE) D" and t: "rl_term t e" and v: "0 \<le> a" "a \<le> v" "v \<le> e"
    and len: "1 \<le> dst_len" "dst_len \<le> int (length dst)"
  shows "mp_built vol dst 0 (dst_len - 1) 0 (rl_from v D) (int (length D) - int (length (rl_from v D)))
    (ntfs_mapping_pairs_build vol dst dst_len (Some (D @ t # J)) v)"
proof (rule rl_seek_cases [OF D(1) t v(2,3), of J], goal_cases)
  case fin: 1
  have "aget (D @ t # J) (int (length D)) = Ok t" by (simp add: c_arr)
  then show ?thesis
    using fin v t len mp_build_full_built [of "[]" t 0 "dst_len - 1" dst vol 0 D J]
    by (simp add: ntfs_mapping_pairs_build_def rl_term_def)
next
  case inside: (2 X r Y)
  have rs: "list_all (\<lambda>r. rlen r > 0 \<and> lcn r \<ge> LCN_HOLE) (X @ r # Y)"
    using rl_chain_pos [OF D(1)] D(2) inside(1) by (auto simp: list_all_iff)
  have t0: "rlen t = 0" using t by (simp add: rl_term_def)
  have e: "aget (D @ t # J) (int (length X)) = Ok r" using inside(1) by (simp add: c_arr)
  have ix: "int (length D) - int (length (rl_from v D)) = int (length X)" using inside(1,5) by simp
  show ?thesis
  proof (cases "v = vcn r")
    case True
    then have "ntfs_mapping_pairs_build vol dst dst_len (Some (D @ t # J)) v = mp_build_full vol dst 0 (dst_len - 1) (X @ (r # Y) @ t # J) (int (length X)) 0"
      using inside e v rs by (simp add: ntfs_mapping_pairs_build_def)
    then show ?thesis
      using mp_build_full_built [of "r # Y" t 0 "dst_len - 1" dst vol 0 X J] rs t0 len inside(5) True ix by (simp add: list_all_append)
  next
    case False
    then have "ntfs_mapping_pairs_build vol dst dst_len (Some (D @ t # J)) v = mp_build_run vol dst 0 (dst_len - 1) (D @ t # J) (int (length X)) 0 (rl_cut v r)"
      using inside(2-4) e v rs
      by (simp add: ntfs_mapping_pairs_build_def mp_build_partial_def mp_build_run_def mp_dlcn_def mp_next_def mp_store_lcn_def rl_cut_def Let_def algebra_simps cong: if_cong)
    moreover have "mp_built vol dst 0 (dst_len - 1) 0 (rl_cut v r # Y) (int (length X)) (mp_build_run vol dst 0 (dst_len - 1) (D @ t # J) (int (length X)) 0 (rl_cut v r))"
    proof (rule mp_build_run_built)
      fix d :: "u8 list" and q assume "0 \<le> q" "q \<le> dst_len - 1" "dst_len - 1 < int (length d)"
      then show "mp_built vol d q (dst_len - 1) (mp_next vol 0 (rl_cut v r)) Y (int (length X) + 1)
         (mp_build_full vol d q (dst_len - 1) (D @ t # J) (int (length X) + 1) (mp_next vol 0 (rl_cut v r)))"
        using mp_build_full_built [of Y t q "dst_len - 1" d vol "mp_next vol 0 (rl_cut v r)" "X @ [r]" J] rs t0 inside(1)
        by (simp add: list_all_append add.commute)
    qed (use len in auto)
    ultimately show ?thesis using inside(5) False ix by simp
  qed
qed

section \<open>The size computed in advance\<close>

definition mp_sized :: "int \<Rightarrow> int \<Rightarrow> int outcome \<Rightarrow> bool" where
  "mp_sized n max_size res \<longleftrightarrow>
     (\<exists>s. res = Ok s \<and> (if n \<le> max_size then s = n else s > max_size))"

lemma length_mp_pair: "int (length (mp_pair len d)) =
    1 + ntfs_get_nr_significant_bytes len + (case d of Some x \<Rightarrow> ntfs_get_nr_significant_bytes x | None \<Rightarrow> 0)"
  by (simp add: mp_pair_def Let_def nr_significant_bytes_eq split: option.splits)

lemma mp_size_full_sized:
  assumes "list_all (\<lambda>r. rlen r > 0 \<and> lcn r \<ge> LCN_HOLE) R" "rlen t = 0"
  shows "mp_sized (rls + int (length (mp_enc vol prev R))) max_size (mp_size_full vol (Q @ R @ t # J) (int (length Q)) prev rls max_size)"
  using assms(1)
proof (induction R arbitrary: Q rls prev)
  case Nil
  then show ?case using assms(2) by (subst mp_size_full.simps) (simp add: mp_sized_def)
next
  case (Cons r R)
  let ?n = "int (length (mp_pair (rlen r) (mp_dlcn vol prev r)))"
  show ?case
  proof (cases "rls \<le> max_size")
    case True
    have "mp_size_full vol (Q @ (r # R) @ t # J) (int (length Q)) prev rls max_size =
        mp_size_full vol ((Q @ [r]) @ R @ t # J) (int (length (Q @ [r]))) (mp_next vol prev r) (rls + ?n) max_size"
      using True Cons.prems by (subst mp_size_full.simps) (simp add: length_mp_pair mp_dlcn_def mp_next_def algebra_simps Let_def cong: if_cong)
    then show ?thesis using Cons.IH [of "rls + ?n" "mp_next vol prev r" "Q @ [r]"] Cons.prems by (simp add: algebra_simps)
  next
    case False
    then show ?thesis by (subst mp_size_full.simps) (simp add: mp_sized_def)
  qed
qed

lemma size_for_mapping_pairs_sized:
  assumes D: "rl_chain a D e" "list_all (\<lambda>r. lcn r \<ge> LCN_HOLE) D" and t: "rl_term t e" and v: "0 \<le> a" "a \<le> v" "v \<le> e"
  shows "mp_sized (int (length (mp_enc vol 0 (rl_from v D))) + 1) max_size
    (ntfs_get_size_for_mapping_pairs vol (Some (D @ t # J)) v max_size)"
proof (rule rl_seek_cases [OF D(1) t v(2,3), of J], goal_cases)
  case fin: 1
  have "aget (D @ t # J) (int (length D)) = Ok t" by (simp add: c_arr)
  then show ?case
    using fin v t mp_size_full_sized [of "[]" t 1 vol 0 max_size D J]
    by (simp add: ntfs_get_size_for_mapping_pairs_def rl_term_def)
next
  case inside: (2 X r Y)
  have rs: "list_all (\<lambda>r. rlen r > 0 \<and> lcn r \<ge> LCN_HOLE) (X @ r # Y)"
    using rl_chain_pos [OF D(1)] D(2) inside(1) by (auto simp: list_all_iff)
  have t0: "rlen t = 0" using t by (simp add: rl_term_def)
  have e: "aget (D @ t # J) (int (length X)) = Ok r" using inside(1) by (simp add: c_arr)
  show ?case
  proof (cases "v = vcn r")
    case True
    then have "ntfs_get_size_for_mapping_pairs vol (Some (D @ t # J)) v max_size = mp_size_full vol (X @ (r # Y) @ t # J) (int (length X)) 0 1 max_size"
      using inside e v rs by (simp add: ntfs_get_size_for_mapping_pairs_def)
    then show ?thesis
      using mp_size_full_sized [of "r # Y" t 1 vol 0 max_size X J] rs t0 inside(5) True by (simp add: list_all_append algebra_simps)
  next
    case False
    let ?n = "int (length (mp_pair (rlen (rl_cut v r)) (mp_dlcn vol 0 (rl_cut v r))))"
    have "ntfs_get_size_for_mapping_pairs vol (Some (D @ t # J)) v max_size =
        mp_size_full vol ((X @ [r]) @ Y @ t # J) (int (length (X @ [r]))) (mp_next vol 0 (rl_cut v r)) (1 + ?n) max_size"
      using inside(1-4) e v rs False
      by (simp add: ntfs_get_size_for_mapping_pairs_def mp_size_partial_def length_mp_pair mp_dlcn_def mp_next_def mp_store_lcn_def
          rl_cut_def Let_def algebra_simps cong: if_cong)
    then show ?thesis
      using mp_size_full_sized [of Y t "1 + ?n" vol "mp_next vol 0 (rl_cut v r)" max_size "X @ [r]" J] rs t0 inside(5) False
      by (simp add: list_all_append algebra_simps)
  qed
qed

section \<open>Reading a number back\<close>

fun sig_cat :: "u8 list \<Rightarrow> int \<Rightarrow> int" where
  "sig_cat [] d = d"
| "sig_cat (b # bs) d = uint b + 256 * sig_cat bs d"

lemma sig_cat_snoc: "sig_cat (bs @ [x]) d = sig_cat bs (uint x + 256 * d)"
  by (induction bs) simp_all

lemma sig_val_snoc: "sig_val (bs @ [x]) = sig_cat bs (sint x)"
  by (induction bs) (simp_all add: sig_val_Cons)

lemma in_s64_sig_cat: "in_s64 (sig_cat bs d) \<Longrightarrow> in_s64 d"
proof (induction bs)
  case (Cons b bs)
  have "0 \<le> uint b" "uint b < 256" using uint_lt2p [of b] by simp_all
  then have "in_s64 (sig_cat bs d)"
    using Cons.prems unfolding in_s64_def sig_cat.simps by linarith
  then show ?case by (rule Cons.IH)
qed simp

lemma mp_num_loop_eq:
  assumes "mem = P @ bs @ Z" "buf + int lo + 1 = int (length P)" "in_s64 (sig_cat bs d)"
  shows "mp_num_loop mem buf lo (lo + length bs) d = Ok (sig_cat bs d)"
  using assms
proof (induction bs arbitrary: d Z rule: rev_induct)
  case Nil
  then show ?case by (cases lo) simp_all
next
  case (snoc x bs)
  have g: "aget mem (buf + int (lo + length (bs @ [x]))) = Ok x"
    by (rule agetI [of _ "P @ bs" _ Z]) (use snoc.prems in simp_all)
  have "in_s64 (uint x + 256 * d)" using snoc.prems(3) by (auto simp: sig_cat_snoc dest: in_s64_sig_cat)
  then have "s64 (push_bit 8 d + uint x) = uint x + 256 * d" by (simp add: s64_id push_bit_eq_mult add.commute mult.commute)
  moreover have "mp_num_loop mem buf lo (lo + length bs) (uint x + 256 * d) = Ok (sig_cat bs (uint x + 256 * d))"
    by (rule snoc.IH [of "x # Z"]) (use snoc.prems in \<open>simp_all add: sig_cat_snoc\<close>)
  ultimately show ?case using g by (simp add: sig_cat_snoc)
qed

lemma mp_num_eq:
  assumes "mem = P @ bs @ Z" "buf + int lo + 1 = int (length P)" "bs \<noteq> []" "in_s64 (sig_val bs)" "b = lo + length bs"
  shows "mp_num mem buf lo b = Ok (sig_val bs)"
proof -
  obtain cs x where bs: "bs = cs @ [x]" using assms(3) by (cases bs rule: rev_cases) auto
  have g: "aget mem (buf + int b) = Ok x"
    by (rule agetI [of _ "P @ cs" _ Z]) (use assms bs in simp_all)
  have "mp_num_loop mem buf lo (lo + length cs) (sint x) = Ok (sig_cat cs (sint x))"
    by (rule mp_num_loop_eq [of _ P _ "x # Z"]) (use assms bs in \<open>simp_all add: sig_val_snoc\<close>)
  then show ?thesis using g bs assms(5) by (simp add: mp_num_def sig_val_snoc)
qed

lemma mp_header:
  assumes "1 \<le> b" "b \<le> 8" "c \<le> 8"
  shows "let h = word_of_int (push_bit 4 (int c) OR int b) :: u8 in
    h \<noteq> 0 \<and> unat (h AND 0xf) = b \<and> unat (drop_bit 4 h AND 0xf) = c \<and> (h AND 0xf0 = 0 \<longleftrightarrow> c = 0)"
proof -
  have "\<forall>b\<in>set [1..<9]. \<forall>c\<in>set [0..<9]. let h = word_of_int (push_bit 4 (int c) OR int b) :: u8 in
    h \<noteq> 0 \<and> unat (h AND 0xf) = b \<and> unat (drop_bit 4 h AND 0xf) = c \<and> (h AND 0xf0 = 0 \<longleftrightarrow> c = 0)"
    by code_simp
  moreover have "b \<in> set [1..<9]" "c \<in> set [0..<9]" using assms by auto
  ultimately show ?thesis by blast
qed

section \<open>Reading a mapping pair back\<close>

definition mp_lcn_ok :: "int \<Rightarrow> bool" where
  "mp_lcn_ok l \<longleftrightarrow> -1 \<le> l \<and> l < 2 ^ 63 - 1"

lemma mp_take_pair:
  assumes mem: "mem = P @ mp_pair len dl @ Z" and buf: "buf = int (length P)"
    and len: "0 \<le> len" "in_s64 len" and aend: "buf + int (length (mp_pair len dl)) \<le> attr_end"
    and dl: "case dl of None \<Rightarrow> True | Some d \<Rightarrow> in_s64 d \<and> -1 \<le> l + d \<and> in_s64 (l + d)"
  shows "mp_take mem attr_end buf (hd (mp_pair len dl)) l =
    Ok (case dl of None \<Rightarrow> (len, LCN_HOLE, l) | Some d \<Rightarrow> (len, l + d, l + d))"
    "hd (mp_pair len dl) \<noteq> 0" "mp_skip (hd (mp_pair len dl)) = length (mp_pair len dl)"
proof -
  define bs cs where "bs = sig_bytes len" and "cs = (case dl of Some d \<Rightarrow> sig_bytes d | None \<Rightarrow> [])"
  define h where "h = (word_of_int (push_bit 4 (int (length cs)) OR int (length bs)) :: u8)"
  have pair: "mp_pair len dl = h # bs @ cs" by (simp add: mp_pair_def bs_def cs_def h_def Let_def)
  have "1 \<le> length bs" by (simp add: bs_def Suc_le_eq)
  moreover have "length bs \<le> 8" "length cs \<le> 8"
    using len dl length_sig_bytes_s64 by (auto simp: bs_def cs_def split: option.splits)
  ultimately have h: "h \<noteq> 0" "unat (h AND 0xf) = length bs" "unat (drop_bit 4 h AND 0xf) = length cs" "h AND 0xf0 = 0 \<longleftrightarrow> cs = []"
    using mp_header [of "length bs" "length cs"] by (auto simp: Let_def h_def)
  show "hd (mp_pair len dl) \<noteq> 0" "mp_skip (hd (mp_pair len dl)) = length (mp_pair len dl)"
    using h by (simp_all add: pair mp_skip_def)
  have n1: "mp_num mem buf 0 (length bs) = Ok len"
    using mp_num_eq [of mem "P @ [h]" bs "cs @ Z" buf 0 "length bs"] mem buf len
    by (simp add: pair bs_def sig_val_sig_bytes)
  have n2: "mp_num mem buf (length bs) (length bs + length cs) = Ok d" if "dl = Some d" for d
  proof -
    have "mem = (P @ h # bs) @ cs @ Z" using mem pair by simp
    then show ?thesis
      using mp_num_eq [of mem "P @ h # bs" cs Z buf "length bs" "length bs + length cs"] buf dl that
      by (simp add: cs_def sig_val_sig_bytes)
  qed
  have ae: "buf + int (length bs) + int (length cs) < attr_end" using aend by (simp add: pair)
  have nb: "bs \<noteq> []" by (simp add: bs_def)
  have hd: "hd (mp_pair len dl) = h" by (simp add: pair)
  show "mp_take mem attr_end buf (hd (mp_pair len dl)) l = Ok (case dl of None \<Rightarrow> (len, LCN_HOLE, l) | Some d \<Rightarrow> (len, l + d, l + d))"
    unfolding hd mp_take_def Let_def h(2,3)
    using h(4) n1 n2 len(1) ae nb dl s64_id [of "l + the dl"]
    by (cases dl) (simp_all add: cs_def)
qed

section \<open>Reading a runlist back\<close>

text \<open>The block of the parser: \<open>rlsize\<close> bytes in whole 4 kiB units, with room for two more
  elements after the current one.\<close>

definition mp_block :: "runlist \<Rightarrow> int \<Rightarrow> int \<Rightarrow> bool" where
  "mp_block rl rlsize rlpos \<longleftrightarrow>
     int (length rl) = rlsize div rle_size \<and> 4096 dvd rlsize \<and> 0 \<le> rlpos \<and> (rlpos + 2) * rle_size \<le> rlsize"

lemma mp_block_grow:
  assumes "\<And>n. alloc_ok H n" "mp_block (R0 @ J) rlsize rlpos" "rlpos = int (length R0)"
  obtains J' rlsize' where
    "(if (rlpos + 3) * rle_size > rlsize then c_realloc H (R0 @ J) (rlsize + 0x1000) rle_size else Ok (R0 @ J)) = Ok (R0 @ J')"
    "rlsize' = (if (rlpos + 3) * rle_size > rlsize then rlsize + 0x1000 else rlsize)"
    "mp_block (R0 @ J') rlsize' (rlpos + 1)" "J' \<noteq> []"
proof (cases "(rlpos + 3) * rle_size > rlsize")
  case True
  let ?n = "nat ((rlsize + 4096) div rle_size)"
  let ?J = "take (?n - length R0) J @ replicate (?n - length (R0 @ J)) (alloc_junk H)"
  have b: "int (length (R0 @ J)) = rlsize div 24" "4096 dvd rlsize" "(rlpos + 2) * 24 \<le> rlsize" "0 \<le> rlpos"
    using assms(2) by (simp_all add: mp_block_def rle_size_def)
  have ge: "length R0 + 3 \<le> ?n" using b assms(3) by (simp add: rle_size_def)
  have "c_realloc H (R0 @ J) (rlsize + 0x1000) rle_size = Ok (R0 @ ?J)"
    using assms(1) ge by (simp add: c_realloc_def Let_def)
  moreover have "length (R0 @ ?J) = ?n" using ge by simp
  moreover have "int ?n = (rlsize + 4096) div rle_size" using b by (simp add: rle_size_def)
  ultimately show ?thesis
    using that [of ?J "rlsize + 4096"] True b ge by (auto simp: mp_block_def rle_size_def)
next
  case False
  have "J \<noteq> []" using assms(2,3) False by (auto simp: mp_block_def rle_size_def)
  then show ?thesis using that [of J rlsize] False assms(2) by (auto simp: mp_block_def rle_size_def)
qed

lemma mp_parse_enc:
  assumes ok: "\<And>n. alloc_ok H n"
    and R: "rl_chain v R e" "0 \<le> v" "e < 2 ^ 63" "list_all (\<lambda>r. mp_lcn_ok (lcn r)) R" "mp_lcn_ok l"
    and mem: "mem = P @ mp_enc vol l R @ 0 # Z" "buf = int (length P)" "buf + int (length (mp_enc vol l R)) < attr_end"
    and blk: "mp_block (R0 @ J) rlsize rlpos" "rlpos = int (length R0)" "rlpos + int (length R) < 0x10000"
  shows "\<exists>J' rlsize'. mp_parse H mem attr_end buf v l (R0 @ J) rlsize rlpos =
       Ok (buf + int (length (mp_enc vol l R)), e, R0 @ R @ J', rlpos + int (length R)) \<and>
     mp_block (R0 @ R @ J') rlsize' (rlpos + int (length R))"
  using R mem blk
proof (induction R arbitrary: v l P buf R0 J rlsize rlpos)
  case Nil
  have "aget mem buf = Ok 0" using Nil by (intro agetI [of _ P _ Z]) simp_all
  then show ?case using Nil by (subst mp_parse.simps) auto
next
  case (Cons r R)
  let ?dl = "mp_dlcn vol l r" and ?l' = "mp_next vol l r"
  let ?pair = "mp_pair (rlen r) ?dl"
  have r: "vcn r = v" "0 < rlen r" "rl_chain (v + rlen r) R e" "mp_lcn_ok (lcn r)" using Cons.prems by auto
  have e: "v + rlen r \<le> e" using rl_chain_le [OF r(3)] .
  have nl: "mp_lcn_ok ?l'" using r(4) Cons.prems(5) by (simp add: mp_next_def)
  have len: "in_s64 (rlen r)" "in_s64 (v + rlen r)" using r e Cons.prems(2,3) by (auto simp: in_s64_def)
  have hl: "\<not> mp_store_lcn vol r \<Longrightarrow> lcn r = LCN_HOLE" using r(4) by (auto simp: mp_store_lcn_def mp_lcn_ok_def lcn_defs)
  have tk: "mp_take mem attr_end buf (hd ?pair) l = Ok (rlen r, lcn r, ?l')" "hd ?pair \<noteq> 0" "mp_skip (hd ?pair) = length ?pair"
    using mp_take_pair [of mem P "rlen r" ?dl "mp_enc vol ?l' R @ 0 # Z" buf attr_end l] Cons.prems r(2,4) len hl
    by (auto simp: mp_dlcn_def mp_next_def mp_lcn_ok_def in_s64_def)
  have "?pair \<noteq> []" by (simp add: mp_pair_def Let_def)
  then have g: "aget mem buf = Ok (hd ?pair)"
    using aget_hd [of ?pair mem P "mp_enc vol ?l' R @ 0 # Z" buf] Cons.prems(6,7) by simp
  obtain J1 rlsize1 where J1: "(if (rlpos + 3) * rle_size > rlsize then c_realloc H (R0 @ J) (rlsize + 0x1000) rle_size else Ok (R0 @ J)) = Ok (R0 @ J1)"
    "rlsize1 = (if (rlpos + 3) * rle_size > rlsize then rlsize + 0x1000 else rlsize)"
    "mp_block (R0 @ J1) rlsize1 (rlpos + 1)" "J1 \<noteq> []"
    using mp_block_grow [OF ok Cons.prems(9,10)] by blast
  then obtain j J2 where J2: "J1 = j # J2" by (cases J1) auto
  have set: "aset (R0 @ J1) rlpos \<lparr>vcn = v, lcn = lcn r, rlen = rlen r\<rparr> = Ok ((R0 @ [r]) @ J2)"
    using r(1) Cons.prems(10) unfolding J2 by (cases r) (simp add: aset_app)
  have "mp_block ((R0 @ [r]) @ J2) rlsize1 (rlpos + 1)" using J1(3) by (simp add: J2 mp_block_def)
  then obtain J' rlsize' where IH: "mp_parse H mem attr_end (buf + int (length ?pair)) (v + rlen r) ?l' ((R0 @ [r]) @ J2) rlsize1 (rlpos + 1) =
       Ok (buf + int (length ?pair) + int (length (mp_enc vol ?l' R)), e, (R0 @ [r]) @ R @ J', rlpos + 1 + int (length R)) \<and>
     mp_block ((R0 @ [r]) @ R @ J') rlsize' (rlpos + 1 + int (length R))"
    using Cons.IH [of "v + rlen r" ?l' "P @ ?pair" "buf + int (length ?pair)" "R0 @ [r]" J2 rlsize1 "rlpos + 1"] Cons.prems r len nl
    by auto
  have md: "(rlpos + 1) mod 0x10000 = rlpos + 1" using Cons.prems(10,11) by (intro mod_pos_pos_trivial) simp_all
  have lt: "buf < attr_end" using Cons.prems(8) by (simp add: mp_pair_def Let_def)
  have "mp_parse H mem attr_end buf v l (R0 @ J) rlsize rlpos =
      mp_parse H mem attr_end (buf + int (length ?pair)) (v + rlen r) ?l' ((R0 @ [r]) @ J2) rlsize1 (rlpos + 1)"
    using lt g tk J1(1) set md s64_id [OF len(2)] unfolding J1(2)
    by (subst mp_parse.simps) (cases "(rlpos + 3) * rle_size > rlsize"; simp add: Let_def)
  then show ?case using IH by (intro exI [of _ J'] exI [of _ rlsize']) (simp add: algebra_simps)
qed

definition mp_clusters :: "ntfs_volume \<Rightarrow> attr_nonres \<Rightarrow> int" where
  "mp_clusters vol attr =
     drop_bit (unat (cluster_size_bits vol)) (s64 (ar_allocated_size attr + uint (cluster_size vol) - 1))"

text \<open>The elements the parser puts before and after the runs of the array.\<close>

definition mp_pre :: "int \<Rightarrow> runlist" where
  "mp_pre lo = (if lo = 0 then [] else [\<lparr>vcn = 0, lcn = LCN_RL_NOT_MAPPED, rlen = lo\<rparr>])"

definition mp_term :: "int \<Rightarrow> int \<Rightarrow> runlist_element" where
  "mp_term lo e = \<lparr>vcn = e, lcn = (if lo = 0 then LCN_ENOENT else LCN_RL_NOT_MAPPED), rlen = 0\<rparr>"

lemma mp_block_room:
  assumes "mp_block rl rlsize rlpos" "n \<le> rlpos + 2"
  shows "rl_room rl n"
proof -
  have b: "n * 24 \<le> rlsize" "int (length rl) = rlsize div 24" "4096 dvd rlsize"
    using assms by (auto simp: mp_block_def rle_size_def)
  then obtain k where k: "rlsize = 4096 * k" by auto
  have "rl_blocks n \<le> rlsize" using b(1) unfolding rl_blocks_eq k by simp
  then show ?thesis using b(2) by (simp add: rl_room_def rle_size_def zdiv_mono1)
qed

lemma decompress_enc:
  assumes ok: "\<And>n. alloc_ok H n"
    and R: "rl_chain lo R e" "0 \<le> lo" "e < 2 ^ 63" "list_all (\<lambda>r. mp_lcn_ok (lcn r)) R" "int (length R) < 65534"
    and attr: "ar_non_resident attr" "ar_lowest_vcn attr = lo" "ar_highest_vcn attr = 0 \<or> ar_highest_vcn attr = e - 1"
      "lo = 0 \<Longrightarrow> mp_clusters vol attr = e"
    and mem: "ar_mem attr = P @ mp_enc vol 0 R @ 0 # Z" "uint (ar_mapping_pairs_offset attr) = int (length P)"
      "int (length P + length (mp_enc vol 0 R)) < uint (ar_length attr)"
  shows "\<exists>J. ntfs_mapping_pairs_decompress H vol (Some attr) None = Ok (Some (mp_pre lo @ R @ mp_term lo e # J)) \<and>
    rl_room (mp_pre lo @ R @ mp_term lo e # J) (int (length (mp_pre lo @ R)) + 1)"
proof -
  let ?rl = "replicate (nat (0x1000 div rle_size)) (alloc_junk H)"
  let ?J = "replicate (170 - length (mp_pre lo)) (alloc_junk H)"
  have n: "nat (0x1000 div rle_size) = 170" by (simp add: rle_size_def)
  have s: "(if lo \<noteq> 0 then aset ?rl 0 \<lparr>vcn = 0, lcn = LCN_RL_NOT_MAPPED, rlen = lo\<rparr> else Ok ?rl) = Ok (mp_pre lo @ ?J)"
    unfolding n by (simp add: mp_pre_def aset_def eval_nat_numeral)
  have l: "b2i (lo \<noteq> 0) = int (length (mp_pre lo))" by (simp add: mp_pre_def)
  have b: "mp_block (mp_pre lo @ ?J) 0x1000 (b2i (lo \<noteq> 0))"
    by (simp add: mp_block_def rle_size_def l mp_pre_def)
  obtain J' rlsize' where p: "mp_parse H (ar_mem attr) (uint (ar_length attr)) (int (length P)) lo 0 (mp_pre lo @ ?J) 0x1000 (b2i (lo \<noteq> 0)) =
      Ok (int (length P) + int (length (mp_enc vol 0 R)), e, mp_pre lo @ R @ J', b2i (lo \<noteq> 0) + int (length R))"
    "mp_block (mp_pre lo @ R @ J') rlsize' (b2i (lo \<noteq> 0) + int (length R))"
    using mp_parse_enc [OF ok R(1-4) _ mem(1) refl _ b l, of "uint (ar_length attr)"] R(5) mem(3) b2i_bounds(2) [of "lo \<noteq> 0"]
    by (auto simp: mp_lcn_ok_def)
  obtain j J2 where J: "J' = j # J2"
    using p(2) l by (cases J') (auto simp: mp_block_def rle_size_def)
  have i: "b2i (lo \<noteq> 0) + int (length R) = int (length (mp_pre lo @ R))" using l by simp
  have t: "mp_terminate vol attr e (mp_pre lo @ R @ J') (b2i (lo \<noteq> 0) + int (length R)) = Ok (mp_pre lo @ R @ mp_term lo e # J2)"
  proof -
    have "aset (mp_pre lo @ R @ J') (b2i (lo \<noteq> 0) + int (length R)) x = Ok (mp_pre lo @ R @ x # J2)" for x
      unfolding i J using aset_app [of _ "mp_pre lo @ R" j J2 x] by simp
    then show ?thesis using attr by (auto simp: mp_terminate_def mp_clusters_def mp_term_def Let_def)
  qed
  have "rl_room (mp_pre lo @ R @ mp_term lo e # J2) (int (length (mp_pre lo @ R)) + 1)"
    by (rule rl_room_cong [OF mp_block_room [OF p(2), of "int (length (mp_pre lo @ R)) + 1"]]) (use i in \<open>simp_all add: J\<close>)
  moreover have "ntfs_mapping_pairs_decompress H vol (Some attr) None = Ok (Some (mp_pre lo @ R @ mp_term lo e # J2))"
    unfolding ntfs_mapping_pairs_decompress_def ntfs_mapping_pairs_decompress_i_def
    using attr R(2) mem(2,3) ok s p(1) t by (simp add: Let_def)
  ultimately show ?thesis by blast
qed

section \<open>Corrupt input\<close>

lemma mp_num_loop_safe:
  assumes "0 \<le> buf" "buf + int b < int (length mem)"
  shows "osafe (\<lambda>_. True) (mp_num_loop mem buf lo b d)"
  using assms(2)
proof (induction b arbitrary: d)
  case (Suc b)
  show ?case
    using Suc assms(1) by (auto intro!: osafe_bind [OF aget_safe])
qed simp

lemma mp_num_safe: "0 \<le> buf \<Longrightarrow> buf + int b < int (length mem) \<Longrightarrow> osafe (\<lambda>_. True) (mp_num mem buf lo b)"
  unfolding mp_num_def by (rule osafe_bind [OF aget_safe]) (auto intro: mp_num_loop_safe)

lemma mp_take_safe:
  assumes "0 \<le> buf" "attr_end < int (length mem)"
  shows "osafe (\<lambda>_. True) (mp_take mem attr_end buf h l)"
  unfolding mp_take_def Let_def
  by (rule osafe_bind [of "\<lambda>_. True"]) (use assms in \<open>auto intro!: mp_num_safe osafe_bind [OF mp_num_safe]\<close>)

definition mp_grown :: "int \<Rightarrow> int \<Rightarrow> int" where
  "mp_grown rlsize rlpos = (if (rlpos + 3) * rle_size > rlsize then rlsize + 0x1000 else rlsize)"

lemma mp_block_realloc:
  assumes "mp_block rl rlsize rlpos"
  shows "osafe (\<lambda>rl'. mp_block rl' (mp_grown rlsize rlpos) (rlpos + 1))
    (if (rlpos + 3) * rle_size > rlsize then c_realloc H rl (mp_grown rlsize rlpos) rle_size else Ok rl)"
proof (cases "(rlpos + 3) * rle_size > rlsize")
  case True
  have "0 \<le> rlsize" "4096 dvd rlsize" "(rlpos + 2) * 24 \<le> rlsize" "0 \<le> rlpos"
    using assms by (simp_all add: mp_block_def rle_size_def)
  then show ?thesis using True by (auto simp: mp_grown_def mp_block_def rle_size_def c_realloc_def Let_def)
qed (use assms in \<open>auto simp: mp_grown_def mp_block_def rle_size_def\<close>)

lemma mp_block_aset: "mp_block rl n (p + 1) \<Longrightarrow> 0 \<le> p \<Longrightarrow> osafe (\<lambda>rl'. mp_block rl' n (p + 1)) (aset rl p x)"
  by (auto simp: mp_block_def aset_def rle_size_def)

lemma mp_block_wrap: "mp_block rl n (p + 1) \<Longrightarrow> 0 \<le> p \<Longrightarrow> mp_block rl n ((p + 1) mod 0x10000)"
  using zmod_le_nonneg_dividend [where m = "p + 1" and k = "0x10000"] by (auto simp: mp_block_def rle_size_def)

lemma mp_parse_unfold:
  "mp_parse H mem attr_end buf v l rl rlsize rlpos =
     (if buf < attr_end
      then obind (aget mem buf) (\<lambda>h.
           if h = 0 then Ok (buf, v, rl, rlpos)
           else obind (if (rlpos + 3) * rle_size > rlsize then c_realloc H rl (mp_grown rlsize rlpos) rle_size else Ok rl) (\<lambda>rl.
                obind (mp_take mem attr_end buf h l) (\<lambda>(len, rlcn, l').
                obind (aset rl rlpos \<lparr>vcn = v, lcn = rlcn, rlen = len\<rparr>) (\<lambda>rl.
                mp_parse H mem attr_end (buf + int (mp_skip h)) (s64 (v + len)) l' rl (mp_grown rlsize rlpos) ((rlpos + 1) mod 0x10000)))))
      else Ok (buf, v, rl, rlpos))"
  by (subst mp_parse.simps) (simp only: Let_def mp_grown_def)

lemma mp_parse_safe:
  assumes "attr_end < int (length mem)" "0 \<le> buf" "mp_block rl rlsize rlpos"
  shows "osafe (\<lambda>(buf', v', rl', rlpos'). \<exists>n. mp_block rl' n rlpos') (mp_parse H mem attr_end buf v l rl rlsize rlpos)"
  using assms(2,3)
proof (induction "nat (attr_end - buf)" arbitrary: buf v l rl rlsize rlpos rule: less_induct)
  case less
  have p: "0 \<le> rlpos" using less.prems(2) by (simp add: mp_block_def)
  have step: "osafe (\<lambda>(buf', v', rl', rlpos'). \<exists>n. mp_block rl' n rlpos')
      (mp_parse H mem attr_end (buf + int (mp_skip h)) w l' rl' n ((rlpos + 1) mod 0x10000))"
    if "buf < attr_end" "mp_block rl' n (rlpos + 1)" for h w l' rl' n
    using that less.prems p by (intro less.hyps mp_block_wrap) auto
  show ?case
  proof (cases "buf < attr_end")
    case True
    have run: "osafe (\<lambda>(buf', v', rl', rlpos'). \<exists>n. mp_block rl' n rlpos')
        (obind (if (rlpos + 3) * rle_size > rlsize then c_realloc H rl (mp_grown rlsize rlpos) rle_size else Ok rl) (\<lambda>rl.
         obind (mp_take mem attr_end buf h l) (\<lambda>(len, rlcn, l').
         obind (aset rl rlpos \<lparr>vcn = v, lcn = rlcn, rlen = len\<rparr>) (\<lambda>rl.
         mp_parse H mem attr_end (buf + int (mp_skip h)) (s64 (v + len)) l' rl (mp_grown rlsize rlpos) ((rlpos + 1) mod 0x10000)))))" for h
      by (rule osafe_bind [OF mp_block_realloc [OF less.prems(2)]], rule osafe_bind [OF mp_take_safe [OF less.prems(1) assms(1)]],
          clarify, rule osafe_bind [OF mp_block_aset], assumption, rule p, rule step [OF True])
    have "osafe (\<lambda>x. x = mem ! nat buf) (aget mem buf)" using True less.prems assms(1) by (intro aget_safe) auto
    then show ?thesis
      unfolding mp_parse_unfold [of H mem attr_end buf v l rl] using True run less.prems(2) by (auto elim!: osafe_bind simp del: obind.simps)
  next
    case False
    then show ?thesis using less.prems(2) by (subst mp_parse_unfold) auto
  qed
qed

lemma mp_terminate_safe:
  assumes "mp_block rl n rlpos"
  shows "osafe (\<lambda>_. True) (mp_terminate vol attr v rl rlpos)"
proof -
  have b: "0 \<le> rlpos" "rlpos + 1 < int (length rl)" using assms by (auto simp: mp_block_def rle_size_def)
  then have "0 \<le> (rlpos + 1) mod 0x10000" "(rlpos + 1) mod 0x10000 < int (length rl)"
    using zmod_le_nonneg_dividend [where m = "rlpos + 1" and k = "0x10000"] by simp_all
  then show ?thesis
    using b unfolding mp_terminate_def Let_def
    by (auto simp: aset_def)
qed

lemma if_osafe: "(c \<Longrightarrow> osafe P x) \<Longrightarrow> (\<not> c \<Longrightarrow> osafe P y) \<Longrightarrow> osafe P (if c then x else y)"
  by simp

lemma decompress_safe:
  assumes "uint (ar_length attr) < int (length (ar_mem attr))"
  shows "ntfs_mapping_pairs_decompress H vol (Some attr) None \<noteq> Fault"
proof -
  let ?rl = "replicate (nat (0x1000 div rle_size)) (alloc_junk H)"
  have "osafe (\<lambda>rl. mp_block rl 0x1000 (b2i (v \<noteq> 0)))
      (if v \<noteq> 0 then aset ?rl 0 x else Ok ?rl)" for v x
    by (auto simp: aset_def mp_block_def rle_size_def b2i_def)
  note init = osafe_bind [OF this]
  have "osafe (\<lambda>_. True) (ntfs_mapping_pairs_decompress_i H vol (Some attr) None)"
    unfolding ntfs_mapping_pairs_decompress_i_def Let_def option.case if_True simp_thms
    by (intro if_osafe init osafe_bind [OF mp_parse_safe [OF assms]])
      (auto intro!: osafe_bind [OF mp_terminate_safe])
  then show ?thesis by (simp add: ntfs_mapping_pairs_decompress_def osafe_True_iff)
qed

end
