(* ===== verification/Mapping_Props.thy ===== *)
theory Mapping_Props
  imports Mapping_Codec Runlist_Props
begin

text \<open>
  The properties of the mapping pairs component, with their witnesses, and two observations about
  the parser that the model makes precise.
\<close>

section \<open>Properties\<close>

lemma rl_from_chain:
  "rl_chain a D e \<Longrightarrow> a \<le> v \<Longrightarrow> v \<le> e \<Longrightarrow> rl_chain v (rl_from v D) e \<and> length (rl_from v D) \<le> length D"
proof (induction D arbitrary: a)
  case (Cons r D)
  then show ?case using Cons.IH [of "a + rlen r"] by (auto simp: rl_cut_def add.commute)
qed simp

lemma length_sig_bytes_iff:
  assumes "0 < k"
  shows "length (sig_bytes n) \<le> k \<longleftrightarrow> - (2 ^ (8 * k - 1)) \<le> n \<and> n < 2 ^ (8 * k - 1)"
proof
  show "length (sig_bytes n) \<le> k \<Longrightarrow> - (2 ^ (8 * k - 1)) \<le> n \<and> n < 2 ^ (8 * k - 1)"
    using assms
  proof (induction k arbitrary: n)
    case (Suc k)
    show ?case
    proof (cases "n > 0x7f \<or> n < -0x80")
      case True
      then have l: "length (sig_bytes (n div 256)) \<le> k" using Suc.prems by (simp add: sig_bytes_big)
      have k: "0 < k" using l sig_bytes_not_Nil [of "n div 256"] by (cases k) simp_all
      then have e: "(2::int) ^ (8 * Suc k - 1) = 2 ^ (8 * k - 1) * 256" by (cases k) (simp_all add: power_add)
      show ?thesis using Suc.IH [OF l k] unfolding e by linarith
    next
      case False
      have "(2::int) ^ 7 \<le> 2 ^ (8 * Suc k - 1)" by (rule power_increasing) simp_all
      then show ?thesis using False by simp
    qed
  qed simp
qed (use length_sig_bytes_bound assms in blast)

text \<open>The number of significant bytes is minimal: a number fits in \<open>k\<close> bytes as a signed
  value exactly when the count computed for it is at most \<open>k\<close>.\<close>

theorem nr_significant_bytes_minimal:
  assumes "0 < k"
  shows "ntfs_get_nr_significant_bytes n \<le> int k \<longleftrightarrow> - (2 ^ (8 * k - 1)) \<le> n \<and> n < 2 ^ (8 * k - 1)"
  using length_sig_bytes_iff [OF assms] by (simp add: nr_significant_bytes_eq)

theorem nr_significant_bytes_minimal_witness: "ntfs_get_nr_significant_bytes 40000 \<le> 3 \<and> \<not> ntfs_get_nr_significant_bytes 40000 \<le> 2"
  using nr_significant_bytes_minimal [of 3 40000] nr_significant_bytes_minimal [of 2 40000] by simp

text \<open>C14. Building the mapping pairs array of a fully mapped runlist from a cluster on: the writer
  never touches a byte outside the buffer, puts the encoding of the longest prefix of runs that
  fits with its terminator, reports \<^verbatim>\<open>ENOSPC\<close> exactly when runs are left over, and sets the stop
  element to the first of them.\<close>

theorem build_writes_longest_prefix:
  assumes "rl_chain a D e" "list_all (\<lambda>r. lcn r \<ge> LCN_HOLE) D" "rl_term t e" "0 \<le> a" "a \<le> v" "v \<le> e"
    "1 \<le> dst_len" "dst_len \<le> int (length dst)"
  shows "\<exists>n d Z. ntfs_mapping_pairs_build vol dst dst_len (Some (D @ t # J)) v =
      Ok \<lparr>mp_dst = d, mp_stop = Some (int (length D) - int (length (rl_from v D)) + int n),
          mp_err = (if n = length (rl_from v D) then None else Some ENOSPC)\<rparr> \<and>
    n \<le> length (rl_from v D) \<and>
    d = mp_enc vol 0 (take n (rl_from v D)) @ 0 # Z \<and>
    length d = length dst \<and> (\<forall>k < length d. dst_len \<le> int k \<longrightarrow> d ! k = dst ! k) \<and>
    int (length (mp_enc vol 0 (take n (rl_from v D)))) < dst_len \<and>
    (n < length (rl_from v D) \<longrightarrow> int (length (mp_enc vol 0 (take (Suc n) (rl_from v D)))) \<ge> dst_len)"
proof -
  obtain n d Z where "ntfs_mapping_pairs_build vol dst dst_len (Some (D @ t # J)) v =
      Ok \<lparr>mp_dst = d, mp_stop = Some (int (length D) - int (length (rl_from v D)) + int n),
          mp_err = (if n = length (rl_from v D) then None else Some ENOSPC)\<rparr>" "n \<le> length (rl_from v D)"
     "same_outside 0 (dst_len - 1) dst d" "int (length (mp_enc vol 0 (take n (rl_from v D)))) \<le> dst_len - 1"
     "n < length (rl_from v D) \<longrightarrow> int (length (mp_enc vol 0 (take (Suc n) (rl_from v D)))) > dst_len - 1"
     "d = mp_enc vol 0 (take n (rl_from v D)) @ 0 # Z"
    using ntfs_mapping_pairs_build_built [OF assms, of vol J] unfolding mp_built_def by (auto simp del: mp_enc.simps)
  then show ?thesis
    by - (rule exI [of _ n], rule exI [of _ d], rule exI [of _ Z], auto simp: same_outside_def)
qed

definition ex_vol :: ntfs_volume where
  "ex_vol = \<lparr>major_ver = 3, sector_size = 512, sector_size_bits = 9, cluster_size = 4096, mft_record_size = 1024,
     indx_record_size = 4096, cluster_size_bits = 12, mft_record_size_bits = 10, indx_record_size_bits = 12,
     nr_clusters = 100000, mft_lcn = 4, mftmirr_lcn = 8, mftmirr_size = 4, vol_readonly = False\<rparr>"

lemma ex_runs: "rl_chain 0 [rle 0 300 4, rle 4 (-1) 200, rle 204 100 1] 205" "rl_term (rle 205 (-3) 0) 205"
    "list_all (\<lambda>r. lcn r \<ge> LCN_HOLE) [rle 0 300 4, rle 4 (-1) 200, rle 204 100 1]"
    "list_all (\<lambda>r. mp_lcn_ok (lcn r)) [rle 0 300 4, rle 4 (-1) 200, rle 204 100 1]"
  by (simp_all add: ex_simps mp_lcn_ok_def)

theorem build_writes_longest_prefix_witness:
  "\<exists>d n s e. ntfs_mapping_pairs_build ex_vol (replicate 8 255) 6 (Some ([rle 0 300 4, rle 4 (-1) 200, rle 204 100 1] @ rle 205 (-3) 0 # [])) 2 =
     Ok \<lparr>mp_dst = d, mp_stop = s, mp_err = e\<rparr> \<and> d ! 7 = 255"
  using build_writes_longest_prefix [OF ex_runs(1,3,2), of 2 6 "replicate 8 255" ex_vol "[]"] by force

text \<open>C15. The size computed in advance is exact: up to its cut-off it is the length of the array the
  writer produces, so that a buffer of that size never runs out of space.\<close>

theorem size_suffices:
  assumes "rl_chain a D e" "list_all (\<lambda>r. lcn r \<ge> LCN_HOLE) D" "rl_term t e" "0 \<le> a" "a \<le> v" "v \<le> e"
  shows "\<exists>s. ntfs_get_size_for_mapping_pairs vol (Some (D @ t # J)) v max_size = Ok s \<and>
    (s \<le> max_size \<longrightarrow> s = int (length (mp_enc vol 0 (rl_from v D))) + 1 \<and>
       (\<forall>dst dst_len. s \<le> dst_len \<and> dst_len \<le> int (length dst) \<longrightarrow>
         (\<exists>res. ntfs_mapping_pairs_build vol dst dst_len (Some (D @ t # J)) v = Ok res \<and> mp_err res = None \<and>
            take (nat s) (mp_dst res) = mp_enc vol 0 (rl_from v D) @ [0])))"
proof -
  let ?R = "rl_from v D"
  obtain s where s: "ntfs_get_size_for_mapping_pairs vol (Some (D @ t # J)) v max_size = Ok s"
    "if int (length (mp_enc vol 0 ?R)) + 1 \<le> max_size then s = int (length (mp_enc vol 0 ?R)) + 1 else s > max_size"
    using size_for_mapping_pairs_sized [OF assms, of vol max_size J] unfolding mp_sized_def by blast
  have "\<exists>res. ntfs_mapping_pairs_build vol dst dst_len (Some (D @ t # J)) v = Ok res \<and> mp_err res = None \<and>
            take (nat s) (mp_dst res) = mp_enc vol 0 ?R @ [0]"
    if c: "s = int (length (mp_enc vol 0 ?R)) + 1" "s \<le> dst_len" "dst_len \<le> int (length dst)" for dst dst_len
  proof -
    have "1 \<le> dst_len" using c by simp
    then obtain n d Z where n: "ntfs_mapping_pairs_build vol dst dst_len (Some (D @ t # J)) v =
      Ok \<lparr>mp_dst = d, mp_stop = Some (int (length D) - int (length ?R) + int n), mp_err = (if n = length ?R then None else Some ENOSPC)\<rparr>"
      "n \<le> length ?R" "n < length ?R \<longrightarrow> int (length (mp_enc vol 0 (take (Suc n) ?R))) > dst_len - 1" "d = mp_enc vol 0 (take n ?R) @ 0 # Z"
      using ntfs_mapping_pairs_build_built [OF assms, of dst_len dst vol J] c(3) unfolding mp_built_def by (auto simp del: mp_enc.simps)
    have "length (mp_enc vol prev (take m R)) \<le> length (mp_enc vol prev R)" for m R prev
      by (induction R arbitrary: prev m) (auto simp: take_Cons')
    then have "n = length ?R" using n(2,3) c(1,2) by (smt (verit) le_neq_implies_less of_nat_mono)
    then show ?thesis using n(1,4) c(1) by (simp add: nat_add_distrib)
  qed
  then show ?thesis using s by (intro exI [of _ s]) (auto split: if_splits)
qed

theorem size_suffices_witness:
  "\<exists>s. ntfs_get_size_for_mapping_pairs ex_vol (Some ([rle 0 300 4, rle 4 (-1) 200, rle 204 100 1] @ rle 205 (-3) 0 # [])) 0 100 = Ok s"
  using size_suffices [OF ex_runs(1,3,2), of 0 ex_vol "[]" 100] by force

text \<open>C2. Round trip: parsing the array that the writer produced for a runlist from cluster
  \<open>lo\<close> on gives back exactly the runs from \<open>lo\<close> on, preceded by an unmapped element for the
  clusters before \<open>lo\<close> and ended by the matching end marker.\<close>

theorem decompress_build_roundtrip:
  assumes "\<And>n. alloc_ok H n" "rl_chain a D e" "list_all (\<lambda>r. mp_lcn_ok (lcn r)) (rl_from lo D)" "list_all (\<lambda>r. lcn r \<ge> LCN_HOLE) D"
    "rl_term t e" "0 \<le> a" "a \<le> lo" "lo \<le> e" "e < 2 ^ 63" "length D < 65534"
    "1 \<le> dst_len" "dst_len \<le> int (length dst)"
    "ntfs_mapping_pairs_build vol dst dst_len (Some (D @ t # J)) lo = Ok res" "mp_err res = None"
    "ar_non_resident attr" "ar_lowest_vcn attr = lo" "ar_highest_vcn attr = 0 \<or> ar_highest_vcn attr = e - 1"
    "lo = 0 \<longrightarrow> mp_clusters vol attr = e"
    "ar_mem attr = P @ mp_dst res" "uint (ar_mapping_pairs_offset attr) = int (length P)" "uint (ar_length attr) = int (length (ar_mem attr))"
  shows "\<exists>J'. ntfs_mapping_pairs_decompress H vol (Some attr) None = Ok (Some (mp_pre lo @ rl_from lo D @ mp_term lo e # J'))"
proof -
  obtain n d Z where n: "ntfs_mapping_pairs_build vol dst dst_len (Some (D @ t # J)) lo =
      Ok \<lparr>mp_dst = d, mp_stop = Some (int (length D) - int (length (rl_from lo D)) + int n),
        mp_err = (if n = length (rl_from lo D) then None else Some ENOSPC)\<rparr>" "d = mp_enc vol 0 (take n (rl_from lo D)) @ 0 # Z"
    using ntfs_mapping_pairs_build_built [OF assms(2,4-8,11,12), of vol J] unfolding mp_built_def by (auto simp del: mp_enc.simps)
  then have d: "mp_dst res = mp_enc vol 0 (rl_from lo D) @ 0 # Z" using assms(13,14) by (auto split: if_splits)
  note c = rl_from_chain [OF assms(2,7,8)]
  have "\<exists>J. ntfs_mapping_pairs_decompress H vol (Some attr) None = Ok (Some (mp_pre lo @ rl_from lo D @ mp_term lo e # J)) \<and>
    rl_room (mp_pre lo @ rl_from lo D @ mp_term lo e # J) (int (length (mp_pre lo @ rl_from lo D)) + 1)"
  proof (rule decompress_enc [where P = P and Z = Z, OF assms(1)])
    show "rl_chain lo (rl_from lo D) e" "int (length (rl_from lo D)) < 65534" "0 \<le> lo"
      using c assms(6,7,10) by auto
  qed (use assms(3,9,15-21) d in auto)
  then show ?thesis by blast
qed

definition ex_attr :: attr_nonres where
  "ex_attr = \<lparr>ar_mem = replicate 3 9 @ [33, 4, 44, 1, 2, 200, 0, 33, 1, 56, 255, 0, 77, 77], ar_non_resident = True, ar_length = 17,
     ar_mapping_pairs_offset = 3, ar_lowest_vcn = 0, ar_highest_vcn = 204, ar_allocated_size = 205 * 4096\<rparr>"

lemma ex_build: "ntfs_mapping_pairs_build ex_vol (replicate 14 77) 14 (Some ([rle 0 300 4, rle 4 (-1) 200, rle 204 100 1] @ rle 205 (-3) 0 # [])) 0 =
    Ok \<lparr>mp_dst = [33, 4, 44, 1, 2, 200, 0, 33, 1, 56, 255, 0, 77, 77], mp_stop = Some 3, mp_err = None\<rparr>"
  by code_simp

lemma ex_clusters: "mp_clusters ex_vol ex_attr = 205"
  by code_simp

theorem decompress_build_roundtrip_witness:
  "\<exists>J'. ntfs_mapping_pairs_decompress ex_heap ex_vol (Some ex_attr) None =
     Ok (Some (mp_pre 0 @ rl_from 0 [rle 0 300 4, rle 4 (-1) 200, rle 204 100 1] @ mp_term 0 205 # J'))"
proof (rule decompress_build_roundtrip [OF _ ex_runs(1) _ ex_runs(3,2) _ _ _ _ _ _ _ ex_build, where P = "replicate 3 9"])
  show "list_all (\<lambda>r. mp_lcn_ok (lcn r)) (rl_from 0 [rle 0 300 4, rle 4 (-1) 200, rle 204 100 1])"
    using ex_runs(4) rl_from_start [OF ex_runs(1)] by simp
  show "0 = (0::int) \<longrightarrow> mp_clusters ex_vol ex_attr = 205" using ex_clusters by simp
qed (simp_all add: ex_attr_def ex_heap_def)

text \<open>C12. Whatever the bytes of the attribute, parsing it without an old runlist never reads or
  writes outside memory, provided the byte just after the attribute is readable; allocation
  failures included.\<close>

theorem decompress_no_fault:
  assumes "uint (ar_length attr) < int (length (ar_mem attr))"
  shows "ntfs_mapping_pairs_decompress H vol (Some attr) None \<noteq> Fault"
  using decompress_safe [OF assms] .

definition ex_attr_short :: "u8 list \<Rightarrow> u32 \<Rightarrow> attr_nonres" where
  "ex_attr_short bs n = \<lparr>ar_mem = bs, ar_non_resident = True, ar_length = n, ar_mapping_pairs_offset = 0,
     ar_lowest_vcn = 0, ar_highest_vcn = 0, ar_allocated_size = 4 * 4096\<rparr>"

theorem decompress_no_fault_witness:
  "ntfs_mapping_pairs_decompress ex_heap ex_vol (Some (ex_attr_short [0x21, 4, 0] 2)) None \<noteq> Fault"
  by (rule decompress_no_fault) (simp add: ex_attr_short_def)

text \<open>C40. The extra byte is needed: the bounds checks compare the address of the last byte of a field with the end of the
  attribute by \<^verbatim>\<open>>\<close>, so a field that ends one byte late passes. For every attribute record at the end of the readable
  memory whose first mapping pair has a length field that ends one byte behind the record, or a valid length and
  a cluster number that ends one byte behind it, the parser reads the byte behind the record, whatever the
  volume, the other bytes and the old runlist are.\<close>

theorem decompress_reads_past_end:
  assumes "ar_non_resident attr" "0 \<le> ar_lowest_vcn attr" "alloc_ok H 0x1000" "length (ar_mem attr) = unat (ar_length attr)"
  defines "m \<equiv> unat (ar_mapping_pairs_offset attr)"
  defines "b \<equiv> unat (ar_mem attr ! m AND 0xf)" and "b2 \<equiv> unat (drop_bit 4 (ar_mem attr ! m) AND 0xf)"
  assumes "b \<noteq> 0" "m + b = unat (ar_length attr) \<or>
    m + b < unat (ar_length attr) \<and> b2 \<noteq> 0 \<and> m + b + b2 = unat (ar_length attr) \<and> (\<exists>len \<ge> 0. mp_num (ar_mem attr) (int m) 0 b = Ok len)"
  shows "ntfs_mapping_pairs_decompress H vol (Some attr) old_rl = Fault"
proof -
  let ?mem = "ar_mem attr" and ?h = "ar_mem attr ! m" and ?e = "uint (ar_length attr)"
  have e: "?e = int (length ?mem)" and m: "uint (ar_mapping_pairs_offset attr) = int m"
    by (simp_all add: assms(4) m_def)
  have lt: "m < length ?mem"
    using assms(8,9) unfolding assms(4) by linarith
  have h0: "?h \<noteq> 0"
    using assms(8) by (auto simp: b_def)
  have n1: "mp_num ?mem (int m) k (b + j) = Fault" if "m + b + j = length ?mem" for k j
    using that by (simp add: mp_num_def aget_def)
  have "?h AND 0xf0 \<noteq> 0" if "b2 \<noteq> 0"
  proof
    assume z: "?h AND 0xf0 = 0"
    have "drop_bit 4 ?h AND 0xf = drop_bit 4 (?h AND 0xf0)"
      by (simp add: drop_bit_and)
    then show False
      using z that by (simp add: b2_def)
  qed
  then have t: "mp_take ?mem ?e (int m) ?h 0 = Fault"
    using assms(8,9) n1 [of 0 0] n1 [of b2 b]
    by (auto simp: mp_take_def Let_def e assms(4) [symmetric] b_def [symmetric] b2_def [symmetric])
  have p: "mp_parse H ?mem ?e (int m) v 0 rl 0x1000 k = Fault" if "0 \<le> k" "k \<le> 1" for v rl k
    using lt h0 t that unfolding e by (subst mp_parse.simps) (simp add: aget_def Let_def rle_size_def)
  show ?thesis
    using assms(1-3) lt p [of 0] p [of 1]
    by (simp add: ntfs_mapping_pairs_decompress_def ntfs_mapping_pairs_decompress_i_def m e Let_def aset_def rle_size_def)
qed

theorem decompress_reads_past_end_witness:
  "ntfs_mapping_pairs_decompress ex_heap ex_vol (Some (ex_attr_short [0x02, 4] 2)) None = Fault \<and>
   ntfs_mapping_pairs_decompress ex_heap ex_vol (Some (ex_attr_short [0x11, 4] 2)) None = Fault"
proof
  show "ntfs_mapping_pairs_decompress ex_heap ex_vol (Some (ex_attr_short [0x02, 4] 2)) None = Fault"
    by (rule decompress_reads_past_end) (simp_all add: ex_attr_short_def ex_heap_def)
  show "ntfs_mapping_pairs_decompress ex_heap ex_vol (Some (ex_attr_short [0x11, 4] 2)) None = Fault"
    by (rule decompress_reads_past_end) (simp_all add: ex_attr_short_def ex_heap_def mp_num_def aget_def)
qed

text \<open>A zero-length run is accepted, and the runlist then ends there for every reader, although the
  array maps four clusters.\<close>

theorem decompress_accepts_empty_run:
  "(case ntfs_mapping_pairs_decompress ex_heap ex_vol (Some (ex_attr_short [0x11, 0, 5, 0x11, 4, 5, 0, 0] 7)) None of
      Ok (Some rl) \<Rightarrow> map rlen (take 2 rl) = [0, 4] \<and> ntfs_rl_vcn_to_lcn (Some rl) 0 = Ok LCN_ENOENT
    | _ \<Rightarrow> False)"
  by code_simp

end
