(* ===== verification/Disk_Props.thy ===== *)
theory Disk_Props
  imports Runlist_Disk Mapping_Props
begin

text \<open>
  The properties of the I/O layer on a disk that meets the firmware's contract: transfers through a
  runlist, multi sector transfers, and runs of bits in a bitmap attribute.
\<close>

section \<open>Blocks inside a buffer\<close>

lemma obind_Ok_elim: "obind x f = Ok y \<Longrightarrow> (\<And>a. x = Ok a \<Longrightarrow> f a = Ok y \<Longrightarrow> P) \<Longrightarrow> P"
  by (cases x) auto

lemma rd16_app: "rd16 b i = Ok w \<Longrightarrow> rd16 (b @ Y) i = Ok w"
  by (auto simp: rd16_def le16_at_def nth_append split: if_splits)

lemma wr16_app: "wr16 b i w = Ok b' \<Longrightarrow> wr16 (b @ Y) i w = Ok (b' @ Y)"
  by (auto simp: wr16_def set_le16_def list_update_append split: if_splits)

lemma mst_check_app: "mst_check b usn p n = Ok g \<Longrightarrow> mst_check (b @ Y) usn p n = Ok g"
  by (induction b usn p n rule: mst_check.induct) (auto elim!: obind_Ok_elim simp: rd16_app split: if_splits)

lemma mst_restore_app: "mst_restore b u p n = Ok b' \<Longrightarrow> mst_restore (b @ Y) u p n = Ok (b' @ Y)"
  by (induction n arbitrary: b u p) (auto elim!: obind_Ok_elim simp: rd16_app wr16_app)

lemma mst_protect_app: "mst_protect b usn u p n = Ok b' \<Longrightarrow> mst_protect (b @ Y) usn u p n = Ok (b' @ Y)"
  by (induction n arbitrary: b u p) (auto elim!: obind_Ok_elim simp: rd16_app wr16_app)

lemma wr_magic_app: "wr_magic b m = Ok b' \<Longrightarrow> wr_magic (b @ Y) m = Ok (b' @ Y)"
  by (auto simp: wr_magic_def split: if_splits)

lemma rd_magic_app: "rd_magic b = Ok m \<Longrightarrow> rd_magic (b @ Y) = Ok m"
  by (auto simp: rd_magic_def split: if_splits)

lemma post_read_app: "ntfs_mst_post_read_fixup b sz = Ok (b', e) \<Longrightarrow> ntfs_mst_post_read_fixup (b @ Y) sz = Ok (b' @ Y, e)"
  unfolding ntfs_mst_post_read_fixup_def ntfs_mst_post_read_fixup_warn_def Let_def
  by (auto elim!: obind_Ok_elim simp: rd16_app mst_check_app mst_restore_app wr_magic_app split: if_splits)

lemma pre_write_app:
  "ntfs_mst_pre_write_fixup (Some b) sz = Ok (Some b', e) \<Longrightarrow> ntfs_mst_pre_write_fixup (Some (b @ Y)) sz = Ok (Some (b' @ Y), e)"
  unfolding ntfs_mst_pre_write_fixup_def Let_def
  by (auto elim!: obind_Ok_elim simp: rd16_app wr16_app rd_magic_app mst_protect_app split: if_splits)

lemma post_write_app: "ntfs_mst_post_write_fixup b = Ok b' \<Longrightarrow> ntfs_mst_post_write_fixup (b @ Y) = Ok (b' @ Y)"
  unfolding ntfs_mst_post_write_fixup_def
  by (auto elim!: obind_Ok_elim simp: rd16_app mst_restore_app)

text \<open>\<open>P\<close> is the protected form of the record \<open>X\<close>, \<open>R\<close> what a read of it gives.\<close>

definition mst_img :: "u32 \<Rightarrow> u8 list \<Rightarrow> u8 list \<Rightarrow> u8 list \<Rightarrow> bool" where
  "mst_img sz X P R \<longleftrightarrow> length X = unat sz \<and> length P = unat sz \<and> length R = unat sz \<and>
     ntfs_mst_pre_write_fixup (Some X) sz = Ok (Some P, None) \<and> ntfs_mst_post_read_fixup P sz = Ok (R, None) \<and>
     ntfs_mst_post_write_fixup P = Ok R"

lemma mst_write_blocks_eq:
  assumes "\<forall>X \<in> set Xs. mst_img sz X (p X) (r X)" "length A = i * unat sz"
  shows "mst_write_blocks sz (A @ concat Xs) i (length Xs) = Ok (A @ concat (map p Xs), i + length Xs, None)"
  using assms
proof (induction Xs arbitrary: A i)
  case (Cons X Xs)
  have X: "mst_img sz X (p X) (r X)" using Cons.prems by simp
  have "mst_write_blocks sz ((A @ p X) @ concat Xs) (i + 1) (length Xs) = Ok ((A @ p X) @ concat (map p Xs), i + 1 + length Xs, None)"
    using Cons.prems X by (intro Cons.IH) (auto simp: mst_img_def)
  then show ?case using X Cons.prems(2) pre_write_app [of X sz "p X" None "concat Xs"] by (simp add: mst_img_def)
qed simp

lemma mst_read_blocks_eq:
  assumes "\<forall>X \<in> set Xs. mst_img sz X (p X) (r X)" "length A = i * unat sz"
  shows "mst_read_blocks sz (A @ concat (map p Xs)) i (length Xs) = Ok (A @ concat (map r Xs))"
  using assms
proof (induction Xs arbitrary: A i)
  case (Cons X Xs)
  have X: "mst_img sz X (p X) (r X)" using Cons.prems by simp
  have "mst_read_blocks sz ((A @ r X) @ concat (map p Xs)) (i + 1) (length Xs) = Ok ((A @ r X) @ concat (map r Xs))"
    using Cons.prems X by (intro Cons.IH) (auto simp: mst_img_def)
  then show ?case using X Cons.prems(2) post_read_app [of "p X" sz "r X" None "concat (map p Xs)"] by (simp add: mst_img_def mst_read_block_def)
qed simp

lemma mst_unwrite_blocks_eq:
  assumes "\<forall>X \<in> set Xs. mst_img sz X (p X) (r X)" "length A = i * unat sz"
  shows "mst_unwrite_blocks sz (A @ concat (map p Xs)) i (length Xs) = Ok (A @ concat (map r Xs))"
  using assms
proof (induction Xs arbitrary: A i)
  case (Cons X Xs)
  have X: "mst_img sz X (p X) (r X)" using Cons.prems by simp
  have "mst_unwrite_blocks sz ((A @ r X) @ concat (map p Xs)) (i + 1) (length Xs) = Ok ((A @ r X) @ concat (map r Xs))"
    using Cons.prems X by (intro Cons.IH) (auto simp: mst_img_def)
  then show ?case using X Cons.prems(2) post_write_app [of "p X" "r X" "concat (map p Xs)"] by (simp add: mst_img_def)
qed simp

lemma length_concat_img:
  assumes "\<forall>X \<in> set Xs. mst_img sz X (p X) (r X)"
  shows "length (concat Xs) = length Xs * unat sz" "length (concat (map p Xs)) = length Xs * unat sz" "length (concat (map r Xs)) = length Xs * unat sz"
  using assms by (induction Xs) (auto simp: mst_img_def)

context disk
begin

lemma ntfs_mst_pwrite_pread:
  assumes Xs: "\<forall>X \<in> set Xs. mst_img sz X (p X) (r X)" "Xs \<noteq> []"
    and sz: "sz \<noteq> 0" "sz AND (sz - 1) = 0" "unat sz mod 512 = 0"
    and dev: "pos + length Xs * unat sz \<le> length (media (d_private dev))" "\<not> d_readonly dev"
  shows "\<exists>dev'. ntfs_mst_pwrite ops dev (int pos) (int (length Xs)) sz (concat Xs) = (dev', Ok (concat (map r Xs), int (length Xs))) \<and>
    media (d_private dev') = bsplice (media (d_private dev)) pos (concat (map p Xs)) \<and>
    ntfs_mst_pread ops dev' (int pos) (int (length Xs)) sz = Ok (concat (map r Xs), int (length Xs))"
proof -
  note l = length_concat_img [OF Xs(1)]
  let ?n = "length Xs" and ?P = "concat (map p Xs)" and ?R = "concat (map r Xs)"
  have s0: "0 < unat sz" using sz(1) by (simp add: unat_gt_0)
  have P0: "?P \<noteq> []" using l(2) s0 Xs(2) by fastforce
  obtain d' where d': "ntfs_pwrite ops dev (int pos) ?P = (dev\<lparr>d_private := d', d_dirty := d_dirty dev \<or> ?P \<noteq> []\<rparr>, Ok (int (length ?P)))"
    "media d' = bsplice (media (d_private dev)) pos ?P"
    using ntfs_pwrite_in [of pos ?P dev] dev l(2) by auto
  let ?dev = "dev\<lparr>d_private := d', d_dirty := d_dirty dev \<or> ?P \<noteq> []\<rparr>"
  have w: "mst_write_blocks sz (concat Xs) 0 ?n = Ok (?P, ?n, None)" using mst_write_blocks_eq [OF Xs(1), of "[]" 0] by simp
  have u: "mst_unwrite_blocks sz ?P 0 ?n = Ok ?R" using mst_unwrite_blocks_eq [OF Xs(1), of "[]" 0] by simp
  have rd: "mst_read_blocks sz ?P 0 ?n = Ok ?R" using mst_read_blocks_eq [OF Xs(1), of "[]" 0] by simp
  have us: "uint sz = int (unat sz)" by simp
  have q: "?n * unat sz div unat sz = ?n" using s0 by simp
  have q1: "int (?n * unat sz) div uint sz = int ?n" unfolding us of_nat_div [symmetric] q ..
  have q2: "int ?n * uint sz = int (?n * unat sz)" unfolding us of_nat_mult ..
  have t: "take (?n * unat sz) ?P = ?P" using l(2) by simp
  have "ntfs_mst_pwrite ops dev (int pos) (int ?n) sz (concat Xs) = (?dev, Ok (?R, int ?n))"
    using w u d'(1) q1 sz Xs(2) s0 l(2) P0 unfolding ntfs_mst_pwrite_def
    by (simp add: NTFS_BLOCK_SIZE_def t del: of_nat_mult)
  moreover have "ntfs_pread ops ?dev (int pos) (int (?n * unat sz)) = Ok ?P"
    using ntfs_pread_in [of pos "?n * unat sz" ?dev] d'(2) dev(1) l(2) by (simp add: bsplice_def)
  then have "ntfs_mst_pread ops ?dev (int pos) (int ?n) sz = Ok (?R, int ?n)"
    using rd q sz l(2) s0 unfolding ntfs_mst_pread_def q2 by (simp add: NTFS_BLOCK_SIZE_def Let_def del: of_nat_mult)
  ultimately show ?thesis using d'(2) by (intro exI [of _ ?dev]) simp
qed

end

section \<open>Single bits\<close>

lemma bit_nth: "j < 8 * length b \<Longrightarrow> j div 8 < length b" for j :: nat
  by (simp add: less_mult_imp_div_less mult.commute)

lemma bm_bit_update: "k < 8 * length b \<Longrightarrow> j < 8 * length b \<Longrightarrow> (\<forall>i < 8. bit y i = (if i = k mod 8 then v else bit (b ! (k div 8)) i)) \<Longrightarrow>
    bm_bit (b[k div 8 := y]) j = (if j = k then v else bm_bit b j)"
  using bit_nth [of k b] by (auto simp: bm_bit_def nth_list_update) (metis div_mod_decomp)+

lemma and_1_bit: "drop_bit k (x :: u8) AND 1 = of_bool (bit x k)"
  by (rule bit_word_eqI) (auto simp: bit_simps)

text \<open>Single bits of a bitmap in memory: \<^verbatim>\<open>ntfs_bit_set\<close> changes exactly the bit it names,
  \<^verbatim>\<open>ntfs_bit_get\<close> reads it, and \<^verbatim>\<open>ntfs_bit_get_and_set\<close> does both; a value other than 0 or 1
  changes nothing.\<close>

theorem bit_set_get:
  assumes "k < 8 * length b"
  shows "ntfs_bit_get (Some b) k = Ok (of_bool (bm_bit b k)) \<and>
    (if v \<le> 1 then \<exists>b'. ntfs_bit_set (Some b) k v = Ok (Some b') \<and> ntfs_bit_get_and_set (Some b) k v = Ok (Some b', of_bool (bm_bit b k)) \<and>
      length b' = length b \<and> (\<forall>j < 8 * length b. bm_bit b' j = (if j = k then v = 1 else bm_bit b j))
     else ntfs_bit_set (Some b) k v = Ok (Some b) \<and> ntfs_bit_get_and_set (Some b) k v = Ok (Some b, -1))"
proof -
  have k: "k div 8 < length b" using bit_nth [OF assms] .
  have g: "aget b (int (drop_bit 3 k)) = Ok (b ! (k div 8))" using k by (simp add: aget_def drop_bit_eq_div)
  have s: "aset b (int (drop_bit 3 k)) y = Ok (b[k div 8 := y])" for y using k by (simp add: aset_def drop_bit_eq_div)
  have get: "ntfs_bit_get (Some b) k = Ok (of_bool (bm_bit b k))" using g by (simp add: ntfs_bit_get_def and_1_bit bm_bit_def)
  show ?thesis
  proof (cases "v \<le> 1")
    case False
    then have "1 < v" by simp
    then show ?thesis using get False by (simp add: ntfs_bit_set_def ntfs_bit_get_and_set_def)
  next
    case v: True
    let ?x = "b ! (k div 8)"
    let ?y = "if v = 0 then ?x AND NOT (push_bit (k mod 8) 1) else ?x OR push_bit (k mod 8) 1"
    have v01: "v = 0 \<or> v = 1" using v by (auto simp: word_le_nat_alt word_unat_eq_iff le_Suc_eq)
    have y: "\<forall>i < 8. bit ?y i = (if i = k mod 8 then v = 1 else bit ?x i)" using v01 by (auto simp: bit_simps)
    have fl: "?x XOR push_bit (k mod 8) 1 = ?y" if "v \<noteq> of_bool (bit ?x (k mod 8))"
      by (rule bit_word_eqI) (use v01 that in \<open>auto simp: bit_simps split: if_splits\<close>)
    have same: "b[k div 8 := ?y] = b" if "v = of_bool (bit ?x (k mod 8))"
    proof -
      have "?y = ?x" by (rule bit_word_eqI) (use v01 that y in \<open>auto split: if_splits\<close>)
      then show ?thesis by simp
    qed
    have st: "ntfs_bit_set (Some b) k v = Ok (Some (b[k div 8 := ?y]))" using v g s by (auto simp: ntfs_bit_set_def)
    have gs: "ntfs_bit_get_and_set (Some b) k v = Ok (Some (b[k div 8 := ?y]), of_bool (bm_bit b k))"
    proof (cases "v = of_bool (bit ?x (k mod 8))")
      case True
      then show ?thesis using v g same [OF True] by (simp add: ntfs_bit_get_and_set_def and_1_bit bm_bit_def Let_def)
    next
      case False
      then show ?thesis using v g s fl [OF False] by (auto simp: ntfs_bit_get_and_set_def and_1_bit bm_bit_def Let_def)
    qed
    have "\<forall>j < 8 * length b. bm_bit (b[k div 8 := ?y]) j = (if j = k then v = 1 else bm_bit b j)"
      using bm_bit_update [OF assms _ y] by blast
    then show ?thesis using get st gs v by (simp only: if_True simp_thms) (rule exI [of _ "b[k div 8 := ?y]"], simp)
  qed
qed

theorem bit_set_get_witness:
  "ntfs_bit_get (Some [0, 4]) 10 = Ok 1 \<and> (\<exists>b'. ntfs_bit_get_and_set (Some [0, 4]) 10 0 = Ok (Some b', 1))"
proof -
  have "bm_bit [0, 4] 10" by code_simp
  then show ?thesis using bit_set_get [of 10 "[0, 4]" 0] by auto
qed

section \<open>Transfers through a runlist\<close>

text \<open>C32. A read through a runlist of holes and real runs on the media ends and returns exactly the
  bytes the runlist stands for: those of the media for a real run, zeroes for a hole.\<close>

theorem rl_pread_bytes:
  assumes "disk io media" "list_all (run_ok (unat (cluster_size_bits vol)) (length (media (d_private dev)))) R" "rlen t = 0"
    "p + n \<le> length (rl_bytes (unat (cluster_size_bits vol)) (media (d_private dev)) R)"
  shows "ntfs_rl_pread (ntfs_device_uefi_io_ops io stale) dev (Some vol) (Some (R @ t # J)) (int p) (int n) =
    Some (Ok (take n (drop p (rl_bytes (unat (cluster_size_bits vol)) (media (d_private dev)) R))))"
  by (rule disk.ntfs_rl_pread_eq [OF assms])

definition ex_dev :: "u8 list \<Rightarrow> u8 list ndev" where
  "ex_dev m = \<lparr>d_private = m, d_readonly = False, d_sync = False, d_dirty = False\<rparr>"

abbreviation "small_vol \<equiv> ex_vol\<lparr>cluster_size_bits := 1\<rparr>"

theorem rl_pread_bytes_witness:
  "ntfs_rl_pread (ntfs_device_uefi_io_ops ram_disk EIO) (ex_dev [1, 2, 3, 4, 5, 6]) (Some small_vol)
     (Some ([rle 0 2 1, rle 1 (-1) 1, rle 2 0 1] @ rle 3 (-3) 0 # [])) (int 1) (int 4) = Some (Ok [6, 0, 0, 1])"
  using rl_pread_bytes [OF ram.disk_axioms, of small_vol "ex_dev [1, 2, 3, 4, 5, 6]" "[rle 0 2 1, rle 1 (-1) 1, rle 2 0 1]" "rle 3 (-3) 0" 1 4]
  by (simp add: ex_dev_def ex_vol_def run_ok_def run_size_def run_bytes_def rle_def lcn_defs numeral_2_eq_2)

text \<open>C3. A write through real runs that share no cluster succeeds, changes no byte of the media
  outside the runs, and a later read through the same runlist returns the new bytes where they were
  written and the old ones around them.\<close>

theorem rl_pwrite_pread:
  assumes "disk io media" "real_runs (unat (cluster_size_bits vol)) (length (media (d_private dev))) R" "rlen t = 0"
    "\<not> d_readonly dev" "\<not> vol_readonly vol"
    "p + length b \<le> length (rl_bytes (unat (cluster_size_bits vol)) (media (d_private dev)) R)"
    "q + n \<le> length (rl_bytes (unat (cluster_size_bits vol)) (media (d_private dev)) R)"
  shows "\<exists>dev'. ntfs_rl_pwrite (ntfs_device_uefi_io_ops io stale) dev (Some vol) (Some (R @ t # J)) 0 (int p) b =
      Some (dev', Ok (int (length b))) \<and>
    (\<forall>i < length (media (d_private dev)). i \<notin> set (rl_addrs (unat (cluster_size_bits vol)) R) \<longrightarrow>
       media (d_private dev') ! i = media (d_private dev) ! i) \<and>
    ntfs_rl_pread (ntfs_device_uefi_io_ops io stale) dev' (Some vol) (Some (R @ t # J)) (int q) (int n) =
      Some (Ok (take n (drop q (bsplice (rl_bytes (unat (cluster_size_bits vol)) (media (d_private dev)) R) p b))))"
proof -
  let ?bits = "unat (cluster_size_bits vol)" and ?m = "media (d_private dev)"
  have la: "p + length b \<le> length (rl_addrs ?bits R)" using assms(2,6) by (simp add: rl_bytes_addrs)
  obtain dev' where w: "ntfs_rl_pwrite (ntfs_device_uefi_io_ops io stale) dev (Some vol) (Some (R @ t # J)) 0 (int p) b = Some (dev', Ok (int (length b)))"
    "scatter ?m (media (d_private dev')) (rl_addrs ?bits R) p b"
    using disk.ntfs_rl_pwrite_eq [OF assms(1-5) la] by blast
  have l: "length (media (d_private dev')) = length ?m" using w(2) by (simp add: scatter_def)
  have b: "rl_bytes ?bits (media (d_private dev')) R = bsplice (rl_bytes ?bits ?m R) p b" by (rule scatter_bytes [OF assms(2) w(2) la])
  have "list_all (run_ok ?bits (length (media (d_private dev')))) R" using real_runs_ok [OF assms(2)] l by simp
  from disk.ntfs_rl_pread_eq [OF assms(1) this assms(3), of q n stale J] show ?thesis
    using w assms(6,7) b by (intro exI [of _ dev']) (simp add: scatter_def)
qed

theorem rl_pwrite_pread_witness:
  "\<exists>dev'. ntfs_rl_pwrite (ntfs_device_uefi_io_ops ram_disk EIO) (ex_dev [1, 2, 3, 4, 5, 6]) (Some small_vol)
     (Some ([rle 0 2 1, rle 1 0 1] @ rle 2 (-3) 0 # [])) 0 (int 1) [8, 9] = Some (dev', Ok 2) \<and>
   ntfs_rl_pread (ntfs_device_uefi_io_ops ram_disk EIO) dev' (Some small_vol)
     (Some ([rle 0 2 1, rle 1 0 1] @ rle 2 (-3) 0 # [])) (int 0) (int 4) = Some (Ok [5, 8, 9, 2])"
  using rl_pwrite_pread [OF ram.disk_axioms, of small_vol "ex_dev [1, 2, 3, 4, 5, 6]" "[rle 0 2 1, rle 1 0 1]" "rle 2 (-3) 0" 1 "[8, 9]" 0 4 EIO "[]"]
  by (force simp: ex_dev_def ex_vol_def run_ok_def run_size_def run_bytes_def rle_def lcn_defs real_runs_def rl_addrs_def run_addrs_def bsplice_def)

section \<open>Multi sector transfers on the disk\<close>

text \<open>C17. Writing any number of valid records with multi sector protection succeeds, hands the
  caller's records back unprotected, and reading them back returns the same records, which are the
  originals outside their update sequence arrays.\<close>

theorem mst_pwrite_pread:
  assumes "disk io media" "Xs \<noteq> []" "sz \<noteq> 0" "sz AND (sz - 1) = 0" "unat sz mod 512 = 0"
    "\<And>X. X \<in> set Xs \<Longrightarrow> length X = unat sz \<and> mst_record X sz \<and> take 4 X \<noteq> magic_BAAD \<and> take 4 X \<noteq> magic_HOLE \<and> 8 \<le> unat (le16_at X 4)"
    "pos + length Xs * unat sz \<le> length (media (d_private dev))" "\<not> d_readonly dev"
  shows "\<exists>dev' r. ntfs_mst_pwrite (ntfs_device_uefi_io_ops io stale) dev (int pos) (int (length Xs)) sz (concat Xs) =
      (dev', Ok (concat (map r Xs), int (length Xs))) \<and>
    ntfs_mst_pread (ntfs_device_uefi_io_ops io stale) dev' (int pos) (int (length Xs)) sz = Ok (concat (map r Xs), int (length Xs)) \<and>
    (\<forall>X \<in> set Xs. length (r X) = length X \<and>
       (\<forall>k < length X. \<not> (unat (le16_at X 4) \<le> k \<and> k < unat (le16_at X 4) + 2 * unat (le16_at X 6)) \<longrightarrow> r X ! k = X ! k))"
proof -
  have "\<exists>P R. mst_img sz X P R \<and> (\<forall>k < length X. \<not> (unat (le16_at X 4) \<le> k \<and> k < unat (le16_at X 4) + 2 * unat (le16_at X 6)) \<longrightarrow> R ! k = X ! k)"
    if "X \<in> set Xs" for X
  proof -
    note x = assms(6) [OF that]
    show ?thesis using mst_pre_post [of X sz] x unfolding mst_img_def by metis
  qed
  then obtain p r where pr: "\<forall>X \<in> set Xs. mst_img sz X (p X) (r X)"
    "\<forall>X \<in> set Xs. \<forall>k < length X. \<not> (unat (le16_at X 4) \<le> k \<and> k < unat (le16_at X 4) + 2 * unat (le16_at X 6)) \<longrightarrow> r X ! k = X ! k"
    by metis
  obtain dev' where "ntfs_mst_pwrite (ntfs_device_uefi_io_ops io stale) dev (int pos) (int (length Xs)) sz (concat Xs) =
      (dev', Ok (concat (map r Xs), int (length Xs)))"
    "ntfs_mst_pread (ntfs_device_uefi_io_ops io stale) dev' (int pos) (int (length Xs)) sz = Ok (concat (map r Xs), int (length Xs))"
    using disk.ntfs_mst_pwrite_pread [OF assms(1) pr(1) assms(2-5,7,8)] by blast
  moreover have "\<forall>X \<in> set Xs. length (r X) = length X" using pr(1) by (simp add: mst_img_def)
  ultimately show ?thesis using pr(2) by (intro exI [of _ dev'] exI [of _ r]) blast
qed

theorem mst_pwrite_pread_witness:
  "\<exists>dev' r. ntfs_mst_pwrite (ntfs_device_uefi_io_ops ram_disk EIO) (ex_dev (replicate 5000 1)) (int 512) (int 2) 1024 (concat [ex_rec, ex_rec]) =
      (dev', Ok (concat (map r [ex_rec, ex_rec]), 2)) \<and>
    ntfs_mst_pread (ntfs_device_uefi_io_ops ram_disk EIO) dev' (int 512) (int 2) 1024 = Ok (concat (map r [ex_rec, ex_rec]), 2)"
proof -
  have l: "length ex_rec = unat (1024 :: u32)" by (simp add: ex_rec_def)
  have "\<exists>dev' r. ntfs_mst_pwrite (ntfs_device_uefi_io_ops ram_disk EIO) (ex_dev (replicate 5000 1)) (int 512) (int (length [ex_rec, ex_rec])) 1024 (concat [ex_rec, ex_rec]) =
      (dev', Ok (concat (map r [ex_rec, ex_rec]), int (length [ex_rec, ex_rec]))) \<and>
    ntfs_mst_pread (ntfs_device_uefi_io_ops ram_disk EIO) dev' (int 512) (int (length [ex_rec, ex_rec])) 1024 = Ok (concat (map r [ex_rec, ex_rec]), int (length [ex_rec, ex_rec])) \<and>
    (\<forall>X \<in> set [ex_rec, ex_rec]. length (r X) = length X \<and>
       (\<forall>k < length X. \<not> (unat (le16_at X 4) \<le> k \<and> k < unat (le16_at X 4) + 2 * unat (le16_at X 6)) \<longrightarrow> r X ! k = X ! k))"
    by (rule mst_pwrite_pread [OF ram.disk_axioms]) (use l ex_rec_ok in \<open>auto simp: ex_dev_def\<close>)
  then show ?thesis by auto
qed

text \<open>A block size of 0 passes the test and is then a divisor.\<close>

lemma mst_pread_block_size_0: "0 \<le> pos \<Longrightarrow> ntfs_mst_pread ops dev pos count 0 = Fault"
  by (simp add: ntfs_mst_pread_def ntfs_pread_def)

section \<open>Runs of bits on the disk\<close>

text \<open>C7. Setting or clearing a run of bits in a bitmap attribute stored in real runs succeeds and
  changes exactly the bits of the run, for any start and length inside the bitmap: partial first and
  last bytes, runs inside one byte, and runs longer than the 8 KiB window included. The bitmap has
  to be smaller than 2 GiB, since the code keeps byte positions in an \<^verbatim>\<open>int\<close>.\<close>

theorem bitmap_run_on_disk:
  assumes "disk io media" "runs_good media vol R dev" "rlen t = 0" "\<not> vol_readonly vol" "0 \<le> a" "0 \<le> count"
    "a + count \<le> 8 * int (length (runs_content media vol R dev))" "a + count < 2 ^ 34 - 128" "\<And>n. alloc n"
  shows "(\<exists>dev'. ntfs_bitmap_set_run alloc (rl_store_pread io stale vol (R @ [t])) (rl_store_pwrite io stale vol (R @ [t])) (Some dev) a count =
      Some (Some dev', Ok ()) \<and> runs_good media vol R dev' \<and> bm_run (runs_content media vol R dev) (runs_content media vol R dev') True a count) \<and>
    (\<exists>dev'. ntfs_bitmap_clear_run alloc (rl_store_pread io stale vol (R @ [t])) (rl_store_pwrite io stale vol (R @ [t])) (Some dev) a count =
      Some (Some dev', Ok ()) \<and> runs_good media vol R dev' \<and> bm_run (runs_content media vol R dev) (runs_content media vol R dev') False a count)"
proof (intro conjI)
  have L: "disk_runs io media vol t" using assms(1,3,4) by (simp add: disk_runs_def disk_runs_axioms_def)
  show "\<exists>dev'. ntfs_bitmap_set_run alloc (rl_store_pread io stale vol (R @ [t])) (rl_store_pwrite io stale vol (R @ [t])) (Some dev) a count =
      Some (Some dev', Ok ()) \<and> runs_good media vol R dev' \<and> bm_run (runs_content media vol R dev) (runs_content media vol R dev') True a count"
    unfolding ntfs_bitmap_set_run_def by (rule disk_runs.runs_set_bits [OF L assms(2,5-9)])
  show "\<exists>dev'. ntfs_bitmap_clear_run alloc (rl_store_pread io stale vol (R @ [t])) (rl_store_pwrite io stale vol (R @ [t])) (Some dev) a count =
      Some (Some dev', Ok ()) \<and> runs_good media vol R dev' \<and> bm_run (runs_content media vol R dev) (runs_content media vol R dev') False a count"
    unfolding ntfs_bitmap_clear_run_def by (rule disk_runs.runs_set_bits [OF L assms(2,5-9)])
qed

theorem bitmap_run_on_disk_witness:
  "\<exists>dev'. ntfs_bitmap_set_run (\<lambda>n. True) (rl_store_pread ram_disk EIO small_vol ([rle 0 2 1, rle 1 0 1] @ [rle 2 (-3) 0]))
      (rl_store_pwrite ram_disk EIO small_vol ([rle 0 2 1, rle 1 0 1] @ [rle 2 (-3) 0])) (Some (ex_dev [1, 2, 3, 4, 5, 6])) 5 20 = Some (Some dev', Ok ()) \<and>
    bm_run [5, 6, 1, 2] (runs_content (\<lambda>d. d) small_vol [rle 0 2 1, rle 1 0 1] dev') True 5 20"
proof -
  have c: "runs_content (\<lambda>d. d) small_vol [rle 0 2 1, rle 1 0 1] (ex_dev [1, 2, 3, 4, 5, 6]) = [5, 6, 1, 2]"
    by (simp add: runs_content_def ex_dev_def ex_vol_def run_size_def run_bytes_def rle_def)
  have g: "runs_good (\<lambda>d. d) small_vol [rle 0 2 1, rle 1 0 1] (ex_dev [1, 2, 3, 4, 5, 6])"
    by (auto simp: runs_good_def ex_dev_def ex_vol_def run_ok_def run_size_def rle_def lcn_defs real_runs_def rl_addrs_def run_addrs_def)
  show ?thesis
    using bitmap_run_on_disk [OF ram.disk_axioms g, of "rle 2 (-3) 0" 5 20 "\<lambda>n. True" EIO] c by (auto simp: rle_def ex_vol_def)
qed

section \<open>Rotations\<close>

text \<open>The two 32-bit rotations undo each other for every shift from 1 to 31.\<close>

theorem rol_ror:
  assumes "0 < k" "k < 32"
  shows "ntfs_ror32 (ntfs_rol32 w k) k = w \<and> ntfs_rol32 (ntfs_ror32 w k) k = w"
proof -
  have "bit (ntfs_ror32 (ntfs_rol32 w k) k) n = bit w n \<and> bit (ntfs_rol32 (ntfs_ror32 w k) k) n = bit w n" if "n < 32" for n
  proof (cases "n + k < 32"; cases "n < k")
    assume "\<not> n + k < 32" "n < k"
    then have "32 + (n + k - 32) - k = n" "n - (32 - k) < k" "32 - k + (n - (32 - k)) = n" "32 - k \<le> n" "32 + n - k < 32" "32 + n - k + k - 32 = n"
      using assms that by auto
    then show ?thesis using assms that by (auto simp: ntfs_rol32_def ntfs_ror32_def bit_simps)
  qed (use assms that in \<open>auto simp: ntfs_rol32_def ntfs_ror32_def bit_simps\<close>)
  then show ?thesis by (auto intro!: bit_word_eqI)
qed

theorem rol_ror_witness: "ntfs_ror32 (ntfs_rol32 0x80000001 4) 4 = 0x80000001"
  using rol_ror [of 4 "0x80000001"] by simp

end
