(* ===== verification/Le_Bytes.thy ===== *)
theory Le_Bytes
  imports Ntfs_Prelude
begin

text \<open>
  Checked little-endian fields of 16, 32 and 64 bits in a byte buffer. A wider field is read and
  written as two halves; every access outside the buffer is a \<open>Fault\<close>.
\<close>

definition le32_at :: "u8 list \<Rightarrow> nat \<Rightarrow> u32" where
  "le32_at b i = ucast (le16_at b i) OR push_bit 16 (ucast (le16_at b (i + 2)))"

definition set_le32 :: "u8 list \<Rightarrow> nat \<Rightarrow> u32 \<Rightarrow> u8 list" where
  "set_le32 b i w = set_le16 (set_le16 b i (ucast w)) (i + 2) (ucast (drop_bit 16 w))"

definition le64_at :: "u8 list \<Rightarrow> nat \<Rightarrow> u64" where
  "le64_at b i = ucast (le32_at b i) OR push_bit 32 (ucast (le32_at b (i + 4)))"

definition set_le64 :: "u8 list \<Rightarrow> nat \<Rightarrow> u64 \<Rightarrow> u8 list" where
  "set_le64 b i w = set_le32 (set_le32 b i (ucast w)) (i + 4) (ucast (drop_bit 32 w))"

definition get_le16 :: "u8 list \<Rightarrow> nat \<Rightarrow> u16 outcome" where
  "get_le16 b i = (if i + 2 \<le> length b then Ok (le16_at b i) else Fault)"

definition get_le32 :: "u8 list \<Rightarrow> nat \<Rightarrow> u32 outcome" where
  "get_le32 b i = (if i + 4 \<le> length b then Ok (le32_at b i) else Fault)"

definition get_le64 :: "u8 list \<Rightarrow> nat \<Rightarrow> u64 outcome" where
  "get_le64 b i = (if i + 8 \<le> length b then Ok (le64_at b i) else Fault)"

definition put_le32 :: "u8 list \<Rightarrow> nat \<Rightarrow> u32 \<Rightarrow> u8 list outcome" where
  "put_le32 b i w = (if i + 4 \<le> length b then Ok (set_le32 b i w) else Fault)"

definition put_le64 :: "u8 list \<Rightarrow> nat \<Rightarrow> u64 \<Rightarrow> u8 list outcome" where
  "put_le64 b i w = (if i + 8 \<le> length b then Ok (set_le64 b i w) else Fault)"

lemma length_set_le32 [simp]: "length (set_le32 b i w) = length b"
  by (simp add: set_le32_def)

lemma length_set_le64 [simp]: "length (set_le64 b i w) = length b"
  by (simp add: set_le64_def)

lemma le16_at_append1: "i + 2 \<le> length a \<Longrightarrow> le16_at (a @ b) i = le16_at a i"
  by (simp add: le16_at_def nth_append)

lemma le16_at_append2: "le16_at (a @ b) (length a + i) = le16_at b i"
  by (simp add: le16_at_def nth_append)

lemma le32_at_append1: "i + 4 \<le> length a \<Longrightarrow> le32_at (a @ b) i = le32_at a i"
  by (simp add: le32_at_def le16_at_append1)

lemma le32_at_append2: "le32_at (a @ b) (length a + i) = le32_at b i"
  using le16_at_append2 [of a b "i + 2"] by (simp add: le32_at_def le16_at_append2 add.assoc)

lemma le64_at_append1: "i + 8 \<le> length a \<Longrightarrow> le64_at (a @ b) i = le64_at a i"
  by (simp add: le64_at_def le32_at_append1)

lemma le64_at_append2: "le64_at (a @ b) (length a + i) = le64_at b i"
  using le32_at_append2 [of a b "i + 4"] by (simp add: le64_at_def le32_at_append2 add.assoc)

lemma le32_join_split: "(ucast (ucast w :: u16) :: u32) OR push_bit 16 (ucast (ucast (drop_bit 16 w) :: u16)) = w"
  by (rule bit_word_eqI) (auto simp: bit_simps)

lemma le64_join_split: "(ucast (ucast w :: u32) :: u64) OR push_bit 32 (ucast (ucast (drop_bit 32 w) :: u32)) = w"
  by (rule bit_word_eqI) (auto simp: bit_simps)

lemma le32_at_set_same: "i + 4 \<le> length b \<Longrightarrow> le32_at (set_le32 b i w) i = w"
  by (simp add: le32_at_def set_le32_def le16_at_set_same le16_at_set_other le32_join_split)

lemma set_le32_nth_other: "k < i \<or> i + 4 \<le> k \<Longrightarrow> set_le32 b i w ! k = b ! k"
  by (auto simp: set_le32_def set_le16_nth_other)

lemma set_le16_append1: "i + 2 \<le> length a \<Longrightarrow> set_le16 (a @ b) i w = set_le16 a i w @ b"
  by (simp add: set_le16_def list_update_append)

lemma set_le32_append1: "i + 4 \<le> length a \<Longrightarrow> set_le32 (a @ b) i w = set_le32 a i w @ b"
  by (simp add: set_le32_def set_le16_append1)

lemma set_le16_append2: "set_le16 (a @ b) (length a + i) w = a @ set_le16 b i w"
  by (simp add: set_le16_def list_update_append)

lemma set_le32_append2: "set_le32 (a @ b) (length a + i) w = a @ set_le32 b i w"
  using set_le16_append2 [of a _ "i + 2"] by (simp add: set_le32_def set_le16_append2 add.assoc)

lemma set_le64_append2: "set_le64 (a @ b) (length a + i) w = a @ set_le64 b i w"
  using set_le32_append2 [of a _ "i + 4"] by (simp add: set_le64_def set_le32_append2 add.assoc)

lemma le32_at_set_other: "i + 4 \<le> j \<or> j + 4 \<le> i \<Longrightarrow> le32_at (set_le32 b i w) j = le32_at b j"
  by (auto simp: le32_at_def set_le32_def le16_at_set_other)

lemma le64_at_set_same: "i + 8 \<le> length b \<Longrightarrow> le64_at (set_le64 b i w) i = w"
  by (simp add: le64_at_def set_le64_def le32_at_set_same le32_at_set_other le64_join_split)

end
