(* ===== verification/Unistr.thy ===== *)
theory Unistr
  imports Ntfs_Prelude
begin

text \<open>
  The name functions of \<^verbatim>\<open>unistr.c\<close>: comparison, collation, case mapping and the checks on DOS and
  Win32 names. A name is an array of 16-bit units with a length; the up-case table \<^verbatim>\<open>$UpCase\<close> is an
  array with a length too. Array accesses are checked.
\<close>

type_synonym ntfschar = u16

section \<open>Comparison\<close>

text \<open>A unit mapped through the table, when it has an entry there.\<close>

definition up_char :: "ntfschar list \<Rightarrow> nat \<Rightarrow> u16 \<Rightarrow> u16 outcome" where
  "up_char upcase upcase_len u = (if unat u < upcase_len then aget upcase (int (unat u)) else Ok u)"

fun ucsncmp_loop :: "ntfschar list \<Rightarrow> ntfschar list \<Rightarrow> nat \<Rightarrow> nat \<Rightarrow> int outcome" where
  "ucsncmp_loop s1 s2 i 0 = Ok 0"
| "ucsncmp_loop s1 s2 i (Suc n) =
     obind (aget s1 (int i)) (\<lambda>c1. obind (aget s2 (int i)) (\<lambda>c2.
     if c1 < c2 then Ok (-1) else if c1 > c2 then Ok 1
     else if c1 = 0 then Ok 0 else ucsncmp_loop s1 s2 (i + 1) n))"

definition ntfs_ucsncmp :: "ntfschar list \<Rightarrow> ntfschar list \<Rightarrow> nat \<Rightarrow> int outcome" where
  "ntfs_ucsncmp s1 s2 n = ucsncmp_loop s1 s2 0 n"

fun ucsncasecmp_loop :: "ntfschar list \<Rightarrow> ntfschar list \<Rightarrow> ntfschar list \<Rightarrow> nat \<Rightarrow> nat \<Rightarrow> nat \<Rightarrow> int outcome" where
  "ucsncasecmp_loop s1 s2 upcase upcase_size i 0 = Ok 0"
| "ucsncasecmp_loop s1 s2 upcase upcase_size i (Suc n) =
     obind (aget s1 (int i)) (\<lambda>c1. obind (up_char upcase upcase_size c1) (\<lambda>c1.
     obind (aget s2 (int i)) (\<lambda>c2. obind (up_char upcase upcase_size c2) (\<lambda>c2.
     if c1 < c2 then Ok (-1) else if c1 > c2 then Ok 1
     else if c1 = 0 then Ok 0 else ucsncasecmp_loop s1 s2 upcase upcase_size (i + 1) n))))"

definition ntfs_ucsncasecmp :: "ntfschar list \<Rightarrow> ntfschar list \<Rightarrow> nat \<Rightarrow> ntfschar list \<Rightarrow> nat \<Rightarrow> int outcome" where
  "ntfs_ucsncasecmp s1 s2 n upcase upcase_size = ucsncasecmp_loop s1 s2 upcase upcase_size 0 n"

datatype ignore_case_bool = CASE_SENSITIVE | IGNORE_CASE

definition ntfs_names_are_equal ::
  "ntfschar list \<Rightarrow> nat \<Rightarrow> ntfschar list \<Rightarrow> nat \<Rightarrow> ignore_case_bool \<Rightarrow> ntfschar list \<Rightarrow> nat \<Rightarrow> bool outcome" where
  "ntfs_names_are_equal s1 s1_len s2 s2_len ic upcase upcase_size =
     (if s1_len \<noteq> s2_len then Ok False
      else if s1_len = 0 then Ok True
      else if ic = CASE_SENSITIVE then obind (ntfs_ucsncmp s1 s2 s1_len) (\<lambda>r. Ok (r = 0))
      else obind (ntfs_ucsncasecmp s1 s2 s1_len upcase upcase_size) (\<lambda>r. Ok (r = 0)))"

section \<open>Collation\<close>

text \<open>\<^verbatim>\<open>while (--cnt && (*name1 == *name2))\<close>: the index reached and the count left, for a positive
  count.\<close>

function fnc_skip :: "ntfschar list \<Rightarrow> ntfschar list \<Rightarrow> nat \<Rightarrow> nat \<Rightarrow> (nat \<times> nat) outcome" where
  "fnc_skip name1 name2 i cnt =
     (if cnt - 1 \<noteq> 0
      then obind (aget name1 (int i)) (\<lambda>a. obind (aget name2 (int i)) (\<lambda>b.
           if a = b then fnc_skip name1 name2 (i + 1) (cnt - 1) else Ok (i, cnt - 1)))
      else Ok (i, cnt - 1))"
  by pat_completeness auto
termination
  by (relation "measure (\<lambda>(a, b, i, cnt). cnt)") auto

declare fnc_skip.simps [simp del]

text \<open>The up-cased units at an index of both names.\<close>

definition fnc_pair :: "ntfschar list \<Rightarrow> ntfschar list \<Rightarrow> ntfschar list \<Rightarrow> nat \<Rightarrow> nat \<Rightarrow> (u16 \<times> u16) outcome" where
  "fnc_pair name1 name2 upcase upcase_len i =
     obind (aget name1 (int i)) (\<lambda>u1. obind (aget name2 (int i)) (\<lambda>u2.
     obind (up_char upcase upcase_len u1) (\<lambda>u1. obind (up_char upcase upcase_len u2) (\<lambda>u2. Ok (u1, u2)))))"

text \<open>\<^verbatim>\<open>do { u1 = ..., u2 = ... } while ((u1 == u2) && --cnt)\<close> from index \<open>i\<close> on, for a positive
  count.\<close>

function fnc_fold :: "ntfschar list \<Rightarrow> ntfschar list \<Rightarrow> ntfschar list \<Rightarrow> nat \<Rightarrow> nat \<Rightarrow> nat \<Rightarrow> (u16 \<times> u16) outcome" where
  "fnc_fold name1 name2 upcase upcase_len i cnt =
     obind (fnc_pair name1 name2 upcase upcase_len i) (\<lambda>(u1, u2).
     if u1 = u2 \<and> cnt - 1 \<noteq> 0 then fnc_fold name1 name2 upcase upcase_len (i + 1) (cnt - 1)
     else Ok (u1, u2))"
  by pat_completeness auto
termination
  by (relation "measure (\<lambda>(a, b, t, l, i, cnt). cnt)") auto

declare fnc_fold.simps [simp del]

text \<open>The final comparisons, in the order of the code: each one decides unless its two values are
  equal.\<close>

fun fnc_decide :: "(nat \<times> nat) list \<Rightarrow> int" where
  "fnc_decide [] = 0"
| "fnc_decide ((a, b) # rest) = (if a < b then -1 else if a > b then 1 else fnc_decide rest)"

definition ntfs_names_full_collate ::
  "ntfschar list \<Rightarrow> nat \<Rightarrow> ntfschar list \<Rightarrow> nat \<Rightarrow> ignore_case_bool \<Rightarrow> ntfschar list \<Rightarrow> nat \<Rightarrow> int outcome" where
  "ntfs_names_full_collate name1 name1_len name2 name2_len ic upcase upcase_len =
     (let cnt = min name1_len name2_len in
      if cnt > 0
      then if ic = CASE_SENSITIVE
        then obind (fnc_skip name1 name2 0 cnt) (\<lambda>(i, cnt).
             obind (aget name1 (int i)) (\<lambda>c1. obind (aget name2 (int i)) (\<lambda>c2.
             obind (fnc_pair name1 name2 upcase upcase_len i) (\<lambda>(u1, u2).
             obind (if u1 = u2 \<and> cnt \<noteq> 0 then fnc_fold name1 name2 upcase upcase_len (i + 1) cnt else Ok (u1, u2)) (\<lambda>(u1, u2).
             Ok (fnc_decide [(unat u1, unat u2), (name1_len, name2_len), (unat c1, unat c2)]))))))
        else obind (fnc_fold name1 name2 upcase upcase_len 0 cnt) (\<lambda>(u1, u2).
             Ok (fnc_decide [(unat u1, unat u2), (name1_len, name2_len)]))
      else Ok (fnc_decide [(name1_len, name2_len)]))"

section \<open>Length and case\<close>

fun ucsnlen_loop :: "ntfschar list \<Rightarrow> nat \<Rightarrow> nat \<Rightarrow> nat outcome" where
  "ucsnlen_loop s i 0 = Ok i"
| "ucsnlen_loop s i (Suc n) =
     obind (aget s (int i)) (\<lambda>c. if c = 0 then Ok i else ucsnlen_loop s (i + 1) n)"

definition ntfs_ucsnlen :: "ntfschar list \<Rightarrow> nat \<Rightarrow> nat outcome" where
  "ntfs_ucsnlen s maxlen = ucsnlen_loop s 0 maxlen"

text \<open>\<open>None\<close> when the allocation fails; \<open>alloc\<close> tells which sizes are served.\<close>

definition ntfs_ucsndup :: "(nat \<Rightarrow> bool) \<Rightarrow> ntfschar list \<Rightarrow> nat \<Rightarrow> ntfschar list option outcome" where
  "ntfs_ucsndup alloc s maxlen =
     obind (ntfs_ucsnlen s maxlen) (\<lambda>len.
     if alloc ((len + 1) * 2) then Ok (Some (take len s @ [0])) else Ok None)"

fun name_case_loop :: "ntfschar list \<Rightarrow> ntfschar list \<Rightarrow> nat \<Rightarrow> nat \<Rightarrow> nat \<Rightarrow> ntfschar list outcome" where
  "name_case_loop name table table_len i 0 = Ok name"
| "name_case_loop name table table_len i (Suc n) =
     obind (aget name (int i)) (\<lambda>u. obind (up_char table table_len u) (\<lambda>u'.
     obind (aset name (int i) u') (\<lambda>name. name_case_loop name table table_len (i + 1) n)))"

definition ntfs_name_upcase :: "ntfschar list \<Rightarrow> nat \<Rightarrow> ntfschar list \<Rightarrow> nat \<Rightarrow> ntfschar list outcome" where
  "ntfs_name_upcase name name_len upcase upcase_len = name_case_loop name upcase upcase_len 0 name_len"

definition ntfs_name_locase :: "ntfschar list \<Rightarrow> nat \<Rightarrow> ntfschar list option \<Rightarrow> nat \<Rightarrow> ntfschar list outcome" where
  "ntfs_name_locase name name_len locase locase_len =
     (case locase of None \<Rightarrow> Ok name | Some t \<Rightarrow> name_case_loop name t locase_len 0 name_len)"

section \<open>The lower case table\<close>

fun locase_loop :: "ntfschar list \<Rightarrow> nat \<Rightarrow> ntfschar list \<Rightarrow> nat \<Rightarrow> nat \<Rightarrow> ntfschar list outcome" where
  "locase_loop uc uc_cnt lc i 0 = Ok lc"
| "locase_loop uc uc_cnt lc i (Suc n) =
     obind (aget uc (int i)) (\<lambda>upp.
     obind (if unat upp \<noteq> i \<and> unat upp < uc_cnt then aset lc (int (unat upp)) (of_nat i) else Ok lc) (\<lambda>lc.
     locase_loop uc uc_cnt lc (i + 1) n))"

definition ntfs_locase_table_build :: "(nat \<Rightarrow> bool) \<Rightarrow> ntfschar list \<Rightarrow> nat \<Rightarrow> ntfschar list option outcome" where
  "ntfs_locase_table_build alloc uc uc_cnt =
     (if alloc (uc_cnt * 2)
      then obind (locase_loop uc uc_cnt (map of_nat [0..<uc_cnt]) 0 uc_cnt) (\<lambda>lc. Ok (Some lc))
      else Ok None)"

section \<open>Forbidden names\<close>

definition fc_mainset :: u32 where
  "fc_mainset = push_bit (0x22 - 0x20) 1 OR push_bit (0x2a - 0x20) 1 OR push_bit (0x2f - 0x20) 1 OR
     push_bit (0x3a - 0x20) 1 OR push_bit (0x3c - 0x20) 1 OR push_bit (0x3e - 0x20) 1 OR push_bit (0x3f - 0x20) 1"

definition fc_bad :: "u16 \<Rightarrow> bool" where
  "fc_bad ch \<longleftrightarrow> ch < 0x20 \<or> (ch < 0x40 \<and> push_bit (unat ch - 0x20) 1 AND fc_mainset \<noteq> 0) \<or> ch = 0x5c \<or> ch = 0x7c"

fun fc_loop :: "ntfschar list \<Rightarrow> nat \<Rightarrow> nat \<Rightarrow> bool \<Rightarrow> bool outcome" where
  "fc_loop name i 0 forbidden = Ok forbidden"
| "fc_loop name i (Suc n) forbidden =
     obind (aget name (int i)) (\<lambda>ch. fc_loop name (i + 1) n (forbidden \<or> fc_bad ch))"

text \<open>The result is the answer; \<^verbatim>\<open>errno\<close> is \<^verbatim>\<open>EINVAL\<close> exactly when it is true.\<close>

definition ntfs_forbidden_chars :: "ntfschar list \<Rightarrow> nat \<Rightarrow> bool \<Rightarrow> bool outcome" where
  "ntfs_forbidden_chars name len strict =
     obind (if len = 0 then Ok True
            else if strict then obind (aget name (int (len - 1))) (\<lambda>c. Ok (c = 0x20 \<or> c = 0x2e))
            else Ok False) (\<lambda>forbidden.
     fc_loop name 0 len forbidden)"

definition name_con :: "ntfschar list" where "name_con = [0x63, 0x6f, 0x6e]"
definition name_prn :: "ntfschar list" where "name_prn = [0x70, 0x72, 0x6e]"
definition name_aux :: "ntfschar list" where "name_aux = [0x61, 0x75, 0x78]"
definition name_nul :: "ntfschar list" where "name_nul = [0x6e, 0x75, 0x6c]"
definition name_com :: "ntfschar list" where "name_com = [0x63, 0x6f, 0x6d]"
definition name_lpt :: "ntfschar list" where "name_lpt = [0x6c, 0x70, 0x74]"

text \<open>The hash of the first two units.\<close>

definition fn_hash :: "u16 \<Rightarrow> u16 \<Rightarrow> int" where
  "fn_hash c0 c1 = (uint (c0 AND 31) * 48) XOR (uint (c1 AND 31) * 165)"

text \<open>A device name is followed by the end of the name or a dot; \<open>k\<close> is its length.\<close>

definition fn_ends :: "ntfschar list \<Rightarrow> nat \<Rightarrow> nat \<Rightarrow> bool outcome" where
  "fn_ends name len k = (if len = k then Ok True else obind (aget name (int k)) (\<lambda>c. Ok (c = 0x2e)))"

definition fn_is :: "ntfschar list \<Rightarrow> nat \<Rightarrow> ntfschar list \<Rightarrow> ntfschar list \<Rightarrow> bool outcome" where
  "fn_is upcase upcase_len name dev = obind (ntfs_ucsncasecmp name dev 3 upcase upcase_len) (\<lambda>r. Ok (r = 0))"

definition fn_plain :: "ntfschar list \<Rightarrow> nat \<Rightarrow> ntfschar list \<Rightarrow> nat \<Rightarrow> ntfschar list list \<Rightarrow> bool outcome" where
  "fn_plain upcase upcase_len name len devs =
     obind (fn_ends name len 3) (\<lambda>e.
     if \<not> e then Ok False
     else fold (\<lambda>dev r. obind r (\<lambda>b. if b then Ok True else fn_is upcase upcase_len name dev)) devs (Ok False))"

definition fn_numbered :: "ntfschar list \<Rightarrow> nat \<Rightarrow> ntfschar list \<Rightarrow> nat \<Rightarrow> ntfschar list \<Rightarrow> bool outcome" where
  "fn_numbered upcase upcase_len name len dev =
     (if len > 3
      then obind (aget name 3) (\<lambda>d.
           if 0x31 \<le> d \<and> d \<le> 0x39
           then obind (fn_ends name len 4) (\<lambda>e. if e then fn_is upcase upcase_len name dev else Ok False)
           else Ok False)
      else Ok False)"

definition ntfs_forbidden_names :: "ntfschar list \<Rightarrow> nat \<Rightarrow> ntfschar list \<Rightarrow> nat \<Rightarrow> bool \<Rightarrow> bool outcome" where
  "ntfs_forbidden_names upcase upcase_len name len strict =
     obind (ntfs_forbidden_chars name len strict) (\<lambda>forbidden.
     if \<not> forbidden \<and> len \<ge> 3
     then obind (aget name 0) (\<lambda>c0. obind (aget name 1) (\<lambda>c1.
          if fn_hash c0 c1 mod 23 = 17
          then obind (aget name 2) (\<lambda>c2.
               let c = c2 AND NOT 0x20 in
               if c = 0x4e then fn_plain upcase upcase_len name len [name_con, name_prn]
               else if c = 0x58 then fn_plain upcase upcase_len name len [name_aux]
               else if c = 0x4c then fn_plain upcase upcase_len name len [name_nul]
               else if c = 0x4d then fn_numbered upcase upcase_len name len name_com
               else if c = 0x54 then fn_numbered upcase upcase_len name len name_lpt
               else Ok False)
          else Ok False))
     else Ok forbidden)"

section \<open>Collapsible names\<close>

fun collapsible_loop :: "ntfschar list \<Rightarrow> nat \<Rightarrow> ntfschar list \<Rightarrow> ntfschar list \<Rightarrow> nat \<Rightarrow> nat \<Rightarrow> bool outcome" where
  "collapsible_loop upcase upcase_len shortname longname i 0 = Ok True"
| "collapsible_loop upcase upcase_len shortname longname i (Suc n) =
     obind (aget longname (int i)) (\<lambda>ch. obind (aget shortname (int i)) (\<lambda>cs.
     obind (if cs \<noteq> ch
            then if unat ch \<ge> upcase_len \<or> unat cs \<ge> upcase_len then Ok False
                 else obind (aget upcase (int (unat cs))) (\<lambda>a. obind (aget upcase (int (unat ch))) (\<lambda>b. Ok (a = b)))
            else Ok True) (\<lambda>good.
     if good then collapsible_loop upcase upcase_len shortname longname (i + 1) n else Ok False)))"

definition ntfs_collapsible_chars ::
  "ntfschar list \<Rightarrow> nat \<Rightarrow> ntfschar list \<Rightarrow> nat \<Rightarrow> ntfschar list \<Rightarrow> nat \<Rightarrow> bool outcome" where
  "ntfs_collapsible_chars upcase upcase_len shortname shortlen longname longlen =
     (if shortlen = longlen then collapsible_loop upcase upcase_len shortname longname 0 shortlen else Ok False)"

end
