(* ===== verification/Collate.thy ===== *)
theory Collate
  imports Le_Bytes Unistr
begin

text \<open>
  The collation functions of \<^verbatim>\<open>collate.c\<close>. A key is the memory from its first byte on, with the
  length the index entry states. \<^verbatim>\<open>memcmp\<close> is an argument, since C only fixes the sign of its
  result.
\<close>

definition NTFS_COLLATION_ERROR :: int where "NTFS_COLLATION_ERROR = -2"

section \<open>Definitions\<close>

type_synonym memcmp_fn = "u8 list \<Rightarrow> u8 list \<Rightarrow> int"

definition ntfs_collate_binary :: "memcmp_fn \<Rightarrow> u8 list \<Rightarrow> nat \<Rightarrow> u8 list \<Rightarrow> nat \<Rightarrow> int outcome" where
  "ntfs_collate_binary memcmp data1 data1_len data2 data2_len =
     (let n = min data1_len data2_len in
      if n \<le> length data1 \<and> n \<le> length data2
      then let rc = memcmp (take n data1) (take n data2) in
           Ok (if rc = 0 \<and> data1_len \<noteq> data2_len then if data1_len < data2_len then -1 else 1 else rc)
      else Fault)"

text \<open>\<^verbatim>\<open>if (d1 < d2) rc = -1; else if (d1 == d2) rc = 0; else rc = 1;\<close>\<close>

definition cmp32 :: "u32 \<Rightarrow> u32 \<Rightarrow> int" where
  "cmp32 d1 d2 = (if d1 < d2 then -1 else if d1 = d2 then 0 else 1)"

definition ntfs_collate_ntofs_ulong :: "u8 list \<Rightarrow> nat \<Rightarrow> u8 list \<Rightarrow> nat \<Rightarrow> int outcome" where
  "ntfs_collate_ntofs_ulong data1 data1_len data2 data2_len =
     (if data1_len \<noteq> data2_len \<or> data1_len \<noteq> 4 then Ok NTFS_COLLATION_ERROR
      else obind (get_le32 data1 0) (\<lambda>d1. obind (get_le32 data2 0) (\<lambda>d2. Ok (cmp32 d1 d2))))"

text \<open>The loop ends when the values differ or \<^verbatim>\<open>(len -= 4) > 0\<close> fails.\<close>

function ulongs_loop :: "u8 list \<Rightarrow> u8 list \<Rightarrow> nat \<Rightarrow> int \<Rightarrow> (u32 \<times> u32) outcome" where
  "ulongs_loop data1 data2 p len =
     obind (get_le32 data1 p) (\<lambda>d1. obind (get_le32 data2 p) (\<lambda>d2.
     if d1 = d2 \<and> len - 4 > 0 then ulongs_loop data1 data2 (p + 4) (len - 4) else Ok (d1, d2)))"
  by pat_completeness auto
termination
  by (relation "measure (\<lambda>(a, b, p, len). nat len)") auto

declare ulongs_loop.simps [simp del]

definition ntfs_collate_ntofs_ulongs :: "u8 list \<Rightarrow> nat \<Rightarrow> u8 list \<Rightarrow> nat \<Rightarrow> int outcome" where
  "ntfs_collate_ntofs_ulongs data1 data1_len data2 data2_len =
     (if data1_len \<noteq> data2_len \<or> data1_len = 0 \<or> data1_len mod 4 \<noteq> 0 then Ok NTFS_COLLATION_ERROR
      else obind (ulongs_loop data1 data2 0 (int data1_len)) (\<lambda>(d1, d2). Ok (cmp32 d1 d2)))"

definition ntfs_collate_ntofs_security_hash :: "u8 list \<Rightarrow> nat \<Rightarrow> u8 list \<Rightarrow> nat \<Rightarrow> int outcome" where
  "ntfs_collate_ntofs_security_hash data1 data1_len data2 data2_len =
     (if data1_len \<noteq> data2_len \<or> data1_len \<noteq> 8 then Ok NTFS_COLLATION_ERROR
      else obind (get_le32 data1 0) (\<lambda>d1. obind (get_le32 data2 0) (\<lambda>d2.
           if d1 < d2 then Ok (-1) else if d1 > d2 then Ok 1
           else obind (get_le32 data1 4) (\<lambda>d1. obind (get_le32 data2 4) (\<lambda>d2.
                Ok (if d1 < d2 then -1 else if d1 > d2 then 1 else 0))))))"

text \<open>\<^verbatim>\<open>FILE_NAME_ATTR\<close>: the length of the name in units at byte 0x40, its units from byte 0x42 on.
  All the units the memory holds are available to the comparison, which checks each access.\<close>

definition fna_units :: "u8 list \<Rightarrow> ntfschar list" where
  "fna_units data = map (\<lambda>i. le16_at data (0x42 + 2 * i)) [0..<(length data - 0x42) div 2]"

definition ntfs_collate_file_name :: "ntfschar list \<Rightarrow> nat \<Rightarrow> u8 list \<Rightarrow> nat \<Rightarrow> u8 list \<Rightarrow> nat \<Rightarrow> int outcome" where
  "ntfs_collate_file_name upcase upcase_len data1 data1_len data2 data2_len =
     obind (aget data1 0x40) (\<lambda>l1. obind (aget data2 0x40) (\<lambda>l2.
     ntfs_names_full_collate (fna_units data1) (unat l1) (fna_units data2) (unat l2) CASE_SENSITIVE upcase upcase_len))"

text \<open>The rule of an index; the functions take the volume's up-case table. \<open>None\<close> is a null pointer
  with \<^verbatim>\<open>EOPNOTSUPP\<close>.\<close>

datatype collation_rule = COLLATION_BINARY | COLLATION_FILE_NAME | COLLATION_UNICODE_STRING | COLLATION_NTOFS_ULONG |
  COLLATION_NTOFS_SID | COLLATION_NTOFS_SECURITY_HASH | COLLATION_NTOFS_ULONGS

type_synonym collate_fn = "u8 list \<Rightarrow> nat \<Rightarrow> u8 list \<Rightarrow> nat \<Rightarrow> int outcome"

definition ntfs_get_collate_function :: "memcmp_fn \<Rightarrow> ntfschar list \<Rightarrow> nat \<Rightarrow> collation_rule \<Rightarrow> collate_fn option" where
  "ntfs_get_collate_function memcmp upcase upcase_len cr =
     (case cr of
        COLLATION_BINARY \<Rightarrow> Some (ntfs_collate_binary memcmp)
      | COLLATION_FILE_NAME \<Rightarrow> Some (ntfs_collate_file_name upcase upcase_len)
      | COLLATION_NTOFS_SECURITY_HASH \<Rightarrow> Some ntfs_collate_ntofs_security_hash
      | COLLATION_NTOFS_ULONG \<Rightarrow> Some ntfs_collate_ntofs_ulong
      | COLLATION_NTOFS_ULONGS \<Rightarrow> Some ntfs_collate_ntofs_ulongs
      | _ \<Rightarrow> None)"

end
