(* ===== verification/Index_Node.thy ===== *)
theory Index_Node
  imports Collate
begin

text \<open>
  The entries of one index node, from \<^verbatim>\<open>index.c\<close>: \<open>m\<close> is the memory from the \<^verbatim>\<open>INDEX_HEADER\<close>
  on, an entry is named by its byte offset in it. Every access is checked. In the header,
  \<^verbatim>\<open>entries_offset\<close> is at byte 0 and \<^verbatim>\<open>index_length\<close> at 4; in an entry \<^verbatim>\<open>length\<close> is at 8,
  \<^verbatim>\<open>key_length\<close> at 10, \<^verbatim>\<open>ie_flags\<close> at 12 and the key at 16.
\<close>

definition INDEX_ENTRY_NODE :: u16 where "INDEX_ENTRY_NODE = 1"
definition INDEX_ENTRY_END :: u16 where "INDEX_ENTRY_END = 2"

section \<open>Walking the entries\<close>

definition ntfs_ie_get_first :: "u8 list \<Rightarrow> nat outcome" where
  "ntfs_ie_get_first m = obind (get_le32 m 0) (\<lambda>x. Ok (unat x))"

definition ntfs_ie_get_end :: "u8 list \<Rightarrow> nat outcome" where
  "ntfs_ie_get_end m = obind (get_le32 m 4) (\<lambda>x. Ok (unat x))"

definition ntfs_ie_get_next :: "u8 list \<Rightarrow> nat \<Rightarrow> nat outcome" where
  "ntfs_ie_get_next m p = obind (get_le16 m (p + 8)) (\<lambda>len. Ok (p + unat len))"

definition ntfs_ie_end :: "u8 list \<Rightarrow> nat \<Rightarrow> bool outcome" where
  "ntfs_ie_end m p =
     obind (get_le16 m (p + 12)) (\<lambda>flags.
     if flags AND INDEX_ENTRY_END \<noteq> 0 then Ok True
     else obind (get_le16 m (p + 8)) (\<lambda>len. Ok (len = 0)))"

text \<open>The sub-node number is in the last eight bytes of an entry.\<close>

definition ntfs_ie_get_vcn_addr :: "u8 list \<Rightarrow> nat \<Rightarrow> nat outcome" where
  "ntfs_ie_get_vcn_addr m p =
     obind (get_le16 m (p + 8)) (\<lambda>len. if p + unat len < 8 then Fault else Ok (p + unat len - 8))"

definition ntfs_ie_get_vcn :: "u8 list \<Rightarrow> nat \<Rightarrow> int outcome" where
  "ntfs_ie_get_vcn m p = obind (ntfs_ie_get_vcn_addr m p) (\<lambda>a. obind (get_le64 m a) (\<lambda>v. Ok (sint v)))"

definition ntfs_ie_set_vcn :: "u8 list \<Rightarrow> nat \<Rightarrow> int \<Rightarrow> u8 list outcome" where
  "ntfs_ie_set_vcn m p vcn = obind (ntfs_ie_get_vcn_addr m p) (\<lambda>a. put_le64 m a (word_of_int vcn))"

lemma ie_end_len: "ntfs_ie_end m p = Ok False \<Longrightarrow> get_le16 m (p + 8) = Ok len \<Longrightarrow> 0 < unat len"
  by (auto simp: ntfs_ie_end_def obind_Ok_iff unat_gt_0 split: if_splits)

lemma ie_next_gt: "ntfs_ie_end m p = Ok False \<Longrightarrow> ntfs_ie_get_next m p = Ok q \<Longrightarrow> p < q"
  using ie_end_len by (fastforce simp: ntfs_ie_get_next_def obind_Ok_iff)

function ntfs_ie_get_last :: "u8 list \<Rightarrow> nat \<Rightarrow> nat \<Rightarrow> nat outcome" where
  "ntfs_ie_get_last m p ies_end =
     (if p < ies_end
      then obind (ntfs_ie_end m p) (\<lambda>e.
           if e then Ok p else obind (ntfs_ie_get_next m p) (\<lambda>q. ntfs_ie_get_last m q ies_end))
      else Ok p)"
  by pat_completeness auto
termination
  by (relation "measure (\<lambda>(m, p, e). e - p)") (auto dest: ie_next_gt)

declare ntfs_ie_get_last.simps [simp del]

fun ie_steps :: "u8 list \<Rightarrow> nat \<Rightarrow> nat \<Rightarrow> nat outcome" where
  "ie_steps m p 0 = Ok p"
| "ie_steps m p (Suc n) = obind (ntfs_ie_get_next m p) (\<lambda>q. ie_steps m q n)"

definition ntfs_ie_get_by_pos :: "u8 list \<Rightarrow> int \<Rightarrow> nat outcome" where
  "ntfs_ie_get_by_pos m pos = obind (ntfs_ie_get_first m) (\<lambda>p. ie_steps m p (nat pos))"

text \<open>\<^verbatim>\<open>for (n = 0; !ntfs_ie_end(ie) && ie < end; n++)\<close>: the end test comes first.\<close>

function numof_loop :: "u8 list \<Rightarrow> nat \<Rightarrow> nat \<Rightarrow> nat \<Rightarrow> nat outcome" where
  "numof_loop m index_end p n =
     obind (ntfs_ie_end m p) (\<lambda>e.
     if \<not> e \<and> p < index_end then obind (ntfs_ie_get_next m p) (\<lambda>q. numof_loop m index_end q (n + 1)) else Ok n)"
  by pat_completeness auto
termination
  by (relation "measure (\<lambda>(m, e, p, n). e - p)") (auto dest: ie_next_gt)

declare numof_loop.simps [simp del]

definition ntfs_ih_numof_entries :: "u8 list \<Rightarrow> nat outcome" where
  "ntfs_ih_numof_entries m =
     obind (ntfs_ie_get_end m) (\<lambda>index_end. obind (ntfs_ie_get_first m) (\<lambda>p. numof_loop m index_end p 0))"

definition ntfs_ih_one_entry :: "u8 list \<Rightarrow> bool outcome" where
  "ntfs_ih_one_entry m = obind (ntfs_ih_numof_entries m) (\<lambda>n. Ok (n = 1))"

definition ntfs_ih_zero_entry :: "u8 list \<Rightarrow> bool outcome" where
  "ntfs_ih_zero_entry m = obind (ntfs_ih_numof_entries m) (\<lambda>n. Ok (n = 0))"

text \<open>The median counts with the tests in the other order.\<close>

function median_count :: "u8 list \<Rightarrow> nat \<Rightarrow> nat \<Rightarrow> nat \<Rightarrow> nat outcome" where
  "median_count m ie_end p i =
     (if p < ie_end
      then obind (ntfs_ie_end m p) (\<lambda>e.
           if e then Ok i else obind (ntfs_ie_get_next m p) (\<lambda>q. median_count m ie_end q (i + 1)))
      else Ok i)"
  by pat_completeness auto
termination
  by (relation "measure (\<lambda>(m, e, p, i). e - p)") (auto dest: ie_next_gt)

declare median_count.simps [simp del]

definition ntfs_ie_get_median :: "u8 list \<Rightarrow> nat outcome" where
  "ntfs_ie_get_median m =
     obind (ntfs_ie_get_first m) (\<lambda>start. obind (ntfs_ie_get_end m) (\<lambda>ie_end.
     obind (median_count m ie_end start 0) (\<lambda>i. ie_steps m start (i div 2))))"

section \<open>Changing the entries\<close>

text \<open>The sizes passed to \<^verbatim>\<open>memmove\<close> wrap around when they would be negative; such a call leaves
  the memory, as does one that reaches past its end.\<close>

definition ntfs_ie_delete :: "u8 list \<Rightarrow> nat \<Rightarrow> u8 list outcome" where
  "ntfs_ie_delete m p =
     obind (get_le32 m 4) (\<lambda>il. obind (get_le16 m (p + 8)) (\<lambda>len.
     let new_size = il - ucast len in
     obind (put_le32 m 4 new_size) (\<lambda>m.
     obind (get_le16 m (p + 8)) (\<lambda>len.
     acopy m (int p) m (int p + uint len) (uint new_size - int p)))))"

definition ntfs_ie_insert :: "u8 list \<Rightarrow> u8 list \<Rightarrow> nat \<Rightarrow> u8 list outcome" where
  "ntfs_ie_insert m ie p =
     obind (get_le16 ie 8) (\<lambda>ie_size.
     obind (get_le32 m 4) (\<lambda>il.
     obind (put_le32 m 4 (il + ucast ie_size)) (\<lambda>m.
     obind (get_le32 m 4) (\<lambda>il.
     obind (acopy m (int p + uint ie_size) m (int p) (uint il - int p - uint ie_size)) (\<lambda>m.
     acopy m (int p) ie 0 (uint ie_size))))))"

text \<open>\<open>None\<close> is a failed allocation.\<close>

definition ntfs_ie_dup :: "(nat \<Rightarrow> bool) \<Rightarrow> u8 list \<Rightarrow> nat \<Rightarrow> u8 list option outcome" where
  "ntfs_ie_dup alloc m p =
     obind (get_le16 m (p + 8)) (\<lambda>len.
     if \<not> alloc (unat len) then Ok None
     else if p + unat len \<le> length m then Ok (Some (take (unat len) (drop p m))) else Fault)"

definition ntfs_ie_dup_novcn :: "(int \<Rightarrow> bool) \<Rightarrow> u8 list \<Rightarrow> nat \<Rightarrow> u8 list option outcome" where
  "ntfs_ie_dup_novcn alloc m p =
     obind (get_le16 m (p + 8)) (\<lambda>len. obind (get_le16 m (p + 12)) (\<lambda>flags.
     let size = (if flags AND INDEX_ENTRY_NODE \<noteq> 0 then uint len - 8 else uint len) in
     if \<not> alloc size then Ok None
     else if size < 14 \<or> int p + size > int (length m) then Fault
     else let dup = take (nat size) (drop p m) in
          Ok (Some (set_le16 (set_le16 dup 12 (flags AND NOT INDEX_ENTRY_NODE)) 8 (word_of_int size)))))"

section \<open>Lookup\<close>

datatype ie_status =
  STATUS_OK nat nat
| STATUS_NOT_FOUND nat
| STATUS_KEEP_SEARCHING int nat

datatype ie_stop = Ie_Match nat nat | Ie_Stop nat nat

function ie_lookup_loop ::
  "collate_fn option \<Rightarrow> u8 list \<Rightarrow> nat \<Rightarrow> u8 list \<Rightarrow> nat \<Rightarrow> nat \<Rightarrow> nat \<Rightarrow> ie_stop outcome" where
  "ie_lookup_loop collate key key_len m index_end p item =
     (if p + 16 > index_end then Err ERANGE
      else obind (get_le16 m (p + 8)) (\<lambda>len.
           if p + unat len > index_end then Err ERANGE
           else obind (ntfs_ie_end m p) (\<lambda>e.
           if e then Ok (Ie_Stop p item)
           else case collate of None \<Rightarrow> Err EOPNOTSUPP
           | Some c \<Rightarrow>
               obind (get_le16 m (p + 10)) (\<lambda>klen.
               obind (c key key_len (drop (p + 16) m) (unat klen)) (\<lambda>rc.
               if rc = NTFS_COLLATION_ERROR then Err ERANGE
               else if rc = -1 then Ok (Ie_Stop p item)
               else if rc = 0 then Ok (Ie_Match p item)
               else ie_lookup_loop collate key key_len m index_end (p + unat len) (item + 1))))))"
  by pat_completeness auto
termination
  by (relation "measure (\<lambda>(c, key, n, m, e, p, i). e - p)") (auto dest: ie_end_len)

declare ie_lookup_loop.simps [simp del]

text \<open>The second component of \<open>STATUS_OK\<close> and \<open>STATUS_KEEP_SEARCHING\<close> is the item number stored
  in \<^verbatim>\<open>icx->parent_pos\<close>.\<close>

definition ntfs_ie_lookup :: "collate_fn option \<Rightarrow> u8 list \<Rightarrow> nat \<Rightarrow> u8 list \<Rightarrow> ie_status outcome" where
  "ntfs_ie_lookup collate key key_len m =
     obind (ntfs_ie_get_end m) (\<lambda>index_end. obind (ntfs_ie_get_first m) (\<lambda>p.
     obind (ie_lookup_loop collate key key_len m index_end p 0) (\<lambda>r.
     case r of
       Ie_Match p item \<Rightarrow> Ok (STATUS_OK p item)
     | Ie_Stop p item \<Rightarrow>
         obind (get_le16 m (p + 12)) (\<lambda>flags.
         if flags AND INDEX_ENTRY_NODE = 0 then Ok (STATUS_NOT_FOUND p)
         else obind (ntfs_ie_get_vcn m p) (\<lambda>vcn.
              if vcn < 0 then Err EINVAL else Ok (STATUS_KEEP_SEARCHING vcn item))))))"

end
