(* ===== verification/Unistr_Props.thy ===== *)
theory Unistr_Props
  imports Unistr
begin

text \<open>
  What the name functions compute: collation is the lexicographic order on the up-cased names with
  the order on the names themselves as the tie break, a linear order; equality, case mapping and the
  checks on forbidden names agree with their plain definitions.
\<close>

section \<open>Reference definitions\<close>

definition up :: "ntfschar list \<Rightarrow> nat \<Rightarrow> u16 \<Rightarrow> u16" where
  "up T n u = (if unat u < n then T ! unat u else u)"

text \<open>Three-way lexicographic comparison: a proper prefix comes first.\<close>

fun lex3 :: "'a::linorder list \<Rightarrow> 'a list \<Rightarrow> int" where
  "lex3 [] [] = 0"
| "lex3 [] (y # ys) = -1"
| "lex3 (x # xs) [] = 1"
| "lex3 (x # xs) (y # ys) = (if x < y then -1 else if x > y then 1 else lex3 xs ys)"

text \<open>The order of file names in a directory index.\<close>

definition name_order :: "ntfschar list \<Rightarrow> nat \<Rightarrow> ntfschar list \<Rightarrow> ntfschar list \<Rightarrow> int" where
  "name_order T n a b = (let r = lex3 (map (up T n) a) (map (up T n) b) in if r \<noteq> 0 then r else lex3 a b)"

lemma up_char_eq: "n \<le> length T \<Longrightarrow> up_char T n u = Ok (up T n u)"
  by (cases "unat u < n") (simp_all only: up_char_def up_def aget_def if_True if_False of_nat_0_le_iff of_nat_less_iff nat_int simp_thms less_le_trans)

section \<open>A contract of comparison functions\<close>

text \<open>What the users of a collation function rely on: it is a three-way comparison for a linear
  order.\<close>

locale three_way =
  fixes cmp :: "'a \<Rightarrow> 'a \<Rightarrow> int"
  assumes cmp_0: "cmp x y = 0 \<longleftrightarrow> x = y"
    and cmp_swap: "cmp y x = - cmp x y"
    and cmp_trans: "cmp x y = -1 \<Longrightarrow> cmp y z = -1 \<Longrightarrow> cmp x z = -1"
    and cmp_range: "cmp x y \<in> {-1, 0, 1}"
begin

lemma cmp_cases: obtains "cmp x y = -1" | "x = y" | "cmp x y = 1"
  using cmp_range [of x y] cmp_0 [of x y] by auto

lemma cmp_refl [simp]: "cmp x x = 0"
  by (simp add: cmp_0)

lemma cmp_gt: "cmp x y = 1 \<longleftrightarrow> cmp y x = -1"
  using cmp_swap [of x y] by auto

lemma cmp_trans_gt: "cmp x y = 1 \<Longrightarrow> cmp y z = 1 \<Longrightarrow> cmp x z = 1"
  using cmp_trans [of z y x] by (simp add: cmp_gt)

text \<open>Keys in strictly ascending order.\<close>

definition ascending :: "'a list \<Rightarrow> bool" where
  "ascending = sorted_wrt (\<lambda>x y. cmp x y = -1)"

text \<open>Below the first key that is not smaller than \<open>k\<close> nothing equals \<open>k\<close>, and above it neither.\<close>

lemma ascending_split:
  assumes "ascending (A @ x # B)" "\<forall>a \<in> set A. cmp k a = 1" "cmp k x = -1"
  shows "k \<notin> set (A @ x # B)"
proof -
  have "cmp k b = -1" if "b \<in> set B" for b
    using assms(1) that cmp_trans [OF assms(3), of b] by (auto simp: ascending_def sorted_wrt_append)
  then show ?thesis using assms(2,3) by force
qed

end

lemma lex3_range: "lex3 a b \<in> {-1, 0, 1}"
  by (induction a b rule: lex3.induct) auto

lemma lex3_0: "lex3 a b = 0 \<longleftrightarrow> a = b"
  by (induction a b rule: lex3.induct) auto

lemma lex3_swap: "lex3 b a = - lex3 a b"
  by (induction a b rule: lex3.induct) auto

lemma lex3_trans: "lex3 a b = -1 \<Longrightarrow> lex3 b c = -1 \<Longrightarrow> lex3 a c = -1"
proof (induction a b arbitrary: c rule: lex3.induct)
  case (2 y ys)
  then show ?case by (cases c) auto
next
  case (4 x xs y ys)
  then show ?case by (cases c) (auto split: if_splits)
qed auto

interpretation lex: three_way "lex3 :: 'a::linorder list \<Rightarrow> _"
  by unfold_locales (rule lex3_0, rule lex3_swap, erule lex3_trans, assumption, rule lex3_range)

lemma lex3_first_difference:
  assumes "k < length a" "k < length b" "\<forall>j < k. a ! j = b ! j" "a ! k \<noteq> b ! k"
  shows "lex3 a b = (if a ! k < b ! k then -1 else 1)"
  using assms
proof (induction k arbitrary: a b)
  case 0
  then show ?case by (cases a; cases b) auto
next
  case (Suc k)
  obtain x xs y ys where ab: "a = x # xs" "b = y # ys" using Suc.prems(1,2) by (cases a; cases b) auto
  have "x = y" using Suc.prems(3) ab by auto
  moreover have "\<forall>j < k. xs ! j = ys ! j" using Suc.prems(3) ab by auto
  ultimately show ?case using Suc.IH [of xs ys] Suc.prems ab by auto
qed

lemma lex3_prefix:
  assumes "\<forall>j < min (length a) (length b). a ! j = b ! j"
  shows "lex3 a b = fnc_decide [(length a, length b)]"
  using assms
proof (induction a b rule: lex3.induct)
  case (4 x xs y ys)
  have "x = y" using 4(2) by auto
  moreover have "\<forall>j < min (length xs) (length ys). xs ! j = ys ! j" using 4(2) by (auto dest: spec [of _ "Suc _"])
  ultimately show ?case using 4(1) by auto
qed auto

interpretation names: three_way "name_order T n"
proof unfold_locales
  fix x y z :: "ntfschar list"
  let ?u = "map (up T n)"
  note r = lex.cmp_0 lex.cmp_swap [of "?u y" "?u x"] lex.cmp_swap [of y x]
  show "name_order T n x y = 0 \<longleftrightarrow> x = y" by (auto simp: name_order_def Let_def r(1))
  show "name_order T n y x = - name_order T n x y" using r by (auto simp: name_order_def Let_def)
  show "name_order T n x y \<in> {-1, 0, 1}" using lex3_range [of "?u x" "?u y"] lex3_range [of x y] by (auto simp: name_order_def Let_def)
  assume a: "name_order T n x y = -1" "name_order T n y z = -1"
  show "name_order T n x z = -1"
  proof (cases "?u x = ?u y \<or> ?u y = ?u z")
    case True
    then show ?thesis using a lex3_trans [of x y z] by (auto simp: name_order_def Let_def r(1) split: if_splits)
  next
    case False
    then show ?thesis using a lex3_trans [of "?u x" "?u y" "?u z"] by (auto simp: name_order_def Let_def r(1) split: if_splits)
  qed
qed

section \<open>The loops\<close>

lemma fnc_skip_eq:
  assumes "0 < cnt" "i + cnt \<le> length a" "i + cnt \<le> length b"
  shows "\<exists>k < cnt. fnc_skip a b i cnt = Ok (i + k, cnt - 1 - k) \<and> (\<forall>j < k. a ! (i + j) = b ! (i + j)) \<and>
    (k < cnt - 1 \<longrightarrow> a ! (i + k) \<noteq> b ! (i + k))"
  using assms
proof (induction cnt arbitrary: i)
  case (Suc c)
  show ?case
  proof (cases "c \<noteq> 0 \<and> a ! i = b ! i")
    case True
    obtain k where k: "k < c" "fnc_skip a b (i + 1) c = Ok (i + 1 + k, c - 1 - k)" "\<forall>j < k. a ! (i + 1 + j) = b ! (i + 1 + j)"
      "k < c - 1 \<longrightarrow> a ! (i + 1 + k) \<noteq> b ! (i + 1 + k)"
      using Suc.IH [of "i + 1"] Suc.prems True by auto
    have "fnc_skip a b i (Suc c) = Ok (i + Suc k, Suc c - 1 - Suc k)"
      using k(2) True Suc.prems by (subst fnc_skip.simps) (simp add: aget_def)
    moreover have "\<forall>j < Suc k. a ! (i + j) = b ! (i + j)" using k(3) True less_Suc_eq_0_disj by auto
    moreover have "Suc k < Suc c - 1 \<longrightarrow> a ! (i + Suc k) \<noteq> b ! (i + Suc k)" using k(4) by auto
    ultimately show ?thesis using k(1) by blast
  next
    case False
    then have "fnc_skip a b i (Suc c) = Ok (i + 0, Suc c - 1 - 0)" using Suc.prems by (subst fnc_skip.simps) (auto simp: aget_def)
    then show ?thesis using False by (intro exI [of _ 0]) auto
  qed
qed simp

lemma fnc_pair_eq:
  "n \<le> length T \<Longrightarrow> i < length a \<Longrightarrow> i < length b \<Longrightarrow> fnc_pair a b T n i = Ok (up T n (a ! i), up T n (b ! i))"
  by (simp add: fnc_pair_def aget_def up_char_eq)

lemma fnc_fold_eq:
  assumes "n \<le> length T" "0 < cnt" "i + cnt \<le> length a" "i + cnt \<le> length b"
  shows "\<exists>k < cnt. fnc_fold a b T n i cnt = Ok (up T n (a ! (i + k)), up T n (b ! (i + k))) \<and>
    (\<forall>j < k. up T n (a ! (i + j)) = up T n (b ! (i + j))) \<and>
    (k < cnt - 1 \<longrightarrow> up T n (a ! (i + k)) \<noteq> up T n (b ! (i + k)))"
  using assms(2-4)
proof (induction cnt arbitrary: i)
  case (Suc c)
  note p = fnc_pair_eq [OF assms(1), of i a b]
  show ?case
  proof (cases "c \<noteq> 0 \<and> up T n (a ! i) = up T n (b ! i)")
    case True
    obtain k where k: "k < c" "fnc_fold a b T n (i + 1) c = Ok (up T n (a ! (i + 1 + k)), up T n (b ! (i + 1 + k)))"
      "\<forall>j < k. up T n (a ! (i + 1 + j)) = up T n (b ! (i + 1 + j))"
      "k < c - 1 \<longrightarrow> up T n (a ! (i + 1 + k)) \<noteq> up T n (b ! (i + 1 + k))"
      using Suc.IH [of "i + 1"] Suc.prems True by auto
    have "fnc_fold a b T n i (Suc c) = Ok (up T n (a ! (i + Suc k)), up T n (b ! (i + Suc k)))"
      using k(2) True Suc.prems p by (subst fnc_fold.simps) simp
    moreover have "\<forall>j < Suc k. up T n (a ! (i + j)) = up T n (b ! (i + j))" using k(3) True less_Suc_eq_0_disj by auto
    moreover have "Suc k < Suc c - 1 \<longrightarrow> up T n (a ! (i + Suc k)) \<noteq> up T n (b ! (i + Suc k))" using k(4) by auto
    ultimately show ?thesis using k(1) by blast
  next
    case False
    then have "fnc_fold a b T n i (Suc c) = Ok (up T n (a ! (i + 0)), up T n (b ! (i + 0)))" using Suc.prems p by (subst fnc_fold.simps) auto
    then show ?thesis using False by (intro exI [of _ 0]) auto
  qed
qed simp

text \<open>The case-insensitive part: the pair at the first difference, or at the end of the shorter
  name, decides, then the lengths.\<close>

lemma fold_decides:
  assumes "k < min (length a) (length b)" "\<forall>j < k. up T n (a ! j) = up T n (b ! j)"
    "k < min (length a) (length b) - 1 \<longrightarrow> up T n (a ! k) \<noteq> up T n (b ! k)"
  shows "fnc_decide ((unat (up T n (a ! k)), unat (up T n (b ! k))) # (length a, length b) # rest) =
    (let r = lex3 (map (up T n) a) (map (up T n) b) in if r \<noteq> 0 then r else fnc_decide rest)"
proof (cases "up T n (a ! k) = up T n (b ! k)")
  case True
  then have "k = min (length a) (length b) - 1" using assms(1,3) by linarith
  then have "\<forall>j < min (length a) (length b). up T n (a ! j) = up T n (b ! j)"
    using assms(2) True by (metis less_Suc_eq_le Suc_pred' assms(1) gr_implies_not0 le_neq_implies_less neq0_conv)
  then have "lex3 (map (up T n) a) (map (up T n) b) = fnc_decide [(length a, length b)]"
    using lex3_prefix [of "map (up T n) a" "map (up T n) b"] by simp
  then show ?thesis using True by (auto simp: Let_def)
next
  case False
  then have "lex3 (map (up T n) a) (map (up T n) b) = (if up T n (a ! k) < up T n (b ! k) then -1 else 1)"
    using lex3_first_difference [of k "map (up T n) a" "map (up T n) b"] assms by simp
  then show ?thesis using False by (auto simp: Let_def word_less_nat_alt word_unat_eq_iff)
qed

lemma raw_decides:
  assumes "length a = length b" "k < length a" "\<forall>j < k. a ! j = b ! j" "k < length a - 1 \<longrightarrow> a ! k \<noteq> b ! k"
  shows "fnc_decide [(unat (a ! k), unat (b ! k))] = lex3 a (b :: ntfschar list)"
proof (cases "a ! k = b ! k")
  case True
  then have "k = length a - 1" using assms(2,4) by linarith
  then have "j < k \<or> j = k" if "j < length a" for j using that by linarith
  then have "a = b" using assms(1,3) True by (intro nth_equalityI) auto
  then show ?thesis using True by (simp add: lex3_0)
next
  case False
  then show ?thesis using lex3_first_difference [of k a b] assms by (auto simp: word_less_nat_alt word_unat_eq_iff)
qed

lemma full_collate_eq:
  assumes "n \<le> length T"
  shows "ntfs_names_full_collate a (length a) b (length b) CASE_SENSITIVE T n = Ok (name_order T n a b)"
    and "ntfs_names_full_collate a (length a) b (length b) IGNORE_CASE T n = Ok (lex3 (map (up T n) a) (map (up T n) b))"
proof -
  let ?m = "min (length a) (length b)" and ?ua = "\<lambda>k. up T n (a ! k)" and ?ub = "\<lambda>k. up T n (b ! k)"
  have empty: "lex3 x y = fnc_decide [(length x, length y)]" if "min (length x) (length y) = 0" for x y :: "ntfschar list"
    using that lex3_prefix [of x y] by simp
  show "ntfs_names_full_collate a (length a) b (length b) IGNORE_CASE T n = Ok (lex3 (map (up T n) a) (map (up T n) b))"
  proof (cases "?m = 0")
    case True
    then show ?thesis using empty [of "map (up T n) a" "map (up T n) b"] by (simp add: ntfs_names_full_collate_def)
  next
    case False
    then obtain k where k: "k < ?m" "fnc_fold a b T n 0 ?m = Ok (?ua k, ?ub k)" "\<forall>j < k. ?ua j = ?ub j" "k < ?m - 1 \<longrightarrow> ?ua k \<noteq> ?ub k"
      using fnc_fold_eq [OF assms, of ?m 0 a b] by auto
    then show ?thesis using False fold_decides [OF k(1,3,4), of "[]"] by (simp add: ntfs_names_full_collate_def Let_def del: fnc_decide.simps(2))
  qed
  show "ntfs_names_full_collate a (length a) b (length b) CASE_SENSITIVE T n = Ok (name_order T n a b)"
  proof (cases "?m = 0")
    case True
    then show ?thesis using empty [of "map (up T n) a" "map (up T n) b"] empty [of a b]
      by (auto simp: ntfs_names_full_collate_def name_order_def Let_def)
  next
    case False
    obtain k where k: "k < ?m" "fnc_skip a b 0 ?m = Ok (k, ?m - 1 - k)" "\<forall>j < k. a ! j = b ! j" "k < ?m - 1 \<longrightarrow> a ! k \<noteq> b ! k"
      using fnc_skip_eq [of ?m 0 a b] False by auto
    let ?rest = "[(unat (a ! k), unat (b ! k))]"
    obtain l where l: "k \<le> l" "l < ?m" "(if ?ua k = ?ub k \<and> ?m - 1 - k \<noteq> 0 then fnc_fold a b T n (k + 1) (?m - 1 - k) else Ok (?ua k, ?ub k)) = Ok (?ua l, ?ub l)"
      "\<forall>j < l. ?ua j = ?ub j" "l < ?m - 1 \<longrightarrow> ?ua l \<noteq> ?ub l"
    proof (cases "?ua k = ?ub k \<and> ?m - 1 - k \<noteq> 0")
      case True
      then obtain q where q: "q < ?m - 1 - k" "fnc_fold a b T n (k + 1) (?m - 1 - k) = Ok (?ua (k + 1 + q), ?ub (k + 1 + q))"
        "\<forall>j < q. ?ua (k + 1 + j) = ?ub (k + 1 + j)" "q < ?m - 1 - k - 1 \<longrightarrow> ?ua (k + 1 + q) \<noteq> ?ub (k + 1 + q)"
      proof -
        have "0 < ?m - 1 - k" "k + 1 + (?m - 1 - k) \<le> length a" "k + 1 + (?m - 1 - k) \<le> length b" using True k(1) by auto
        from fnc_fold_eq [OF assms this] show ?thesis by (elim exE conjE) (rule that)
      qed
      have "?ua j = ?ub j" if "j < k + 1 + q" for j
      proof (cases "j \<le> k")
        case True
        then show ?thesis using k(3) \<open>?ua k = ?ub k \<and> _\<close> by (cases "j = k") auto
      next
        case False
        then show ?thesis using q(3) that by (auto dest: spec [of _ "j - (k + 1)"])
      qed
      then show ?thesis using q True by (intro that [of "k + 1 + q"]) auto
    next
      case False
      then show ?thesis using k by (intro that [of k]) auto
    qed
    have g: "aget a (int k) = Ok (a ! k)" "aget b (int k) = Ok (b ! k)" using k(1) by (auto simp: aget_def)
    have p: "fnc_pair a b T n k = Ok (?ua k, ?ub k)" using fnc_pair_eq [OF assms, of k a b] k(1) by simp
    have "ntfs_names_full_collate a (length a) b (length b) CASE_SENSITIVE T n =
        Ok (fnc_decide ((unat (?ua l), unat (?ub l)) # (length a, length b) # ?rest))"
      using k(1) unfolding ntfs_names_full_collate_def Let_def
      by (simp only: k(2) g p l(3) obind.simps prod.case if_True simp_thms less_nat_zero_code split: if_splits) auto
    also have "\<dots> = Ok (name_order T n a b)"
    proof (cases "length a = length b")
      case True
      have "fnc_decide ?rest = lex3 a b" by (rule raw_decides [OF True]) (use k True in auto)
      then show ?thesis using fold_decides [OF l(2,4,5), of ?rest] by (simp only: name_order_def Let_def)
    next
      case ne: False
      then have "map (up T n) a \<noteq> map (up T n) b" using map_eq_imp_length_eq by blast
      then show ?thesis using fold_decides [OF l(2,4,5), of ?rest] by (simp only: name_order_def Let_def lex3_0 if_True simp_thms)
    qed
    finally show ?thesis .
  qed
qed

section \<open>Equality\<close>

abbreviation nz :: "u16 \<Rightarrow> bool" where "nz \<equiv> \<lambda>c. c \<noteq> 0"

lemma ucsncmp_loop_eq:
  assumes "i + m \<le> length a" "i + m \<le> length b"
  shows "\<exists>r. ucsncmp_loop a b i m = Ok r \<and>
    (r = 0 \<longleftrightarrow> takeWhile nz (take m (drop i a)) = takeWhile nz (take m (drop i b)))"
  using assms
proof (induction m arbitrary: i)
  case (Suc m)
  have d: "take (Suc m) (drop i c) = c ! i # take m (drop (i + 1) c)" if "i < length c" for c :: "ntfschar list"
    using that by (simp add: Cons_nth_drop_Suc [symmetric])
  show ?case using Suc.IH [of "i + 1"] Suc.prems d [of a] d [of b] by (auto simp: aget_def word_gt_0)
qed simp

lemma ucsncasecmp_loop_eq:
  assumes "n \<le> length T" "i + m \<le> length a" "i + m \<le> length b"
  shows "\<exists>r. ucsncasecmp_loop a b T n i m = Ok r \<and>
    (r = 0 \<longleftrightarrow> takeWhile nz (map (up T n) (take m (drop i a))) = takeWhile nz (map (up T n) (take m (drop i b))))"
  using assms(2,3)
proof (induction m arbitrary: i)
  case (Suc m)
  have d: "take (Suc m) (drop i c) = c ! i # take m (drop (i + 1) c)" if "i < length c" for c :: "ntfschar list"
    using that by (simp add: Cons_nth_drop_Suc [symmetric])
  show ?case using Suc.IH [of "i + 1"] Suc.prems d [of a] d [of b] by (auto simp: aget_def up_char_eq [OF assms(1)] word_gt_0)
qed simp

lemma takeWhile_nz_eq:
  assumes "takeWhile nz X = Y" "length X = length Y"
  shows "X = Y"
  using assms by (metis takeWhile_eq_take take_all_iff take_equalityI length_take min.absorb_iff1 takeWhile_dropWhile_id append_eq_conv_conj append_self_conv le_refl)

text \<open>Equality of names: two names are reported equal exactly when they have the same length and
  the same units, up-cased when case is ignored. A zero unit, which no file name contains, ends the
  comparison.\<close>

theorem names_are_equal_iff:
  assumes "n \<le> length T" "0 \<notin> set a" "0 \<notin> set (map (up T n) a)"
  shows "ntfs_names_are_equal a (length a) b (length b) CASE_SENSITIVE T n = Ok (a = b) \<and>
    ntfs_names_are_equal a (length a) b (length b) IGNORE_CASE T n = Ok (map (up T n) a = map (up T n) b)"
proof (cases "length a = length b")
  case True
  have z: "takeWhile nz a = a" "takeWhile nz (map (up T n) a) = map (up T n) a"
    using assms(2,3) by (auto simp: takeWhile_eq_all_conv)
  have "takeWhile nz a = takeWhile nz b \<longleftrightarrow> a = b" "takeWhile nz (map (up T n) a) = takeWhile nz (map (up T n) b) \<longleftrightarrow> map (up T n) a = map (up T n) b"
    using takeWhile_nz_eq [of b a] takeWhile_nz_eq [of "map (up T n) b" "map (up T n) a"] True z by (metis length_map)+
  then show ?thesis
    using True ucsncmp_loop_eq [of 0 "length a" a b] ucsncasecmp_loop_eq [OF assms(1), of 0 "length a" a b]
    by (auto simp: ntfs_names_are_equal_def ntfs_ucsncmp_def ntfs_ucsncasecmp_def)
next
  case False
  then have "a \<noteq> b" "map (up T n) a \<noteq> map (up T n) b" using map_eq_imp_length_eq by auto
  then show ?thesis using False by (simp add: ntfs_names_are_equal_def)
qed

definition ascii_table :: "ntfschar list" where
  "ascii_table = map (\<lambda>i. of_nat (if 0x61 \<le> i \<and> i \<le> 0x7a then i - 0x20 else i)) [0..<128]"

lemma ascii_table_length: "length ascii_table = 128"
  by (simp add: ascii_table_def)

theorem names_are_equal_iff_witness:
  "ntfs_names_are_equal [0x41, 0x62] (length [0x41, 0x62 :: u16]) [0x61, 0x42] (length [0x61, 0x42 :: u16]) IGNORE_CASE ascii_table 128 = Ok True"
proof -
  have "map (up ascii_table 128) [0x41, 0x62] = [0x41, 0x42]" "map (up ascii_table 128) [0x61, 0x42] = [0x41, 0x42]" by code_simp+
  moreover have "128 \<le> length ascii_table" by (simp add: ascii_table_length)
  ultimately show ?thesis using names_are_equal_iff [of 128 ascii_table "[0x41, 0x62]" "[0x61, 0x42]"] by auto
qed

section \<open>Collation\<close>

text \<open>C20. File names collate by the lexicographic order of their up-cased units, and names equal but
  for case by the order of the units themselves; ignoring case, by the first alone. The result is a
  three-way comparison for a linear order.\<close>

theorem full_collate_order:
  assumes "n \<le> length T"
  shows "ntfs_names_full_collate a (length a) b (length b) CASE_SENSITIVE T n = Ok (name_order T n a b) \<and>
    ntfs_names_full_collate a (length a) b (length b) IGNORE_CASE T n = Ok (lex3 (map (up T n) a) (map (up T n) b)) \<and>
    three_way (name_order T n)"
  using full_collate_eq [OF assms] names.three_way_axioms by blast

theorem full_collate_order_witness:
  "ntfs_names_full_collate [0x61, 0x62] 2 [0x41, 0x62] 2 CASE_SENSITIVE ascii_table 128 = Ok 1"
proof -
  have "name_order ascii_table 128 [0x61, 0x62] [0x41, 0x62] = 1" by code_simp
  then show ?thesis using full_collate_order [of 128 ascii_table "[0x61, 0x62]" "[0x41, 0x62]"] by (simp add: ascii_table_length numeral_2_eq_2)
qed

section \<open>Length and case\<close>

lemma ucsnlen_loop_eq: "i + m \<le> length s \<Longrightarrow> ucsnlen_loop s i m = Ok (i + length (takeWhile nz (take m (drop i s))))"
proof (induction m arbitrary: i)
  case (Suc m)
  have "take (Suc m) (drop i s) = s ! i # take m (drop (i + 1) s)" using Suc.prems by (simp add: Cons_nth_drop_Suc [symmetric])
  then show ?case using Suc.IH [of "i + 1"] Suc.prems by (simp add: aget_def)
qed simp

lemma name_case_loop_eq:
  "n \<le> length T \<Longrightarrow> i + m \<le> length name \<Longrightarrow>
    name_case_loop name T n i m = Ok (take i name @ map (up T n) (take m (drop i name)) @ drop (i + m) name)"
proof (induction m arbitrary: i name)
  case (Suc m)
  let ?nm = "name[i := up T n (name ! i)]"
  have i: "i < length name" using Suc.prems by simp
  have "name_case_loop ?nm T n (i + 1) m = Ok (take (i + 1) ?nm @ map (up T n) (take m (drop (i + 1) ?nm)) @ drop (i + 1 + m) ?nm)"
    using Suc.prems by (intro Suc.IH) auto
  moreover have "take (i + 1) ?nm = take i name @ [up T n (name ! i)]" using i by (simp add: take_Suc_conv_app_nth)
  moreover have "take (Suc m) (drop i name) = name ! i # take m (drop (i + 1) name)" using i by (simp add: Cons_nth_drop_Suc [symmetric])
  ultimately show ?case using i by (simp add: aget_def aset_def up_char_eq [OF Suc.prems(1)])
qed simp

text \<open>The length of a string is that of its part before the first zero unit, within the maximum;
  a duplicate is that part with a zero unit appended; up-casing maps exactly the units of the name
  through the table.\<close>

theorem ucs_functions:
  assumes "m \<le> length s" "n \<le> length T" "\<And>k. alloc k"
  shows "ntfs_ucsnlen s m = Ok (length (takeWhile nz (take m s))) \<and>
    ntfs_ucsndup alloc s m = Ok (Some (takeWhile nz (take m s) @ [0])) \<and>
    ntfs_name_upcase s m T n = Ok (map (up T n) (take m s) @ drop m s)"
proof -
  have l: "ntfs_ucsnlen s m = Ok (length (takeWhile nz (take m s)))" using ucsnlen_loop_eq [of 0 m s] assms(1) by (simp add: ntfs_ucsnlen_def)
  have "take (length (takeWhile nz (take m s))) s = takeWhile nz (take m s)"
    by (metis append_eq_conv_conj append_take_drop_id takeWhile_dropWhile_id append_assoc)
  then show ?thesis using l assms name_case_loop_eq [of n T 0 m s] by (simp add: ntfs_ucsndup_def ntfs_name_upcase_def)
qed

theorem ucs_functions_witness:
  "ntfs_ucsnlen [0x61, 0x62, 0, 0x63] 4 = Ok 2 \<and> ntfs_name_upcase [0x61, 0x7a, 0x61] 2 ascii_table 128 = Ok [0x41, 0x5a, 0x61]"
proof -
  have "map (up ascii_table 128) [0x61, 0x7a] = [0x41, 0x5a]" by code_simp
  then show ?thesis using ucs_functions [of 4 "[0x61, 0x62, 0, 0x63]" 128 ascii_table "\<lambda>_. True"] ucs_functions [of 2 "[0x61, 0x7a, 0x61]" 128 ascii_table "\<lambda>_. True"]
    by (simp add: ascii_table_length)
qed


text \<open>The table for lower case: the entry of a unit is some other unit that up-cases to it, or the
  unit itself when there is none.\<close>

definition locase_entry :: "ntfschar list \<Rightarrow> nat \<Rightarrow> nat \<Rightarrow> ntfschar list \<Rightarrow> nat \<Rightarrow> bool" where
  "locase_entry uc cnt i lc u \<longleftrightarrow>
     (if \<exists>j < i. j \<noteq> u \<and> unat (uc ! j) = u
      then (\<exists>j < i. j \<noteq> u \<and> unat (uc ! j) = u \<and> lc ! u = of_nat j)
      else lc ! u = of_nat u)"

lemma locase_loop_eq:
  assumes "cnt \<le> length uc" "length lc = cnt" "i + m = cnt" "\<forall>u < cnt. locase_entry uc cnt i lc u"
  shows "\<exists>lc'. locase_loop uc cnt lc i m = Ok lc' \<and> length lc' = cnt \<and> (\<forall>u < cnt. locase_entry uc cnt cnt lc' u)"
  using assms(2-4)
proof (induction m arbitrary: i lc)
  case (Suc m)
  let ?c = "unat (uc ! i) \<noteq> i \<and> unat (uc ! i) < cnt"
  let ?lc = "if ?c then lc[unat (uc ! i) := of_nat i] else lc"
  have i: "i < length uc" using Suc.prems assms(1) by simp
  have g: "aget uc (int i) = Ok (uc ! i)" using i by (simp add: aget_def)
  have s: "(if ?c then aset lc (int (unat (uc ! i))) (of_nat i) else Ok lc) = Ok ?lc"
    using Suc.prems(1) by (simp only: aset_def of_nat_0_le_iff of_nat_less_iff nat_int simp_thms if_True split: if_splits) simp
  have "locase_entry uc cnt (i + 1) ?lc u" if "u < cnt" for u
  proof -
    have e: "locase_entry uc cnt i lc u" using Suc.prems(3) that by blast
    have L: "(\<exists>j < i + 1. Q j) \<longleftrightarrow> Q i \<or> (\<exists>j < i. Q j)" for Q by (auto simp: less_Suc_eq)
    show ?thesis
    proof (cases "?c \<and> unat (uc ! i) = u")
      case True
      then show ?thesis using that Suc.prems(1) unfolding locase_entry_def L by auto
    next
      case False
      then have "?lc ! u = lc ! u" "\<not> (i \<noteq> u \<and> unat (uc ! i) = u)" using that by auto
      then show ?thesis using e unfolding locase_entry_def L by auto
    qed
  qed
  then have "\<exists>lc'. locase_loop uc cnt ?lc (i + 1) m = Ok lc' \<and> length lc' = cnt \<and> (\<forall>u < cnt. locase_entry uc cnt cnt lc' u)"
    using Suc.prems(1,2) by (intro Suc.IH) auto
  then show ?case unfolding locase_loop.simps g obind.simps s .
qed simp

text \<open>The lower case table inverts the up-case table: the lower case unit of \<open>u\<close> up-cases to
  \<open>u\<close>, and a unit to which no other unit up-cases is its own lower case.\<close>

theorem locase_inverts_upcase:
  assumes "cnt \<le> length uc" "cnt \<le> 65536" "\<And>k. alloc k"
  shows "\<exists>lc. ntfs_locase_table_build alloc uc cnt = Ok (Some lc) \<and> length lc = cnt \<and>
    (\<forall>u < cnt. if \<exists>j < cnt. j \<noteq> u \<and> unat (uc ! j) = u then unat (uc ! unat (lc ! u)) = u else unat (lc ! u) = u)"
proof -
  have "\<forall>u < cnt. locase_entry uc cnt 0 (map of_nat [0..<cnt]) u" by (simp add: locase_entry_def)
  then obtain lc where lc: "locase_loop uc cnt (map of_nat [0..<cnt]) 0 cnt = Ok lc" "length lc = cnt" "\<forall>u < cnt. locase_entry uc cnt cnt lc u"
    using locase_loop_eq [OF assms(1), of "map of_nat [0..<cnt]" 0 cnt] by auto
  have w: "unat (of_nat j :: u16) = j" if "j < cnt" for j using that assms(2) by (simp add: unat_of_nat)
  have "if \<exists>j < cnt. j \<noteq> u \<and> unat (uc ! j) = u then unat (uc ! unat (lc ! u)) = u else unat (lc ! u) = u" if "u < cnt" for u
    using lc(3) that w unfolding locase_entry_def by (auto split: if_splits)
  then show ?thesis using lc assms(3) by (simp add: ntfs_locase_table_build_def)
qed

theorem locase_inverts_upcase_witness:
  "\<exists>lc. ntfs_locase_table_build (\<lambda>_. True) [0, 0, 2] 3 = Ok (Some lc) \<and> unat (lc ! 2) = 2"
proof -
  obtain lc where lc: "ntfs_locase_table_build (\<lambda>_. True) [0, 0, 2] 3 = Ok (Some lc)"
    "\<forall>u < 3. if \<exists>j < 3. j \<noteq> u \<and> unat ([0, 0, 2 :: u16] ! j) = u then unat ([0, 0, 2 :: u16] ! unat (lc ! u)) = u else unat (lc ! u) = u"
    using locase_inverts_upcase [of 3 "[0, 0, 2]" "\<lambda>_. True"] by auto
  have "\<not> (\<exists>j < 3. j \<noteq> 2 \<and> unat ([0, 0, 2 :: u16] ! j) = 2)" 
  proof safe
    fix j :: nat assume "j < 3" "j \<noteq> 2" "unat ([0, 0, 2 :: u16] ! j) = 2"
    then show False by (cases "j = 0"; cases "j = 1") auto
  qed
  then show ?thesis using lc by (intro exI [of _ lc]) (auto dest: spec [of _ 2])
qed

section \<open>Forbidden names\<close>

definition bad_char :: "u16 \<Rightarrow> bool" where
  "bad_char ch \<longleftrightarrow> ch < 0x20 \<or> ch \<in> {0x22, 0x2a, 0x2f, 0x3a, 0x3c, 0x3e, 0x3f, 0x5c, 0x7c}"

lemma fc_mainset_value: "fc_mainset = 0xd4008404"
  by code_simp

lemma fc_bad_iff: "fc_bad ch = bad_char ch"
proof (cases "ch < 0x40 \<and> \<not> ch < 0x20")
  case True
  define k where "k = unat ch - 32"
  have c: "ch = of_nat (32 + k)" "k < 32" using True by (auto simp: k_def word_less_nat_alt)
  have "\<forall>k \<in> {..<32}. fc_bad (of_nat (32 + k)) = bad_char (of_nat (32 + k))"
    unfolding lessThan_atLeast0 atLeastLessThan_upt by code_simp
  then show ?thesis using c by auto
next
  case False
  then show ?thesis by (auto simp: fc_bad_def bad_char_def)
qed

lemma fc_loop_eq: "i + m \<le> length name \<Longrightarrow> fc_loop name i m f = Ok (f \<or> (\<exists>c \<in> set (take m (drop i name)). bad_char c))"
proof (induction m arbitrary: i f)
  case (Suc m)
  have "take (Suc m) (drop i name) = name ! i # take m (drop (i + 1) name)" using Suc.prems by (simp add: Cons_nth_drop_Suc [symmetric])
  then show ?case using Suc by (simp add: aget_def fc_bad_iff)
qed simp

lemma forbidden_chars_eq:
  "ntfs_forbidden_chars name (length name) strict =
    Ok (name = [] \<or> (\<exists>c \<in> set name. bad_char c) \<or> strict \<and> (last name = 0x20 \<or> last name = 0x2e))"
proof (cases "name = []")
  case False
  have "aget name (int (length name - 1)) = Ok (last name)" using False by (simp add: aget_def last_conv_nth)
  then show ?thesis using False fc_loop_eq [of 0 "length name" name] by (auto simp: ntfs_forbidden_chars_def)
qed (simp add: ntfs_forbidden_chars_def)

text \<open>An up-case table that treats the letters of the alphabet as expected: only a letter and its lower
  case form map to the letter.\<close>

definition letters_ok :: "ntfschar list \<Rightarrow> nat \<Rightarrow> bool" where
  "letters_ok T n \<longleftrightarrow> n \<le> length T \<and>
     (\<forall>l. 0x41 \<le> l \<and> l \<le> 0x5a \<longrightarrow> up T n (l + 0x20) = l \<and> (\<forall>u. up T n u = l \<longrightarrow> u = l \<or> u = l + 0x20))"

text \<open>The reserved names: a device name, alone or before a dot; some devices carry a digit.\<close>

definition device_name :: "ntfschar list \<Rightarrow> nat \<Rightarrow> ntfschar list \<Rightarrow> ntfschar list list \<Rightarrow> bool" where
  "device_name T n name devs \<longleftrightarrow> map (up T n) (take 3 name) \<in> set devs"

definition reserved :: "ntfschar list \<Rightarrow> nat \<Rightarrow> ntfschar list \<Rightarrow> bool" where
  "reserved T n name \<longleftrightarrow>
     device_name T n name [[0x43, 0x4f, 0x4e], [0x50, 0x52, 0x4e], [0x41, 0x55, 0x58], [0x4e, 0x55, 0x4c]] \<and>
       (length name = 3 \<or> name ! 3 = 0x2e) \<or>
     device_name T n name [[0x43, 0x4f, 0x4d], [0x4c, 0x50, 0x54]] \<and> length name > 3 \<and>
       0x31 \<le> name ! 3 \<and> name ! 3 \<le> 0x39 \<and> (length name = 4 \<or> name ! 4 = 0x2e)"

lemma fn_is_eq:
  assumes "n \<le> length T" "3 \<le> length name" "map (up T n) dev = D" "length dev = 3" "0 \<notin> set D"
  shows "fn_is T n name dev = Ok (map (up T n) (take 3 name) = D)"
proof -
  have D: "takeWhile nz D = D" using assms(5) by (auto simp: takeWhile_eq_all_conv)
  have "takeWhile nz (map (up T n) (take 3 name)) = D \<longleftrightarrow> map (up T n) (take 3 name) = D"
    using takeWhile_nz_eq [of "map (up T n) (take 3 name)" D] assms(2-4) D by auto
  then show ?thesis
    using ucsncasecmp_loop_eq [OF assms(1), of 0 3 name dev] assms(2-4) D by (auto simp: fn_is_def ntfs_ucsncasecmp_def)
qed

lemma fn_ends_eq: "k \<le> length name \<Longrightarrow> fn_ends name (length name) k = Ok (length name = k \<or> name ! k = 0x2e)"
  by (auto simp: fn_ends_def aget_def)


lemma fn_plain_eq:
  assumes "letters_ok T n" "3 \<le> length name" "\<And>dev. dev \<in> set devs \<Longrightarrow> length dev = 3 \<and> 0 \<notin> set (map (up T n) dev)"
  shows "fn_plain T n name (length name) devs =
    Ok ((length name = 3 \<or> name ! 3 = 0x2e) \<and> map (up T n) (take 3 name) \<in> map (up T n) ` set devs)"
proof -
  have n: "n \<le> length T" using assms(1) by (simp add: letters_ok_def)
  have "fold (\<lambda>dev r. obind r (\<lambda>b. if b then Ok True else fn_is T n name dev)) ds (Ok b) =
      Ok (b \<or> map (up T n) (take 3 name) \<in> map (up T n) ` set ds)" if "set ds \<subseteq> set devs" for ds b
    using that
  proof (induction ds arbitrary: b)
    case (Cons d ds)
    have "fn_is T n name d = Ok (map (up T n) (take 3 name) = map (up T n) d)"
      using Cons.prems assms(3) [of d] by (intro fn_is_eq [OF n assms(2)]) auto
    then show ?case using Cons by (cases b) auto
  qed simp
  then show ?thesis using assms(2) by (simp add: fn_plain_def fn_ends_eq)
qed

lemma fn_numbered_eq:
  assumes "letters_ok T n" "3 \<le> length name" "length dev = 3 \<and> 0 \<notin> set (map (up T n) dev)"
  shows "fn_numbered T n name (length name) dev =
    Ok (3 < length name \<and> 0x31 \<le> name ! 3 \<and> name ! 3 \<le> 0x39 \<and> (length name = 4 \<or> name ! 4 = 0x2e) \<and>
      map (up T n) (take 3 name) = map (up T n) dev)"
proof (cases "3 < length name")
  case True
  have "fn_is T n name dev = Ok (map (up T n) (take 3 name) = map (up T n) dev)"
    using assms by (intro fn_is_eq) (auto simp: letters_ok_def)
  moreover have "aget name 3 = Ok (name ! 3)" using True by (simp add: aget_def)
  ultimately show ?thesis using True by (auto simp: fn_numbered_def fn_ends_eq)
qed (simp add: fn_numbered_def)

lemma letters_up:
  assumes "letters_ok T n" "0x41 \<le> l" "l \<le> 0x5a"
  shows "up T n (l + 0x20) = l" "up T n u = l \<Longrightarrow> u = l \<or> u = l + 0x20"
  using assms by (auto simp: letters_ok_def)

text \<open>The hash and the third unit of a name that starts with the letters of a device.\<close>

definition fn_screen :: "u16 list \<Rightarrow> u16 \<Rightarrow> u16 \<Rightarrow> u16 \<Rightarrow> bool" where
  "fn_screen D c0 c1 c2 \<longleftrightarrow> fn_hash c0 c1 mod 23 = 17 \<and> c2 AND NOT 0x20 = D ! 2"

definition devices :: "u16 list list" where
  "devices = [[0x43, 0x4f, 0x4e], [0x50, 0x52, 0x4e], [0x41, 0x55, 0x58], [0x4e, 0x55, 0x4c], [0x43, 0x4f, 0x4d], [0x4c, 0x50, 0x54]]"

lemma fn_screen_all:
  "\<forall>D \<in> set devices. \<forall>c0 \<in> set [D ! 0, D ! 0 + 0x20]. \<forall>c1 \<in> set [D ! 1, D ! 1 + 0x20]. \<forall>c2 \<in> set [D ! 2, D ! 2 + 0x20]. fn_screen D c0 c1 c2"
  by code_simp

lemma devices_letters: "\<forall>D \<in> set devices. length D = 3 \<and> (\<forall>l \<in> set D. 0x41 \<le> l \<and> l \<le> 0x5a)"
  by code_simp

lemma device_screened:
  assumes "letters_ok T n" "3 \<le> length name" "map (up T n) (take 3 name) = D" "D \<in> set devices"
  shows "fn_screen D (name ! 0) (name ! 1) (name ! 2)"
proof -
  have len: "length D = 3" and let_D: "\<forall>i < 3. 0x41 \<le> D ! i \<and> D ! i \<le> 0x5a" using devices_letters assms(4) by auto
  have "up T n (name ! i) = D ! i" if "i < 3" for i using assms(2,3) that by auto
  then have "name ! i = D ! i \<or> name ! i = D ! i + 0x20" if "i < 3" for i using letters_up(2) [OF assms(1)] let_D that by blast
  from this [of 0] this [of 1] this [of 2] show ?thesis using fn_screen_all assms(4) by auto
qed

lemma up_devices:
  assumes "letters_ok T n"
  shows "map (up T n) name_con = [0x43, 0x4f, 0x4e]" "map (up T n) name_prn = [0x50, 0x52, 0x4e]" "map (up T n) name_aux = [0x41, 0x55, 0x58]"
    "map (up T n) name_nul = [0x4e, 0x55, 0x4c]" "map (up T n) name_com = [0x43, 0x4f, 0x4d]" "map (up T n) name_lpt = [0x4c, 0x50, 0x54]"
proof -
  note u = letters_up(1) [OF assms]
  show "map (up T n) name_con = [0x43, 0x4f, 0x4e]" using u [of "0x43"] u [of "0x4f"] u [of "0x4e"] by (simp add: name_con_def)
  show "map (up T n) name_prn = [0x50, 0x52, 0x4e]" using u [of "0x50"] u [of "0x52"] u [of "0x4e"] by (simp add: name_prn_def)
  show "map (up T n) name_aux = [0x41, 0x55, 0x58]" using u [of "0x41"] u [of "0x55"] u [of "0x58"] by (simp add: name_aux_def)
  show "map (up T n) name_nul = [0x4e, 0x55, 0x4c]" using u [of "0x4e"] u [of "0x55"] u [of "0x4c"] by (simp add: name_nul_def)
  show "map (up T n) name_com = [0x43, 0x4f, 0x4d]" using u [of "0x43"] u [of "0x4f"] u [of "0x4d"] by (simp add: name_com_def)
  show "map (up T n) name_lpt = [0x4c, 0x50, 0x54]" using u [of "0x4c"] u [of "0x50"] u [of "0x54"] by (simp add: name_lpt_def)
qed

lemma reserved_long: "reserved T n name \<Longrightarrow> 3 \<le> length name"
  by (auto simp: reserved_def device_name_def min_def dest!: arg_cong [where f = length] split: if_splits)

text \<open>C21. The fast check for forbidden names is exact: a name is refused if and only if it is empty,
  has a forbidden character, ends in a dot or space when strict, or is a reserved device name with
  or without an extension. In particular the hash never lets a reserved name through.\<close>

theorem forbidden_names_exact:
  assumes "letters_ok T n"
  shows "ntfs_forbidden_names T n name (length name) strict =
    Ok (name = [] \<or> (\<exists>c \<in> set name. bad_char c) \<or> (strict \<and> (last name = 0x20 \<or> last name = 0x2e)) \<or> reserved T n name)"
proof (cases "(name = [] \<or> (\<exists>c \<in> set name. bad_char c) \<or> (strict \<and> (last name = 0x20 \<or> last name = 0x2e))) \<or> length name < 3")
  case True
  then show ?thesis using reserved_long [of T n name] by (auto simp: ntfs_forbidden_names_def forbidden_chars_eq)
next
  case False
  then have len: "3 \<le> length name" by auto
  let ?M = "map (up T n) (take 3 name)" and ?c = "name ! 2 AND NOT 0x20" and ?H = "fn_hash (name ! 0) (name ! 1) mod 23 = 17"
  have g: "aget name 0 = Ok (name ! 0)" "aget name 1 = Ok (name ! 1)" "aget name 2 = Ok (name ! 2)" using len by (auto simp: aget_def)
  note u = up_devices [OF assms]
  have l3: "length name_con = 3" "length name_prn = 3" "length name_aux = 3" "length name_nul = 3" "length name_com = 3" "length name_lpt = 3"
    by (simp_all add: name_con_def name_prn_def name_aux_def name_nul_def name_com_def name_lpt_def)
  note pl = fn_plain_eq [OF assms len] and nu = fn_numbered_eq [OF assms len]
  have scr: "?M = D \<Longrightarrow> D \<in> set devices \<Longrightarrow> ?H \<and> ?c = D ! 2" for D
    using device_screened [OF assms len] by (auto simp: fn_screen_def)
  have sc: "?M = [0x43, 0x4f, 0x4e] \<Longrightarrow> ?H \<and> ?c = 0x4e" "?M = [0x50, 0x52, 0x4e] \<Longrightarrow> ?H \<and> ?c = 0x4e" "?M = [0x41, 0x55, 0x58] \<Longrightarrow> ?H \<and> ?c = 0x58"
    "?M = [0x4e, 0x55, 0x4c] \<Longrightarrow> ?H \<and> ?c = 0x4c" "?M = [0x43, 0x4f, 0x4d] \<Longrightarrow> ?H \<and> ?c = 0x4d" "?M = [0x4c, 0x50, 0x54] \<Longrightarrow> ?H \<and> ?c = 0x54"
    by (drule scr; simp add: devices_def)+
  have ne: "(0x4e :: u16) \<noteq> 0x58" "(0x4e :: u16) \<noteq> 0x4c" "(0x4e :: u16) \<noteq> 0x4d" "(0x4e :: u16) \<noteq> 0x54" "(0x58 :: u16) \<noteq> 0x4c" "(0x58 :: u16) \<noteq> 0x4d"
    "(0x58 :: u16) \<noteq> 0x54" "(0x4c :: u16) \<noteq> 0x4d" "(0x4c :: u16) \<noteq> 0x54" "(0x4d :: u16) \<noteq> 0x54" by simp_all
  have nf: "ntfs_forbidden_chars name (length name) strict = Ok False" using False by (simp add: forbidden_chars_eq)
  have "ntfs_forbidden_names T n name (length name) strict = Ok (reserved T n name)"
  proof (cases ?H)
    case H: True
    let ?E = "length name = 3 \<or> name ! 3 = 0x2e"
    let ?N = "3 < length name \<and> 0x31 \<le> name ! 3 \<and> name ! 3 \<le> 0x39 \<and> (length name = 4 \<or> name ! 4 = 0x2e)"
    have z: "length dev = 3 \<and> 0 \<notin> set (map (up T n) dev)" if "dev \<in> set [name_con, name_prn]" for dev
    proof -
      have "dev = name_con \<or> dev = name_prn" using that by simp
      then show ?thesis by (elim disjE) (simp_all only: u l3, simp_all)
    qed
    have p: "fn_plain T n name (length name) [name_con, name_prn] = Ok (?E \<and> (?M = [0x43, 0x4f, 0x4e] \<or> ?M = [0x50, 0x52, 0x4e]))"
      "fn_plain T n name (length name) [name_aux] = Ok (?E \<and> ?M = [0x41, 0x55, 0x58])"
      "fn_plain T n name (length name) [name_nul] = Ok (?E \<and> ?M = [0x4e, 0x55, 0x4c])"
      "fn_numbered T n name (length name) name_com = Ok (?N \<and> ?M = [0x43, 0x4f, 0x4d])"
      "fn_numbered T n name (length name) name_lpt = Ok (?N \<and> ?M = [0x4c, 0x50, 0x54])"
      using pl [of "[name_con, name_prn]", OF z] pl [of "[name_aux]"] pl [of "[name_nul]"] nu [of name_com] nu [of name_lpt]
      by (simp_all add: u l3 del: map_eq_conv)
    have "ntfs_forbidden_names T n name (length name) strict =
        (if ?c = 0x4e then fn_plain T n name (length name) [name_con, name_prn]
         else if ?c = 0x58 then fn_plain T n name (length name) [name_aux]
         else if ?c = 0x4c then fn_plain T n name (length name) [name_nul]
         else if ?c = 0x4d then fn_numbered T n name (length name) name_com
         else if ?c = 0x54 then fn_numbered T n name (length name) name_lpt else Ok False)"
      using len H by (simp only: ntfs_forbidden_names_def nf g obind.simps Let_def if_True simp_thms)
    then show ?thesis unfolding p reserved_def device_name_def using sc ne by auto
  next
    case H: False
    then have "\<not> reserved T n name" using sc by (auto simp: reserved_def device_name_def)
    moreover have "ntfs_forbidden_names T n name (length name) strict = Ok False"
      using len H by (simp only: ntfs_forbidden_names_def nf g obind.simps Let_def if_True if_False simp_thms)
    ultimately show ?thesis by simp
  qed
  moreover have "\<not> (name = [] \<or> (\<exists>c \<in> set name. bad_char c) \<or> (strict \<and> (last name = 0x20 \<or> last name = 0x2e)))" using False by blast
  ultimately show ?thesis by auto
qed


lemma up_ascii: "up ascii_table 128 u = (if 0x61 \<le> u \<and> u \<le> 0x7a then u - 0x20 else u)"
proof (cases "unat u < 128")
  case True
  have "ascii_table ! unat u = of_nat (if 0x61 \<le> unat u \<and> unat u \<le> 0x7a then unat u - 0x20 else unat u)"
    using True by (simp add: ascii_table_def)
  moreover have "of_nat (unat u - 0x20) = u - 0x20" if "0x61 \<le> unat u" using that by (simp add: of_nat_diff)
  ultimately show ?thesis using True by (auto simp: up_def word_le_nat_alt)
next
  case False
  then show ?thesis by (auto simp: up_def word_le_nat_alt)
qed

lemma letters_ok_ascii: "letters_ok ascii_table 128"
proof -
  have "l + 0x20 \<ge> 0x61 \<and> l + 0x20 \<le> 0x7a" if "0x41 \<le> l" "l \<le> 0x5a" for l :: u16
  proof -
    have "unat (l + 0x20) = unat l + 0x20" using that by (simp add: unat_word_ariths word_le_nat_alt)
    then show ?thesis using that by (simp add: word_le_nat_alt)
  qed
  then show ?thesis by (auto simp: letters_ok_def up_ascii ascii_table_length split: if_splits)
qed

theorem forbidden_names_exact_witness:
  "ntfs_forbidden_names ascii_table 128 [0x63, 0x6f, 0x4e, 0x2e] (length [0x63, 0x6f, 0x4e, 0x2e :: u16]) False = Ok True"
proof -
  have "reserved ascii_table 128 [0x63, 0x6f, 0x4e, 0x2e]" by (simp add: reserved_def device_name_def up_ascii numeral_3_eq_3)
  then show ?thesis using forbidden_names_exact [OF letters_ok_ascii, of "[0x63, 0x6f, 0x4e, 0x2e]" False] by simp
qed

lemma if_Ok_conj: "(if Q then Ok X else Ok False) = Ok (Q \<and> X)"
  by simp

lemma collapsible_loop_eq:
  assumes "n \<le> length T" "i + m \<le> length a" "i + m \<le> length b"
  shows "collapsible_loop T n a b i m = Ok (\<forall>j \<in> {i..<i + m}.
    a ! j = b ! j \<or> unat (a ! j) < n \<and> unat (b ! j) < n \<and> up T n (a ! j) = up T n (b ! j))"
  using assms(2,3)
proof (induction m arbitrary: i)
  case (Suc m)
  let ?Q = "\<lambda>j. a ! j = b ! j \<or> unat (a ! j) < n \<and> unat (b ! j) < n \<and> up T n (a ! j) = up T n (b ! j)"
  have g: "aget a (int i) = Ok (a ! i)" "aget b (int i) = Ok (b ! i)" using Suc.prems by (auto simp: aget_def)
  have t: "aget T (int (unat u)) = Ok (up T n u)" if "unat u < n" for u
    using that assms(1) up_char_eq [OF assms(1), of u] by (simp only: up_char_def if_True)
  have s: "{i..<i + Suc m} = insert i {i + 1..<i + 1 + m}" by auto
  have st: "collapsible_loop T n a b i (Suc m) = (if ?Q i then collapsible_loop T n a b (i + 1) m else Ok False)"
    by (simp only: collapsible_loop.simps g obind.simps) (auto simp: t simp del: of_nat_unat)
  have IH: "collapsible_loop T n a b (i + 1) m = Ok (\<forall>j \<in> {i + 1..<i + 1 + m}. ?Q j)" using Suc.prems by (intro Suc.IH) auto
  show ?case unfolding st s ball_simps IH by (rule if_Ok_conj)
qed simp

text \<open>A short name can stand for a long name exactly when both have the same length and agree
  unit by unit up to case, where units beyond the up-case table have to be equal.\<close>

theorem collapsible_iff:
  assumes "n \<le> length T"
  shows "ntfs_collapsible_chars T n a (length a) b (length b) = Ok (map (up T n) a = map (up T n) b \<and>
    (\<forall>j < length a. a ! j = b ! j \<or> unat (a ! j) < n \<and> unat (b ! j) < n))"
proof (cases "length a = length b")
  case True
  have "map (up T n) a = map (up T n) b \<longleftrightarrow> (\<forall>j < length a. up T n (a ! j) = up T n (b ! j))" using True by (simp add: list_eq_iff_nth_eq)
  moreover have "(\<forall>j \<in> {0..<length a}. a ! j = b ! j \<or> unat (a ! j) < n \<and> unat (b ! j) < n \<and> up T n (a ! j) = up T n (b ! j)) \<longleftrightarrow>
      (\<forall>j < length a. up T n (a ! j) = up T n (b ! j)) \<and> (\<forall>j < length a. a ! j = b ! j \<or> unat (a ! j) < n \<and> unat (b ! j) < n)"
    unfolding atLeast0LessThan Ball_def lessThan_iff by metis
  ultimately show ?thesis using True collapsible_loop_eq [OF assms, of 0 "length a" a b] by (simp add: ntfs_collapsible_chars_def)
next
  case False
  then have "map (up T n) a \<noteq> map (up T n) b" using map_eq_imp_length_eq by blast
  then show ?thesis using False by (simp add: ntfs_collapsible_chars_def)
qed

theorem collapsible_iff_witness:
  "ntfs_collapsible_chars ascii_table 128 [0x41] (length [0x41 :: u16]) [0x61] (length [0x61 :: u16]) = Ok True"
  using collapsible_iff [of 128 ascii_table "[0x41]" "[0x61]"] by (simp add: ascii_table_length up_ascii)

end
