(* ===== verification/Index_Props.thy ===== *)
theory Index_Props
  imports Index_Node Unistr_Props
begin

text \<open>
  An index node as a list of entries. The representation relates the memory of a node to its
  entries; insertion and deletion refine the list operations, lookup finds a key if and only if it is
  there, for every collation rule. What lookup needs of a collation function is the locale
  \<open>index_keys\<close>, interpreted for the functions of \<^verbatim>\<open>collate.c\<close>.
\<close>

section \<open>The representation of a node\<close>

definition ie_ok :: "u8 list \<Rightarrow> bool" where
  "ie_ok e \<longleftrightarrow> 16 \<le> length e \<and> unat (le16_at e 8) = length e \<and> le16_at e 12 AND INDEX_ENTRY_END = 0"

definition ie_last_ok :: "u8 list \<Rightarrow> bool" where
  "ie_last_ok e \<longleftrightarrow> 16 \<le> length e \<and> unat (le16_at e 8) = length e \<and> le16_at e 12 AND INDEX_ENTRY_END \<noteq> 0"

definition ih_rep :: "u8 list \<Rightarrow> u8 list \<Rightarrow> u8 list list \<Rightarrow> u8 list \<Rightarrow> u8 list \<Rightarrow> bool" where
  "ih_rep m H es l J \<longleftrightarrow> m = H @ concat es @ l @ J \<and> 16 \<le> length H \<and>
     unat (le32_at H 0) = length H \<and> unat (le32_at H 4) = length (H @ concat es @ l) \<and>
     (\<forall>e \<in> set es. ie_ok e) \<and> ie_last_ok l"

lemma uint_unat_eq: "unat w = n \<Longrightarrow> uint w = int n"
  by auto

lemma entry_fields:
  assumes "m = P @ e @ S" "16 \<le> length e" "p = length P"
  shows "get_le16 m (p + 8) = Ok (le16_at e 8)" "get_le16 m (p + 10) = Ok (le16_at e 10)" "get_le16 m (p + 12) = Ok (le16_at e 12)"
    "drop (p + 16) m = drop 16 e @ S"
  using assms by (simp_all add: get_le16_def le16_at_append2 le16_at_append1)

lemma entry_walk:
  assumes "m = P @ e @ S" "16 \<le> length e" "p = length P" "unat (le16_at e 8) = length e"
  shows "ntfs_ie_get_next m p = Ok (p + length e)" "ntfs_ie_end m p = Ok (le16_at e 12 AND INDEX_ENTRY_END \<noteq> 0)"
proof -
  note f = entry_fields [OF assms(1-3)]
  have "le16_at e 8 \<noteq> 0" using assms(2,4) by (metis not_numeral_le_zero unat_0)
  then show "ntfs_ie_get_next m p = Ok (p + length e)" "ntfs_ie_end m p = Ok (le16_at e 12 AND INDEX_ENTRY_END \<noteq> 0)"
    using f assms(4) by (simp_all add: ntfs_ie_get_next_def ntfs_ie_end_def)
qed

lemma rep_header:
  assumes "ih_rep m H es l J"
  shows "ntfs_ie_get_first m = Ok (length H)" "ntfs_ie_get_end m = Ok (length (H @ concat es @ l))"
  using assms by (simp_all add: ih_rep_def ntfs_ie_get_first_def ntfs_ie_get_end_def get_le32_def le32_at_append1)

lemma rep_len: "ih_rep m H es l J \<Longrightarrow> length (H @ concat es @ l) < 2 ^ 32"
  using unsigned_less [of "le32_at H 4", where ?'a = nat] by (simp add: ih_rep_def)

text \<open>The entry after the entries \<open>A\<close>.\<close>

lemma rep_split:
  assumes "ih_rep m H (A @ B) l J"
  shows "m = (H @ concat A) @ (concat B @ l @ J)" "length (H @ concat A) + length (concat B @ l) = length (H @ concat (A @ B) @ l)"
  using assms by (simp_all add: ih_rep_def)

lemma ie_steps_rep:
  assumes "ih_rep m H (A @ B) l J" "m = (H @ concat A) @ (concat B @ l @ J)" "n \<le> length B"
  shows "ie_steps m (length (H @ concat A)) n = Ok (length (H @ concat (A @ take n B)))"
  using assms
proof (induction n arbitrary: A B)
  case (Suc n)
  then obtain e B' where B: "B = e # B'" by (cases B) auto
  have e: "ie_ok e" using Suc.prems(1) B by (simp add: ih_rep_def)
  have "m = (H @ concat A) @ e @ (concat B' @ l @ J)" using Suc.prems(2) B by simp
  from entry_walk(1) [OF this] have nx: "ntfs_ie_get_next m (length (H @ concat A)) = Ok (length (H @ concat (A @ [e])))"
    using e by (simp add: ie_ok_def)
  have "ie_steps m (length (H @ concat (A @ [e]))) n = Ok (length (H @ concat ((A @ [e]) @ take n B')))"
    using Suc.prems B by (intro Suc.IH) auto
  then show ?case using nx B by simp
qed simp

lemma get_by_pos_rep:
  assumes "ih_rep m H es l J" "n \<le> length es"
  shows "ntfs_ie_get_by_pos m (int n) = Ok (length (H @ concat (take n es)))"
  using ie_steps_rep [of m H "[]" es l J n] assms rep_header [OF assms(1)]
  by (simp add: ntfs_ie_get_by_pos_def ih_rep_def)

lemma node_loops_rep:
  assumes "ih_rep m H (A @ B) l J" "m = (H @ concat A) @ (concat B @ l @ J)"
  shows "numof_loop m (length (H @ concat (A @ B) @ l)) (length (H @ concat A)) n = Ok (n + length B) \<and>
    median_count m (length (H @ concat (A @ B) @ l)) (length (H @ concat A)) n = Ok (n + length B) \<and>
    ntfs_ie_get_last m (length (H @ concat A)) (length (H @ concat (A @ B) @ l)) = Ok (length (H @ concat (A @ B)))"
  using assms
proof (induction B arbitrary: A n)
  case Nil
  have l: "ie_last_ok l" "0 < length l" using Nil.prems(1) by (auto simp: ih_rep_def ie_last_ok_def)
  have e: "ntfs_ie_end m (length (H @ concat A)) = Ok True"
    using entry_walk(2) [of m "H @ concat A" l J] Nil.prems l by (simp add: ie_last_ok_def)
  then show ?case using l(2) by (subst numof_loop.simps, subst median_count.simps, subst ntfs_ie_get_last.simps) simp
next
  case (Cons b B)
  have b: "ie_ok b" "0 < length b" using Cons.prems(1) by (auto simp: ih_rep_def ie_ok_def)
  have "m = (H @ concat A) @ b @ (concat B @ l @ J)" using Cons.prems(2) by simp
  from entry_walk [OF this] have w: "ntfs_ie_get_next m (length (H @ concat A)) = Ok (length (H @ concat (A @ [b])))"
    "ntfs_ie_end m (length (H @ concat A)) = Ok False" using b by (simp_all add: ie_ok_def)
  have lt: "length (H @ concat A) < length (H @ concat (A @ b # B) @ l)" using b(2) by simp
  have "ih_rep m H ((A @ [b]) @ B) l J" "m = (H @ concat (A @ [b])) @ concat B @ l @ J" using Cons.prems by simp_all
  from Cons.IH [OF this, of "n + 1"] show ?case
    using w lt by (subst numof_loop.simps, subst median_count.simps, subst ntfs_ie_get_last.simps) simp
qed

lemma numof_rep: "ih_rep m H es l J \<Longrightarrow> ntfs_ih_numof_entries m = Ok (length es)"
  using node_loops_rep [of m H "[]" es l J 0] rep_header [of m H es l J]
  by (simp add: ntfs_ih_numof_entries_def ih_rep_def)

lemma median_rep: "ih_rep m H es l J \<Longrightarrow> ntfs_ie_get_median m = Ok (length (H @ concat (take (length es div 2) es)))"
  using node_loops_rep [of m H "[]" es l J 0] rep_header [of m H es l J] ie_steps_rep [of m H "[]" es l J "length es div 2"]
  by (simp add: ntfs_ie_get_median_def ih_rep_def)

section \<open>Insertion and deletion\<close>

definition set_index_length :: "u8 list \<Rightarrow> nat \<Rightarrow> u8 list" where
  "set_index_length H n = set_le32 H 4 (of_nat n)"

lemma set_index_length_fields:
  assumes "16 \<le> length H" "n < 2 ^ 32"
  shows "length (set_index_length H n) = length H" "le32_at (set_index_length H n) 0 = le32_at H 0"
    "unat (le32_at (set_index_length H n) 4) = n"
  using assms by (simp_all add: set_index_length_def le32_at_set_other le32_at_set_same unat_of_nat)

lemma ie_insert_rep:
  assumes rep: "ih_rep m H (A @ B) l J" and e: "ie_ok e" and J: "J = K @ J'" "length K = length e"
    and len: "length (H @ concat (A @ e # B) @ l) < 2 ^ 32"
  shows "\<exists>H' m'. ntfs_ie_insert m e (length (H @ concat A)) = Ok m' \<and> ih_rep m' H' (A @ e # B) l J' \<and>
    H' = set_index_length H (length (H @ concat (A @ e # B) @ l))"
proof -
  let ?n = "length (H @ concat (A @ B) @ l)" and ?p = "length (H @ concat A)" and ?T = "concat B @ l"
  have r: "m = H @ concat (A @ B) @ l @ J" "16 \<le> length H" "unat (le32_at H 4) = ?n" "\<forall>e \<in> set (A @ B). ie_ok e" "ie_last_ok l" "unat (le32_at H 0) = length H"
    using rep by (simp_all add: ih_rep_def)
  have el: "16 \<le> length e" "unat (le16_at e 8) = length e" using e by (auto simp: ie_ok_def)
  define H' where "H' = set_index_length H (?n + length e)"
  have n': "?n + length e < 2 ^ 32" using len by (simp add: add.commute add.left_commute)
  note Hf = set_index_length_fields [OF r(2) n', folded H'_def]
  have il: "get_le32 m 4 = Ok (le32_at H 4)" using r(1,2) by (simp add: get_le32_def le32_at_append1)
  have sz: "get_le16 e 8 = Ok (le16_at e 8)" using el by (simp add: get_le16_def)
  have nl: "le32_at H 4 + ucast (le16_at e 8) = of_nat (?n + length e)"
  proof -
    have "le32_at H 4 = of_nat ?n" using r(3) by (metis of_nat_unat ucast_id)
    moreover have "(ucast (le16_at e 8) :: u32) = of_nat (length e)" using el(2) by (metis of_nat_unat)
    ultimately show ?thesis by simp
  qed
  let ?m1 = "H' @ concat A @ ?T @ K @ J'"
  have put: "put_le32 m 4 (of_nat (?n + length e)) = Ok ?m1"
    using r(1,2) J(1) by (simp add: put_le32_def set_le32_append1 H'_def set_index_length_def)
  have il1: "get_le32 ?m1 4 = Ok (le32_at H' 4)" "uint (le32_at H' 4) = int (?n + length e)"
    using Hf(1,3) r(2) by (simp add: get_le32_def le32_at_append1, intro uint_unat_eq)
  have us: "uint (le16_at e 8) = int (length e)" using el(2) by (rule uint_unat_eq)
  define U D where "U = take (length e) (?T @ K)" and "D = drop (length e) (?T @ K)"
  have TK: "?T @ K = U @ D" "length U = length e" "length D = length ?T"
    using J(2) by (simp_all only: U_def D_def append_take_drop_id length_take length_drop) simp_all
  have mv: "acopy ?m1 (int ?p + uint (le16_at e 8)) ?m1 (int ?p) (uint (le32_at H' 4) - int ?p - uint (le16_at e 8)) =
      Ok ((H' @ concat A @ U) @ ?T @ J')"
  proof -
    have a: "acopy ((H' @ concat A @ U) @ D @ J') (int ?p + int (length e)) ((H' @ concat A) @ ?T @ (K @ J')) (int ?p) (int (length ?T)) =
        Ok ((H' @ concat A @ U) @ ?T @ J')"
      by (rule acopy_app) (use TK(2,3) Hf(1) J(2) in auto)
    have eq: "(H' @ concat A @ U) @ D @ J' = ?m1" using TK(1) by (metis append.assoc)
    have q: "int (?n + length e) - int ?p - int (length e) = int (length ?T)" by simp
    show ?thesis using a unfolding us il1(2) q eq by (simp only: append_assoc)
  qed
  have cp: "acopy ((H' @ concat A @ U) @ ?T @ J') (int ?p) e 0 (uint (le16_at e 8)) = Ok ((H' @ concat A) @ e @ (?T @ J'))"
  proof -
    have "acopy ((H' @ concat A) @ U @ (?T @ J')) (int ?p) ([] @ e @ []) 0 (int (length e)) = Ok ((H' @ concat A) @ e @ (?T @ J'))"
      by (rule acopy_app) (use TK(2) Hf(1) in auto)
    then show ?thesis unfolding us by simp
  qed
  have "ntfs_ie_insert m e ?p = Ok ((H' @ concat A) @ e @ (?T @ J'))"
    unfolding ntfs_ie_insert_def sz il obind.simps nl put il1(1) mv by (rule cp)
  moreover have "ih_rep ((H' @ concat A) @ e @ (?T @ J')) H' (A @ e # B) l J'"
    using Hf r e by (auto simp: ih_rep_def)
  ultimately show ?thesis by (intro exI [of _ H'] exI [of _ "(H' @ concat A) @ e @ (?T @ J')"]) (simp add: H'_def add.commute add.left_commute)
qed


lemma ie_delete_rep:
  assumes rep: "ih_rep m H (A @ e # B) l J"
  shows "\<exists>H' m' J'. ntfs_ie_delete m (length (H @ concat A)) = Ok m' \<and> ih_rep m' H' (A @ B) l J' \<and> length J' = length e + length J"
proof -
  let ?n = "length (H @ concat (A @ e # B) @ l)" and ?p = "length (H @ concat A)" and ?T = "concat B @ l"
  have r: "m = H @ concat (A @ e # B) @ l @ J" "16 \<le> length H" "unat (le32_at H 4) = ?n" "\<forall>e \<in> set (A @ e # B). ie_ok e" "ie_last_ok l" "unat (le32_at H 0) = length H"
    using rep by (simp_all add: ih_rep_def)
  have el: "16 \<le> length e" "unat (le16_at e 8) = length e" using r(4) by (auto simp: ie_ok_def)
  have n: "?n < 2 ^ 32" using rep_len [OF rep] .
  define k where "k = length (H @ concat (A @ B) @ l)"
  have k: "k < 2 ^ 32" "?n = k + length e" using n by (simp_all add: k_def)
  define H' where "H' = set_index_length H k"
  note Hf = set_index_length_fields [OF r(2) k(1), folded H'_def]
  have il: "get_le32 m 4 = Ok (le32_at H 4)" using r(1,2) by (simp add: get_le32_def le32_at_append1)
  have m: "m = (H @ concat A) @ e @ (?T @ J)" using r(1) by simp
  have sz: "get_le16 m (?p + 8) = Ok (le16_at e 8)" by (rule entry_fields(1) [OF m el(1) refl])
  have nl: "le32_at H 4 - ucast (le16_at e 8) = of_nat k"
  proof -
    have "le32_at H 4 = of_nat ?n" using r(3) by (metis of_nat_unat ucast_id)
    moreover have "(ucast (le16_at e 8) :: u32) = of_nat (length e)" using el(2) by (metis of_nat_unat)
    ultimately show ?thesis unfolding k(2) by simp
  qed
  let ?m1 = "(H' @ concat A) @ e @ (?T @ J)"
  have put: "put_le32 m 4 (of_nat k) = Ok ?m1" using r(1,2) by (simp add: put_le32_def set_le32_append1 H'_def set_index_length_def)
  have p: "?p = length (H' @ concat A)" using Hf(1) by simp
  have sz1: "get_le16 ?m1 (?p + 8) = Ok (le16_at e 8)" unfolding p by (rule entry_fields(1) [OF refl el(1) refl])
  have us: "uint (le16_at e 8) = int (length e)" using el(2) by (rule uint_unat_eq)
  have uk: "uint (of_nat k :: u32) = int k" by (rule uint_unat_eq) (use k(1) in \<open>simp add: unat_of_nat\<close>)
  define U where "U = take (length ?T) (e @ ?T @ J)"
  define J' where "J' = drop (length ?T) (e @ ?T @ J)"
  have UJ: "e @ ?T @ J = U @ J'" "length U = length ?T" "length J' = length e + length J"
    by (simp_all only: U_def J'_def append_take_drop_id length_take length_drop) simp_all
  have mv: "acopy ?m1 (int ?p) ?m1 (int ?p + int (length e)) (int k - int ?p) = Ok ((H' @ concat A) @ ?T @ J')"
  proof -
    have "acopy ((H' @ concat A) @ U @ J') (int ?p) ((H' @ concat A @ e) @ ?T @ J) (int ?p + int (length e)) (int (length ?T)) = Ok ((H' @ concat A) @ ?T @ J')"
      by (rule acopy_app) (use UJ(2) Hf(1) in auto)
    moreover have "int k - int ?p = int (length ?T)" by (simp add: k_def)
    moreover have "(H' @ concat A) @ U @ J' = ?m1" using UJ(1) by metis
    ultimately show ?thesis by simp
  qed
  have "ntfs_ie_delete m ?p = Ok ((H' @ concat A) @ ?T @ J')"
    unfolding ntfs_ie_delete_def il sz obind.simps Let_def nl put sz1 us uk by (rule mv)
  moreover have "ih_rep ((H' @ concat A) @ ?T @ J') H' (A @ B) l J'" using Hf r by (auto simp: ih_rep_def k_def)
  ultimately show ?thesis using UJ(3) by blast
qed

lemma ie_delete_length: "ntfs_ie_delete m p = Ok m' \<Longrightarrow> length m' = length m"
  by (auto simp: ntfs_ie_delete_def obind_Ok_iff put_le32_def Let_def dest!: acopy_length split: if_splits)

section \<open>Lookup\<close>

text \<open>What lookup relies on: \<open>key_ok d n k\<close> says that the memory \<open>d\<close> with the length \<open>n\<close> holds the key
  \<open>k\<close>; the collation function compares keys by a three-way comparison.\<close>

locale index_keys = three_way cmp
  for cmp :: "'k \<Rightarrow> 'k \<Rightarrow> int" +
  fixes collate :: collate_fn and key_ok :: "u8 list \<Rightarrow> nat \<Rightarrow> 'k \<Rightarrow> bool"
  assumes collate_cmp: "key_ok d1 n1 k1 \<Longrightarrow> key_ok d2 n2 k2 \<Longrightarrow> collate d1 n1 d2 n2 = Ok (cmp k1 k2)"
    and key_ok_append: "key_ok d n k \<Longrightarrow> key_ok (d @ S) n k"
begin

definition entry_key :: "u8 list \<Rightarrow> 'k \<Rightarrow> bool" where
  "entry_key e k \<longleftrightarrow> key_ok (drop 16 e) (unat (le16_at e 10)) k"

text \<open>The loop stops at the first key that is not smaller than the one looked for.\<close>

lemma lookup_loop_rep:
  assumes "ih_rep m H (A @ B) l J" "m = (H @ concat A) @ (concat B @ l @ J)" "list_all2 entry_key B ks" "key_ok key n k"
  defines "i \<equiv> length (takeWhile (\<lambda>x. cmp k x = 1) ks)"
  shows "ie_lookup_loop (Some collate) key n m (length (H @ concat (A @ B) @ l)) (length (H @ concat A)) item =
    Ok (if i < length ks \<and> ks ! i = k then Ie_Match (length (H @ concat (A @ take i B))) (item + i)
        else Ie_Stop (length (H @ concat (A @ take i B))) (item + i))"
  using assms(1-3) unfolding i_def
proof (induction B arbitrary: A ks item)
  case Nil
  have l: "16 \<le> length l" "unat (le16_at l 8) = length l" "le16_at l 12 AND INDEX_ENTRY_END \<noteq> 0" using Nil.prems(1) by (auto simp: ih_rep_def ie_last_ok_def)
  have m: "m = (H @ concat A) @ l @ J" using Nil.prems(2) by simp
  show ?case using Nil.prems(3) l entry_fields [OF m l(1) refl] entry_walk [OF m l(1) refl l(2)] by (subst ie_lookup_loop.simps) simp
next
  case (Cons b B)
  obtain x xs where ks: "ks = x # xs" "entry_key b x" "list_all2 entry_key B xs" using Cons.prems(3) by (auto simp: list_all2_Cons1)
  have b: "16 \<le> length b" "unat (le16_at b 8) = length b" "le16_at b 12 AND INDEX_ENTRY_END = 0" using Cons.prems(1) by (auto simp: ih_rep_def ie_ok_def)
  have m: "m = (H @ concat A) @ b @ (concat B @ l @ J)" using Cons.prems(2) by simp
  let ?p = "length (H @ concat A)" and ?E = "length (H @ concat (A @ b # B) @ l)"
  have w: "ntfs_ie_end m ?p = Ok False" "get_le16 m (?p + 8) = Ok (le16_at b 8)" "get_le16 m (?p + 10) = Ok (le16_at b 10)"
    "drop (?p + 16) m = drop 16 b @ concat B @ l @ J"
    using entry_fields [OF m b(1) refl] entry_walk [OF m b(1) refl b(2)] b(3) by simp_all
  have c: "collate key n (drop (?p + 16) m) (unat (le16_at b 10)) = Ok (cmp k x)"
    unfolding w(4) using collate_cmp [OF assms(4) key_ok_append] ks(2) by (simp add: entry_key_def)
  have st: "ie_lookup_loop (Some collate) key n m ?E ?p item =
      (if cmp k x = -1 then Ok (Ie_Stop ?p item) else if cmp k x = 0 then Ok (Ie_Match ?p item)
       else ie_lookup_loop (Some collate) key n m ?E (?p + length b) (item + 1))"
    using w c b cmp_range [of k x] by (subst ie_lookup_loop.simps) (auto simp: NTFS_COLLATION_ERROR_def)
  have "ih_rep m H ((A @ [b]) @ B) l J" "m = (H @ concat (A @ [b])) @ concat B @ l @ J" using Cons.prems by simp_all
  note IH = Cons.IH [OF this ks(3), of "item + 1"]
  show ?case
  proof (cases k x rule: cmp_cases)
    case 1
    then show ?thesis using st ks(1) cmp_0 [of k x] by auto
  next
    case 2
    then show ?thesis using st ks(1) by simp
  next
    case 3
    then show ?thesis using st ks(1) IH by (simp add: add.assoc)
  qed
qed

text \<open>In a node with ascending keys the key is found exactly when it is there; otherwise the entry
  reached is the first with a greater key, or the end entry.\<close>

lemma takeWhile_found:
  fixes k :: 'k
  assumes "ascending ks"
  defines "i \<equiv> length (takeWhile (\<lambda>x. cmp k x = 1) ks)"
  shows "(i < length ks \<and> ks ! i = k) \<longleftrightarrow> k \<in> set ks"
proof
  assume "k \<in> set ks"
  then obtain A B where ks: "ks = A @ k # B" by (meson split_list)
  have "cmp k a = 1" if "a \<in> set A" for a
    using assms(1) that by (auto simp: ks ascending_def sorted_wrt_append cmp_gt)
  then have "takeWhile (\<lambda>x. cmp k x = 1) ks = A" by (simp add: ks takeWhile_append2 takeWhile_append)
  then show "i < length ks \<and> ks ! i = k" by (simp add: i_def ks)
qed auto

lemma lookup_rep:
  assumes "ih_rep m H es l J" "list_all2 entry_key es ks" "ascending ks" "key_ok key n k"
  defines "i \<equiv> length (takeWhile (\<lambda>x. cmp k x = 1) ks)"
  shows "k \<in> set ks \<Longrightarrow> ntfs_ie_lookup (Some collate) key n m = Ok (STATUS_OK (length (H @ concat (take i es))) i) \<and> i < length ks \<and> ks ! i = k"
    and "k \<notin> set ks \<Longrightarrow> (es @ [l]) ! i = e \<Longrightarrow>
      ntfs_ie_lookup (Some collate) key n m =
      (if le16_at e 12 AND INDEX_ENTRY_NODE = 0 then Ok (STATUS_NOT_FOUND (length (H @ concat (take i es))))
       else obind (ntfs_ie_get_vcn m (length (H @ concat (take i es)))) (\<lambda>v.
            if v < 0 then Err EINVAL else Ok (STATUS_KEEP_SEARCHING v i)))"
proof -
  have m: "m = (H @ concat []) @ concat es @ l @ J" using assms(1) by (simp add: ih_rep_def)
  have L: "ie_lookup_loop (Some collate) key n m (length (H @ concat es @ l)) (length H) 0 =
      Ok (if i < length ks \<and> ks ! i = k then Ie_Match (length (H @ concat (take i es))) i else Ie_Stop (length (H @ concat (take i es))) i)"
    using lookup_loop_rep [of m H "[]" es l J ks key n k 0] assms(1,2,4) m by (simp add: i_def)
  have found: "(i < length ks \<and> ks ! i = k) \<longleftrightarrow> k \<in> set ks" unfolding i_def by (rule takeWhile_found [OF assms(3)])
  have len: "length es = length ks" using assms(2) by (simp add: list_all2_lengthD)
  have le: "i \<le> length es" by (simp add: i_def len length_takeWhile_le)
  note h = rep_header [OF assms(1)]
  show "ntfs_ie_lookup (Some collate) key n m = Ok (STATUS_OK (length (H @ concat (take i es))) i) \<and> i < length ks \<and> ks ! i = k" if "k \<in> set ks"
    using that found L m h by (simp add: ntfs_ie_lookup_def)
  assume nk: "k \<notin> set ks" and e: "(es @ [l]) ! i = e"
  obtain S where S: "m = (H @ concat (take i es)) @ e @ S" "16 \<le> length e"
  proof (cases "i < length es")
    case True
    then have "es = take i es @ e # drop (Suc i) es" using id_take_nth_drop [OF True] e by (metis nth_append)
    then have "concat es = concat (take i es) @ e @ concat (drop (Suc i) es)" by (metis concat_append concat.simps(2))
    moreover have "16 \<le> length e" using assms(1) e True by (auto simp: ih_rep_def ie_ok_def nth_append)
    ultimately show ?thesis using m by (intro that [of "concat (drop (Suc i) es) @ l @ J"]) auto
  next
    case False
    then have "i = length es" using le by simp
    then show ?thesis using m e assms(1) by (intro that [of J]) (auto simp: ih_rep_def ie_last_ok_def)
  qed
  have "get_le16 m (length (H @ concat (take i es)) + 12) = Ok (le16_at e 12)" by (rule entry_fields(3) [OF S refl])
  then show "ntfs_ie_lookup (Some collate) key n m =
      (if le16_at e 12 AND INDEX_ENTRY_NODE = 0 then Ok (STATUS_NOT_FOUND (length (H @ concat (take i es))))
       else obind (ntfs_ie_get_vcn m (length (H @ concat (take i es)))) (\<lambda>v.
            if v < 0 then Err EINVAL else Ok (STATUS_KEEP_SEARCHING v i)))"
    using nk found L m h by (auto simp: ntfs_ie_lookup_def)
qed

end

section \<open>The collation functions meet the contract\<close>

lemma cmp32_lex: "cmp32 a b = lex3 [a] [b]"
  by (auto simp: cmp32_def)

lemma le32_at_app: "i + 4 \<le> length d \<Longrightarrow> le32_at (d @ S) i = le32_at d i"
  by (rule le32_at_append1)

definition ulong_ok :: "u8 list \<Rightarrow> nat \<Rightarrow> u32 list \<Rightarrow> bool" where
  "ulong_ok d n k \<longleftrightarrow> n = 4 \<and> 4 \<le> length d \<and> k = [le32_at d 0]"

interpretation ulong: index_keys lex3 ntfs_collate_ntofs_ulong ulong_ok
  by unfold_locales (auto simp: ulong_ok_def ntfs_collate_ntofs_ulong_def get_le32_def cmp32_lex le32_at_append1)

definition hash_ok :: "u8 list \<Rightarrow> nat \<Rightarrow> u32 list \<Rightarrow> bool" where
  "hash_ok d n k \<longleftrightarrow> n = 8 \<and> 8 \<le> length d \<and> k = [le32_at d 0, le32_at d 4]"

interpretation hash: index_keys lex3 ntfs_collate_ntofs_security_hash hash_ok
  by unfold_locales (auto simp: hash_ok_def ntfs_collate_ntofs_security_hash_def get_le32_def le32_at_append1)

definition ulongs_at :: "u8 list \<Rightarrow> nat \<Rightarrow> nat \<Rightarrow> u32 list" where
  "ulongs_at d p w = map (\<lambda>i. le32_at d (p + 4 * i)) [0..<w]"

lemma ulongs_at_Suc: "ulongs_at d p (Suc w) = le32_at d p # ulongs_at d (p + 4) w"
  by (simp add: ulongs_at_def map_upt_Suc algebra_simps del: upt_Suc)

definition ulongs_ok :: "nat \<Rightarrow> u8 list \<Rightarrow> nat \<Rightarrow> u32 list \<Rightarrow> bool" where
  "ulongs_ok w d n k \<longleftrightarrow> n = 4 * Suc w \<and> n \<le> length d \<and> k = ulongs_at d 0 (Suc w)"

lemma ulongs_loop_eq:
  "p + 4 * Suc w \<le> length a \<Longrightarrow> p + 4 * Suc w \<le> length b \<Longrightarrow>
    \<exists>d1 d2. ulongs_loop a b p (int (4 * Suc w)) = Ok (d1, d2) \<and> cmp32 d1 d2 = lex3 (ulongs_at a p (Suc w)) (ulongs_at b p (Suc w))"
proof (induction w arbitrary: p)
  case 0
  then show ?case by (subst ulongs_loop.simps) (simp add: get_le32_def ulongs_at_Suc cmp32_lex ulongs_at_def)
next
  case (Suc w)
  have g: "get_le32 a p = Ok (le32_at a p)" "get_le32 b p = Ok (le32_at b p)" using Suc.prems by (simp_all add: get_le32_def)
  have l: "int (4 * Suc (Suc w)) - 4 = int (4 * Suc w)" by simp
  show ?case
  proof (cases "le32_at a p = le32_at b p")
    case True
    obtain d1 d2 where d: "ulongs_loop a b (p + 4) (int (4 * Suc w)) = Ok (d1, d2)"
      "cmp32 d1 d2 = lex3 (ulongs_at a (p + 4) (Suc w)) (ulongs_at b (p + 4) (Suc w))" using Suc.IH [of "p + 4"] Suc.prems by auto
    have "ulongs_loop a b p (int (4 * Suc (Suc w))) = Ok (d1, d2)"
      using d(1) True by (subst ulongs_loop.simps) (simp only: g obind.simps l, simp)
    then show ?thesis using d(2) True by (simp add: ulongs_at_Suc [of _ p "Suc w"])
  next
    case False
    then have "ulongs_loop a b p (int (4 * Suc (Suc w))) = Ok (le32_at a p, le32_at b p)"
      by (subst ulongs_loop.simps) (simp only: g obind.simps simp_thms if_False)
    then show ?thesis using False by (auto simp: ulongs_at_Suc [of _ p "Suc w"] cmp32_def)
  qed
qed

interpretation ulongs: index_keys lex3 ntfs_collate_ntofs_ulongs "ulongs_ok w"
proof unfold_locales
  fix d1 n1 k1 d2 n2 k2
  assume k: "ulongs_ok w d1 n1 k1" "ulongs_ok w d2 n2 k2"
  then show "ntfs_collate_ntofs_ulongs d1 n1 d2 n2 = Ok (lex3 k1 k2)"
    using ulongs_loop_eq [of 0 w d1 d2] by (auto simp: ulongs_ok_def ntfs_collate_ntofs_ulongs_def)
qed (auto simp: ulongs_ok_def ulongs_at_def le32_at_append1)

text \<open>File names, for a volume's up-case table.\<close>

lemma aget_take: "i < n \<Longrightarrow> n \<le> length a \<Longrightarrow> aget (take n a) (int i) = aget a (int i)"
  by (simp add: aget_def)

lemma fnc_skip_take:
  "i + cnt \<le> la \<Longrightarrow> i + cnt \<le> lb \<Longrightarrow> la \<le> length a \<Longrightarrow> lb \<le> length b \<Longrightarrow> fnc_skip (take la a) (take lb b) i cnt = fnc_skip a b i cnt"
proof (induction a b i cnt rule: fnc_skip.induct)
  case (1 a b i cnt)
  show ?case
  proof (cases "cnt - 1 \<noteq> 0")
    case True
    have g: "aget (take la a) (int i) = aget a (int i)" "aget (take lb b) (int i) = aget b (int i)" using 1(2-5) True by (auto intro: aget_take)
    show ?thesis using 1 True by (subst (1 2) fnc_skip.simps) (auto simp: g intro!: obind_cong)
  qed (subst (1 2) fnc_skip.simps, simp)
qed

lemma fnc_pair_take: "i < la \<Longrightarrow> i < lb \<Longrightarrow> la \<le> length a \<Longrightarrow> lb \<le> length b \<Longrightarrow> fnc_pair (take la a) (take lb b) T n i = fnc_pair a b T n i"
  by (simp add: fnc_pair_def aget_take)

lemma fnc_fold_take:
  "0 < cnt \<Longrightarrow> i + cnt \<le> la \<Longrightarrow> i + cnt \<le> lb \<Longrightarrow> la \<le> length a \<Longrightarrow> lb \<le> length b \<Longrightarrow> fnc_fold (take la a) (take lb b) T n i cnt = fnc_fold a b T n i cnt"
proof (induction a b T n i cnt rule: fnc_fold.induct)
  case (1 a b T n i cnt)
  have p: "fnc_pair (take la a) (take lb b) T n i = fnc_pair a b T n i" using 1(2-6) by (intro fnc_pair_take) auto
  show ?case using 1 by (subst (1 2) fnc_fold.simps) (auto simp: p intro!: obind_cong)
qed

lemma full_collate_take:
  assumes "la \<le> length a" "lb \<le> length b" "n \<le> length T"
  shows "ntfs_names_full_collate a la b lb CASE_SENSITIVE T n = Ok (name_order T n (take la a) (take lb b))"
proof -
  let ?a = "take la a" and ?b = "take lb b" and ?m = "min la lb"
  have "ntfs_names_full_collate a la b lb CASE_SENSITIVE T n = ntfs_names_full_collate ?a la ?b lb CASE_SENSITIVE T n"
  proof (cases "?m = 0")
    case False
    then obtain k where k: "k < ?m" "fnc_skip ?a ?b 0 ?m = Ok (k, ?m - 1 - k)"
      using fnc_skip_eq [of ?m 0 ?a ?b] assms by auto
    have "fnc_skip a b 0 ?m = fnc_skip ?a ?b 0 ?m" using fnc_skip_take [of 0 ?m la lb a b] assms by simp
    moreover have "aget ?a (int k) = aget a (int k)" "aget ?b (int k) = aget b (int k)" "fnc_pair ?a ?b T n k = fnc_pair a b T n k"
      using k(1) assms by (auto intro!: aget_take fnc_pair_take)
    moreover have "?m - 1 - k \<noteq> 0 \<Longrightarrow> fnc_fold ?a ?b T n (k + 1) (?m - 1 - k) = fnc_fold a b T n (k + 1) (?m - 1 - k)"
      using k(1) assms by (intro fnc_fold_take) auto
    ultimately show ?thesis using k(2) unfolding ntfs_names_full_collate_def Let_def by (auto intro!: obind_cong simp del: fnc_decide.simps(2))
  qed (simp add: ntfs_names_full_collate_def)
  then show ?thesis using full_collate_eq(1) [OF assms(3), of ?a ?b] assms(1,2) by (simp add: min.absorb2)
qed

definition fname_ok :: "u8 list \<Rightarrow> nat \<Rightarrow> ntfschar list \<Rightarrow> bool" where
  "fname_ok d n k \<longleftrightarrow> 0x42 + 2 * length k \<le> length d \<and> unat (d ! 0x40) = length k \<and>
     k = map (\<lambda>i. le16_at d (0x42 + 2 * i)) [0..<length k]"

lemma fna_units_key: "fname_ok d n k \<Longrightarrow> length k \<le> length (fna_units d) \<and> take (length k) (fna_units d) = k"
  by (auto simp: fname_ok_def fna_units_def take_map)

locale upcase_table =
  fixes T :: "ntfschar list" and N :: nat
  assumes table_len: "N \<le> length T"

sublocale upcase_table \<subseteq> fname: index_keys "name_order T N" "ntfs_collate_file_name T N" fname_ok
proof unfold_locales
  fix d1 n1 k1 d2 n2 k2
  assume k: "fname_ok d1 n1 k1" "fname_ok d2 n2 k2"
  have "aget d1 0x40 = Ok (d1 ! 0x40)" "aget d2 0x40 = Ok (d2 ! 0x40)" using k by (auto simp: fname_ok_def aget_def)
  then show "ntfs_collate_file_name T N d1 n1 d2 n2 = Ok (name_order T N k1 k2)"
    using k fna_units_key [OF k(1)] fna_units_key [OF k(2)] full_collate_take [OF _ _ table_len, of "length k1" "fna_units d1" "length k2" "fna_units d2"]
    by (simp add: ntfs_collate_file_name_def fname_ok_def)
next
  fix d S :: "u8 list" and n k
  assume a: "fname_ok d n k"
  then have l: "0x42 + 2 * length k \<le> length d" and k: "k = map (\<lambda>i. le16_at d (0x42 + 2 * i)) [0..<length k]" by (simp_all only: fname_ok_def)
  have "map (\<lambda>i. le16_at (d @ S) (0x42 + 2 * i)) [0..<length k] = map (\<lambda>i. le16_at d (0x42 + 2 * i)) [0..<length k]"
    by (rule map_cong) (use l in \<open>auto simp: le16_at_append1\<close>)
  then have "k = map (\<lambda>i. le16_at (d @ S) (0x42 + 2 * i)) [0..<length k]" using k by (rule trans [OF _ sym, rotated])
  moreover have "(d @ S) ! 0x40 = d ! 0x40" using l by (simp add: nth_append)
  ultimately show "fname_ok (d @ S) n k" using a l unfolding fname_ok_def length_append by (intro conjI) simp_all
qed

interpretation ascii: upcase_table ascii_table 128
  by unfold_locales (simp add: ascii_table_length)

context upcase_table
begin

lemmas fname_lookup = fname.lookup_rep and fname_entry_key = fname.entry_key_def

end

section \<open>Properties\<close>

text \<open>The keys of a directory node.\<close>

definition dir_keys :: "u8 list list \<Rightarrow> ntfschar list list \<Rightarrow> bool" where
  "dir_keys es ks \<longleftrightarrow> list_all2 (\<lambda>e k. fname_ok (drop 16 e) (unat (le16_at e 10)) k) es ks"

definition dir_sorted :: "ntfschar list \<Rightarrow> nat \<Rightarrow> ntfschar list list \<Rightarrow> bool" where
  "dir_sorted T n ks \<longleftrightarrow> sorted_wrt (\<lambda>x y. name_order T n x y = -1) ks"

text \<open>The position of a name among the names of a node: the number of smaller ones.\<close>

definition dir_pos :: "ntfschar list \<Rightarrow> nat \<Rightarrow> ntfschar list \<Rightarrow> ntfschar list list \<Rightarrow> nat" where
  "dir_pos T n k ks = length (takeWhile (\<lambda>x. name_order T n k x = 1) ks)"

text \<open>C18. Looking a name up in a directory node whose entries are in collation order finds its entry
  exactly when the name is there. Otherwise the search ends at the first entry with a greater name,
  or at the end entry: a leaf answers that the name does not exist and gives this entry as the
  insertion point, an inner node gives the sub-node below this entry.\<close>

theorem dir_lookup:
  assumes "n \<le> length T" "ih_rep m H es l J" "dir_keys es ks" "dir_sorted T n ks" "fname_ok key klen k" "(es @ [l]) ! dir_pos T n k ks = e"
  shows "ntfs_ie_lookup (ntfs_get_collate_function mc T n COLLATION_FILE_NAME) key klen m =
    (if k \<in> set ks then Ok (STATUS_OK (length (H @ concat (take (dir_pos T n k ks) es))) (dir_pos T n k ks))
     else if le16_at e 12 AND INDEX_ENTRY_NODE = 0 then Ok (STATUS_NOT_FOUND (length (H @ concat (take (dir_pos T n k ks) es))))
     else obind (ntfs_ie_get_vcn m (length (H @ concat (take (dir_pos T n k ks) es)))) (\<lambda>v.
          if v < 0 then Err EINVAL else Ok (STATUS_KEEP_SEARCHING v (dir_pos T n k ks)))) \<and>
    (k \<in> set ks \<longrightarrow> ks ! dir_pos T n k ks = k)"
proof -
  have U: "upcase_table T n" using assms(1) by (simp add: upcase_table_def)
  have k: "list_all2 (index_keys.entry_key fname_ok) es ks"
    using assms(3) unfolding dir_keys_def upcase_table.fname_entry_key [OF U] .
  have s: "three_way.ascending (name_order T n) ks"
    using assms(4) by (simp add: dir_sorted_def names.ascending_def)
  note r = upcase_table.fname_lookup [OF U assms(2) k s assms(5), folded dir_pos_def]
  show ?thesis using r(1) r(2) [of e] assms(6) by (auto simp: ntfs_get_collate_function_def)
qed

text \<open>A leaf with the names \<^verbatim>\<open>a\<close> and \<^verbatim>\<open>c\<close>.\<close>

definition ex_fn :: "u8 \<Rightarrow> u8 list" where
  "ex_fn c = replicate 0x40 0 @ [1, 0, c, 0]"

definition ex_ie :: "u8 \<Rightarrow> u8 list" where
  "ex_ie c = replicate 8 0 @ [88, 0, 68, 0, 0, 0, 0, 0] @ ex_fn c @ replicate 4 0"

definition ex_end :: "u8 list" where
  "ex_end = replicate 8 0 @ [16, 0, 0, 0, 2, 0, 0, 0]"

definition ex_ih :: "u8 list" where
  "ex_ih = [16, 0, 0, 0, 208, 0, 0, 0, 0, 16, 0, 0, 0, 0, 0, 0]"

definition ex_node :: "u8 list" where
  "ex_node = ex_ih @ concat [ex_ie 0x61, ex_ie 0x63] @ ex_end @ replicate 100 0"

lemma ex_ie_length: "length (ex_ie c) = 88"
  by (simp add: ex_ie_def ex_fn_def)

lemma ex_node_rep: "ih_rep ex_node ex_ih [ex_ie 0x61, ex_ie 0x63] ex_end (replicate 100 0)"
proof -
  have "ie_ok (ex_ie 0x61)" "ie_ok (ex_ie 0x63)" "ie_last_ok ex_end" "unat (le32_at ex_ih 0) = 16" "unat (le32_at ex_ih 4) = 208" by code_simp+
  moreover have "length ex_ih = 16" "length ex_end = 16" by (simp_all add: ex_ih_def ex_end_def)
  ultimately show ?thesis by (simp add: ih_rep_def ex_node_def ex_ie_length)
qed

lemma ex_fname: "fname_ok (drop 16 (ex_ie 0x61)) 68 [0x61]" "fname_ok (drop 16 (ex_ie 0x63)) 68 [0x63]" "fname_ok (ex_fn 0x62) 68 [0x62]"
  by code_simp+

lemma ex_dir: "dir_keys [ex_ie 0x61, ex_ie 0x63] [[0x61], [0x63]]" "dir_sorted ascii_table 128 [[0x61], [0x63]]"
  "dir_pos ascii_table 128 [0x62] [[0x61], [0x63]] = 1"
proof -
  have "unat (le16_at (ex_ie 0x61) 10) = 68" "unat (le16_at (ex_ie 0x63) 10) = 68" by code_simp+
  then show "dir_keys [ex_ie 0x61, ex_ie 0x63] [[0x61], [0x63]]" using ex_fname by (simp add: dir_keys_def)
  have o: "name_order ascii_table 128 [0x61] [0x63] = -1" "name_order ascii_table 128 [0x62] [0x61] = 1" "name_order ascii_table 128 [0x62] [0x63] = -1"
    by code_simp+
  show "dir_sorted ascii_table 128 [[0x61], [0x63]]" using o(1) by (simp add: dir_sorted_def)
  show "dir_pos ascii_table 128 [0x62] [[0x61], [0x63]] = 1" using o(2,3) by (simp add: dir_pos_def)
qed

theorem dir_lookup_witness:
  "ntfs_ie_lookup (ntfs_get_collate_function (\<lambda>a b. 0) ascii_table 128 COLLATION_FILE_NAME) (ex_fn 0x62) 68 ex_node = Ok (STATUS_NOT_FOUND 104)"
proof -
  have f: "le16_at (ex_ie 0x63) 12 AND INDEX_ENTRY_NODE = 0" by code_simp
  have "([0x62] :: ntfschar list) \<notin> set [[0x61], [0x63]]" by simp
  then show ?thesis
    using dir_lookup [OF _ ex_node_rep ex_dir(1,2) ex_fname(3), of "ex_ie 0x63" "\<lambda>a b. 0"] ex_dir(3) f
    by (simp add: ascii_table_length ex_ie_length ex_ih_def)
qed

text \<open>C19. Inserting an entry at the position of another one, or at the end, and deleting an entry do
  to the memory of a node what insertion and deletion do to its list of entries, and keep it well
  formed; deleting what was inserted gives back the entries. The caller provides the room.\<close>

theorem ie_insert_delete:
  assumes "ih_rep m H (A @ B) l J" "ie_ok e" "length e \<le> length J" "length (H @ concat (A @ e # B) @ l) < 2 ^ 32"
  shows "\<exists>m' H' J'. ntfs_ie_insert m e (length (H @ concat A)) = Ok m' \<and> ih_rep m' H' (A @ e # B) l J' \<and> length m' = length m \<and>
    (\<exists>m'' H'' J''. ntfs_ie_delete m' (length (H @ concat A)) = Ok m'' \<and> ih_rep m'' H'' (A @ B) l J'' \<and> length m'' = length m)"
proof -
  have J: "J = take (length e) J @ drop (length e) J" "length (take (length e) J) = length e" using assms(3) by auto
  obtain H' m' where i: "ntfs_ie_insert m e (length (H @ concat A)) = Ok m'" "ih_rep m' H' (A @ e # B) l (drop (length e) J)"
    "H' = set_index_length H (length (H @ concat (A @ e # B) @ l))"
    using ie_insert_rep [OF assms(1,2) J assms(4)] by blast
  have lH: "length H' = length H" using i(3) by (simp add: set_index_length_def)
  have lm: "length m' = length m" using i(2) assms(1,3) lH by (simp add: ih_rep_def)
  obtain H2 m2 J2 where d: "ntfs_ie_delete m' (length (H' @ concat A)) = Ok m2" "ih_rep m2 H2 (A @ B) l J2" "length J2 = length e + length (drop (length e) J)"
    using ie_delete_rep [OF i(2)] by blast
  have "unat (le32_at H2 0) = length H2" "unat (le32_at H' 0) = length H'" using d(2) i(2) by (simp_all add: ih_rep_def)
  then show ?thesis using i d lm lH ie_delete_length [OF d(1)] by auto
qed

theorem ie_insert_delete_witness:
  "\<exists>m'. ntfs_ie_insert ex_node (ex_ie 0x62) 104 = Ok m' \<and> ntfs_ih_numof_entries m' = Ok 3"
proof -
  have e: "ie_ok (ex_ie 0x62)" by code_simp
  have r: "ih_rep ex_node ex_ih ([ex_ie 0x61] @ [ex_ie 0x63]) ex_end (replicate 100 0)" using ex_node_rep by simp
  obtain m' H' J' where "ntfs_ie_insert ex_node (ex_ie 0x62) (length (ex_ih @ concat [ex_ie 0x61])) = Ok m'"
    "ih_rep m' H' ([ex_ie 0x61] @ ex_ie 0x62 # [ex_ie 0x63]) ex_end J'"
    using ie_insert_delete [OF r e] by (auto simp: ex_ie_length ex_ih_def ex_end_def)
  then show ?thesis using numof_rep [of m' H' "[ex_ie 0x61] @ ex_ie 0x62 # [ex_ie 0x63]" ex_end J'] by (auto simp: ex_ie_length ex_ih_def)
qed

text \<open>Counting, indexing and the median: the number of entries of a well formed node is that of its
  list, the entry at a position is the one at that index, and the median splits the list in half.\<close>

theorem node_walk:
  assumes "ih_rep m H es l J" "i \<le> length es"
  shows "ntfs_ih_numof_entries m = Ok (length es) \<and> ntfs_ie_get_by_pos m (int i) = Ok (length (H @ concat (take i es))) \<and>
    ntfs_ie_get_median m = Ok (length (H @ concat (take (length es div 2) es))) \<and>
    ntfs_ie_get_last m (length H) (length (H @ concat es @ l)) = Ok (length (H @ concat es))"
  using numof_rep [OF assms(1)] get_by_pos_rep [OF assms] median_rep [OF assms(1)] node_loops_rep [of m H "[]" es l J] assms(1)
  by (simp add: ih_rep_def)

theorem node_walk_witness: "ntfs_ih_numof_entries ex_node = Ok 2 \<and> ntfs_ie_get_by_pos ex_node 1 = Ok 104"
  using node_walk [OF ex_node_rep, of 1] by (simp add: ex_ie_length ex_ih_def)

definition memcmp_diff :: memcmp_fn where
  "memcmp_diff a b = (case filter (\<lambda>(x, y). x \<noteq> y) (zip a b) of [] \<Rightarrow> 0 | (x, y) # _ \<Rightarrow> uint x - uint y)"

definition ex_bin :: "u8 \<Rightarrow> u8 list" where
  "ex_bin c = replicate 8 0 @ [24, 0, 1, 0, 0, 0, 0, 0, c] @ replicate 7 0"

definition ex_bin_node :: "u8 list" where
  "ex_bin_node = [16, 0, 0, 0, 80, 0, 0, 0, 0, 16, 0, 0, 0, 0, 0, 0] @ concat [ex_bin 5, ex_bin 9] @ ex_end"

text \<open>What \<^verbatim>\<open>memcmp\<close> says of a key and the key of an entry.\<close>

definition bin_cmp :: "memcmp_fn \<Rightarrow> u8 list \<Rightarrow> u8 list \<Rightarrow> int" where
  "bin_cmp memcmp key e = (let k = min (length key) (unat (le16_at e 10)) in memcmp (take k key) (take k (drop 16 e)))"

definition bin_entry :: "u8 list \<Rightarrow> u8 list \<Rightarrow> bool" where
  "bin_entry key e \<longleftrightarrow> 16 + min (length key) (unat (le16_at e 10)) \<le> length e"

lemma bin_step:
  assumes "ih_rep m H (A @ b # B) l J" "bin_entry key b" "bin_cmp memcmp key b < -1"
  shows "ie_lookup_loop (Some (ntfs_collate_binary memcmp)) key (length key) m (length (H @ concat (A @ b # B) @ l)) (length (H @ concat A)) item =
    (if bin_cmp memcmp key b = -2 then Err ERANGE
     else ie_lookup_loop (Some (ntfs_collate_binary memcmp)) key (length key) m (length (H @ concat (A @ b # B) @ l)) (length (H @ concat (A @ [b]))) (item + 1))"
proof -
  have b: "16 \<le> length b" "unat (le16_at b 8) = length b" "le16_at b 12 AND INDEX_ENTRY_END = 0"
    using assms(1) by (auto simp: ih_rep_def ie_ok_def)
  have m: "m = (H @ concat A) @ b @ (concat B @ l @ J)"
    using assms(1) by (simp add: ih_rep_def)
  note w = entry_fields [OF m b(1) refl] entry_walk [OF m b(1) refl b(2)]
  have "ntfs_collate_binary memcmp key (length key) (drop 16 b @ concat B @ l @ J) (unat (le16_at b 10)) = Ok (bin_cmp memcmp key b)"
    using assms(2,3) by (simp add: ntfs_collate_binary_def bin_cmp_def bin_entry_def Let_def le_diff_conv2)
  then show ?thesis
    using w b assms(3) by (subst ie_lookup_loop.simps) (auto simp: NTFS_COLLATION_ERROR_def add.assoc)
qed

lemma bin_loop:
  assumes "ih_rep m H (A @ B) l J" "\<forall>b \<in> set B. bin_entry key b \<and> bin_cmp memcmp key b < -2"
  shows "ie_lookup_loop (Some (ntfs_collate_binary memcmp)) key (length key) m (length (H @ concat (A @ B) @ l)) (length (H @ concat A)) item =
    Ok (Ie_Stop (length (H @ concat (A @ B))) (item + length B))"
  using assms
proof (induction B arbitrary: A item)
  case Nil
  have l: "16 \<le> length l" "unat (le16_at l 8) = length l" "le16_at l 12 AND INDEX_ENTRY_END \<noteq> 0"
    using Nil.prems(1) by (auto simp: ih_rep_def ie_last_ok_def)
  have m: "m = (H @ concat A) @ l @ J"
    using Nil.prems(1) by (simp add: ih_rep_def)
  show ?case
    using l entry_fields [OF m l(1) refl] entry_walk [OF m l(1) refl l(2)] by (subst ie_lookup_loop.simps) simp
next
  case (Cons b B)
  have "ih_rep m H ((A @ [b]) @ B) l J"
    using Cons.prems(1) by simp
  from Cons.IH [OF this, of "item + 1"] show ?case
    using bin_step [OF Cons.prems(1), of key memcmp item] Cons.prems(2) by simp
qed

text \<open>C31. Binary keys depend on more of \<^verbatim>\<open>memcmp\<close> than C promises, which is the sign of its result. Take any leaf node with
  entries and any key that \<^verbatim>\<open>memcmp\<close> puts before all of them, so that the key is absent and belongs before the first
  entry. When the result for the first entry is -2, the lookup fails with \<^verbatim>\<open>ERANGE\<close>; when the results are below -2,
  it passes over all the greater keys and reports the end of the node as the place of the key.\<close>

theorem binary_lookup_needs_sign:
  assumes "ih_rep m H es l J" "es \<noteq> []" "\<forall>e \<in> set es. bin_entry key e" "le16_at l 12 AND INDEX_ENTRY_NODE = 0"
  shows "(bin_cmp memcmp key (hd es) = -2 \<longrightarrow>
      ntfs_ie_lookup (ntfs_get_collate_function memcmp T n COLLATION_BINARY) key (length key) m = Err ERANGE) \<and>
    ((\<forall>e \<in> set es. bin_cmp memcmp key e < -2) \<longrightarrow>
      ntfs_ie_lookup (ntfs_get_collate_function memcmp T n COLLATION_BINARY) key (length key) m = Ok (STATUS_NOT_FOUND (length (H @ concat es))) \<and>
      length H < length (H @ concat es))"
proof (intro conjI impI)
  note h = rep_header [OF assms(1)]
  obtain b B where es: "es = b # B"
    using assms(2) by (cases es) auto
  show "ntfs_ie_lookup (ntfs_get_collate_function memcmp T n COLLATION_BINARY) key (length key) m = Err ERANGE"
    if "bin_cmp memcmp key (hd es) = -2"
    using that bin_step [of m H "[]" b B l J key memcmp 0] assms(1,3) h by (simp add: es ntfs_ie_lookup_def ntfs_get_collate_function_def)
  assume c: "\<forall>e \<in> set es. bin_cmp memcmp key e < -2"
  have m: "m = (H @ concat es) @ l @ J" "16 \<le> length l" "16 \<le> length b"
    using assms(1) by (auto simp: ih_rep_def ie_last_ok_def ie_ok_def es)
  show "ntfs_ie_lookup (ntfs_get_collate_function memcmp T n COLLATION_BINARY) key (length key) m = Ok (STATUS_NOT_FOUND (length (H @ concat es)))"
    using c bin_loop [of m H "[]" es l J key memcmp 0] assms(1,3,4) h entry_fields(3) [OF m(1,2) refl]
    by (simp add: ntfs_ie_lookup_def ntfs_get_collate_function_def)
  show "length H < length (H @ concat es)"
    using m(3) by (auto simp: es)
qed

text \<open>The difference of the first two bytes that differ, as the firmware's \<^verbatim>\<open>CompareMem\<close> gives it.\<close>

theorem binary_lookup_needs_sign_witness:
  "ntfs_ie_lookup (ntfs_get_collate_function memcmp_diff [] 0 COLLATION_BINARY) [3] 1 ex_bin_node = Err ERANGE \<and>
   ntfs_ie_lookup (ntfs_get_collate_function memcmp_diff [] 0 COLLATION_BINARY) [1] 1 ex_bin_node = Ok (STATUS_NOT_FOUND 64)"
proof -
  have r: "ih_rep ex_bin_node (take 16 ex_bin_node) [ex_bin 5, ex_bin 9] ex_end []"
    by code_simp
  have "\<forall>e \<in> set [ex_bin 5, ex_bin 9]. bin_entry [3] e" "\<forall>e \<in> set [ex_bin 5, ex_bin 9]. bin_entry [1] e"
    by code_simp+
  moreover have "bin_cmp memcmp_diff [3] (hd [ex_bin 5, ex_bin 9]) = -2" "\<forall>e \<in> set [ex_bin 5, ex_bin 9]. bin_cmp memcmp_diff [1] e < -2"
    "le16_at ex_end 12 AND INDEX_ENTRY_NODE = 0" "length (take 16 ex_bin_node @ concat [ex_bin 5, ex_bin 9]) = 64"
    by code_simp+
  ultimately show ?thesis
    using binary_lookup_needs_sign [OF r, of "[3]" memcmp_diff "[]" 0] binary_lookup_needs_sign [OF r, of "[1]" memcmp_diff "[]" 0] by simp
qed

end
