(* ===== verification/Run.thy ===== *)
theory Run
  imports Ntfs_Prelude "HOL-Library.Monad_Syntax"
begin

text \<open>
  Computations that may also run forever. A \<open>run\<close> is \<open>None\<close> when the C code does not return, and
  otherwise the outcome it returns with. The loops over linked structures, which a corrupt chain
  makes endless, are partial functions into this type.
\<close>

type_synonym 'a run = "'a outcome option"

definition rbind :: "'a run \<Rightarrow> ('a \<Rightarrow> 'b run) \<Rightarrow> 'b run" where
  "rbind m f = Option.bind m (\<lambda>r. case r of Ok x \<Rightarrow> f x | Err e \<Rightarrow> Some (Err e) | Fault \<Rightarrow> Some Fault)"

abbreviation ret :: "'a \<Rightarrow> 'a run" where
  "ret x \<equiv> Some (Ok x)"

lemma rbind_simps [simp]:
  "rbind (Some (Ok x)) f = f x"
  "rbind (Some (Err e)) f = Some (Err e)"
  "rbind (Some Fault) f = Some Fault"
  "rbind None f = None"
  by (simp_all add: rbind_def)

lemma rbind_assoc: "rbind (rbind m f) g = rbind m (\<lambda>x. rbind (f x) g)"
  by (cases m) (auto simp: rbind_def split: outcome.splits)

lemma rbind_ret_iff: "rbind m f = ret y \<longleftrightarrow> (\<exists>x. m = ret x \<and> f x = ret y)"
  by (cases m) (auto simp: rbind_def split: outcome.splits)

lemma rbind_mono [partial_function_mono]:
  assumes B: "mono_option B" and C: "\<And>y. mono_option (\<lambda>f. C y f)"
  shows "mono_option (\<lambda>f. rbind (B f) (\<lambda>y. C y f))"
  unfolding rbind_def
proof (rule bind_mono [OF B])
  fix r :: "'c outcome"
  show "mono_option (\<lambda>f. case r of Ok x \<Rightarrow> C x f | Err e \<Rightarrow> Some (Err e) | Fault \<Rightarrow> Some Fault)"
    by (cases r) (simp_all add: C option.const_mono)
qed

lemma rbind_cong [fundef_cong]:
  "m = m' \<Longrightarrow> (\<And>x. m' = ret x \<Longrightarrow> f x = f' x) \<Longrightarrow> rbind m f = rbind m' f'"
  by (auto simp: rbind_def intro!: Option.bind_cong split: outcome.splits)

end
