(* ===== verification/Cache.thy ===== *)
theory Cache
  imports Run Le_Bytes
begin

text \<open>
  The LRU caches of \<^verbatim>\<open>cache.c\<close>: entries on a doubly linked list from the most recent to the oldest
  one, unused entries on a free list, and a hash table whose links come from a second free list.
  All of it lives in one block of memory, so a pointer to an entry or to a link is its index there
  and \<open>None\<close> is the null pointer; every dereference is checked. The cached data, which the code
  keeps behind the two links of an entry, is the record \<open>item\<close>.
\<close>

section \<open>Data\<close>

record item =
  variable :: "u8 list option"
  varsize :: nat
  payload :: "u8 list"

record cached_generic =
  cnext :: "nat option"
  cprevious :: "nat option"
  cdata :: item

record hash_entry =
  hnext :: "nat option"
  hentry :: nat

type_synonym cache_compare = "item \<Rightarrow> item \<Rightarrow> bool outcome"
type_synonym cache_hash = "item \<Rightarrow> int outcome"

text \<open>\<open>dofree\<close> tells whether the cache has a function to be called when an entry is dropped, and
  \<open>freed\<close> lists the items it was called on.\<close>

record cache_header =
  most_recent_entry :: "nat option"
  oldest_entry :: "nat option"
  free_entry :: "nat option"
  free_hash :: "nat option"
  first_hash :: "nat option list"
  dofree :: bool
  dohash :: "cache_hash option"
  reads :: u64
  writes :: u64
  hits :: u64
  fixed_size :: int
  max_hash :: int
  centries :: "cached_generic list"
  hentries :: "hash_entry list"
  freed :: "item list"

definition ent :: "cache_header \<Rightarrow> nat option \<Rightarrow> cached_generic outcome" where
  "ent c p = (case p of None \<Rightarrow> Fault | Some i \<Rightarrow> aget (centries c) (int i))"

definition lnk :: "hash_entry list \<Rightarrow> nat option \<Rightarrow> hash_entry outcome" where
  "lnk hs p = (case p of None \<Rightarrow> Fault | Some i \<Rightarrow> aget hs (int i))"

definition upd_ent :: "cache_header \<Rightarrow> nat option \<Rightarrow> (cached_generic \<Rightarrow> cached_generic) \<Rightarrow> cache_header outcome" where
  "upd_ent c p f =
     (case p of None \<Rightarrow> Fault
      | Some i \<Rightarrow> obind (aget (centries c) (int i)) (\<lambda>e. Ok (c\<lparr>centries := (centries c)[i := f e]\<rparr>)))"

definition upd_link :: "cache_header \<Rightarrow> nat option \<Rightarrow> (hash_entry \<Rightarrow> hash_entry) \<Rightarrow> cache_header outcome" where
  "upd_link c p f =
     (case p of None \<Rightarrow> Fault
      | Some i \<Rightarrow> obind (aget (hentries c) (int i)) (\<lambda>e. Ok (c\<lparr>hentries := (hentries c)[i := f e]\<rparr>)))"

section \<open>The hash table\<close>

definition inserthashindex :: "cache_header \<Rightarrow> nat \<Rightarrow> cache_header outcome" where
  "inserthashindex c current =
     (case dohash c of None \<Rightarrow> Ok c
      | Some hash \<Rightarrow>
     obind (ent c (Some current)) (\<lambda>e.
     obind (hash (cdata e)) (\<lambda>h.
     if 0 \<le> h \<and> h < max_hash c
     then case free_hash c of
            None \<Rightarrow> Ok (c\<lparr>dohash := None\<rparr>)
          | Some link \<Rightarrow>
              obind (aget (hentries c) (int link)) (\<lambda>l.
              obind (aget (first_hash c) h) (\<lambda>first.
              obind (upd_link (c\<lparr>free_hash := hnext l\<rparr>) (Some link) (\<lambda>l. l\<lparr>hnext := first, hentry := current\<rparr>)) (\<lambda>c.
              obind (aset (first_hash c) h (Some link)) (\<lambda>fh. Ok (c\<lparr>first_hash := fh\<rparr>)))))
     else Ok (c\<lparr>dohash := None\<rparr>))))"

text \<open>\<^verbatim>\<open>while (link && (link->entry != current))\<close>: the previous link and the link it stops at.\<close>

partial_function (option) drop_find ::
  "hash_entry list \<Rightarrow> nat \<Rightarrow> nat option \<Rightarrow> nat option \<Rightarrow> (nat option \<times> nat option) run" where
  "drop_find hs current previous link =
     (if link = None then ret (previous, None)
      else rbind (Some (lnk hs link)) (\<lambda>l.
           if hentry l \<noteq> current then drop_find hs current link (hnext l) else ret (previous, link)))"

definition drophashindex :: "cache_header \<Rightarrow> nat \<Rightarrow> int \<Rightarrow> cache_header run" where
  "drophashindex c current hash =
     (case dohash c of None \<Rightarrow> ret c
      | Some _ \<Rightarrow>
     if 0 \<le> hash \<and> hash < max_hash c
     then rbind (Some (aget (first_hash c) hash)) (\<lambda>first.
          rbind (drop_find (hentries c) current None first) (\<lambda>(previous, link).
          case link of
            None \<Rightarrow> ret (c\<lparr>dohash := None\<rparr>)
          | Some i \<Rightarrow> Some (
              obind (aget (hentries c) (int i)) (\<lambda>l.
              obind (case previous of
                       None \<Rightarrow> obind (aset (first_hash c) hash (hnext l)) (\<lambda>fh. Ok (c\<lparr>first_hash := fh\<rparr>))
                     | Some _ \<Rightarrow> upd_link c previous (\<lambda>p. p\<lparr>hnext := hnext l\<rparr>)) (\<lambda>c.
              obind (upd_link c link (\<lambda>l. l\<lparr>hnext := free_hash c\<rparr>)) (\<lambda>c.
              Ok (c\<lparr>free_hash := link\<rparr>)))))))
     else ret (c\<lparr>dohash := None\<rparr>))"

text \<open>Dropping the hash index of an entry by the hash value of its item.\<close>

definition drop_index :: "cache_header \<Rightarrow> nat \<Rightarrow> cache_header run" where
  "drop_index c current =
     (case dohash c of None \<Rightarrow> ret c
      | Some hash \<Rightarrow> rbind (Some (obind (ent c (Some current)) (\<lambda>e. hash (cdata e)))) (drophashindex c current))"

section \<open>Searching\<close>

text \<open>\<^verbatim>\<open>compare(entry, wanted)\<close>: whether the entry is not the one wanted.\<close>

definition differs :: "cache_compare \<Rightarrow> cache_header \<Rightarrow> item \<Rightarrow> nat option \<Rightarrow> bool outcome" where
  "differs compare c wanted p = obind (ent c p) (\<lambda>e. compare (cdata e) wanted)"

text \<open>\<^verbatim>\<open>while (link && compare(link->entry, wanted))\<close>\<close>

partial_function (option) hash_find :: "cache_compare \<Rightarrow> cache_header \<Rightarrow> item \<Rightarrow> nat option \<Rightarrow> nat option run" where
  "hash_find compare c wanted link =
     (if link = None then ret None
      else rbind (Some (lnk (hentries c) link)) (\<lambda>l.
           rbind (Some (differs compare c wanted (Some (hentry l)))) (\<lambda>d.
           if d then hash_find compare c wanted (hnext l) else ret (Some (hentry l)))))"

text \<open>\<^verbatim>\<open>while (current && compare(current, wanted))\<close>\<close>

partial_function (option) lru_find :: "cache_compare \<Rightarrow> cache_header \<Rightarrow> item \<Rightarrow> nat option \<Rightarrow> nat option run" where
  "lru_find compare c wanted current =
     (if current = None then ret None
      else rbind (Some (differs compare c wanted current)) (\<lambda>d.
           rbind (Some (ent c current)) (\<lambda>e.
           if d then lru_find compare c wanted (cnext e) else ret current)))"

definition cache_find :: "cache_compare \<Rightarrow> cache_header \<Rightarrow> item \<Rightarrow> nat option run" where
  "cache_find compare c wanted =
     (case dohash c of
        Some hash \<Rightarrow>
          rbind (Some (hash wanted)) (\<lambda>h.
          rbind (Some (aget (first_hash c) h)) (\<lambda>link. hash_find compare c wanted link))
      | None \<Rightarrow> lru_find compare c wanted (most_recent_entry c))"

section \<open>Operations\<close>

text \<open>Moving a found entry to the head of the list.\<close>

definition relink_head :: "cache_header \<Rightarrow> nat \<Rightarrow> cache_header outcome" where
  "relink_head c current =
     obind (ent c (Some current)) (\<lambda>e.
     case cprevious e of
       None \<Rightarrow> Ok (c\<lparr>hits := hits c + 1\<rparr>)
     | Some previous \<Rightarrow>
         obind (upd_ent (c\<lparr>hits := hits c + 1\<rparr>) (Some previous) (\<lambda>p. p\<lparr>cnext := cnext e\<rparr>)) (\<lambda>c.
         obind (ent c (Some current)) (\<lambda>e.
         obind (case cnext e of
                  Some n \<Rightarrow> upd_ent c (Some n) (\<lambda>x. x\<lparr>cprevious := cprevious e\<rparr>)
                | None \<Rightarrow> Ok (c\<lparr>oldest_entry := cprevious e\<rparr>)) (\<lambda>c.
         obind (upd_ent c (Some current) (\<lambda>x. x\<lparr>cnext := most_recent_entry c, cprevious := None\<rparr>)) (\<lambda>c.
         obind (upd_ent c (most_recent_entry c) (\<lambda>x. x\<lparr>cprevious := Some current\<rparr>)) (\<lambda>c.
         Ok (c\<lparr>most_recent_entry := Some current\<rparr>)))))))"

text \<open>The result is the state of the cache and the entry found; \<open>None\<close> for the cache is a cache that
  could not be created.\<close>

definition ntfs_fetch_cache ::
  "cache_header option \<Rightarrow> item \<Rightarrow> cache_compare \<Rightarrow> (cache_header option \<times> nat option) run" where
  "ntfs_fetch_cache cache wanted compare =
     (case cache of None \<Rightarrow> ret (None, None)
      | Some c \<Rightarrow>
          rbind (cache_find compare c wanted) (\<lambda>current.
          rbind (Some (case current of None \<Rightarrow> Ok c | Some i \<Rightarrow> relink_head c i)) (\<lambda>c.
          ret (Some (c\<lparr>reads := reads c + 1\<rparr>), current))))"

text \<open>\<^verbatim>\<open>realloc\<close> on a variable part, \<^verbatim>\<open>ntfs_malloc\<close> with the empty list; \<open>None\<close> on failure.\<close>

definition new_variable :: "u8 heap \<Rightarrow> u8 list \<Rightarrow> nat \<Rightarrow> u8 list option" where
  "new_variable H old n =
     (if alloc_ok H (int n) then Some (take n old @ replicate (n - length old) (alloc_junk H)) else None)"

definition set_variable :: "u8 list option \<Rightarrow> nat \<Rightarrow> cached_generic \<Rightarrow> cached_generic" where
  "set_variable v n e = e\<lparr>cdata := (cdata e)\<lparr>variable := v, varsize := n\<rparr>\<rparr>"

text \<open>Taking an entry from the free list.\<close>

definition take_free :: "u8 heap \<Rightarrow> cache_header \<Rightarrow> nat \<Rightarrow> item \<Rightarrow> cache_header outcome" where
  "take_free H c current it =
     obind (ent c (Some current)) (\<lambda>e.
     obind (upd_ent (c\<lparr>free_entry := cnext e\<rparr>) (Some current)
              (set_variable (if varsize it \<noteq> 0 then new_variable H [] (varsize it) else None) (varsize it))) (\<lambda>c.
     Ok (if oldest_entry c = None then c\<lparr>oldest_entry := Some current\<rparr> else c)))"

text \<open>Reusing the oldest entry.\<close>

definition reuse_oldest :: "u8 heap \<Rightarrow> cache_header \<Rightarrow> item \<Rightarrow> (cache_header \<times> nat) run" where
  "reuse_oldest H c it =
     rbind (Some (ent c (oldest_entry c))) (\<lambda>e.
     rbind (Some (upd_ent c (cprevious e) (\<lambda>b. b\<lparr>cnext := None\<rparr>))) (\<lambda>c.
     case oldest_entry c of None \<Rightarrow> Some Fault
     | Some current \<Rightarrow>
     rbind (drop_index c current) (\<lambda>c.
     rbind (Some (ent c (Some current))) (\<lambda>e.
     let c = (if dofree c then c\<lparr>freed := freed c @ [cdata e]\<rparr> else c)\<lparr>oldest_entry := cprevious e\<rparr>;
         old = (if varsize (cdata e) \<noteq> 0 then (case variable (cdata e) of None \<Rightarrow> [] | Some v \<Rightarrow> v) else []) in
     rbind (Some (upd_ent c (Some current)
              (set_variable (if varsize it \<noteq> 0 then new_variable H old (varsize it) else None) (varsize it)))) (\<lambda>c.
     ret (c, current))))))"

text \<open>Linking the entry at the head and copying the item into it. When the variable part could not be
  allocated, the entry goes back to the free list.\<close>

definition enter_head :: "cache_header \<Rightarrow> nat \<Rightarrow> item \<Rightarrow> (cache_header \<times> nat option) outcome" where
  "enter_head c current it =
     obind (upd_ent c (Some current) (\<lambda>e. e\<lparr>cnext := most_recent_entry c, cprevious := None\<rparr>)) (\<lambda>c.
     obind (case most_recent_entry c of None \<Rightarrow> Ok c
            | Some m \<Rightarrow> upd_ent c (Some m) (\<lambda>e. e\<lparr>cprevious := Some current\<rparr>)) (\<lambda>c.
     let c = c\<lparr>most_recent_entry := Some current\<rparr> in
     obind (ent c (Some current)) (\<lambda>e.
     obind (acopy (payload (cdata e)) 0 (payload it) 0 (fixed_size c)) (\<lambda>pl.
     obind (upd_ent c (Some current) (\<lambda>e. e\<lparr>cdata := (cdata e)\<lparr>payload := pl\<rparr>\<rparr>)) (\<lambda>c.
     if varsize it \<noteq> 0
     then case variable (cdata e) of
            Some v \<Rightarrow>
              (case variable it of None \<Rightarrow> Fault
               | Some w \<Rightarrow>
                   obind (acopy v 0 w 0 (int (varsize it))) (\<lambda>v.
                   obind (upd_ent c (Some current) (\<lambda>e. e\<lparr>cdata := (cdata e)\<lparr>variable := Some v\<rparr>\<rparr>)) (\<lambda>c.
                   Ok (c, Some current))))
          | None \<Rightarrow>
              obind (ent c (Some current)) (\<lambda>e.
              obind (upd_ent (c\<lparr>most_recent_entry := cnext e\<rparr>) (Some current) (\<lambda>e. e\<lparr>cnext := free_entry c\<rparr>)) (\<lambda>c.
              Ok (c\<lparr>free_entry := Some current\<rparr>, None)))
     else obind (upd_ent c (Some current) (set_variable None 0)) (\<lambda>c. Ok (c, Some current)))))))"

definition ntfs_enter_cache ::
  "u8 heap \<Rightarrow> cache_header option \<Rightarrow> item \<Rightarrow> cache_compare \<Rightarrow> (cache_header option \<times> nat option) run" where
  "ntfs_enter_cache H cache it compare =
     (case cache of None \<Rightarrow> ret (None, None)
      | Some c \<Rightarrow>
          rbind (cache_find compare c it) (\<lambda>current.
          rbind (case current of
                   Some i \<Rightarrow> ret (c, current)
                 | None \<Rightarrow>
                     rbind (case free_entry c of
                              Some f \<Rightarrow> Some (obind (take_free H c f it) (\<lambda>c. Ok (c, f)))
                            | None \<Rightarrow> reuse_oldest H c it) (\<lambda>(c, i).
                     Some (obind (enter_head c i it) (\<lambda>(c, current).
                     case current of None \<Rightarrow> Ok (c, None)
                     | Some i \<Rightarrow> obind (inserthashindex c i) (\<lambda>c. Ok (c, Some i)))))) (\<lambda>(c, current).
          ret (Some (c\<lparr>writes := writes c + 1\<rparr>), current))))"

text \<open>The flags of an invalidation are \<^verbatim>\<open>CACHE_FREE\<close> and \<^verbatim>\<open>CACHE_NOHASH\<close>.\<close>

definition CACHE_FREE :: nat where "CACHE_FREE = 1"
definition CACHE_NOHASH :: nat where "CACHE_NOHASH = 2"

text \<open>The code frees the variable part of the entry and resets its size, but not the pointer to it; the model keeps
  the bytes with the entry. The entry is then on the free list, where nothing reads the pointer: an entry taken
  from there gets a new variable part before it is compared or hashed.\<close>

definition do_invalidate :: "cache_header \<Rightarrow> nat \<Rightarrow> nat \<Rightarrow> cache_header outcome" where
  "do_invalidate c current flags =
     obind (ent c (Some current)) (\<lambda>e.
     let previous = cprevious e;
         c = (if flags AND CACHE_FREE \<noteq> 0 \<and> dofree c then c\<lparr>freed := freed c @ [cdata e]\<rparr> else c) in
     obind (case cnext e of
              Some n \<Rightarrow> upd_ent c (Some n) (\<lambda>x. x\<lparr>cprevious := previous\<rparr>)
            | None \<Rightarrow> Ok (c\<lparr>oldest_entry := previous\<rparr>)) (\<lambda>c.
     obind (ent c (Some current)) (\<lambda>e.
     obind (case previous of
              Some p \<Rightarrow> upd_ent c (Some p) (\<lambda>x. x\<lparr>cnext := cnext e\<rparr>)
            | None \<Rightarrow> Ok (c\<lparr>most_recent_entry := cnext e\<rparr>)) (\<lambda>c.
     obind (upd_ent c (Some current) (\<lambda>x. x\<lparr>cnext := free_entry c, cdata := (cdata x)\<lparr>varsize := 0\<rparr>\<rparr>)) (\<lambda>c.
     Ok (c\<lparr>free_entry := Some current\<rparr>))))))"

partial_function (option) inv_hash_loop ::
  "cache_compare \<Rightarrow> nat \<Rightarrow> int \<Rightarrow> cache_header \<Rightarrow> item \<Rightarrow> nat option \<Rightarrow> nat \<Rightarrow> (cache_header \<times> nat) run" where
  "inv_hash_loop compare flags h c it link count =
     (if link = None then ret (c, count)
      else rbind (Some (lnk (hentries c) link)) (\<lambda>l.
           rbind (Some (differs compare c it (Some (hentry l)))) (\<lambda>d.
           if d then inv_hash_loop compare flags h c it (hnext l) count
           else rbind (drophashindex c (hentry l) h) (\<lambda>c.
                rbind (Some (do_invalidate c (hentry l) flags)) (\<lambda>c.
                inv_hash_loop compare flags h c it (hnext l) (count + 1))))))"

partial_function (option) inv_lru_loop ::
  "cache_compare \<Rightarrow> nat \<Rightarrow> cache_header \<Rightarrow> item \<Rightarrow> nat option \<Rightarrow> nat \<Rightarrow> (cache_header \<times> nat) run" where
  "inv_lru_loop compare flags c it current count =
     (if current = None then ret (c, count)
      else rbind (Some (differs compare c it current)) (\<lambda>d.
           rbind (Some (ent c current)) (\<lambda>e.
           if d then inv_lru_loop compare flags c it (cnext e) count
           else rbind (drop_index c (the current)) (\<lambda>c.
                rbind (Some (do_invalidate c (the current) flags)) (\<lambda>c.
                inv_lru_loop compare flags c it (cnext e) (count + 1))))))"

definition ntfs_invalidate_cache ::
  "cache_header option \<Rightarrow> item \<Rightarrow> cache_compare \<Rightarrow> nat \<Rightarrow> (cache_header option \<times> nat) run" where
  "ntfs_invalidate_cache cache it compare flags =
     (case cache of None \<Rightarrow> ret (None, 0)
      | Some c \<Rightarrow>
          rbind (case dohash c of
                   Some hash \<Rightarrow>
                     if flags AND CACHE_NOHASH = 0
                     then rbind (Some (hash it)) (\<lambda>h.
                          rbind (Some (aget (first_hash c) h)) (\<lambda>link.
                          inv_hash_loop compare flags h c it link 0))
                     else ret (c, 0)
                 | None \<Rightarrow> ret (c, 0)) (\<lambda>(c, count).
          rbind (if flags AND CACHE_NOHASH \<noteq> 0 \<or> dohash c = None
                 then inv_lru_loop compare flags c it (most_recent_entry c) count
                 else ret (c, count)) (\<lambda>(c, count).
          ret (Some c, count))))"

definition ntfs_remove_cache :: "cache_header option \<Rightarrow> nat \<Rightarrow> nat \<Rightarrow> (cache_header option \<times> nat) run" where
  "ntfs_remove_cache cache current flags =
     (case cache of None \<Rightarrow> ret (None, 0)
      | Some c \<Rightarrow>
          rbind (drop_index c current) (\<lambda>c.
          rbind (Some (do_invalidate c current flags)) (\<lambda>c. ret (Some c, 1))))"

text \<open>Freeing a cache: the items its free function is called on.\<close>

partial_function (option) free_loop :: "cache_header \<Rightarrow> nat option \<Rightarrow> item list \<Rightarrow> item list run" where
  "free_loop c p fs =
     (if p = None then ret fs
      else rbind (Some (ent c p)) (\<lambda>e.
           free_loop c (cnext e) (if dofree c then fs @ [cdata e] else fs)))"

definition ntfs_free_cache :: "cache_header option \<Rightarrow> item list run" where
  "ntfs_free_cache cache =
     (case cache of None \<Rightarrow> ret [] | Some c \<Rightarrow> free_loop c (most_recent_entry c) (freed c))"

text \<open>Creating a cache. \<open>junk\<close> and \<open>hjunk\<close> are what the new memory holds. With \<^verbatim>\<open>item_count\<close> 0 the
  code writes to an entry behind the memory it has.\<close>

definition sizeof_cached_generic :: int where "sizeof_cached_generic = 32"
definition sizeof_hash_entry :: int where "sizeof_hash_entry = 16"
definition sizeof_cache_header :: int where "sizeof_cache_header = 96"

definition ntfs_create_cache ::
  "u8 heap \<Rightarrow> cached_generic \<Rightarrow> hash_entry \<Rightarrow> bool \<Rightarrow> cache_hash option \<Rightarrow> int \<Rightarrow> nat \<Rightarrow> nat \<Rightarrow> cache_header option outcome" where
  "ntfs_create_cache H junk hjunk dofree_fn dohash_fn full_item_size item_count maxh =
     (let bytes = sizeof_cache_header + int item_count * full_item_size
            + (if maxh \<noteq> 0 then int item_count * sizeof_hash_entry + int maxh * 8 else 0);
          chain = (\<lambda>i. if i + 1 < item_count then Some (i + 1) else None);
          fixed = full_item_size - sizeof_cached_generic in
      if \<not> alloc_ok H bytes then Ok None
      else if item_count = 0 then Fault
      else Ok (Some \<lparr>most_recent_entry = None, oldest_entry = None, free_entry = Some 0,
                     free_hash = (if maxh \<noteq> 0 then Some 0 else None), first_hash = replicate maxh None,
                     dofree = dofree_fn, dohash = (if maxh \<noteq> 0 then dohash_fn else None),
                     reads = 0, writes = 0, hits = 0, fixed_size = fixed,
                     max_hash = (if maxh \<noteq> 0 \<and> dohash_fn \<noteq> None then int maxh else 0),
                     centries = map (\<lambda>i. \<lparr>cnext = chain i, cprevious = cprevious junk,
                                          cdata = \<lparr>variable = None, varsize = 0,
                                                   payload = replicate (nat fixed) (hd (payload (cdata junk)))\<rparr>\<rparr>) [0..<item_count],
                     hentries = (if maxh \<noteq> 0 then map (\<lambda>i. hjunk\<lparr>hnext := chain i\<rparr>) [0..<item_count] else []),
                     freed = []\<rparr>))"

declare drop_find.simps [code] hash_find.simps [code] lru_find.simps [code] inv_hash_loop.simps [code]
  inv_lru_loop.simps [code] free_loop.simps [code]

end
