(* ===== verification/Cache_Links.thy ===== *)
theory Cache_Links
  imports Cache "HOL-Library.Multiset"
begin

text \<open>
  The linked structures of a cache as lists: the LRU list with its two links, the free list, and
  the relinking operations on them.
\<close>

section \<open>Segments\<close>

definition hd_or :: "'a list \<Rightarrow> 'a option \<Rightarrow> 'a option" where
  "hd_or xs q = (case xs of [] \<Rightarrow> q | x # _ \<Rightarrow> Some x)"

definition last_or :: "'a option \<Rightarrow> 'a list \<Rightarrow> 'a option" where
  "last_or p xs = (if xs = [] then p else Some (last xs))"

lemma hd_or_simps [simp]: "hd_or [] q = q" "hd_or (x # xs) q = Some x"
  by (simp_all add: hd_or_def)

lemma last_or_simps [simp]: "last_or p [] = p" "last_or p (x # xs) = last_or (Some x) xs" "last_or p (xs @ [y]) = Some y"
  by (simp_all add: last_or_def)

lemma hd_or_append [simp]: "hd_or (xs @ ys) q = hd_or xs (hd_or ys q)"
  by (cases xs) auto

lemma last_or_append [simp]: "last_or p (xs @ ys) = last_or (last_or p xs) ys"
  by (simp add: last_or_def)

lemma hd_or_ne [simp]: "xs \<noteq> [] \<Longrightarrow> hd_or xs q = Some (hd xs)"
  by (cases xs) auto

lemma last_or_ne [simp]: "xs \<noteq> [] \<Longrightarrow> last_or p xs = Some (last xs)"
  by (simp add: last_or_def)

lemma hd_or_last_or_eq: "hd_or xs None = None \<longleftrightarrow> xs = []" "last_or None xs = None \<longleftrightarrow> xs = []"
  by (cases xs; simp add: last_or_def)+

text \<open>A chain of single links, and a segment of the doubly linked list.\<close>

fun chain :: "(nat \<Rightarrow> nat option) \<Rightarrow> nat option \<Rightarrow> nat list \<Rightarrow> bool" where
  "chain nx p [] \<longleftrightarrow> p = None"
| "chain nx p (a # F) \<longleftrightarrow> p = Some a \<and> chain nx (nx a) F"

fun dseg :: "cached_generic list \<Rightarrow> nat option \<Rightarrow> nat list \<Rightarrow> nat option \<Rightarrow> bool" where
  "dseg es p [] q \<longleftrightarrow> True"
| "dseg es p (a # L) q \<longleftrightarrow>
     a < length es \<and> cprevious (es ! a) = p \<and> cnext (es ! a) = hd_or L q \<and> dseg es (Some a) L q"

lemma chain_cong: "(\<And>a. a \<in> set F \<Longrightarrow> nx' a = nx a) \<Longrightarrow> chain nx' p F = chain nx p F"
  by (induction F arbitrary: p) auto

lemma chain_append: "chain nx p (A @ B) \<Longrightarrow> B \<noteq> [] \<Longrightarrow> chain nx (Some (hd B)) B"
  by (induction A arbitrary: p) (auto simp: neq_Nil_conv)

lemma chain_hd: "chain nx p F \<Longrightarrow> p = hd_or F None"
  by (cases F) auto

lemma dseg_append:
  "dseg es p (A @ B) q \<longleftrightarrow> dseg es p A (hd_or B q) \<and> dseg es (last_or p A) B q"
  by (induction A arbitrary: p) auto

lemma dseg_cong:
  "length es' = length es \<Longrightarrow>
   (\<And>a. a \<in> set L \<Longrightarrow> cnext (es' ! a) = cnext (es ! a) \<and> cprevious (es' ! a) = cprevious (es ! a)) \<Longrightarrow>
   dseg es' p L q = dseg es p L q"
  by (induction L arbitrary: p) auto

lemma dseg_chain: "dseg es p L None \<Longrightarrow> chain (\<lambda>i. cnext (es ! i)) (hd_or L None) L"
proof (induction L arbitrary: p)
  case (Cons a L)
  then show ?case
    by (cases L) auto
qed simp

lemma dseg_bound: "dseg es p L q \<Longrightarrow> i \<in> set L \<Longrightarrow> i < length es"
  by (induction L arbitrary: p) auto

text \<open>Changing the links at the ends of a segment.\<close>

lemma dseg_relink:
  assumes "dseg es p L q" "distinct L" "length es' = length es"
    and "\<And>b. b \<in> set L \<Longrightarrow> cprevious (es' ! b) = (if b = hd L then p' else cprevious (es ! b))"
    and "\<And>b. b \<in> set L \<Longrightarrow> cnext (es' ! b) = (if b = last L then q' else cnext (es ! b))"
  shows "dseg es' p' L q'"
  using assms
proof (induction L arbitrary: p p')
  case (Cons a L)
  have tail: "dseg es' (Some a) L q'"
  proof (rule Cons.IH [of "Some a"])
    show "cprevious (es' ! b) = (if b = hd L then Some a else cprevious (es ! b))" if "b \<in> set L" for b
      using Cons.prems that by (cases L) auto
    show "cnext (es' ! b) = (if b = last L then q' else cnext (es ! b))" if "b \<in> set L" for b
      using Cons.prems that by (auto split: if_splits)
  qed (use Cons.prems in auto)
  show ?case
    using Cons.prems tail by (cases L) auto
qed simp

lemma dseg_hd: "dseg es p L q \<Longrightarrow> hd L \<in> set L \<Longrightarrow> cprevious (es ! hd L) = p"
  by (cases L) auto

lemma dseg_next_last: "dseg es p L q \<Longrightarrow> last L \<in> set L \<Longrightarrow> cnext (es ! last L) = q"
  by (induction L arbitrary: p) (auto split: if_splits)

section \<open>The lists of a cache\<close>

text \<open>\<open>links_ok c L F\<close>: \<open>L\<close> are the entries in use from the most recent to the oldest, \<open>F\<close> the
  unused ones.\<close>

definition links_ok :: "cache_header \<Rightarrow> nat list \<Rightarrow> nat list \<Rightarrow> bool" where
  "links_ok c L F \<longleftrightarrow>
     dseg (centries c) None L None \<and> most_recent_entry c = hd_or L None \<and> oldest_entry c = last_or None L \<and>
     chain (\<lambda>i. cnext (centries c ! i)) (free_entry c) F \<and>
     distinct (L @ F) \<and> set (L @ F) = {..<length (centries c)}"

definition dat :: "cache_header \<Rightarrow> nat \<Rightarrow> item" where
  "dat c i = cdata (centries c ! i)"

lemma ent_ok: "i < length (centries c) \<Longrightarrow> ent c (Some i) = Ok (centries c ! i)"
  by (simp add: ent_def aget_nat)

lemma upd_ent_ok:
  "i < length (centries c) \<Longrightarrow> upd_ent c (Some i) f = Ok (c\<lparr>centries := (centries c)[i := f (centries c ! i)]\<rparr>)"
  by (simp add: upd_ent_def aget_nat)

lemmas ent_simps = ent_ok upd_ent_ok nth_list_update

lemma links_bound:
  assumes "links_ok c L F" "i \<in> set L \<or> i \<in> set F"
  shows "i < length (centries c)"
proof -
  have "i \<in> set (L @ F)"
    using assms(2) by auto
  then show ?thesis
    using assms(1) unfolding links_ok_def by blast
qed

section \<open>Relinking\<close>

text \<open>The parts of a cache that the operations on the lists leave alone.\<close>

definition same_hash :: "cache_header \<Rightarrow> cache_header \<Rightarrow> bool" where
  "same_hash c d \<longleftrightarrow>
     free_hash d = free_hash c \<and> first_hash d = first_hash c \<and> dohash d = dohash c \<and> max_hash d = max_hash c \<and>
     hentries d = hentries c \<and> dofree d = dofree c \<and> fixed_size d = fixed_size c \<and>
     length (centries d) = length (centries c)"

lemma relink_head_ok:
  assumes "links_ok c (A @ i # B) F"
  shows "\<exists>d. relink_head c i = Ok d \<and> links_ok d (i # A @ B) F \<and> same_hash c d \<and> freed d = freed c \<and> dat d = dat c"
proof (cases A rule: rev_cases)
  case Nil
  have "relink_head c i = Ok (c\<lparr>hits := hits c + 1\<rparr>)"
    using assms Nil by (auto simp: links_ok_def relink_head_def ent_ok)
  then show ?thesis
    using assms Nil by (auto simp: links_ok_def same_hash_def dat_def fun_eq_iff)
next
  case (snoc A' a)
  define es where "es = centries c"
  have ok: "dseg es None (A @ i # B) None" "distinct (A @ i # B)" "most_recent_entry c = Some (hd A)"
    "set (A @ i # B) \<subseteq> {..<length es}"
    using assms snoc unfolding links_ok_def es_def by (auto simp: neq_Nil_conv hd_append)
  have aA: "a \<in> set A" "last A = a" "hd A \<in> set A"
    using snoc hd_in_set [of A] by auto
  have lt: "a < length es" "i < length es" "hd A < length es" "B \<noteq> [] \<Longrightarrow> hd B < length es"
    using ok(4) aA by (auto simp: neq_Nil_conv)
  have i: "cprevious (es ! i) = Some a" "cnext (es ! i) = hd_or B None"
    using ok(1) snoc by (auto simp: dseg_append)
  have ia: "i \<noteq> a" "hd A \<noteq> i" "i \<notin> set A" "i \<notin> set B" "a \<notin> set B" "hd A \<notin> set B"
    using ok(2) aA by auto
  note ev = relink_head_def ent_def upd_ent_def aget_nat nth_list_update es_def [symmetric]
  define d where "d = (case relink_head c i of Ok d \<Rightarrow> d | _ \<Rightarrow> c)"
  have run: "relink_head c i = Ok d" "length (centries d) = length es"
    using i lt ia ok(3) by (cases B; simp add: ev d_def)+
  have nx: "cnext (centries d ! j) = (if j = i then Some (hd A) else if j = a then hd_or B None else cnext (es ! j))" for j
    using i lt ia ok(3) by (cases B) (auto simp: ev d_def)
  have pv: "cprevious (centries d ! j) =
      (if j = hd A then Some i else if j = i then None else if B \<noteq> [] \<and> j = hd B then Some a else cprevious (es ! j))" for j
    using i lt ia ok(3) by (cases B) (auto simp: ev d_def)
  have rest: "dat d = dat c" "same_hash c d" "freed d = freed c" "free_entry d = free_entry c"
    "most_recent_entry d = Some i" "oldest_entry d = (if B = [] then Some a else oldest_entry c)"
    using i lt ia ok(3) by (cases B; auto simp: ev d_def dat_def same_hash_def fun_eq_iff)+
  have segA: "dseg (centries d) (Some i) A (hd_or B None)"
    by (rule dseg_relink [of es None A "Some i"]) (use ok(1,2) ia aA run(2) in \<open>auto simp: dseg_append nx pv\<close>)
  have segB: "dseg (centries d) (Some a) B None"
    by (rule dseg_relink [of es "Some i" B None])
      (use ok(1,2) ia aA run(2) in \<open>auto simp: dseg_append nx pv dest: dseg_next_last\<close>)
  have "links_ok d (i # A @ B) F"
    unfolding links_ok_def
  proof (intro conjI)
    show "dseg (centries d) None (i # A @ B) None"
      using segA segB lt ia aA snoc run(2) by (auto simp: dseg_append nx pv hd_append)
    show "chain (\<lambda>j. cnext (centries d ! j)) (free_entry d) F"
      using assms aA rest(4) unfolding links_ok_def es_def [symmetric]
      by (subst chain_cong [of F _ "\<lambda>j. cnext (es ! j)"]) (auto simp: nx)
    show "oldest_entry d = last_or None (i # A @ B)"
      using assms aA rest(6) unfolding links_ok_def by (auto simp: last_or_def)
  qed (use assms rest run(2) in \<open>auto simp: links_ok_def es_def\<close>)
  then show ?thesis
    using run(1) rest by blast
qed

text \<open>\<open>do_invalidate\<close> moves an entry to the free list.\<close>

lemma do_invalidate_ok:
  assumes "links_ok c (A @ i # B) F"
  shows "\<exists>d. do_invalidate c i flags = Ok d \<and> links_ok d (A @ B) (i # F) \<and> same_hash c d \<and>
     freed d = freed c @ (if flags AND CACHE_FREE \<noteq> 0 \<and> dofree c then [dat c i] else []) \<and>
     (\<forall>j. j \<noteq> i \<longrightarrow> dat d j = dat c j) \<and> payload (dat d i) = payload (dat c i)"
proof -
  define es where "es = centries c"
  have ok: "dseg es None (A @ i # B) None" "distinct (A @ i # B)" "set (A @ i # B) \<subseteq> {..<length es}"
    "most_recent_entry c = hd_or A (Some i)"
    using assms unfolding links_ok_def es_def by auto
  have lt: "i < length es" "A \<noteq> [] \<Longrightarrow> last A < length es" "B \<noteq> [] \<Longrightarrow> hd B < length es"
    using ok(3) by (cases A rule: rev_cases; auto simp: neq_Nil_conv)+
  have i: "cprevious (es ! i) = last_or None A" "cnext (es ! i) = hd_or B None"
    using ok(1) by (auto simp: dseg_append)
  have ia: "i \<notin> set A" "i \<notin> set B" "A \<noteq> [] \<Longrightarrow> last A \<noteq> i" "B \<noteq> [] \<Longrightarrow> hd B \<noteq> i"
    "A \<noteq> [] \<Longrightarrow> last A \<notin> set B" "B \<noteq> [] \<Longrightarrow> hd B \<notin> set A"
    using ok(2) by (cases A rule: rev_cases; cases B; auto)+
  have lastF: "A \<noteq> [] \<Longrightarrow> last A \<notin> set F" "i \<notin> set F"
    using assms unfolding links_ok_def by (auto dest: last_in_set)
  note ev = do_invalidate_def ent_def upd_ent_def aget_nat nth_list_update Let_def es_def [symmetric]
  define d where "d = (case do_invalidate c i flags of Ok d \<Rightarrow> d | _ \<Rightarrow> c)"
  have run: "do_invalidate c i flags = Ok d" "length (centries d) = length es"
    using i lt ia by (cases A rule: rev_cases; cases B; simp add: ev d_def)+
  have nx: "cnext (centries d ! j) =
      (if j = i then free_entry c else if A \<noteq> [] \<and> j = last A then hd_or B None else cnext (es ! j))" for j
    using i lt ia by (cases A rule: rev_cases; cases B) (auto simp: ev d_def)
  have pv: "cprevious (centries d ! j) = (if B \<noteq> [] \<and> j = hd B then last_or None A else cprevious (es ! j))" for j
    using i lt ia by (cases A rule: rev_cases; cases B) (auto simp: ev d_def)
  have rest: "same_hash c d" "free_entry d = Some i" "j \<noteq> i \<Longrightarrow> dat d j = dat c j" "payload (dat d i) = payload (dat c i)"
    "most_recent_entry d = hd_or (A @ B) None" "oldest_entry d = (if B = [] then last_or None A else oldest_entry c)"
    "freed d = freed c @ (if flags AND CACHE_FREE \<noteq> 0 \<and> dofree c then [dat c i] else [])" for j
    using i lt ia ok(4) by (cases A rule: rev_cases; cases B; auto simp: ev d_def dat_def same_hash_def fun_eq_iff)+
  have segA: "dseg (centries d) None A (hd_or B None)"
    by (rule dseg_relink [of es None A "Some i"]) (use ok(1,2) ia run(2) in \<open>auto simp: dseg_append nx pv dest: dseg_hd\<close>)
  have segB: "dseg (centries d) (last_or None A) B None"
    by (rule dseg_relink [of es "Some i" B None])
      (use ok(1,2) ia run(2) in \<open>auto simp: dseg_append nx pv dest: dseg_next_last\<close>)
  have "links_ok d (A @ B) (i # F)"
    unfolding links_ok_def
  proof (intro conjI)
    show "dseg (centries d) None (A @ B) None"
      using segA segB by (simp add: dseg_append)
    have "chain (\<lambda>j. cnext (centries d ! j)) (free_entry c) F"
      using assms lastF unfolding links_ok_def es_def [symmetric]
      by (subst chain_cong [of F _ "\<lambda>j. cnext (es ! j)"]) (auto simp: nx)
    then show "chain (\<lambda>j. cnext (centries d ! j)) (free_entry d) (i # F)"
      by (simp add: rest(2) nx)
    show "oldest_entry d = last_or None (A @ B)"
      using assms rest(6) unfolding links_ok_def by (auto simp: last_or_def)
  qed (use assms rest run(2) in \<open>auto simp: links_ok_def es_def\<close>)
  then show ?thesis
    using run(1) rest by blast
qed

text \<open>\<open>detached c L i F\<close>: entry \<open>i\<close> is on none of the lists and about to become the head.\<close>

definition detached :: "cache_header \<Rightarrow> nat list \<Rightarrow> nat \<Rightarrow> nat list \<Rightarrow> bool" where
  "detached c L i F \<longleftrightarrow>
     dseg (centries c) None L None \<and> most_recent_entry c = hd_or L None \<and> oldest_entry c = last_or (Some i) L \<and>
     chain (\<lambda>i. cnext (centries c ! i)) (free_entry c) F \<and>
     distinct (i # L @ F) \<and> set (i # L @ F) = {..<length (centries c)}"

definition fresh_var :: "u8 heap \<Rightarrow> u8 list \<Rightarrow> nat \<Rightarrow> u8 list option" where
  "fresh_var H old n = (if n \<noteq> 0 then new_variable H old n else None)"

lemma fresh_var_length: "fresh_var H old n = Some v \<Longrightarrow> length v = n"
  by (auto simp: fresh_var_def new_variable_def split: if_splits)

lemma take_free_ok:
  assumes "links_ok c L (i # F)"
  shows "\<exists>d. take_free H c i it = Ok d \<and> detached d L i F \<and> same_hash c d \<and> freed d = freed c \<and>
     (\<forall>j. j \<noteq> i \<longrightarrow> dat d j = dat c j) \<and>
     dat d i = (dat c i)\<lparr>variable := fresh_var H [] (varsize it), varsize := varsize it\<rparr>"
proof -
  define es where "es = centries c"
  have lt: "i < length es"
    using links_bound [OF assms] unfolding es_def by simp
  note ev = take_free_def ent_def upd_ent_def aget_nat set_variable_def fresh_var_def es_def [symmetric]
  define d where "d = (case take_free H c i it of Ok d \<Rightarrow> d | _ \<Rightarrow> c)"
  have run: "take_free H c i it = Ok d" "length (centries d) = length es"
    using lt by (simp_all add: ev d_def)
  have nx: "cnext (centries d ! j) = cnext (es ! j)" "cprevious (centries d ! j) = cprevious (es ! j)" for j
    using lt by (simp_all add: ev d_def nth_list_update)
  have rest: "same_hash c d" "freed d = freed c" "free_entry d = cnext (es ! i)" "j \<noteq> i \<Longrightarrow> dat d j = dat c j"
    "dat d i = (dat c i)\<lparr>variable := fresh_var H [] (varsize it), varsize := varsize it\<rparr>"
    "most_recent_entry d = most_recent_entry c" "oldest_entry d = (if oldest_entry c = None then Some i else oldest_entry c)" for j
    using lt by (auto simp: ev d_def dat_def same_hash_def)
  have "detached d L i F"
    unfolding detached_def
  proof (intro conjI)
    show "dseg (centries d) None L None"
      using assms dseg_cong [of "centries d" es L None None] nx run(2) by (simp add: links_ok_def es_def)
    show "oldest_entry d = last_or (Some i) L"
      using assms rest(7) by (auto simp: links_ok_def last_or_def)
    show "chain (\<lambda>j. cnext (centries d ! j)) (free_entry d) F"
      using assms by (simp add: links_ok_def nx rest(3) es_def)
  qed (use assms rest run(2) in \<open>auto simp: links_ok_def es_def\<close>)
  then show ?thesis
    using run(1) rest by blast
qed

text \<open>Linking at the head and storing the item.\<close>

definition storable :: "int \<Rightarrow> item \<Rightarrow> bool" where
  "storable fixed it \<longleftrightarrow> int (length (payload it)) = fixed \<and>
     (if varsize it = 0 then variable it = None else \<exists>w. variable it = Some w \<and> length w = varsize it)"

lemma acopy_all: "length xs = length ys \<Longrightarrow> n = int (length ys) \<Longrightarrow> acopy xs 0 ys 0 n = Ok ys"
  by (simp add: acopy_def)

lemma enter_head_ok:
  assumes "detached c L i F" "storable (fixed_size c) it" "int (length (payload (dat c i))) = fixed_size c"
    and "variable (dat c i) = fresh_var H old (varsize it)" "varsize (dat c i) = varsize it"
    and "varsize it \<noteq> 0 \<Longrightarrow> alloc_ok H (int (varsize it))"
  shows "\<exists>d. enter_head c i it = Ok (d, Some i) \<and> links_ok d (i # L) F \<and> same_hash c d \<and> freed d = freed c \<and>
     (\<forall>j. j \<noteq> i \<longrightarrow> dat d j = dat c j) \<and> dat d i = it"
proof -
  define es where "es = centries c"
  have lt: "i < length es" "i \<notin> set L" "L \<noteq> [] \<Longrightarrow> hd L < length es" "L \<noteq> [] \<Longrightarrow> hd L \<noteq> i" "most_recent_entry c = hd_or L None"
    using assms(1) unfolding detached_def es_def by (cases L; auto)+
  have pay: "acopy (payload (cdata (es ! i))) 0 (payload it) 0 (fixed_size c) = Ok (payload it)"
    using assms(2,3) by (intro acopy_all) (auto simp: storable_def dat_def es_def)
  have "\<exists>v w. varsize it \<noteq> 0 \<longrightarrow> variable (cdata (es ! i)) = Some v \<and> variable it = Some w \<and>
      acopy v 0 w 0 (int (varsize it)) = Ok w"
  proof (cases "varsize it = 0")
    case False
    obtain w where w: "variable it = Some w" "length w = varsize it"
      using assms(2) False by (auto simp: storable_def)
    obtain v where v: "fresh_var H old (varsize it) = Some v"
      using assms(6) False by (simp add: fresh_var_def new_variable_def)
    have "acopy v 0 w 0 (int (varsize it)) = Ok w"
      using fresh_var_length [OF v] w(2) by (intro acopy_all) simp_all
    moreover have "variable (cdata (es ! i)) = Some v"
      using assms(4) v by (simp add: dat_def es_def)
    ultimately show ?thesis
      using w(1) by blast
  qed simp
  then obtain v w where var: "varsize it \<noteq> 0 \<Longrightarrow> variable (cdata (es ! i)) = Some v"
      "varsize it \<noteq> 0 \<Longrightarrow> variable it = Some w" "varsize it \<noteq> 0 \<Longrightarrow> acopy v 0 w 0 (int (varsize it)) = Ok w"
    by blast
  have none: "varsize it = 0 \<Longrightarrow> variable it = None"
    using assms(2) by (simp add: storable_def)
  note ev = enter_head_def ent_def upd_ent_def aget_nat nth_list_update set_variable_def Let_def es_def [symmetric]
  define d where "d = (case enter_head c i it of Ok (d, _) \<Rightarrow> d | _ \<Rightarrow> c)"
  have run: "enter_head c i it = Ok (d, Some i)" "length (centries d) = length es"
    using lt pay by (cases L; cases "varsize it = 0"; simp add: ev d_def var none)+
  have nx: "cnext (centries d ! j) = (if j = i then hd_or L None else cnext (es ! j))" for j
    using lt pay by (cases L; cases "varsize it = 0") (simp_all add: ev d_def var none)
  have pv: "cprevious (centries d ! j) =
      (if j = i then None else if L \<noteq> [] \<and> j = hd L then Some i else cprevious (es ! j))" for j
    using lt pay by (cases L; cases "varsize it = 0") (simp_all add: ev d_def var none)
  have rest: "same_hash c d" "freed d = freed c" "free_entry d = free_entry c" "j \<noteq> i \<Longrightarrow> dat d j = dat c j"
    "most_recent_entry d = Some i" "oldest_entry d = oldest_entry c" for j
    using lt pay by (cases L; cases "varsize it = 0"; simp add: ev d_def var none dat_def same_hash_def)+
  have new: "dat d i = it"
    using lt pay assms(5) by (cases L; cases "varsize it = 0") (simp_all add: ev d_def var none dat_def)
  have "links_ok d (i # L) F"
    unfolding links_ok_def
  proof (intro conjI)
    have L: "dseg es None L None" "distinct L"
      using assms(1) by (simp_all add: detached_def es_def)
    have "dseg (centries d) (Some i) L None"
    proof (rule dseg_relink [OF L run(2)])
      show "cprevious (centries d ! b) = (if b = hd L then Some i else cprevious (es ! b))" if "b \<in> set L" for b
        using that lt(2) by (auto simp: pv)
      show "cnext (centries d ! b) = (if b = last L then None else cnext (es ! b))" if "b \<in> set L" for b
        using that lt(2) dseg_next_last [OF L(1)] by (auto simp: nx)
    qed
    then show "dseg (centries d) None (i # L) None"
      using lt run(2) by (simp add: nx pv)
    show "chain (\<lambda>j. cnext (centries d ! j)) (free_entry d) F"
      using assms(1) rest(3) unfolding detached_def es_def [symmetric]
      by (subst chain_cong [of F _ "\<lambda>j. cnext (es ! j)"]) (auto simp: nx)
  qed (use assms(1) rest run(2) in \<open>auto simp: detached_def es_def\<close>)
  then show ?thesis
    using run(1) rest new by blast
qed

end
