(* ===== verification/Cache_Hash.thy ===== *)
theory Cache_Hash
  imports Cache_Links
begin

text \<open>
  The hash table of a cache as a list of buckets. \<open>hrep hs fh fr b M\<close>: the links \<open>hs\<close>, the heads \<open>fh\<close>
  of the chains and the head \<open>fr\<close> of the free links index the entries \<open>M\<close>, each in its bucket \<open>b\<close>.
\<close>

definition buckets :: "hash_entry list \<Rightarrow> nat option list \<Rightarrow> nat option \<Rightarrow> (nat \<Rightarrow> nat) \<Rightarrow> nat multiset \<Rightarrow> nat list list \<Rightarrow> nat list \<Rightarrow> bool" where
  "buckets hs fh fr b M CH FH \<longleftrightarrow>
     list_all2 (chain (\<lambda>x. hnext (hs ! x))) fh CH \<and> chain (\<lambda>x. hnext (hs ! x)) fr FH \<and>
     (\<forall>h<length CH. \<forall>x\<in>set (CH ! h). b (hentry (hs ! x)) = h) \<and>
     distinct (concat CH @ FH) \<and> set (concat CH @ FH) = {..<length hs} \<and>
     mset (map (\<lambda>x. hentry (hs ! x)) (concat CH)) = M"

definition hrep :: "hash_entry list \<Rightarrow> nat option list \<Rightarrow> nat option \<Rightarrow> (nat \<Rightarrow> nat) \<Rightarrow> nat multiset \<Rightarrow> bool" where
  "hrep hs fh fr b M \<longleftrightarrow> (\<exists>CH FH. buckets hs fh fr b M CH FH)"

lemma bucketsD:
  assumes "buckets hs fh fr b M CH FH"
  shows "list_all2 (chain (\<lambda>x. hnext (hs ! x))) fh CH" "chain (\<lambda>x. hnext (hs ! x)) fr FH"
    "\<And>h x. h < length CH \<Longrightarrow> x \<in> set (CH ! h) \<Longrightarrow> b (hentry (hs ! x)) = h"
    "distinct (concat CH)" "distinct FH" "set (concat CH) \<inter> set FH = {}"
    "set (concat CH) \<union> set FH = {..<length hs}"
    "mset (map (\<lambda>x. hentry (hs ! x)) (concat CH)) = M"
  using assms unfolding buckets_def by (simp_all only: distinct_append set_append)

lemma buckets_mem:
  assumes "buckets hs fh fr b M CH FH"
  shows "i \<in># M \<longleftrightarrow> i \<in> set (map (\<lambda>x. hentry (hs ! x)) (concat CH))"
  unfolding bucketsD(8) [OF assms, symmetric] by (simp only: set_mset_mset)

lemma list_all2_chain_cong:
  assumes "list_all2 (chain nx) fh CH" "\<And>x. x \<in> set (concat CH) \<Longrightarrow> nx' x = nx x"
  shows "list_all2 (chain nx') fh CH"
  using assms
proof (induction rule: list_all2_induct)
  case (Cons p fh K CH)
  have "chain nx' p K"
    using Cons by (subst chain_cong [of K nx' nx]) auto
  then show ?case
    using Cons by simp
qed simp

lemma in_concat_nth: "h < length CH \<Longrightarrow> x \<in> set (CH ! h) \<Longrightarrow> x \<in> set (concat CH)"
  using nth_mem [of h CH] by (simp only: set_concat) blast

lemma buckets_cong:
  assumes "buckets hs fh fr b M CH FH" "\<And>i. i \<in># M \<Longrightarrow> b' i = b i"
  shows "buckets hs fh fr b' M CH FH"
proof -
  have "b' (hentry (hs ! x)) = h" if "h < length CH" "x \<in> set (CH ! h)" for h x
  proof -
    have "x \<in> set (concat CH)"
      using that by (rule in_concat_nth)
    then have "hentry (hs ! x) \<in># M"
      unfolding buckets_mem [OF assms(1)] by simp
    then show ?thesis
      using assms(2) bucketsD(3) [OF assms(1) that] by simp
  qed
  then show ?thesis
    using assms(1) unfolding buckets_def by blast
qed

lemma hrep_cong: "hrep hs fh fr b M \<Longrightarrow> (\<And>i. i \<in># M \<Longrightarrow> b' i = b i) \<Longrightarrow> hrep hs fh fr b' M"
  unfolding hrep_def using buckets_cong by blast

lemma split_at: "h < length xs \<Longrightarrow> \<exists>X K Y. xs = X @ K # Y \<and> length X = h"
  by (metis id_take_nth_drop length_take less_or_eq_imp_le min_absorb2)

text \<open>The chain of one bucket.\<close>

lemma hrep_bucket:
  assumes "hrep hs fh fr b M" "h < length fh"
  shows "\<exists>K. chain (\<lambda>x. hnext (hs ! x)) (fh ! h) K \<and> set K \<subseteq> {..<length hs} \<and> distinct K \<and>
     mset (map (\<lambda>x. hentry (hs ! x)) K) \<subseteq># M \<and>
     set (map (\<lambda>x. hentry (hs ! x)) K) = {i. i \<in># M \<and> b i = h}"
proof -
  obtain CH FH where r: "buckets hs fh fr b M CH FH"
    using assms(1) unfolding hrep_def by blast
  have len: "length CH = length fh"
    using list_all2_lengthD [OF bucketsD(1) [OF r]] by simp
  have sub: "set (CH ! h) \<subseteq> set (concat CH)"
    using assms(2) len in_concat_nth [of h CH] by auto
  obtain X K Y where CH: "CH = X @ K # Y" "length X = h"
    using split_at [of h CH] assms(2) len by auto
  then have K: "CH ! h = K"
    by auto
  have "distinct K" "mset (map (\<lambda>x. hentry (hs ! x)) K) \<subseteq># M"
    using bucketsD(4) [OF r] unfolding bucketsD(8) [OF r, symmetric] CH by simp_all
  then have "distinct (CH ! h)" "mset (map (\<lambda>x. hentry (hs ! x)) (CH ! h)) \<subseteq># M"
    unfolding K by simp_all
  moreover have "chain (\<lambda>x. hnext (hs ! x)) (fh ! h) (CH ! h)"
    using list_all2_nthD [OF bucketsD(1) [OF r]] assms(2) by simp
  moreover have "set (CH ! h) \<subseteq> {..<length hs}"
    using bucketsD(7) [OF r] sub by blast
  moreover have "set (map (\<lambda>x. hentry (hs ! x)) (CH ! h)) = {i. i \<in># M \<and> b i = h}"
  proof (intro equalityI subsetI)
    fix i assume "i \<in> set (map (\<lambda>x. hentry (hs ! x)) (CH ! h))"
    then show "i \<in> {i. i \<in># M \<and> b i = h}"
      using sub assms(2) len bucketsD(3) [OF r] by (auto simp: buckets_mem [OF r])
  next
    fix i assume i: "i \<in> {i. i \<in># M \<and> b i = h}"
    then have "i \<in> set (map (\<lambda>x. hentry (hs ! x)) (concat CH))"
      by (simp add: buckets_mem [OF r])
    then obtain g x where "g < length CH" "x \<in> set (CH ! g)" "i = hentry (hs ! x)"
      by (auto simp: in_set_conv_nth [of _ CH])
    moreover from this have "g = h"
      using i bucketsD(3) [OF r] by auto
    ultimately show "i \<in> set (map (\<lambda>x. hentry (hs ! x)) (CH ! h))"
      by auto
  qed
  ultimately show ?thesis
    by blast
qed

section \<open>Insertion\<close>

lemma update_at: "length X = h \<Longrightarrow> (X @ K # Y)[h := Z] = X @ Z # Y"
  by auto

lemma nth_other:
  assumes "length X = h" "g \<noteq> h" "g < length (X @ Z # Y)"
  shows "(X @ Z # Y) ! g = (X @ K # Y) ! g" "(X @ Z # Y) ! g \<in> set X \<union> set Y"
proof -
  show "(X @ Z # Y) ! g = (X @ K # Y) ! g"
    using assms by (auto simp: nth_append nth_Cons')
  show "(X @ Z # Y) ! g \<in> set X \<union> set Y"
  proof (cases "g < h")
    case True
    then show ?thesis
      using assms by (simp add: nth_append)
  next
    case False
    then have "(X @ Z # Y) ! g = Y ! (g - h - 1)" "g - h - 1 < length Y"
      using assms by (auto simp: nth_append nth_Cons')
    then show ?thesis
      by simp
  qed
qed

lemma hrep_insert:
  assumes "hrep hs fh fr b M" "size M < length hs" "h < length fh" "b cur = h"
  shows "\<exists>link. fr = Some link \<and> link < length hs \<and>
     hrep (hs[link := (hs ! link)\<lparr>hnext := fh ! h, hentry := cur\<rparr>]) (fh[h := Some link]) (hnext (hs ! link)) b (add_mset cur M)"
proof -
  obtain CH FH where r: "buckets hs fh fr b M CH FH"
    using assms(1) unfolding hrep_def by blast
  have len: "length CH = length fh"
    using list_all2_lengthD [OF bucketsD(1) [OF r]] by simp
  have "size M = length (concat CH)"
    unfolding bucketsD(8) [OF r, symmetric] by simp
  moreover have "length (concat CH @ FH) = length hs"
  proof -
    have "distinct (concat CH @ FH)" "set (concat CH @ FH) = {..<length hs}"
      using r unfolding buckets_def by blast+
    from distinct_card [OF this(1)] this(2) show ?thesis
      by (simp only: card_lessThan)
  qed
  ultimately have "FH \<noteq> []"
    using assms(2) by auto
  then obtain link F where FH: "FH = link # F"
    by (cases FH) auto
  obtain X K Y where CH: "CH = X @ K # Y" "length X = h"
    using split_at [of h CH] assms(3) len by auto
  have K: "CH ! h = K"
    using CH by auto
  define hs' where "hs' = hs[link := (hs ! link)\<lparr>hnext := fh ! h, hentry := cur\<rparr>]"
  note D = bucketsD [OF r]
  have fr: "fr = Some link"
    using D(2) FH by simp
  have lt: "link < length hs" and new: "link \<notin> set (concat CH)" "link \<notin> set F"
    using D(5-7) unfolding FH by auto
  have old: "hs' ! x = hs ! x" if "x \<noteq> link" for x
    using that by (simp add: hs'_def)
  have at: "hs' ! link = (hs ! link)\<lparr>hnext := fh ! h, hentry := cur\<rparr>" "length hs' = length hs"
    using lt by (simp_all add: hs'_def)
  have "buckets hs' (fh[h := Some link]) (hnext (hs ! link)) b (add_mset cur M) (X @ (link # K) # Y) F"
    unfolding buckets_def
  proof (intro conjI)
    have "list_all2 (chain (\<lambda>x. hnext (hs' ! x))) fh CH"
      by (rule list_all2_chain_cong [OF D(1)]) (use new(1) old in metis)
    moreover from this have "chain (\<lambda>x. hnext (hs' ! x)) (fh ! h) K"
      using assms(3) K list_all2_nthD by blast
    ultimately show "list_all2 (chain (\<lambda>x. hnext (hs' ! x))) (fh[h := Some link]) (X @ (link # K) # Y)"
      using at list_all2_update_cong [of "chain (\<lambda>x. hnext (hs' ! x))" fh CH "Some link" "link # K" h]
      unfolding CH(1) update_at [OF CH(2)] by simp
    show "chain (\<lambda>x. hnext (hs' ! x)) (hnext (hs ! link)) F"
    proof -
      have "hs' ! a = hs ! a" if "a \<in> set F" for a
        using that new(2) old by metis
      then show ?thesis
        using D(2) unfolding FH by (subst chain_cong [of F _ "\<lambda>x. hnext (hs ! x)"]) auto
    qed
    show "\<forall>g<length (X @ (link # K) # Y). \<forall>x\<in>set ((X @ (link # K) # Y) ! g). b (hentry (hs' ! x)) = g"
    proof (intro allI impI ballI)
      fix g x assume g: "g < length (X @ (link # K) # Y)" "x \<in> set ((X @ (link # K) # Y) ! g)"
      show "b (hentry (hs' ! x)) = g"
      proof (cases "x = link")
        case True
        have "g = h"
        proof (rule ccontr)
          assume "g \<noteq> h"
          then have "x \<in> set (CH ! g)" "g < length CH"
            using g CH by (auto simp: nth_append nth_Cons' split: if_splits)
          then show False
            using new(1) True in_concat_nth [of g CH x] by simp
        qed
        then show ?thesis
          using True at assms(4) by simp
      next
        case False
        then have "x \<in> set (CH ! g)" "g < length CH"
          using g CH by (auto simp: nth_append nth_Cons' split: if_splits)
        then show ?thesis
          using D(3) False old by simp
      qed
    qed
    show "mset (map (\<lambda>x. hentry (hs' ! x)) (concat (X @ (link # K) # Y))) = add_mset cur M"
    proof -
      have "map (\<lambda>x. hentry (hs' ! x)) (concat CH) = map (\<lambda>x. hentry (hs ! x)) (concat CH)"
        using new(1) old by (intro map_cong) metis+
      then have "mset (map (\<lambda>x. hentry (hs' ! x)) (concat CH)) = M"
        using D(8) by (simp only:)
      moreover have "mset (concat (X @ (link # K) # Y)) = add_mset link (mset (concat CH))"
        unfolding CH by simp
      ultimately show ?thesis
        using at(1) by (simp del: concat_append)
    qed
    show "distinct (concat (X @ (link # K) # Y) @ F)" "set (concat (X @ (link # K) # Y) @ F) = {..<length hs'}"
      using D(4-7) new unfolding CH FH at(2) by auto
  qed
  then show ?thesis
    using fr lt unfolding hrep_def hs'_def by blast
qed

section \<open>Removal\<close>

lemma drop_find_chain:
  assumes "chain (\<lambda>x. hnext (hs ! x)) link (K1 @ x # K2)" "set (K1 @ x # K2) \<subseteq> {..<length hs}"
    and "hentry (hs ! x) = cur" "\<And>y. y \<in> set K1 \<Longrightarrow> hentry (hs ! y) \<noteq> cur"
  shows "drop_find hs cur prev link = ret (last_or prev K1, Some x)"
  using assms
proof (induction K1 arbitrary: link prev)
  case Nil
  then show ?case
    by (subst drop_find.simps) (simp add: lnk_def aget_nat)
next
  case (Cons y K1)
  then show ?case
    by (subst drop_find.simps) (simp add: lnk_def aget_nat)
qed

lemma chain_remove:
  assumes "chain nx p (K1 @ x # K2)" "distinct (K1 @ x # K2)"
    and "\<And>y. y \<in> set (K1 @ K2) \<Longrightarrow> nx' y = (if K1 \<noteq> [] \<and> y = last K1 then nx x else nx y)"
  shows "chain nx' (if K1 = [] then nx x else p) (K1 @ K2)"
  using assms
proof (induction K1 arbitrary: p)
  case Nil
  then show ?case
    by (simp add: chain_cong [of K2 nx' nx])
next
  case (Cons a K1)
  have "chain nx' (if K1 = [] then nx x else nx a) (K1 @ K2)"
  proof (rule Cons.IH)
    show "nx' y = (if K1 \<noteq> [] \<and> y = last K1 then nx x else nx y)" if "y \<in> set (K1 @ K2)" for y
      using Cons.prems(2,3) that by (cases "K1 = []") auto
  qed (use Cons.prems in simp_all)
  moreover have "nx' a = (if K1 = [] then nx x else nx a)"
    using Cons.prems(2,3) by (cases "K1 = []") auto
  ultimately show ?case
    using Cons.prems(1) by simp
qed

lemma hrep_drop:
  assumes "hrep hs fh fr b M" "cur \<in># M" "b cur = h" "h < length fh"
  shows "\<exists>prev x. drop_find hs cur None (fh ! h) = ret (prev, Some x) \<and> x < length hs \<and>
     (case prev of
        None \<Rightarrow> hrep (hs[x := (hs ! x)\<lparr>hnext := fr\<rparr>]) (fh[h := hnext (hs ! x)]) (Some x) b (M - {#cur#})
      | Some p \<Rightarrow> p < length hs \<and> p \<noteq> x \<and>
          hrep (hs[p := (hs ! p)\<lparr>hnext := hnext (hs ! x)\<rparr>, x := (hs ! x)\<lparr>hnext := fr\<rparr>]) fh (Some x) b (M - {#cur#}))"
proof -
  obtain CH FH where r: "buckets hs fh fr b M CH FH"
    using assms(1) unfolding hrep_def by blast
  note D = bucketsD [OF r]
  have len: "length CH = length fh"
    using list_all2_lengthD [OF D(1)] by simp
  obtain X K Y where CH: "CH = X @ K # Y" "length X = h"
    using split_at [of h CH] assms(4) len by auto
  have K: "CH ! h = K"
    using CH by auto
  have "cur \<in> set (map (\<lambda>x. hentry (hs ! x)) (concat CH))"
    using assms(2) by (simp only: buckets_mem [OF r])
  then obtain g y where g: "g < length CH" "y \<in> set (CH ! g)" "hentry (hs ! y) = cur"
    by (auto simp: in_set_conv_nth [of _ CH])
  then have "\<exists>x\<in>set K. hentry (hs ! x) = cur"
    using D(3) assms(3) K by blast
  then obtain K1 x K2 where spl: "K = K1 @ x # K2" "hentry (hs ! x) = cur" "\<And>y. y \<in> set K1 \<Longrightarrow> hentry (hs ! y) \<noteq> cur"
    using split_list_first_prop [of K "\<lambda>x. hentry (hs ! x) = cur"] by blast
  have ch: "chain (\<lambda>x. hnext (hs ! x)) (fh ! h) K"
    using list_all2_nthD [OF D(1)] assms(4) K by blast
  have sub: "set K \<subseteq> {..<length hs}"
    using D(7) CH by auto
  have dist: "distinct (concat X @ K1 @ x # K2 @ concat Y)" "distinct (K1 @ x # K2)" "x \<notin> set FH"
    using D(4,6) unfolding CH spl by auto
  define prev where "prev = last_or None K1"
  have find: "drop_find hs cur None (fh ! h) = ret (prev, Some x)"
    unfolding prev_def by (rule drop_find_chain [OF _ _ spl(2,3)]) (use ch sub spl(1) in auto)
  define hs' where "hs' = (case prev of None \<Rightarrow> hs[x := (hs ! x)\<lparr>hnext := fr\<rparr>]
      | Some p \<Rightarrow> hs[p := (hs ! p)\<lparr>hnext := hnext (hs ! x)\<rparr>, x := (hs ! x)\<lparr>hnext := fr\<rparr>])"
  define fh' where "fh' = (case prev of None \<Rightarrow> fh[h := hnext (hs ! x)] | Some p \<Rightarrow> fh)"
  have x: "x < length hs" "K1 \<noteq> [] \<Longrightarrow> last K1 < length hs" "K1 \<noteq> [] \<Longrightarrow> last K1 \<noteq> x"
    using sub dist(2) spl(1) last_in_set [of K1] by (auto simp: subset_eq)
  have nx: "hnext (hs' ! y) = (if y = x then fr else if K1 \<noteq> [] \<and> y = last K1 then hnext (hs ! x) else hnext (hs ! y))"
    and he: "hentry (hs' ! y) = hentry (hs ! y)" and lhs: "length hs' = length hs" for y
    using x by (auto simp: hs'_def prev_def last_or_def nth_list_update)
  have "buckets hs' fh' (Some x) b (M - {#cur#}) (X @ (K1 @ K2) # Y) (x # FH)"
    unfolding buckets_def
  proof (intro conjI)
    have K': "chain (\<lambda>x. hnext (hs' ! x)) (if K1 = [] then hnext (hs ! x) else fh ! h) (K1 @ K2)"
      by (rule chain_remove [of "\<lambda>x. hnext (hs ! x)" "fh ! h" K1 x K2]) (use ch spl(1) dist(2) nx in auto)
    have oth: "hnext (hs' ! y) = hnext (hs ! y)" if "y \<in> set (concat X) \<or> y \<in> set (concat Y) \<or> y \<in> set FH" for y
    proof -
      have "y \<noteq> x" "y \<notin> set K1"
        using that D(6) dist unfolding CH spl by auto
      then have "y \<noteq> x" "\<not> (K1 \<noteq> [] \<and> y = last K1)"
        using last_in_set by auto
      then show ?thesis
        unfolding nx by (simp only: if_False)
    qed
    have fh': "fh' ! h = (if K1 = [] then hnext (hs ! x) else fh ! h)" "\<And>g. g \<noteq> h \<Longrightarrow> fh' ! g = fh ! g" "length fh' = length fh"
      using assms(4) by (auto simp: fh'_def prev_def last_or_def)
    show "list_all2 (chain (\<lambda>x. hnext (hs' ! x))) fh' (X @ (K1 @ K2) # Y)"
    proof (rule list_all2_all_nthI)
      show l: "length fh' = length (X @ (K1 @ K2) # Y)"
        using fh'(3) len CH by simp
      fix g assume g: "g < length fh'"
      show "chain (\<lambda>x. hnext (hs' ! x)) (fh' ! g) ((X @ (K1 @ K2) # Y) ! g)"
      proof (cases "g = h")
        case True
        then show ?thesis
          using K' fh'(1) CH(2) by auto
      next
        case False
        note n = nth_other [OF CH(2) False, of "K1 @ K2" Y, folded l, OF g]
        have "chain (\<lambda>x. hnext (hs ! x)) (fh ! g) (CH ! g)"
          using list_all2_nthD [OF D(1)] g fh'(3) by simp
        moreover have "\<And>y. y \<in> set (CH ! g) \<Longrightarrow> hnext (hs' ! y) = hnext (hs ! y)"
          using n(2) unfolding n(1) [of K] CH(1) [symmetric] by (intro oth) auto
        ultimately have "chain (\<lambda>x. hnext (hs' ! x)) (fh ! g) (CH ! g)"
          by (subst chain_cong [of _ _ "\<lambda>x. hnext (hs ! x)"]) auto
        then show ?thesis
          using fh'(2) [OF False] n(1) [of K] CH(1) by simp
      qed
    qed
    have "chain (\<lambda>x. hnext (hs' ! x)) fr FH"
      using D(2) oth by (subst chain_cong [of FH _ "\<lambda>x. hnext (hs ! x)"]) auto
    then show "chain (\<lambda>x. hnext (hs' ! x)) (Some x) (x # FH)"
      by (simp add: nx)
    show "\<forall>g<length (X @ (K1 @ K2) # Y). \<forall>y\<in>set ((X @ (K1 @ K2) # Y) ! g). b (hentry (hs' ! y)) = g"
    proof (intro allI impI ballI)
      fix g y assume g: "g < length (X @ (K1 @ K2) # Y)" "y \<in> set ((X @ (K1 @ K2) # Y) ! g)"
      then have "y \<in> set (CH ! g)" "g < length CH"
        unfolding CH spl by (auto simp: nth_append nth_Cons' split: if_splits)
      then show "b (hentry (hs' ! y)) = g"
        using D(3) by (simp add: he)
    qed
    show "distinct (concat (X @ (K1 @ K2) # Y) @ x # FH)" "set (concat (X @ (K1 @ K2) # Y) @ x # FH) = {..<length hs'}"
      using D(4-7) dist unfolding CH spl lhs by auto
    show "mset (map (\<lambda>x. hentry (hs' ! x)) (concat (X @ (K1 @ K2) # Y))) = M - {#cur#}"
      unfolding D(8) [symmetric] CH spl(1) he using spl(2) by simp
  qed
  then have "hrep hs' fh' (Some x) b (M - {#cur#})"
    unfolding hrep_def by blast
  then show ?thesis
    using find x by (intro exI [of _ prev] exI [of _ x]) (auto simp: hs'_def fh'_def prev_def last_or_def split: if_splits)
qed

end
