(* ===== verification/Cache_Ops.thy ===== *)
theory Cache_Ops
  imports Cache_Hash
begin

text \<open>
  The operations of a cache refine those of a list of items with distinct keys, the most recently
  used one first. The interface between a cache and its users is the locale \<open>cache_keys\<close>: how items
  are compared and hashed.
\<close>

section \<open>The invariant\<close>

definition hash_ok :: "cache_hash \<Rightarrow> nat \<Rightarrow> cache_header \<Rightarrow> (nat \<Rightarrow> nat) \<Rightarrow> nat multiset \<Rightarrow> bool" where
  "hash_ok hash maxh c b M \<longleftrightarrow>
     dohash c = None \<or>
     dohash c = Some hash \<and> max_hash c = int maxh \<and> length (first_hash c) = maxh \<and>
     length (hentries c) = length (centries c) \<and> hrep (hentries c) (first_hash c) (free_hash c) b M"

definition cache_ok ::
  "(item \<Rightarrow> bool) \<Rightarrow> (item \<Rightarrow> 'k) \<Rightarrow> cache_hash \<Rightarrow> ('k \<Rightarrow> nat) \<Rightarrow> nat \<Rightarrow> cache_header \<Rightarrow> nat list \<Rightarrow> nat list \<Rightarrow> bool" where
  "cache_ok valid key hash hv maxh c L F \<longleftrightarrow>
     links_ok c L F \<and> 2 \<le> length (centries c) \<and>
     (\<forall>i<length (centries c). int (length (payload (dat c i))) = fixed_size c) \<and>
     (\<forall>i\<in>set L. valid (dat c i)) \<and> distinct (map (\<lambda>i. key (dat c i)) L) \<and>
     hash_ok hash maxh c (\<lambda>i. hv (key (dat c i))) (mset L)"

definition items :: "cache_header \<Rightarrow> nat list \<Rightarrow> item list" where
  "items c L = map (dat c) L"

section \<open>The abstract cache\<close>

definition lru_fetch :: "(item \<Rightarrow> bool) \<Rightarrow> item list \<Rightarrow> item list \<times> item option" where
  "lru_fetch P xs = (case List.extract P xs of None \<Rightarrow> (xs, None) | Some (A, x, B) \<Rightarrow> (x # A @ B, Some x))"

definition lru_enter :: "nat \<Rightarrow> (item \<Rightarrow> bool) \<Rightarrow> item \<Rightarrow> item list \<Rightarrow> item list" where
  "lru_enter n P it xs = (if \<exists>x\<in>set xs. P x then xs else it # (if length xs < n then xs else butlast xs))"

section \<open>The hash index\<close>

lemma length_lessThan: "distinct xs \<Longrightarrow> set xs = {..<n} \<Longrightarrow> length xs = n"
  using distinct_card [of xs] by simp

lemma links_length: "links_ok c L F \<Longrightarrow> length L + length F = length (centries c)"
  unfolding links_ok_def using length_lessThan [of "L @ F"] by simp

lemma links_ok_hash [simp]:
  "links_ok (c\<lparr>free_hash := fr, first_hash := fh, hentries := hs\<rparr>) L F = links_ok c L F"
  "dat (c\<lparr>free_hash := fr, first_hash := fh, hentries := hs\<rparr>) = dat c"
  by (simp_all add: links_ok_def dat_def fun_eq_iff)

lemma hash_ok_same: "same_hash c d \<Longrightarrow> hash_ok hash maxh c b M \<Longrightarrow> hash_ok hash maxh d b M"
  unfolding same_hash_def hash_ok_def by auto

lemma hash_ok_cong: "hash_ok hash maxh c b M \<Longrightarrow> (\<And>i. i \<in># M \<Longrightarrow> b' i = b i) \<Longrightarrow> hash_ok hash maxh c b' M"
  unfolding hash_ok_def using hrep_cong by blast

lemma inserthashindex_ok:
  assumes "hash_ok hash maxh c b M" "size M < length (centries c)" "i < length (centries c)"
    and "hash (dat c i) = Ok (int (b i))" "b i < maxh"
  shows "\<exists>fr fh hs. inserthashindex c i = Ok (c\<lparr>free_hash := fr, first_hash := fh, hentries := hs\<rparr>) \<and>
     hash_ok hash maxh (c\<lparr>free_hash := fr, first_hash := fh, hentries := hs\<rparr>) b (add_mset i M)"
proof (cases "dohash c")
  case None
  then show ?thesis
    by (intro exI [of _ "free_hash c"] exI [of _ "first_hash c"] exI [of _ "hentries c"])
      (simp add: inserthashindex_def hash_ok_def)
next
  case (Some hash')
  then have h: "dohash c = Some hash" "max_hash c = int maxh" "length (first_hash c) = maxh"
    "length (hentries c) = length (centries c)" "hrep (hentries c) (first_hash c) (free_hash c) b M"
    using assms(1) unfolding hash_ok_def by auto
  obtain link where l: "free_hash c = Some link" "link < length (hentries c)"
    "hrep ((hentries c)[link := (hentries c ! link)\<lparr>hnext := first_hash c ! b i, hentry := i\<rparr>])
       ((first_hash c)[b i := Some link]) (hnext (hentries c ! link)) b (add_mset i M)"
    using hrep_insert [OF h(5), of "b i" i] assms h by auto
  have "inserthashindex c i = Ok (c\<lparr>free_hash := hnext (hentries c ! link), first_hash := (first_hash c)[b i := Some link],
      hentries := (hentries c)[link := (hentries c ! link)\<lparr>hnext := first_hash c ! b i, hentry := i\<rparr>]\<rparr>)"
    using assms h l by (simp add: inserthashindex_def ent_ok upd_link_def aget_nat aset_def dat_def)
  then show ?thesis
    using h l(2,3) unfolding hash_ok_def by fastforce
qed

lemma drophashindex_ok:
  assumes "hash_ok hash maxh c b M" "i \<in># M" "b i < maxh"
  shows "\<exists>fr fh hs. drophashindex c i (int (b i)) = ret (c\<lparr>free_hash := fr, first_hash := fh, hentries := hs\<rparr>) \<and>
     hash_ok hash maxh (c\<lparr>free_hash := fr, first_hash := fh, hentries := hs\<rparr>) b (M - {#i#})"
proof (cases "dohash c")
  case None
  then show ?thesis
    by (intro exI [of _ "free_hash c"] exI [of _ "first_hash c"] exI [of _ "hentries c"])
      (simp add: drophashindex_def hash_ok_def)
next
  case (Some hash')
  then have h: "dohash c = Some hash" "max_hash c = int maxh" "length (first_hash c) = maxh"
    "length (hentries c) = length (centries c)" "hrep (hentries c) (first_hash c) (free_hash c) b M"
    using assms(1) unfolding hash_ok_def by auto
  obtain prev x where l: "drop_find (hentries c) i None (first_hash c ! b i) = ret (prev, Some x)" "x < length (hentries c)"
    and p: "case prev of
        None \<Rightarrow> hrep ((hentries c)[x := (hentries c ! x)\<lparr>hnext := free_hash c\<rparr>]) ((first_hash c)[b i := hnext (hentries c ! x)]) (Some x) b (M - {#i#})
      | Some p \<Rightarrow> p < length (hentries c) \<and> p \<noteq> x \<and>
          hrep ((hentries c)[p := (hentries c ! p)\<lparr>hnext := hnext (hentries c ! x)\<rparr>, x := (hentries c ! x)\<lparr>hnext := free_hash c\<rparr>])
            (first_hash c) (Some x) b (M - {#i#})"
    using hrep_drop [OF h(5) assms(2) refl] assms(3) h(3) by blast
  show ?thesis
  proof (cases prev)
    case None
    have "drophashindex c i (int (b i)) = ret (c\<lparr>free_hash := Some x, first_hash := (first_hash c)[b i := hnext (hentries c ! x)],
        hentries := (hentries c)[x := (hentries c ! x)\<lparr>hnext := free_hash c\<rparr>]\<rparr>)"
      using assms h l None by (simp add: drophashindex_def upd_link_def aget_nat aset_def)
    then show ?thesis
      using h p None unfolding hash_ok_def by fastforce
  next
    case (Some q)
    have "drophashindex c i (int (b i)) = ret (c\<lparr>free_hash := Some x, first_hash := first_hash c,
        hentries := (hentries c)[q := (hentries c ! q)\<lparr>hnext := hnext (hentries c ! x)\<rparr>, x := (hentries c ! x)\<lparr>hnext := free_hash c\<rparr>]\<rparr>)"
      using assms h l p Some by (simp add: drophashindex_def upd_link_def aget_nat aset_def)
    then show ?thesis
      using h p Some unfolding hash_ok_def by fastforce
  qed
qed

lemma cache_ok_counters [simp]:
  "dat (c\<lparr>writes := w\<rparr>) = dat c" "dat (c\<lparr>reads := w\<rparr>) = dat c"
  "cache_ok valid key hash hv maxh (c\<lparr>writes := w\<rparr>) L F = cache_ok valid key hash hv maxh c L F"
  "cache_ok valid key hash hv maxh (c\<lparr>reads := w\<rparr>) L F = cache_ok valid key hash hv maxh c L F"
  "items (c\<lparr>writes := w\<rparr>) L = items c L" "items (c\<lparr>reads := w\<rparr>) L = items c L"
proof -
  show d: "dat (c\<lparr>writes := w\<rparr>) = dat c" "dat (c\<lparr>reads := w\<rparr>) = dat c"
    by (simp_all add: dat_def fun_eq_iff)
  show "cache_ok valid key hash hv maxh (c\<lparr>writes := w\<rparr>) L F = cache_ok valid key hash hv maxh c L F"
    "cache_ok valid key hash hv maxh (c\<lparr>reads := w\<rparr>) L F = cache_ok valid key hash hv maxh c L F"
    unfolding cache_ok_def links_ok_def hash_ok_def d by simp_all
  show "items (c\<lparr>writes := w\<rparr>) L = items c L" "items (c\<lparr>reads := w\<rparr>) L = items c L"
    by (simp_all add: items_def d)
qed

section \<open>The interface of a cache\<close>

locale cache_keys =
  fixes valid :: "item \<Rightarrow> bool" and key :: "item \<Rightarrow> 'k" and compare :: cache_compare
    and hash :: cache_hash and hv :: "'k \<Rightarrow> nat" and maxh :: nat
  assumes compare_key: "valid x \<Longrightarrow> valid y \<Longrightarrow> compare x y = Ok (key x \<noteq> key y)"
    and hash_key: "valid x \<Longrightarrow> hash x = Ok (int (hv (key x)))"
    and hv_bound: "valid x \<Longrightarrow> hv (key x) < maxh"
begin

abbreviation inv :: "cache_header \<Rightarrow> nat list \<Rightarrow> nat list \<Rightarrow> bool" where
  "inv c L F \<equiv> cache_ok valid key hash hv maxh c L F"

lemma invD:
  assumes "inv c L F"
  shows "links_ok c L F" "2 \<le> length (centries c)"
    "i < length (centries c) \<Longrightarrow> int (length (payload (dat c i))) = fixed_size c"
    "i \<in> set L \<Longrightarrow> valid (dat c i)" "i \<in> set L \<Longrightarrow> i < length (centries c)"
    "distinct (map (\<lambda>i. key (dat c i)) L)" "hash_ok hash maxh c (\<lambda>i. hv (key (dat c i))) (mset L)"
  using assms links_bound [of c L F i] unfolding cache_ok_def by blast+

subsection \<open>Searching\<close>

lemma hash_find_chain:
  assumes "chain (\<lambda>x. hnext (hentries c ! x)) p K" "set K \<subseteq> {..<length (hentries c)}" "valid w"
    and "\<And>x. x \<in> set K \<Longrightarrow> hentry (hentries c ! x) < length (centries c) \<and> valid (dat c (hentry (hentries c ! x)))"
  shows "hash_find compare c w p = ret (find (\<lambda>i. key (dat c i) = key w) (map (\<lambda>x. hentry (hentries c ! x)) K))"
  using assms
proof (induction K arbitrary: p)
  case Nil
  then show ?case
    by (subst hash_find.simps) simp
next
  case (Cons x K)
  have "differs compare c w (Some (hentry (hentries c ! x))) = Ok (key (dat c (hentry (hentries c ! x))) \<noteq> key w)"
    using Cons.prems by (simp add: differs_def ent_ok dat_def [symmetric] compare_key)
  then show ?case
    using Cons by (subst hash_find.simps) (simp add: lnk_def aget_nat)
qed

lemma lru_find_chain:
  assumes "chain (\<lambda>i. cnext (centries c ! i)) p L" "valid w"
    and "\<And>i. i \<in> set L \<Longrightarrow> i < length (centries c) \<and> valid (dat c i)"
  shows "lru_find compare c w p = ret (find (\<lambda>i. key (dat c i) = key w) L)"
  using assms
proof (induction L arbitrary: p)
  case Nil
  then show ?case
    by (subst lru_find.simps) simp
next
  case (Cons i L)
  have "differs compare c w (Some i) = Ok (key (dat c i) \<noteq> key w)"
    using Cons.prems by (simp add: differs_def ent_ok dat_def [symmetric] compare_key)
  then show ?case
    using Cons by (subst lru_find.simps) (simp add: ent_ok)
qed

lemma find_unique:
  assumes "set B = {i \<in> set L. hv (key (dat c i)) = hv (key w)}" "distinct (map (\<lambda>i. key (dat c i)) L)"
  shows "find (\<lambda>i. key (dat c i) = key w) B = find (\<lambda>i. key (dat c i) = key w) L"
proof (cases "find (\<lambda>i. key (dat c i) = key w) L")
  case None
  then have "find (\<lambda>i. key (dat c i) = key w) B = None"
    using assms(1) by (auto simp: find_None_iff)
  then show ?thesis
    using None by simp
next
  case (Some i)
  then have i: "i \<in> set L" "key (dat c i) = key w"
    by (auto simp: find_Some_iff in_set_conv_nth)
  then have "i \<in> set B"
    using assms(1) by simp
  then obtain j where j: "find (\<lambda>i. key (dat c i) = key w) B = Some j"
    using i(2) by (cases "find (\<lambda>i. key (dat c i) = key w) B") (auto simp: find_None_iff)
  then have "j \<in> set B" "key (dat c j) = key w"
    by (auto simp: find_Some_iff in_set_conv_nth)
  then have "j = i"
    using assms i by (auto simp: distinct_map inj_on_def)
  then show ?thesis
    using j Some by simp
qed

lemma cache_find_ok:
  assumes "inv c L F" "valid w"
  shows "cache_find compare c w = ret (find (\<lambda>i. key (dat c i) = key w) L)"
proof (cases "dohash c")
  case None
  have "chain (\<lambda>i. cnext (centries c ! i)) (most_recent_entry c) L"
    using invD(1) [OF assms(1)] dseg_chain unfolding links_ok_def by metis
  then show ?thesis
    using None assms invD(4,5) [OF assms(1)] by (simp add: cache_find_def lru_find_chain)
next
  case (Some hash')
  then have h: "dohash c = Some hash" "length (first_hash c) = maxh"
    "hrep (hentries c) (first_hash c) (free_hash c) (\<lambda>i. hv (key (dat c i))) (mset L)"
    using invD(7) [OF assms(1)] unfolding hash_ok_def by auto
  have lt: "hv (key w) < length (first_hash c)"
    using hv_bound [OF assms(2)] h(2) by simp
  from hrep_bucket [OF h(3) lt]
  obtain K where K: "chain (\<lambda>x. hnext (hentries c ! x)) (first_hash c ! hv (key w)) K" "set K \<subseteq> {..<length (hentries c)}"
    "set (map (\<lambda>x. hentry (hentries c ! x)) K) = {i. i \<in># mset L \<and> hv (key (dat c i)) = hv (key w)}"
    by blast
  have B: "hentry (hentries c ! x) \<in> set L" if "x \<in> set K" for x
    using K(3) that by auto
  have "cache_find compare c w = hash_find compare c w (first_hash c ! hv (key w))"
    using h(1) lt hash_key [OF assms(2)] by (simp add: cache_find_def aget_nat)
  also have "\<dots> = ret (find (\<lambda>i. key (dat c i) = key w) (map (\<lambda>x. hentry (hentries c ! x)) K))"
    using K(1,2) assms(2) by (rule hash_find_chain) (use B invD(4,5) [OF assms(1)] in blast)
  also have "\<dots> = ret (find (\<lambda>i. key (dat c i) = key w) L)"
    using K(3) invD(6) [OF assms(1)] by (subst find_unique [of _ L]) auto
  finally show ?thesis .
qed

subsection \<open>Fetching\<close>

lemma find_split:
  assumes "find P xs = Some x"
  shows "\<exists>A B. xs = A @ x # B \<and> P x \<and> (\<forall>y\<in>set A. \<not> P y)"
  using assms
proof (induction xs)
  case (Cons a xs)
  show ?case
  proof (cases "P a")
    case True
    then show ?thesis
      using Cons.prems by (intro exI [of _ "[]"] exI [of _ xs]) simp
  next
    case False
    then obtain A B where "xs = A @ x # B" "P x" "\<forall>y\<in>set A. \<not> P y"
      using Cons by auto
    then show ?thesis
      using False by (intro exI [of _ "a # A"] exI [of _ B]) simp
  qed
qed simp

lemma fetch_refines:
  assumes "inv c L F" "valid w"
  shows "\<exists>d L' r. ntfs_fetch_cache (Some c) w compare = ret (Some d, r) \<and> inv d L' F \<and>
     lru_fetch (\<lambda>x. key x = key w) (items c L) = (items d L', map_option (dat d) r) \<and>
     (r = None \<or> (\<exists>i M. r = Some i \<and> L' = i # M)) \<and> freed d = freed c \<and> same_hash c d"
proof (cases "find (\<lambda>i. key (dat c i) = key w) L")
  case None
  define d where "d = c\<lparr>reads := reads c + 1\<rparr>"
  have "ntfs_fetch_cache (Some c) w compare = ret (Some d, None)"
    using None assms by (simp add: ntfs_fetch_cache_def cache_find_ok d_def)
  moreover have "inv d L F" "items d L = items c L" "freed d = freed c" "same_hash c d"
    using assms(1) by (simp_all add: cache_ok_def links_ok_def hash_ok_def dat_def d_def items_def same_hash_def)
  moreover have "List.extract (\<lambda>x. key x = key w) (items c L) = None"
    using None by (auto simp: extract_None_iff find_None_iff items_def)
  ultimately show ?thesis
    by (intro exI [of _ d] exI [of _ L] exI [of _ None]) (simp add: lru_fetch_def)
next
  case (Some i)
  then obtain A B where L: "L = A @ i # B" "key (dat c i) = key w" "\<forall>y\<in>set A. key (dat c y) \<noteq> key w"
    using find_split [OF Some] by (elim exE conjE) (rule that)
  have lk: "links_ok c (A @ i # B) F"
    using invD(1) [OF assms(1)] L(1) by simp
  from relink_head_ok [OF lk]
  obtain e where e: "relink_head c i = Ok e" "links_ok e (i # A @ B) F" "same_hash c e" "freed e = freed c" "dat e = dat c"
    by blast
  define d where "d = e\<lparr>reads := reads e + 1\<rparr>"
  have de: "dat d = dat c" "links_ok d (i # A @ B) F" "same_hash c d" "freed d = freed c"
    using e by (simp_all add: d_def dat_def fun_eq_iff links_ok_def same_hash_def)
  have "ntfs_fetch_cache (Some c) w compare = ret (Some d, Some i)"
    using Some assms e(1) by (simp add: ntfs_fetch_cache_def cache_find_ok d_def)
  moreover have "inv d (i # A @ B) F"
    using assms(1) de(1-3) hash_ok_same [OF de(3) invD(7) [OF assms(1)]] L(1)
    unfolding cache_ok_def same_hash_def by simp
  moreover have "List.extract (\<lambda>x. key x = key w) (items c L) = Some (items c A, dat c i, items c B)"
    using L by (simp add: extract_Some_iff items_def)
  ultimately show ?thesis
    using de by (intro exI [of _ d] exI [of _ "i # A @ B"] exI [of _ "Some i"]) (simp add: lru_fetch_def items_def)
qed

subsection \<open>Entering\<close>

lemma drop_index_ok:
  assumes "inv c L F" "i \<in> set L"
  shows "\<exists>fr fh hs. drop_index c i = ret (c\<lparr>free_hash := fr, first_hash := fh, hentries := hs\<rparr>) \<and>
     hash_ok hash maxh (c\<lparr>free_hash := fr, first_hash := fh, hentries := hs\<rparr>) (\<lambda>i. hv (key (dat c i))) (mset L - {#i#})"
proof -
  note D = invD [OF assms(1)]
  have "dohash c = None \<or> dohash c = Some hash"
    using D(7) unfolding hash_ok_def by blast
  then have "drop_index c i = drophashindex c i (int (hv (key (dat c i))))"
    using ent_ok [OF D(5)] hash_key [OF D(4)] assms(2)
    by (auto simp: drop_index_def drophashindex_def dat_def)
  then show ?thesis
    using drophashindex_ok [OF D(7), of i] hv_bound [OF D(4)] assms(2) by simp
qed

lemma detached_hash [simp]:
  "detached (c\<lparr>free_hash := fr, first_hash := fh, hentries := hs\<rparr>) L i F = detached c L i F"
  by (simp add: detached_def)

lemma reuse_oldest_ok:
  assumes "inv c (A @ [i]) []" "A \<noteq> []"
  shows "\<exists>d old. reuse_oldest H c it = ret (d, i) \<and> detached d A i [] \<and>
     hash_ok hash maxh d (\<lambda>i. hv (key (dat c i))) (mset A) \<and> dofree d = dofree c \<and> fixed_size d = fixed_size c \<and>
     length (centries d) = length (centries c) \<and>
     freed d = freed c @ (if dofree c then [dat c i] else []) \<and> (\<forall>j. j \<noteq> i \<longrightarrow> dat d j = dat c j) \<and>
     dat d i = (dat c i)\<lparr>variable := fresh_var H old (varsize it), varsize := varsize it\<rparr>"
proof -
  note D = invD [OF assms(1)]
  define a where "a = last A"
  define es where "es = centries c"
  have L: "dseg es None (A @ [i]) None" "distinct (A @ [i])" "oldest_entry c = Some i" "most_recent_entry c = hd_or A (Some i)"
    "free_entry c = None" "set (A @ [i]) = {..<length es}"
    using D(1) unfolding links_ok_def es_def by auto
  have "a \<in> set A"
    using assms(2) by (simp add: a_def)
  moreover have "a < length es" "i < length es" if "a \<in> set A"
    using D(5) that unfolding es_def by simp_all
  ultimately have aA: "a \<in> set A" "a \<noteq> i" "a < length es" "i < length es"
    using L(2) by auto
  have pv: "cprevious (es ! i) = Some a"
    using L(1) assms(2) by (simp add: dseg_append a_def)
  define c1 where "c1 = c\<lparr>centries := es[a := (es ! a)\<lparr>cnext := None\<rparr>]\<rparr>"
  have c1: "dat c1 = dat c" "hash_ok hash maxh c1 (\<lambda>i. hv (key (dat c1 i))) (mset (A @ [i]))" "length (centries c1) = length es"
  proof -
    show dat: "dat c1 = dat c"
      using aA by (auto simp: c1_def dat_def es_def nth_list_update fun_eq_iff)
    show len: "length (centries c1) = length es"
      by (simp add: c1_def)
    have "same_hash c c1"
      using len by (simp add: same_hash_def c1_def es_def)
    then show "hash_ok hash maxh c1 (\<lambda>i. hv (key (dat c1 i))) (mset (A @ [i]))"
      using hash_ok_same D(7) unfolding dat by blast
  qed
  have "dohash c1 = None \<or> dohash c1 = Some hash"
    using c1(2) unfolding hash_ok_def by blast
  then have "drop_index c1 i = drophashindex c1 i (int (hv (key (dat c1 i))))"
    using ent_ok [of i c1] hash_key [OF D(4)] aA c1
    by (auto simp: drop_index_def drophashindex_def dat_def [symmetric])
  then obtain fr fh hs where dr: "drop_index c1 i = ret (c1\<lparr>free_hash := fr, first_hash := fh, hentries := hs\<rparr>)"
    "hash_ok hash maxh (c1\<lparr>free_hash := fr, first_hash := fh, hentries := hs\<rparr>) (\<lambda>i. hv (key (dat c1 i))) (mset A)"
    using drophashindex_ok [OF c1(2), of i] hv_bound [OF D(4), of i] c1(1) by auto
  define old where "old = (if varsize (dat c i) \<noteq> 0 then (case variable (dat c i) of None \<Rightarrow> [] | Some v \<Rightarrow> v) else [])"
  have i1: "centries c1 ! i = es ! i" "oldest_entry c1 = Some i"
    using aA L(3) by (simp_all add: c1_def)
  have step: "ent c (Some i) = Ok (es ! i)" "upd_ent c (Some a) (\<lambda>b. b\<lparr>cnext := None\<rparr>) = Ok c1"
    "dofree c1 = dofree c" "freed c1 = freed c" "cdata (es ! i) = dat c i"
    "ent (c1\<lparr>free_hash := fr, first_hash := fh, hentries := hs\<rparr>) (Some i) = Ok (es ! i)"
    using aA i1 c1(3) by (simp_all add: ent_def upd_ent_def aget_nat c1_def es_def dat_def)
  have run: "reuse_oldest H c it = ret ((if dofree c then c1\<lparr>freed := freed c @ [dat c i]\<rparr> else c1)
      \<lparr>free_hash := fr, first_hash := fh, hentries := hs, oldest_entry := Some a,
       centries := (centries c1)[i := set_variable (fresh_var H old (varsize it)) (varsize it) (es ! i)]\<rparr>, i)"
    using aA(4) c1(3)
    by (cases "dofree c") (simp_all add: reuse_oldest_def L(3) step pv i1 dr(1) upd_ent_ok Let_def fresh_var_def old_def)
  define d where "d = (if dofree c then c1\<lparr>freed := freed c @ [dat c i]\<rparr> else c1)
      \<lparr>free_hash := fr, first_hash := fh, hentries := hs, oldest_entry := Some a,
       centries := (centries c1)[i := set_variable (fresh_var H old (varsize it)) (varsize it) (es ! i)]\<rparr>"
  have ents: "cnext (centries d ! j) = (if j = a then None else cnext (es ! j))"
    "cprevious (centries d ! j) = cprevious (es ! j)" "length (centries d) = length es" for j
    using aA by (auto simp: d_def c1_def set_variable_def nth_list_update)
  have "detached d A i []"
    unfolding detached_def
  proof (intro conjI)
    show "dseg (centries d) None A None"
    proof (rule dseg_relink [of es None A "Some i"])
      show "dseg es None A (Some i)" "distinct A" "length (centries d) = length es"
        using L(1,2) ents(3) by (auto simp: dseg_append)
      then show "cprevious (centries d ! b) = (if b = hd A then None else cprevious (es ! b))" if "b \<in> set A" for b
        using that ents(2) by (auto dest: dseg_hd)
      show "cnext (centries d ! b) = (if b = last A then None else cnext (es ! b))" if "b \<in> set A" for b
        using ents(1) by (simp add: a_def)
    qed
  qed (use L assms(2) ents(3) in \<open>auto simp: d_def c1_def a_def es_def\<close>)
  moreover have "hash_ok hash maxh d (\<lambda>i. hv (key (dat c i))) (mset A)"
    using dr(2) c1(1,3) ents(3) unfolding hash_ok_def by (simp add: d_def)
  moreover have "\<forall>j. j \<noteq> i \<longrightarrow> dat d j = dat c j"
    "dat d i = (dat c i)\<lparr>variable := fresh_var H old (varsize it), varsize := varsize it\<rparr>"
    using aA by (auto simp: d_def c1_def dat_def set_variable_def nth_list_update es_def)
  ultimately show ?thesis
    using run ents(3) unfolding d_def [symmetric]
    by (intro exI [of _ d] exI [of _ old]) (simp add: d_def c1_def es_def)
qed

lemma enter_finish:
  assumes "detached e L i F" "hash_ok hash maxh e (\<lambda>j. hv (key (dat e j))) (mset L)" "2 \<le> length (centries e)"
    and "\<And>j. j < length (centries e) \<Longrightarrow> int (length (payload (dat e j))) = fixed_size e"
    and "\<And>j. j \<in> set L \<Longrightarrow> valid (dat e j)" "distinct (map (\<lambda>j. key (dat e j)) L)"
    and "\<And>j. j \<in> set L \<Longrightarrow> key (dat e j) \<noteq> key it" "valid it" "storable (fixed_size e) it"
    and "variable (dat e i) = fresh_var H old (varsize it)" "varsize (dat e i) = varsize it"
    and "varsize it \<noteq> 0 \<Longrightarrow> alloc_ok H (int (varsize it))"
  shows "\<exists>d. obind (enter_head e i it) (\<lambda>(c, current).
       case current of None \<Rightarrow> Ok (c, None) | Some i \<Rightarrow> obind (inserthashindex c i) (\<lambda>c. Ok (c, Some i))) = Ok (d, Some i) \<and>
     inv d (i # L) F \<and> items d (i # L) = it # map (dat e) L \<and> freed d = freed e \<and> dofree d = dofree e \<and>
     fixed_size d = fixed_size e \<and> length (centries d) = length (centries e) \<and> dat d i = it"
proof -
  have iL: "i \<notin> set L" "i < length (centries e)" "size (mset L) < length (centries e)"
  proof -
    have d: "distinct (i # L @ F)" and s: "set (i # L @ F) = {..<length (centries e)}"
      using assms(1) unfolding detached_def by blast+
    show "i \<notin> set L"
      using d by simp
    have "i \<in> set (i # L @ F)"
      by simp
    then show "i < length (centries e)"
      unfolding s by simp
    have "length (i # L @ F) = length (centries e)"
      using d s by (rule length_lessThan)
    then show "size (mset L) < length (centries e)"
      by simp
  qed
  have "int (length (payload (dat e i))) = fixed_size e"
    using assms(4) iL(2) by simp
  from enter_head_ok [OF assms(1,9) this assms(10,11,12)]
  obtain c where c: "enter_head e i it = Ok (c, Some i)" "links_ok c (i # L) F" "same_hash e c" "freed c = freed e"
    "\<And>j. j \<noteq> i \<Longrightarrow> dat c j = dat e j" "dat c i = it"
    by blast
  have len: "length (centries c) = length (centries e)" "fixed_size c = fixed_size e" "dofree c = dofree e"
    using c(3) by (simp_all add: same_hash_def)
  have onL: "dat c j = dat e j" if "j \<in> set L" for j
    using c(5) that iL(1) by metis
  have "hash_ok hash maxh c (\<lambda>j. hv (key (dat c j))) (mset L)"
    by (rule hash_ok_cong [OF hash_ok_same [OF c(3) assms(2)]]) (simp add: onL)
  then obtain fr fh hs where ins: "inserthashindex c i = Ok (c\<lparr>free_hash := fr, first_hash := fh, hentries := hs\<rparr>)"
    "hash_ok hash maxh (c\<lparr>free_hash := fr, first_hash := fh, hentries := hs\<rparr>) (\<lambda>j. hv (key (dat c j))) (add_mset i (mset L))"
    using inserthashindex_ok [of hash maxh c "\<lambda>j. hv (key (dat c j))" "mset L" i] iL len(1) c(6)
      hash_key [OF assms(8)] hv_bound [OF assms(8)] by auto
  define d where "d = c\<lparr>free_hash := fr, first_hash := fh, hentries := hs\<rparr>"
  have dd: "dat d = dat c" "links_ok d (i # L) F" "centries d = centries c" "fixed_size d = fixed_size c" "dofree d = dofree c"
    "freed d = freed c"
    using c(2) unfolding d_def by simp_all
  have "int (length (payload (dat d j))) = fixed_size d" if "j < length (centries d)" for j
    using assms(4,9) that len c(5,6) dd by (cases "j = i") (simp_all add: storable_def)
  moreover have "distinct (map (\<lambda>j. key (dat d j)) (i # L))"
  proof -
    have "map (\<lambda>j. key (dat d j)) (i # L) = key it # map (\<lambda>j. key (dat e j)) L"
      using onL dd(1) c(6) by simp
    then show ?thesis
      using assms(6,7) by (simp only:) (simp add: image_iff, metis)
  qed
  moreover have "\<forall>j\<in>set (i # L). valid (dat d j)"
    using assms(5,8) onL dd(1) c(6) by simp
  ultimately have "inv d (i # L) F"
    unfolding cache_ok_def using dd(1-4) ins(2) [folded d_def] assms(3) len(1) by simp
  moreover have "items d (i # L) = it # map (dat e) L"
    using c(6) onL dd(1) by (simp add: items_def)
  ultimately show ?thesis
    using c(1,4,6) ins(1) [folded d_def] dd len by (intro exI [of _ d]) simp
qed

lemma enter_refines:
  assumes "inv c L F" "valid it" "storable (fixed_size c) it" "varsize it \<noteq> 0 \<Longrightarrow> alloc_ok H (int (varsize it))"
  shows "\<exists>d L' F' i. ntfs_enter_cache H (Some c) it compare = ret (Some d, Some i) \<and> inv d L' F' \<and>
     items d L' = lru_enter (length (centries c)) (\<lambda>x. key x = key it) it (items c L) \<and> key (dat d i) = key it \<and> i \<in> set L' \<and>
     fixed_size d = fixed_size c \<and> length (centries d) = length (centries c) \<and> dofree d = dofree c \<and>
     freed d = freed c @ (if dofree c \<and> (\<forall>x\<in>set (items c L). key x \<noteq> key it) \<and> F = [] then [last (items c L)] else [])"
proof -
  note D = invD [OF assms(1)]
  have fin: ?thesis
    if "ntfs_enter_cache H (Some c) it compare = ret (Some (e\<lparr>writes := writes e + 1\<rparr>), Some i)" "inv e L' F'"
      "items e L' = lru_enter (length (centries c)) (\<lambda>x. key x = key it) it (items c L)" "key (dat e i) = key it" "i \<in> set L'"
      "fixed_size e = fixed_size c" "length (centries e) = length (centries c)" "dofree e = dofree c"
      "freed e = freed c @ (if dofree c \<and> (\<forall>x\<in>set (items c L). key x \<noteq> key it) \<and> F = [] then [last (items c L)] else [])" for e L' F' i
    using that by (intro exI [of _ "e\<lparr>writes := writes e + 1\<rparr>"] exI [of _ L'] exI [of _ F'] exI [of _ i]) simp
  show ?thesis
  proof (cases "find (\<lambda>i. key (dat c i) = key it) L")
    case (Some i)
    then obtain A B where "L = A @ i # B" "key (dat c i) = key it"
      using find_split [OF Some] by (elim exE conjE) (rule that)
    then show ?thesis
      using assms Some
      by (intro fin [of c i L F]) (auto simp: ntfs_enter_cache_def cache_find_ok lru_enter_def items_def)
  next
    case None
    then have new: "\<And>j. j \<in> set L \<Longrightarrow> key (dat c j) \<noteq> key it"
      by (auto simp: find_None_iff)
    show ?thesis
    proof (cases F)
      case (Cons i F')
      have lk: "links_ok c L (i # F')"
        using D(1) Cons by simp
      from take_free_ok [OF lk, of H it]
      obtain e where e: "take_free H c i it = Ok e" "detached e L i F'" "same_hash c e" "freed e = freed c"
        "\<And>j. j \<noteq> i \<Longrightarrow> dat e j = dat c j"
        "dat e i = (dat c i)\<lparr>variable := fresh_var H [] (varsize it), varsize := varsize it\<rparr>"
        by blast
      have len: "length (centries e) = length (centries c)" "fixed_size e = fixed_size c" "dofree e = dofree c"
        using e(3) by (simp_all add: same_hash_def)
      have iL: "i \<notin> set L"
        using D(1) Cons by (simp add: links_ok_def)
      have onL: "dat e j = dat c j" if "j \<in> set L" for j
        using e(5) that iL by metis
      have H: "hash_ok hash maxh e (\<lambda>j. hv (key (dat e j))) (mset L)"
        by (rule hash_ok_cong [OF hash_ok_same [OF e(3) D(7)]]) (simp add: onL)
      have pay: "int (length (payload (dat e j))) = fixed_size e" if "j < length (centries e)" for j
        using D(3) [of j] that len e(5,6) by (cases "j = i") simp_all
      have keys: "map (\<lambda>j. key (dat e j)) L = map (\<lambda>j. key (dat c j)) L"
        using onL by simp
      from enter_finish [OF e(2) H _ pay, of it H "[]"]
      obtain d where d: "obind (enter_head e i it) (\<lambda>(c, current).
          case current of None \<Rightarrow> Ok (c, None) | Some i \<Rightarrow> obind (inserthashindex c i) (\<lambda>c. Ok (c, Some i))) = Ok (d, Some i)"
        "inv d (i # L) F'" "items d (i # L) = it # map (dat e) L" "freed d = freed e" "dofree d = dofree e"
        "fixed_size d = fixed_size e" "length (centries d) = length (centries e)" "dat d i = it"
        using D(2,4,6) onL keys new assms(2,3,4) len e(6) by auto
      have "length L < length (centries c)"
        using links_length [OF D(1)] Cons by simp
      then have "items d (i # L) = lru_enter (length (centries c)) (\<lambda>x. key x = key it) it (items c L)"
        using d(3) new onL by (auto simp: lru_enter_def items_def)
      then show ?thesis
        using d e(1,4) len assms(1,2) None Cons chain_hd [of _ "free_entry c" F] D(1)
        by (intro fin [of d i "i # L" F']) (auto simp: ntfs_enter_cache_def cache_find_ok links_ok_def)
    next
      case Nil
      have full: "length L = length (centries c)"
        using links_length [OF D(1)] Nil by simp
      then have "L \<noteq> []" "butlast L \<noteq> []"
        using D(2) by (auto simp: butlast_conv_take)
      then obtain A i where L: "L = A @ [i]" "A \<noteq> []"
        using that [of "butlast L" "last L"] by auto
      from reuse_oldest_ok [of c A i H it] assms(1) L Nil
      obtain e old where e: "reuse_oldest H c it = ret (e, i)" "detached e A i []"
        "hash_ok hash maxh e (\<lambda>i. hv (key (dat c i))) (mset A)" "dofree e = dofree c" "fixed_size e = fixed_size c"
        "length (centries e) = length (centries c)" "freed e = freed c @ (if dofree c then [dat c i] else [])"
        "\<And>j. j \<noteq> i \<Longrightarrow> dat e j = dat c j"
        "dat e i = (dat c i)\<lparr>variable := fresh_var H old (varsize it), varsize := varsize it\<rparr>"
        by blast
      have iL: "i \<notin> set A"
        using D(1) L by (simp add: links_ok_def)
      have onL: "dat e j = dat c j" if "j \<in> set A" for j
        using e(8) that iL by metis
      have H: "hash_ok hash maxh e (\<lambda>j. hv (key (dat e j))) (mset A)"
        by (rule hash_ok_cong [OF e(3)]) (simp add: onL)
      have pay: "int (length (payload (dat e j))) = fixed_size e" if "j < length (centries e)" for j
        using D(3) [of j] that e(5,6,8,9) by (cases "j = i") simp_all
      have keys: "map (\<lambda>j. key (dat e j)) A = map (\<lambda>j. key (dat c j)) A"
        using onL by simp
      from enter_finish [OF e(2) H _ pay, of it H old]
      obtain d where d: "obind (enter_head e i it) (\<lambda>(c, current).
          case current of None \<Rightarrow> Ok (c, None) | Some i \<Rightarrow> obind (inserthashindex c i) (\<lambda>c. Ok (c, Some i))) = Ok (d, Some i)"
        "inv d (i # A) []" "items d (i # A) = it # map (dat e) A" "freed d = freed e" "dofree d = dofree e"
        "fixed_size d = fixed_size e" "length (centries d) = length (centries e)" "dat d i = it"
        using D(2,4,6) onL keys new assms(2,3,4) e(5,6,9) L by auto
      have "items d (i # A) = lru_enter (length (centries c)) (\<lambda>x. key x = key it) it (items c L)"
        using d(3) new onL full L by (auto simp: lru_enter_def items_def)
      then show ?thesis
        using d e(1,4-7) assms(1,2) None Nil chain_hd [of _ "free_entry c" F] D(1) L new
        by (intro fin [of d i "i # A" "[]"]) (auto simp: ntfs_enter_cache_def cache_find_ok links_ok_def items_def)
    qed
  qed
qed

end

end
