(* ===== verification/Cache_Props.thy ===== *)
theory Cache_Props
  imports Cache_Ops
begin

text \<open>
  Invalidation, sequences of operations, the caches of inodes and of looked up names as instances
  of the interface, and the properties of the caches.
\<close>

lemma mset_subset_distinct: "mset xs \<subseteq># mset ys \<Longrightarrow> distinct ys \<Longrightarrow> distinct xs"
proof (induction xs arbitrary: ys)
  case (Cons x xs)
  then have x: "x \<in> set ys"
    using mset_subset_eqD [of "mset (x # xs)" "mset ys" x] by simp
  have "mset xs \<subseteq># mset (remove1 x ys)"
    using Cons.prems(1) by (simp add: insert_subset_eq_iff)
  moreover from this have "set xs \<subseteq> set (remove1 x ys)"
    by (metis set_mset_mono set_mset_mset)
  ultimately show ?case
    using Cons.IH [of "remove1 x ys"] Cons.prems(2) by auto
qed simp

section \<open>Sequences of operations\<close>

datatype cache_op = Fetch item | Take item | Enter item | Invalidate item nat | Purge item

text \<open>\<open>Take\<close> fetches an item and removes it from the cache, as opening an inode does. \<open>Invalidate\<close> drops the items
  that match under the comparison \<open>cmp\<close> of the lookups, \<open>Purge\<close> those that match under a comparison \<open>icmp\<close> of its
  own, with \<^verbatim>\<open>CACHE_NOHASH\<close>, as the deletion of a name does. The result of an operation is the item found or
  entered, and the number of items dropped.\<close>

definition cache_exec ::
  "u8 heap \<Rightarrow> cache_compare \<Rightarrow> cache_compare \<Rightarrow> cache_op \<Rightarrow> cache_header \<Rightarrow> (cache_header \<times> item option \<times> nat) run" where
  "cache_exec H cmp icmp op c =
     (case op of
        Fetch w \<Rightarrow> rbind (ntfs_fetch_cache (Some c) w cmp) (\<lambda>(oc, r).
          case oc of None \<Rightarrow> Some Fault | Some d \<Rightarrow> ret (d, map_option (dat d) r, 0))
      | Take w \<Rightarrow> rbind (ntfs_fetch_cache (Some c) w cmp) (\<lambda>(oc, r).
          case (oc, r) of
            (None, _) \<Rightarrow> Some Fault
          | (Some d, None) \<Rightarrow> ret (d, None, 0)
          | (Some d, Some i) \<Rightarrow> rbind (ntfs_remove_cache oc i 0) (\<lambda>(oc, n).
              case oc of None \<Rightarrow> Some Fault | Some e \<Rightarrow> ret (e, Some (dat d i), n)))
      | Enter it \<Rightarrow> rbind (ntfs_enter_cache H (Some c) it cmp) (\<lambda>(oc, r).
          case oc of None \<Rightarrow> Some Fault | Some d \<Rightarrow> ret (d, map_option (dat d) r, 0))
      | Invalidate it flags \<Rightarrow> rbind (ntfs_invalidate_cache (Some c) it cmp flags) (\<lambda>(oc, n).
          case oc of None \<Rightarrow> Some Fault | Some d \<Rightarrow> ret (d, None, n))
      | Purge it \<Rightarrow> rbind (ntfs_invalidate_cache (Some c) it icmp CACHE_NOHASH) (\<lambda>(oc, n).
          case oc of None \<Rightarrow> Some Fault | Some d \<Rightarrow> ret (d, None, n)))"

fun cache_run ::
  "u8 heap \<Rightarrow> cache_compare \<Rightarrow> cache_compare \<Rightarrow> cache_op list \<Rightarrow> cache_header \<Rightarrow> (cache_header \<times> (item option \<times> nat) list) run" where
  "cache_run H cmp icmp [] c = ret (c, [])"
| "cache_run H cmp icmp (op # ops) c =
     rbind (cache_exec H cmp icmp op c) (\<lambda>(c, r). rbind (cache_run H cmp icmp ops c) (\<lambda>(c, rs). ret (c, r # rs)))"

text \<open>The abstract cache is the list of its items; \<open>drops x w\<close> tells that the item \<open>x\<close> matches the purged one \<open>w\<close>.\<close>

definition lru_exec ::
  "nat \<Rightarrow> (item \<Rightarrow> 'k) \<Rightarrow> (item \<Rightarrow> item \<Rightarrow> bool) \<Rightarrow> cache_op \<Rightarrow> item list \<Rightarrow> item list \<times> item option \<times> nat" where
  "lru_exec n key drops op xs =
     (case op of
        Fetch w \<Rightarrow> (let (ys, r) = lru_fetch (\<lambda>x. key x = key w) xs in (ys, r, 0))
      | Take w \<Rightarrow> (case lru_fetch (\<lambda>x. key x = key w) xs of
            (ys, None) \<Rightarrow> (ys, None, 0) | (ys, Some x) \<Rightarrow> (tl ys, Some x, 1))
      | Enter it \<Rightarrow> (let ys = lru_enter n (\<lambda>x. key x = key it) it xs in (ys, find (\<lambda>x. key x = key it) ys, 0))
      | Invalidate it flags \<Rightarrow> (filter (\<lambda>x. key x \<noteq> key it) xs, None, length (filter (\<lambda>x. key x = key it) xs))
      | Purge it \<Rightarrow> (filter (\<lambda>x. \<not> drops x it) xs, None, length (filter (\<lambda>x. drops x it) xs)))"

fun lru_run ::
  "nat \<Rightarrow> (item \<Rightarrow> 'k) \<Rightarrow> (item \<Rightarrow> item \<Rightarrow> bool) \<Rightarrow> cache_op list \<Rightarrow> item list \<Rightarrow> item list \<times> (item option \<times> nat) list" where
  "lru_run n key drops [] xs = (xs, [])"
| "lru_run n key drops (op # ops) xs =
     (let (xs, r) = lru_exec n key drops op xs; (xs, rs) = lru_run n key drops ops xs in (xs, r # rs))"

text \<open>The operations for which the properties hold: on valid items (\<open>pvalid\<close> for a purge), which fit the entries
  of the cache when they are entered. The memory for the variable part of an entered item must be available:
  an entry that fails for lack of memory leaves the list of the cache broken.\<close>

fun op_ok :: "u8 heap \<Rightarrow> (item \<Rightarrow> bool) \<Rightarrow> (item \<Rightarrow> bool) \<Rightarrow> int \<Rightarrow> cache_op \<Rightarrow> bool" where
  "op_ok H valid pvalid fixed (Fetch w) = valid w"
| "op_ok H valid pvalid fixed (Take w) = valid w"
| "op_ok H valid pvalid fixed (Enter it) = (valid it \<and> storable fixed it \<and> (varsize it = 0 \<or> alloc_ok H (int (varsize it))))"
| "op_ok H valid pvalid fixed (Invalidate it flags) = valid it"
| "op_ok H valid pvalid fixed (Purge it) = pvalid it"

context cache_keys
begin

section \<open>Invalidation\<close>

lemma drop_step:
  assumes "inv c (A @ i # B) F" "drop_index c i = ret e \<or> drophashindex c i (int (hv (key (dat c i)))) = ret e"
  shows "\<exists>d. do_invalidate e i flags = Ok d \<and> inv d (A @ B) (i # F) \<and>
     (\<forall>j. j \<noteq> i \<longrightarrow> dat d j = dat c j) \<and> fixed_size d = fixed_size c \<and> length (centries d) = length (centries c) \<and>
     dofree d = dofree c \<and> hentries d = hentries e \<and> dohash d = dohash c \<and>
     freed d = freed c @ (if flags AND CACHE_FREE \<noteq> 0 \<and> dofree c then [dat c i] else [])"
proof -
  note D = invD [OF assms(1)]
  have "drop_index c i = drophashindex c i (int (hv (key (dat c i))))"
    using D(7) ent_ok [OF D(5)] hash_key [OF D(4)] by (auto simp: drop_index_def drophashindex_def hash_ok_def dat_def)
  then obtain fr fh hs where e: "e = c\<lparr>free_hash := fr, first_hash := fh, hentries := hs\<rparr>"
    "hash_ok hash maxh e (\<lambda>i. hv (key (dat c i))) (mset (A @ B))"
    using drop_index_ok [OF assms(1), of i] assms(2) by auto
  have e': "links_ok e (A @ i # B) F" "dat e = dat c" "centries e = centries c" "fixed_size e = fixed_size c"
    "dofree e = dofree c" "freed e = freed c"
    using D(1) unfolding e(1) by simp_all
  from do_invalidate_ok [OF e'(1), of flags]
  obtain d where d: "do_invalidate e i flags = Ok d" "links_ok d (A @ B) (i # F)" "same_hash e d"
    "freed d = freed e @ (if flags AND CACHE_FREE \<noteq> 0 \<and> dofree e then [dat e i] else [])"
    "\<And>j. j \<noteq> i \<Longrightarrow> dat d j = dat e j" "payload (dat d i) = payload (dat e i)"
    by blast
  have sh: "fixed_size d = fixed_size c" "length (centries d) = length (centries c)" "dofree d = dofree c" "hentries d = hentries e"
    "dohash d = dohash c"
    using d(3) e' e(1) by (simp_all add: same_hash_def)
  have iAB: "i \<notin> set (A @ B)"
    using D(1) by (auto simp: links_ok_def)
  have on: "dat d j = dat c j" if "j \<in> set (A @ B)" for j
    using d(5) e'(2) that iAB by metis
  have "hash_ok hash maxh d (\<lambda>j. hv (key (dat d j))) (mset (A @ B))"
    by (rule hash_ok_cong [OF hash_ok_same [OF d(3) e(2)]]) (use on in simp)
  moreover have "int (length (payload (dat d j))) = fixed_size d" if "j < length (centries d)" for j
    using D(3) [of j] that sh d(5,6) e'(2) by (cases "j = i") simp_all
  moreover have "distinct (map (\<lambda>j. key (dat d j)) (A @ B))"
  proof -
    have "map (\<lambda>j. key (dat d j)) (A @ B) = map (\<lambda>j. key (dat c j)) (A @ B)"
      using on by simp
    moreover have "distinct (map (\<lambda>j. key (dat c j)) (A @ B))"
      using D(6) by auto
    ultimately show ?thesis
      by (simp only:)
  qed
  moreover have "\<forall>j\<in>set (A @ B). valid (dat d j)"
    using D(4) on by simp
  ultimately have "inv d (A @ B) (i # F)"
    unfolding cache_ok_def using d(2) D(2) sh(1,2) by simp
  then show ?thesis
    using d(1,4,5) sh e' by auto
qed

lemma inv_lru_loop_ok:
  assumes "inv c (A @ B) F" "\<And>x. valid x \<Longrightarrow> cmp x it = Ok (\<not> P x)"
  shows "\<exists>d F'. inv_lru_loop cmp flags c it (hd_or B None) n = ret (d, n + length (filter P (items c B))) \<and>
     inv d (A @ filter (\<lambda>i. \<not> P (dat c i)) B) F' \<and>
     (\<forall>j\<in>set (A @ filter (\<lambda>i. \<not> P (dat c i)) B). dat d j = dat c j) \<and>
     fixed_size d = fixed_size c \<and> length (centries d) = length (centries c) \<and> dofree d = dofree c \<and>
     freed d = freed c @ (if flags AND CACHE_FREE \<noteq> 0 \<and> dofree c then filter P (items c B) else [])"
  using assms
proof (induction B arbitrary: c A F n)
  case Nil
  then show ?case
    by (subst inv_lru_loop.simps) (auto simp: items_def)
next
  case (Cons i B)
  note D = invD [OF Cons.prems(1)]
  have nx: "cnext (centries c ! i) = hd_or B None" and lt: "i < length (centries c)"
    using D(1) unfolding links_ok_def by (auto simp: dseg_append)
  have df: "differs cmp c it (Some i) = Ok (\<not> P (dat c i))"
    using lt D(4) Cons.prems(2) by (simp add: differs_def ent_ok dat_def)
  show ?case
  proof (cases "P (dat c i)")
    case False
    have "inv c ((A @ [i]) @ B) F"
      using Cons.prems(1) by simp
    from Cons.IH [OF this Cons.prems(2)]
    obtain d F' where d: "inv_lru_loop cmp flags c it (hd_or B None) n = ret (d, n + length (filter P (items c B)))"
      "inv d ((A @ [i]) @ filter (\<lambda>i. \<not> P (dat c i)) B) F'"
      "\<forall>j\<in>set ((A @ [i]) @ filter (\<lambda>i. \<not> P (dat c i)) B). dat d j = dat c j"
      "fixed_size d = fixed_size c" "length (centries d) = length (centries c)" "dofree d = dofree c"
      "freed d = freed c @ (if flags AND CACHE_FREE \<noteq> 0 \<and> dofree c then filter P (items c B) else [])"
      by blast
    moreover have "inv_lru_loop cmp flags c it (hd_or (i # B) None) n = inv_lru_loop cmp flags c it (hd_or B None) n"
      using False df nx lt by (subst inv_lru_loop.simps) (simp add: ent_ok)
    ultimately show ?thesis
      using False by (intro exI [of _ d] exI [of _ F']) (simp add: items_def)
  next
    case True
    obtain e where e: "drop_index c i = ret e"
      using drop_index_ok [OF Cons.prems(1), of i] by auto
    from drop_step [OF Cons.prems(1) disjI1 [OF e], of flags]
    obtain d where d: "do_invalidate e i flags = Ok d" "inv d (A @ B) (i # F)"
      "\<And>j. j \<noteq> i \<Longrightarrow> dat d j = dat c j" "fixed_size d = fixed_size c" "length (centries d) = length (centries c)"
      "dofree d = dofree c" "freed d = freed c @ (if flags AND CACHE_FREE \<noteq> 0 \<and> dofree c then [dat c i] else [])"
      by blast
    have iAB: "i \<notin> set A" "i \<notin> set B"
      using D(1) by (auto simp: links_ok_def)
    have dA: "dat d j = dat c j" if "j \<in> set A \<or> j \<in> set B" for j
      using d(3) that iAB by metis
    have eqs: "items d B = items c B" "filter (\<lambda>i. \<not> P (dat d i)) B = filter (\<lambda>i. \<not> P (dat c i)) B"
      using dA by (auto simp: items_def intro!: filter_cong)
    from Cons.IH [OF d(2) Cons.prems(2), of "n + 1"]
    obtain d' F' where d': "inv_lru_loop cmp flags d it (hd_or B None) (n + 1) = ret (d', n + 1 + length (filter P (items c B)))"
      "inv d' (A @ filter (\<lambda>i. \<not> P (dat c i)) B) F'"
      "\<forall>j\<in>set (A @ filter (\<lambda>i. \<not> P (dat c i)) B). dat d' j = dat d j"
      "fixed_size d' = fixed_size d" "length (centries d') = length (centries d)" "dofree d' = dofree d"
      "freed d' = freed d @ (if flags AND CACHE_FREE \<noteq> 0 \<and> dofree d then filter P (items c B) else [])"
      unfolding eqs by blast
    have "inv_lru_loop cmp flags c it (hd_or (i # B) None) n = ret (d', n + length (filter P (items c (i # B))))"
      using True df nx lt e d(1) d'(1) by (subst inv_lru_loop.simps) (simp add: ent_ok items_def)
    moreover have "\<forall>j\<in>set (A @ filter (\<lambda>i. \<not> P (dat c i)) B). dat d' j = dat c j"
      using d'(3) dA by auto
    ultimately show ?thesis
      using True d d'(2,4-7) by (intro exI [of _ d'] exI [of _ F']) (simp add: items_def)
  qed
qed

lemma inv_hash_skip:
  assumes "chain (\<lambda>x. hnext (hentries c ! x)) p (K1 @ K2)" "valid it"
    and "\<And>x. x \<in> set K1 \<Longrightarrow> x < length (hentries c) \<and> hentry (hentries c ! x) < length (centries c) \<and>
           valid (dat c (hentry (hentries c ! x))) \<and> key (dat c (hentry (hentries c ! x))) \<noteq> key it"
  shows "inv_hash_loop compare flags h c it p n = inv_hash_loop compare flags h c it (hd_or K2 None) n"
  using assms
proof (induction K1 arbitrary: p)
  case Nil
  then show ?case
    using chain_hd by force
next
  case (Cons x K1)
  have "differs compare c it (Some (hentry (hentries c ! x))) = Ok True"
    using Cons.prems by (simp add: differs_def ent_ok dat_def [symmetric] compare_key)
  then show ?case
    using Cons by (subst inv_hash_loop.simps) (simp add: lnk_def aget_nat)
qed

lemma inv_hash_end [simp]: "inv_hash_loop cmp flags h c it None n = ret (c, n)"
  by (subst inv_hash_loop.simps) simp

lemma drophashindex_frame:
  assumes "drop_find (hentries c) i None (first_hash c ! h) = ret (prev, Some x)" "drophashindex c i (int h) = ret d"
    and "h < length (first_hash c)" "y \<noteq> x" "Some y \<noteq> prev"
  shows "hentries d ! y = hentries c ! y"
  using assms
  by (auto simp: drophashindex_def aget_nat aset_def upd_link_def lnk_def split: option.splits if_splits
      simp: obind_Ok_iff nth_list_update aget_def)

lemma hashed_bucket:
  assumes "inv c L F" "dohash c \<noteq> None" "h < maxh"
  shows "\<exists>K. chain (\<lambda>x. hnext (hentries c ! x)) (first_hash c ! h) K \<and> set K \<subseteq> {..<length (hentries c)} \<and> distinct K \<and>
     distinct (map (\<lambda>x. hentry (hentries c ! x)) K) \<and>
     set (map (\<lambda>x. hentry (hentries c ! x)) K) = {i \<in> set L. hv (key (dat c i)) = h}"
proof -
  have h: "length (first_hash c) = maxh" "hrep (hentries c) (first_hash c) (free_hash c) (\<lambda>i. hv (key (dat c i))) (mset L)"
    using invD(7) [OF assms(1)] assms(2) unfolding hash_ok_def by auto
  have "distinct L"
    using invD(1) [OF assms(1)] by (simp add: links_ok_def)
  moreover from hrep_bucket [OF h(2), of h] assms(3) h(1)
  obtain K where "chain (\<lambda>x. hnext (hentries c ! x)) (first_hash c ! h) K" "set K \<subseteq> {..<length (hentries c)}" "distinct K"
    "mset (map (\<lambda>x. hentry (hentries c ! x)) K) \<subseteq># mset L"
    "set (map (\<lambda>x. hentry (hentries c ! x)) K) = {i. i \<in># mset L \<and> hv (key (dat c i)) = h}"
    by blast
  ultimately show ?thesis
    using mset_subset_distinct [of "map (\<lambda>x. hentry (hentries c ! x)) K" L] by (intro exI [of _ K]) simp
qed

lemma chain_suffix: "chain nx p (K1 @ x # K2) \<Longrightarrow> chain nx (nx x) K2"
  by (induction K1 arbitrary: p) auto

lemma inv_hash_loop_ok:
  assumes "inv c L F" "valid it" "dohash c \<noteq> None"
  shows "\<exists>d L' F'. inv_hash_loop compare flags (int (hv (key it))) c it (first_hash c ! hv (key it)) 0 =
       ret (d, length (filter (\<lambda>x. key x = key it) (items c L))) \<and>
     inv d L' F' \<and> items d L' = filter (\<lambda>x. key x \<noteq> key it) (items c L) \<and>
     fixed_size d = fixed_size c \<and> length (centries d) = length (centries c) \<and> dofree d = dofree c \<and>
     dohash d = dohash c \<and>
     freed d = freed c @ (if flags AND CACHE_FREE \<noteq> 0 \<and> dofree c then filter (\<lambda>x. key x = key it) (items c L) else [])"
proof -
  note D = invD [OF assms(1)]
  note hb = hv_bound [OF assms(2)]
  from hashed_bucket [OF assms(1,3) hb]
  obtain K where K: "chain (\<lambda>x. hnext (hentries c ! x)) (first_hash c ! hv (key it)) K" "set K \<subseteq> {..<length (hentries c)}"
    "distinct K" "distinct (map (\<lambda>x. hentry (hentries c ! x)) K)"
    "set (map (\<lambda>x. hentry (hentries c ! x)) K) = {i \<in> set L. hv (key (dat c i)) = hv (key it)}"
    by blast
  have at: "x < length (hentries c)" "hentry (hentries c ! x) \<in> set L" if "x \<in> set K" for x
    using K(2,5) that by auto
  show ?thesis
  proof (cases "find (\<lambda>i. key (dat c i) = key it) L")
    case None
    then have new: "\<And>j. j \<in> set L \<Longrightarrow> key (dat c j) \<noteq> key it"
      by (auto simp: find_None_iff)
    have "inv_hash_loop compare flags (int (hv (key it))) c it (first_hash c ! hv (key it)) 0 = ret (c, 0)"
      using inv_hash_skip [of c _ K "[]" it] K(1) assms(2) at D(4,5) new by simp
    moreover have "filter (\<lambda>x. key x = key it) (items c L) = []" "filter (\<lambda>x. key x \<noteq> key it) (items c L) = items c L"
      using new by (auto simp: items_def filter_empty_conv intro: filter_True)
    ultimately show ?thesis
      using assms(1) by (intro exI [of _ c] exI [of _ L] exI [of _ F]) simp
  next
    case (Some i)
    then obtain A B where L: "L = A @ i # B" "key (dat c i) = key it"
      using find_split [OF Some] by (elim exE conjE) (rule that)
    have inj: "inj_on (\<lambda>j. key (dat c j)) (set L)"
      using D(6) by (simp add: distinct_map)
    have oth: "key (dat c j) \<noteq> key it" if "j \<in> set L" "j \<noteq> i" for j
      using inj_onD [OF inj, of j i] L that by auto
    have "i \<in> set (map (\<lambda>x. hentry (hentries c ! x)) K)"
      unfolding K(5) using L by simp
    then obtain K1 x K2 where spl: "K = K1 @ x # K2" "hentry (hentries c ! x) = i"
      by (auto dest!: split_list)
    have ni: "hentry (hentries c ! y) \<noteq> i" if "y \<in> set K1 \<or> y \<in> set K2" for y
    proof
      assume "hentry (hentries c ! y) = i"
      moreover have "inj_on (\<lambda>x. hentry (hentries c ! x)) (set K)"
        using K(4) by (simp add: distinct_map)
      ultimately have "y = x"
        using that spl by (auto dest: inj_onD)
      then show False
        using K(3) that spl(1) by auto
    qed
    have ent: "ent c (Some i) = Ok (centries c ! i)" "differs compare c it (Some i) = Ok False"
      using D(4,5) [of i] L assms(2) by (simp_all add: ent_ok differs_def dat_def [symmetric] compare_key)
    have inv: "inv c (A @ i # B) F"
      using assms(1) L(1) by simp
    obtain e where e: "drophashindex c i (int (hv (key (dat c i)))) = ret e"
      using drophashindex_ok [OF D(7), of i] hb L by auto
    from drop_step [OF inv disjI2 [OF e], of flags]
    obtain d where d: "do_invalidate e i flags = Ok d" "inv d (A @ B) (i # F)" "\<And>j. j \<noteq> i \<Longrightarrow> dat d j = dat c j"
      "fixed_size d = fixed_size c" "length (centries d) = length (centries c)" "dofree d = dofree c" "hentries d = hentries e"
      "dohash d = dohash c"
      "freed d = freed c @ (if flags AND CACHE_FREE \<noteq> 0 \<and> dofree c then [dat c i] else [])"
      by blast
    have find: "drop_find (hentries c) i None (first_hash c ! hv (key it)) = ret (last_or None K1, Some x)"
      by (rule drop_find_chain [of _ _ K1 x K2]) (use K(1,2) spl ni in auto)
    have same: "hentries d ! y = hentries c ! y" if "y \<in> set K2" for y
    proof -
      have "y \<noteq> x" "y \<notin> set K1"
        using that K(3) unfolding spl(1) by auto
      then have "y \<noteq> x" "Some y \<noteq> last_or None K1"
        by (auto simp: last_or_def)
      then show ?thesis
        unfolding d(7) using drophashindex_frame [OF find _ _] e L(2) D(7) assms(3) hb
        by (auto simp: hash_ok_def)
    qed
    have len: "length (hentries d) = length (hentries c)" "dohash d = dohash c"
      using invD(7) [OF d(2)] D(7) d(5,8) assms(3) unfolding hash_ok_def by auto
    have K2: "chain (\<lambda>x. hnext (hentries d ! x)) (hnext (hentries c ! x)) K2"
      using chain_suffix [of _ _ K1 x K2] K(1) spl(1) same by (subst chain_cong [of K2 _ "\<lambda>x. hnext (hentries c ! x)"]) auto
    have rest: "inv_hash_loop compare flags (int (hv (key it))) d it (hnext (hentries c ! x)) 1 = ret (d, 1)"
      using inv_hash_skip [of d _ K2 "[]" it] K2 assms(2) at D(4,5) oth ni d(3,5) same len spl(1) by simp
    have "inv_hash_loop compare flags (int (hv (key it))) c it (first_hash c ! hv (key it)) 0 =
        inv_hash_loop compare flags (int (hv (key it))) c it (Some x) 0"
      using inv_hash_skip [of c _ K1 "x # K2" it] K(1) spl(1) assms(2) at D(4,5) oth ni by simp
    also have "\<dots> = ret (d, 1)"
      using at(1) [of x] spl ent e L(2) d(1) rest by (subst inv_hash_loop.simps) (simp add: lnk_def aget_nat)
    finally have run: "inv_hash_loop compare flags (int (hv (key it))) c it (first_hash c ! hv (key it)) 0 = ret (d, 1)" .
    have iAB: "i \<notin> set A" "i \<notin> set B"
      using D(1) L(1) by (auto simp: links_ok_def)
    have AB: "\<And>j. j \<in> set (A @ B) \<Longrightarrow> key (dat c j) \<noteq> key it" "\<And>j. j \<in> set (A @ B) \<Longrightarrow> dat d j = dat c j"
    proof -
      fix j assume "j \<in> set (A @ B)"
      then have "j \<in> set L" "j \<noteq> i"
        using iAB L(1) by auto
      then show "key (dat c j) \<noteq> key it" "dat d j = dat c j"
        using oth d(3) by auto
    qed
    have "filter (\<lambda>x. key x = key it) (items c L) = [dat c i]" "filter (\<lambda>x. key x \<noteq> key it) (items c L) = items d (A @ B)"
      using AB L by (auto simp: items_def filter_empty_conv intro!: filter_True)
    then show ?thesis
      using run d len by (intro exI [of _ d] exI [of _ "A @ B"] exI [of _ "i # F"]) simp
  qed
qed

lemma purge_refines:
  assumes "inv c L F" "flags AND CACHE_NOHASH \<noteq> 0 \<or> dohash c = None" "\<And>x. valid x \<Longrightarrow> cmp x it = Ok (\<not> P x)"
  shows "\<exists>d L' F'. ntfs_invalidate_cache (Some c) it cmp flags = ret (Some d, length (filter P (items c L))) \<and>
     inv d L' F' \<and> items d L' = filter (\<lambda>x. \<not> P x) (items c L) \<and>
     fixed_size d = fixed_size c \<and> length (centries d) = length (centries c)"
proof -
  have inv: "inv c ([] @ L) F"
    using assms(1) by simp
  from inv_lru_loop_ok [OF inv, of cmp it P flags 0]
  obtain d F' where d: "inv_lru_loop cmp flags c it (hd_or L None) 0 = ret (d, length (filter P (items c L)))"
    "inv d (filter (\<lambda>i. \<not> P (dat c i)) L) F'" "\<forall>j\<in>set (filter (\<lambda>i. \<not> P (dat c i)) L). dat d j = dat c j"
    "fixed_size d = fixed_size c" "length (centries d) = length (centries c)"
    using assms(3) by auto
  have "ntfs_invalidate_cache (Some c) it cmp flags = ret (Some d, length (filter P (items c L)))"
    using assms(2) d(1) invD(1) [OF assms(1)] by (auto simp: ntfs_invalidate_cache_def links_ok_def split: option.splits)
  moreover have "items d (filter (\<lambda>i. \<not> P (dat c i)) L) = filter (\<lambda>x. \<not> P x) (items c L)"
    using d(3) by (simp add: items_def filter_map o_def)
  ultimately show ?thesis
    using d(2,4,5) by (intro exI [of _ d] exI [of _ "filter (\<lambda>i. \<not> P (dat c i)) L"] exI [of _ F']) simp
qed

lemma invalidate_refines:
  assumes "inv c L F" "valid it"
  shows "\<exists>d L' F'. ntfs_invalidate_cache (Some c) it compare flags = ret (Some d, length (filter (\<lambda>x. key x = key it) (items c L))) \<and>
     inv d L' F' \<and> items d L' = filter (\<lambda>x. key x \<noteq> key it) (items c L) \<and>
     fixed_size d = fixed_size c \<and> length (centries d) = length (centries c)"
proof (cases "flags AND CACHE_NOHASH = 0 \<and> dohash c \<noteq> None")
  case True
  then have h: "dohash c = Some hash" "length (first_hash c) = maxh" "dohash c \<noteq> None"
    using invD(7) [OF assms(1)] unfolding hash_ok_def by auto
  from inv_hash_loop_ok [OF assms h(3), of flags]
  obtain d L' F' where d: "inv_hash_loop compare flags (int (hv (key it))) c it (first_hash c ! hv (key it)) 0 =
       ret (d, length (filter (\<lambda>x. key x = key it) (items c L)))"
     "inv d L' F'" "items d L' = filter (\<lambda>x. key x \<noteq> key it) (items c L)"
     "fixed_size d = fixed_size c" "length (centries d) = length (centries c)" "dohash d = dohash c"
    by blast
  then show ?thesis
    using True h hash_key [OF assms(2)] hv_bound [OF assms(2)]
    by (intro exI [of _ d] exI [of _ L'] exI [of _ F']) (simp add: ntfs_invalidate_cache_def aget_nat)
next
  case False
  then show ?thesis
    using purge_refines [OF assms(1), of flags compare it "\<lambda>x. key x = key it"] compare_key [OF _ assms(2)] by auto
qed

end

text \<open>A user that also invalidates with a comparison of its own gives the items that this comparison matches.\<close>

locale cache_purge = cache_keys +
  fixes icmp :: cache_compare and pvalid :: "item \<Rightarrow> bool" and drops :: "item \<Rightarrow> item \<Rightarrow> bool"
  assumes icmp_drops: "valid x \<Longrightarrow> pvalid w \<Longrightarrow> icmp x w = Ok (\<not> drops x w)"
begin

lemma exec_refines:
  assumes "inv c L F" "op_ok H valid pvalid (fixed_size c) op"
  shows "\<exists>d L' F' r. cache_exec H compare icmp op c = ret (d, r) \<and> inv d L' F' \<and>
     lru_exec (length (centries c)) key drops op (items c L) = (items d L', r) \<and>
     fixed_size d = fixed_size c \<and> length (centries d) = length (centries c)"
proof (cases op)
  case (Fetch w)
  then have "valid w"
    using assms(2) by simp
  from fetch_refines [OF assms(1) this]
  obtain d L' r where "ntfs_fetch_cache (Some c) w compare = ret (Some d, r)" "inv d L' F"
    "lru_fetch (\<lambda>x. key x = key w) (items c L) = (items d L', map_option (dat d) r)" "same_hash c d"
    by blast
  then show ?thesis
    unfolding Fetch by (intro exI [of _ d] exI [of _ L'] exI [of _ F] exI [of _ "(map_option (dat d) r, 0)"])
      (simp add: cache_exec_def lru_exec_def same_hash_def)
next
  case (Take w)
  then have "valid w"
    using assms(2) by simp
  from fetch_refines [OF assms(1) this]
  obtain d L' r where d: "ntfs_fetch_cache (Some c) w compare = ret (Some d, r)" "inv d L' F"
    "lru_fetch (\<lambda>x. key x = key w) (items c L) = (items d L', map_option (dat d) r)"
    "r = None \<or> (\<exists>i M. r = Some i \<and> L' = i # M)" "same_hash c d"
    by blast
  show ?thesis
  proof (cases r)
    case None
    then show ?thesis
      using d unfolding Take by (intro exI [of _ d] exI [of _ L'] exI [of _ F] exI [of _ "(None, 0)"])
        (simp add: cache_exec_def lru_exec_def same_hash_def)
  next
    case (Some i)
    then obtain M where L': "L' = i # M"
      using d(4) by auto
    have i: "inv d ([] @ i # M) F"
      using d(2) L' by simp
    obtain e where e: "drop_index d i = ret e"
      using drop_index_ok [OF i, of i] by auto
    from drop_step [OF i disjI1 [OF e], of 0]
    obtain f where f: "do_invalidate e i 0 = Ok f" "inv f ([] @ M) (i # F)" "\<And>j. j \<noteq> i \<Longrightarrow> dat f j = dat d j"
      "fixed_size f = fixed_size d" "length (centries f) = length (centries d)"
      by blast
    have "i \<notin> set M"
      using invD(1) [OF i] by (simp add: links_ok_def)
    then have "\<And>j. j \<in> set M \<Longrightarrow> dat f j = dat d j"
      using f(3) by metis
    then have "items f M = tl (items d L')"
      by (simp add: items_def L')
    then show ?thesis
      using d Some e f unfolding Take
      by (intro exI [of _ f] exI [of _ M] exI [of _ "i # F"] exI [of _ "(Some (dat d i), 1)"])
        (simp add: cache_exec_def lru_exec_def same_hash_def ntfs_remove_cache_def)
  qed
next
  case (Enter it)
  then have "valid it" "storable (fixed_size c) it" "varsize it \<noteq> 0 \<Longrightarrow> alloc_ok H (int (varsize it))"
    using assms(2) by auto
  from enter_refines [OF assms(1) this]
  obtain d L' F' i where d: "ntfs_enter_cache H (Some c) it compare = ret (Some d, Some i)" "inv d L' F'"
    "items d L' = lru_enter (length (centries c)) (\<lambda>x. key x = key it) it (items c L)" "key (dat d i) = key it" "i \<in> set L'"
    "fixed_size d = fixed_size c" "length (centries d) = length (centries c)"
    by blast
  have "find (\<lambda>x. key x = key it) (items d L') = Some (dat d i)"
  proof (cases "find (\<lambda>x. key x = key it) (items d L')")
    case None
    then show ?thesis
      using d(4,5) by (auto simp: find_None_iff items_def)
  next
    case (Some x)
    then obtain k where k: "k < length L'" "x = dat d (L' ! k)" "key (dat d (L' ! k)) = key it"
      by (auto simp: find_Some_iff items_def)
    have "inj_on (\<lambda>i. key (dat d i)) (set L')"
      using invD(6) [OF d(2)] by (simp add: distinct_map)
    then have "L' ! k = i"
      by (rule inj_onD) (use k d(4,5) in simp_all)
    then show ?thesis
      using Some k(2) by simp
  qed
  then show ?thesis
    using d unfolding Enter by (intro exI [of _ d] exI [of _ L'] exI [of _ F'] exI [of _ "(Some (dat d i), 0)"])
      (simp add: cache_exec_def lru_exec_def)
next
  case (Invalidate it flags)
  then have "valid it"
    using assms(2) by simp
  from invalidate_refines [OF assms(1) this, of flags]
  obtain d L' F' where "ntfs_invalidate_cache (Some c) it compare flags = ret (Some d, length (filter (\<lambda>x. key x = key it) (items c L)))"
    "inv d L' F'" "items d L' = filter (\<lambda>x. key x \<noteq> key it) (items c L)"
    "fixed_size d = fixed_size c" "length (centries d) = length (centries c)"
    by blast
  then show ?thesis
    unfolding Invalidate by (intro exI [of _ d] exI [of _ L'] exI [of _ F'] exI [of _ "(None, length (filter (\<lambda>x. key x = key it) (items c L)))"])
      (simp add: cache_exec_def lru_exec_def)
next
  case (Purge it)
  then have "pvalid it"
    using assms(2) by simp
  then obtain d L' F' where "ntfs_invalidate_cache (Some c) it icmp CACHE_NOHASH = ret (Some d, length (filter (\<lambda>x. drops x it) (items c L)))"
    "inv d L' F'" "items d L' = filter (\<lambda>x. \<not> drops x it) (items c L)"
    "fixed_size d = fixed_size c" "length (centries d) = length (centries c)"
    using purge_refines [OF assms(1), of CACHE_NOHASH icmp it "\<lambda>x. drops x it"] icmp_drops by (auto simp: CACHE_NOHASH_def)
  then show ?thesis
    unfolding Purge by (intro exI [of _ d] exI [of _ L'] exI [of _ F'] exI [of _ "(None, length (filter (\<lambda>x. drops x it) (items c L)))"])
      (simp add: cache_exec_def lru_exec_def)
qed

lemma run_refines:
  assumes "inv c L F" "list_all (op_ok H valid pvalid (fixed_size c)) ops"
  shows "\<exists>d L' F' rs. cache_run H compare icmp ops c = ret (d, rs) \<and> inv d L' F' \<and>
     lru_run (length (centries c)) key drops ops (items c L) = (items d L', rs)"
  using assms
proof (induction ops arbitrary: c L F)
  case (Cons op ops)
  from exec_refines [OF Cons.prems(1), of H op] Cons.prems(2)
  obtain d L' F' r where d: "cache_exec H compare icmp op c = ret (d, r)" "inv d L' F'"
    "lru_exec (length (centries c)) key drops op (items c L) = (items d L', r)"
    "fixed_size d = fixed_size c" "length (centries d) = length (centries c)"
    by auto
  from Cons.IH [OF d(2)] Cons.prems(2) d(4)
  obtain e L'' F'' rs where "cache_run H compare icmp ops d = ret (e, rs)" "inv e L'' F''"
    "lru_run (length (centries d)) key drops ops (items d L') = (items e L'', rs)"
    by auto
  then show ?case
    using d by (intro exI [of _ e] exI [of _ L''] exI [of _ F''] exI [of _ "r # rs"]) simp
qed auto

end

section \<open>Creation\<close>

definition nxt :: "nat \<Rightarrow> nat \<Rightarrow> nat option" where
  "nxt m i = (if Suc i < m then Some (Suc i) else None)"

lemma chain_upt: "chain (nxt m) (if n < m then Some n else None) [n..<m]"
proof (induction "m - n" arbitrary: n)
  case (Suc k)
  then have n: "n < m" "k = m - Suc n"
    by simp_all
  have "chain (nxt m) (nxt m n) [Suc n..<m]"
    using Suc.hyps(1) [OF n(2)] by (simp only: nxt_def)
  then show ?case
    using n(1) by (simp only: upt_conv_Cons [OF n(1)] chain.simps if_True)
qed simp

lemma create_ok:
  assumes "ntfs_create_cache H junk hjunk df dh fs n maxh = Ok (Some c)" "2 \<le> n" "32 \<le> fs" "dh = None \<or> dh = Some hash"
  shows "cache_ok valid key hash hv maxh c [] [0..<n] \<and> fixed_size c = fs - 32 \<and> length (centries c) = n"
proof -
  define ch where "ch = nxt n"
  have c: "most_recent_entry c = None" "oldest_entry c = None" "free_entry c = Some 0" "fixed_size c = fs - 32"
    "length (centries c) = n" "\<And>i. i < n \<Longrightarrow> cnext (centries c ! i) = ch i"
    "\<And>i. i < n \<Longrightarrow> int (length (payload (dat c i))) = fs - 32"
    and h: "dohash c = (if maxh \<noteq> 0 then dh else None)" "maxh \<noteq> 0 \<Longrightarrow> dh \<noteq> None \<Longrightarrow> max_hash c = int maxh"
    "first_hash c = replicate maxh None" "maxh \<noteq> 0 \<Longrightarrow> free_hash c = Some 0" "maxh \<noteq> 0 \<Longrightarrow> length (hentries c) = n"
    "\<And>i. maxh \<noteq> 0 \<Longrightarrow> i < n \<Longrightarrow> hnext (hentries c ! i) = ch i"
    using assms(1,3) by (auto simp: ntfs_create_cache_def Let_def dat_def ch_def nxt_def sizeof_cached_generic_def split: if_splits)
  have up: "chain ch (Some 0) [0..<n]"
    using chain_upt [of n 0] assms(2) unfolding ch_def by simp
  have "chain (\<lambda>i. cnext (centries c ! i)) (free_entry c) [0..<n]"
    using up c(3,6) by (subst chain_cong [of _ _ ch]) auto
  then have "links_ok c [] [0..<n]"
    using c by (auto simp: links_ok_def)
  moreover have "hash_ok hash maxh c b {#}" for b
  proof (cases "dohash c")
    case (Some g)
    then have m: "maxh \<noteq> 0" "dh = Some hash"
      using h(1) assms(4) by (auto split: if_splits)
    have "chain (\<lambda>x. hnext (hentries c ! x)) (free_hash c) [0..<n]"
      using up h(4,6) m by (subst chain_cong [of _ _ ch]) auto
    then have "buckets (hentries c) (first_hash c) (free_hash c) b {#} (replicate maxh []) [0..<n]"
      using h m by (auto simp: buckets_def list_all2_conv_all_nth)
    then show ?thesis
      using h m c(5) unfolding hash_ok_def hrep_def by auto
  qed (simp add: hash_ok_def)
  ultimately show ?thesis
    using c assms(2) by (auto simp: cache_ok_def)
qed

end
