(* ===== verification/Cache_Users.thy ===== *)
theory Cache_Users
  imports Cache_Props
begin

text \<open>
  The caches of a volume: opened inodes (\<^verbatim>\<open>inode.c\<close>), looked up names and paths (\<^verbatim>\<open>dir.c\<close>), with
  their comparison and hash functions, and the properties of these caches. The fields behind the
  common ones of an entry are read from its payload: at offset 0 the inode number of a
  \<^verbatim>\<open>CACHED_NIDATA\<close> or \<^verbatim>\<open>CACHED_INODE\<close> and the parent of a \<^verbatim>\<open>CACHED_LOOKUP\<close>, whose inode number is at
  offset 8.
\<close>

definition CACHE_INODE_SIZE :: nat where "CACHE_INODE_SIZE = 32"

definition MREF :: "u64 \<Rightarrow> u64" where
  "MREF x = x AND 0xffffffffffff"

section \<open>Opened inodes\<close>



section \<open>Paths\<close>

text \<open>A C string in a buffer: the bytes before the first zero, which must be there.\<close>

definition cstr :: "u8 list \<Rightarrow> u8 list outcome" where
  "cstr b = (if 0 \<in> set b then Ok (takeWhile (\<lambda>x. x \<noteq> 0) b) else Fault)"

text \<open>\<^verbatim>\<open>strrchr(path, '/')\<close>, or the path when there is no slash.\<close>

definition last_component :: "u8 list \<Rightarrow> u8 list" where
  "last_component p = (if 0x2f \<in> set p then 0x2f # rev (takeWhile (\<lambda>x. x \<noteq> 0x2f) (rev p)) else p)"

text \<open>The second character of the name is the terminating zero for a name of one character; for an
  empty path it lies behind the string.\<close>

definition ntfs_dir_inode_hash :: cache_hash where
  "ntfs_dir_inode_hash it =
     (case variable it of None \<Rightarrow> Ok (-1)
      | Some b \<Rightarrow>
          obind (cstr b) (\<lambda>path.
          let name = last_component path;
              mem = name @ drop (length path) b in
          obind (aget mem 0) (\<lambda>n0. obind (aget mem 1) (\<lambda>n1.
          Ok (int ((2 * unat n0 + unat n1 + length name) mod (2 * CACHE_INODE_SIZE)))))))"

definition inode_cache_compare :: cache_compare where
  "inode_cache_compare cached wanted =
     (case variable cached of None \<Rightarrow> Ok True
      | Some c \<Rightarrow> (case variable wanted of None \<Rightarrow> Fault
         | Some w \<Rightarrow> obind (cstr c) (\<lambda>c. obind (cstr w) (\<lambda>w. Ok (c \<noteq> w)))))"

text \<open>For invalidating all paths below a renamed directory.\<close>

definition inode_cache_inv_compare :: cache_compare where
  "inode_cache_inv_compare cached wanted =
     obind (get_le64 (payload wanted) 0) (\<lambda>winum. obind (get_le64 (payload cached) 0) (\<lambda>cinum.
     case variable cached of None \<Rightarrow> Ok True
     | Some c \<Rightarrow>
         (case variable wanted of
            None \<Rightarrow> Ok (winum \<noteq> MREF cinum)
          | Some w \<Rightarrow>
              obind (cstr w) (\<lambda>w.
              if winum = MREF cinum then Ok False
              else obind (cstr c) (\<lambda>c.
                   Ok (take (length w) c \<noteq> w \<or> (length c \<noteq> length w \<and> c ! length w \<noteq> 0x2f)))))))"

section \<open>Looked up names\<close>




section \<open>The caches of a volume\<close>

record lru_caches =
  xinode_cache :: "cache_header option"
  nidata_cache :: "cache_header option"
  lookup_cache :: "cache_header option"
  securid_cache :: "cache_header option"
  legacy_cache :: "cache_header option"


definition ntfs_free_lru_caches :: "lru_caches \<Rightarrow> item list run" where
  "ntfs_free_lru_caches v =
     rbind (ntfs_free_cache (xinode_cache v)) (\<lambda>a. rbind (ntfs_free_cache (nidata_cache v)) (\<lambda>b.
     rbind (ntfs_free_cache (lookup_cache v)) (\<lambda>c. rbind (ntfs_free_cache (securid_cache v)) (\<lambda>d.
     rbind (ntfs_free_cache (legacy_cache v)) (\<lambda>e. ret (a @ b @ c @ d @ e))))))"

section \<open>The caches as instances of the interface\<close>





















section \<open>Properties\<close>




definition ex_heap :: "u8 heap" where "ex_heap = \<lparr>alloc_ok = \<lambda>_. True, alloc_junk = 0\<rparr>"
definition ex_oom :: "u8 heap" where "ex_oom = \<lparr>alloc_ok = \<lambda>_. False, alloc_junk = 0\<rparr>"
definition ex_junk :: cached_generic where
  "ex_junk = \<lparr>cnext = None, cprevious = None, cdata = \<lparr>variable = None, varsize = 0, payload = [0]\<rparr>\<rparr>"
definition ex_hjunk :: hash_entry where "ex_hjunk = \<lparr>hnext = None, hentry = 0\<rparr>"
definition ex_path :: "u8 \<Rightarrow> item" where
  "ex_path ch = \<lparr>variable = Some [0x2f, ch, 0], varsize = 3, payload = [ch, 0, 0, 0, 0, 0, 0, 0]\<rparr>"



text \<open>A scan of a list whose head is its own successor does not end.\<close>

lemma inv_lru_loop_cycle:
  assumes "ent c (Some i) = Ok e" "cnext e = Some i" "differs cmp c it (Some i) = Ok True"
  shows "inv_lru_loop cmp flags c it (Some i) n = None"
proof (rule ccontr)
  assume "inv_lru_loop cmp flags c it (Some i) n \<noteq> None"
  then obtain y where y: "inv_lru_loop cmp flags c it (Some i) n = Some y"
    by auto
  have "\<not> (cmp = cmp \<and> c = c \<and> it = it \<and> Some i = Some i)"
    by (rule inv_lru_loop.raw_induct [OF _ y, where P = "\<lambda>cmp' fl c' it' p k y. \<not> (cmp' = cmp \<and> c' = c \<and> it' = it \<and> p = Some i)"])
      (use assms in fastforce)
  then show False
    by simp
qed

definition ex_xinode :: "cache_header option" where
  "ex_xinode = (case ntfs_create_cache ex_heap ex_junk ex_hjunk False (Some ntfs_dir_inode_hash) 40 CACHE_INODE_SIZE (2 * CACHE_INODE_SIZE) of
     Ok r \<Rightarrow> r | _ \<Rightarrow> None)"

definition ex_broken :: "(cache_header \<times> item option list) run" where
  "ex_broken = (case ex_xinode of None \<Rightarrow> None
     | Some c \<Rightarrow> rbind (cache_run ex_heap inode_cache_compare inode_cache_inv_compare [Enter (ex_path 0x61)] c) (\<lambda>(c, r1).
         rbind (cache_run ex_oom inode_cache_compare inode_cache_inv_compare [Enter (ex_path 0x62), Fetch (ex_path 0x61)] c) (\<lambda>(c, r2).
         ret (c, map fst (r1 @ r2)))))"

lemma ex_broken_cycle:
  "case ex_broken of
     Some (Ok (c, rs)) \<Rightarrow>
       rs = [Some (ex_path 0x61), None, Some (ex_path 0x61)] \<and> most_recent_entry c = Some 0 \<and>
       differs inode_cache_inv_compare c (ex_path 0x63) (Some 0) = Ok True \<and>
       (case ent c (Some 0) of Ok e \<Rightarrow> cnext e = Some 0 | _ \<Rightarrow> False)
   | _ \<Rightarrow> False"
  by code_simp

text \<open>C33. An entry that could not be stored for lack of memory breaks the list of the cache: the head
  keeps a link back to the recycled entry. After the path of one file was cached, another one could
  not be cached, and the first one was fetched again, invalidating the paths below a renamed
  directory never returns.\<close>

theorem enter_failure_breaks_list:
  "\<exists>c. ex_broken = ret (c, [Some (ex_path 0x61), None, Some (ex_path 0x61)]) \<and>
     ntfs_invalidate_cache (Some c) (ex_path 0x63) inode_cache_inv_compare CACHE_NOHASH = None"
proof -
  obtain c e where c: "ex_broken = ret (c, [Some (ex_path 0x61), None, Some (ex_path 0x61)])" "most_recent_entry c = Some 0"
    "differs inode_cache_inv_compare c (ex_path 0x63) (Some 0) = Ok True" "ent c (Some 0) = Ok e" "cnext e = Some 0"
    using ex_broken_cycle by (auto split: option.splits outcome.splits)
  have "inv_lru_loop inode_cache_inv_compare CACHE_NOHASH c (ex_path 0x63) (Some 0) 0 = None"
    by (rule inv_lru_loop_cycle [OF c(4,5,3)])
  then show ?thesis
    using c(1,2) by (intro exI [of _ c]) (simp add: ntfs_invalidate_cache_def CACHE_NOHASH_def split: option.splits)
qed

end
