(* ===== verification/Utf.thy ===== *)
theory Utf
  imports Unistr
begin

text \<open>
  The conversion of names between UTF-16 and UTF-8 of \<^verbatim>\<open>unistr.c\<close>, compiled with
  \<^verbatim>\<open>ALLOW_BROKEN_UNICODE\<close>: single surrogates are converted too. A UTF-16 string is the list of its
  \<^verbatim>\<open>ins_len\<close> units; a UTF-8 string is a buffer with a terminating zero, and the list of the bytes from
  the current position on is what a \<^verbatim>\<open>char *\<close> points to. \<open>path_max\<close> is the system's \<^verbatim>\<open>PATH_MAX\<close>.
\<close>

section \<open>UTF-16 to UTF-8\<close>

text \<open>The loop over the units: whether the first half of a pair is pending, and the count of bytes.
  \<^verbatim>\<open>--i; continue\<close> handles the current unit again.\<close>

function utf16_size_loop :: "int \<Rightarrow> bool \<Rightarrow> int \<Rightarrow> ntfschar list \<Rightarrow> bool \<times> int" where
  "utf16_size_loop outs_len surrog count [] = (surrog, count)"
| "utf16_size_loop outs_len surrog count (c # cs) =
     (if c = 0 \<or> count > outs_len then (surrog, count)
      else if surrog
      then if c \<ge> 0xdc00 \<and> c < 0xe000 then utf16_size_loop outs_len False (count + 4) cs
           else utf16_size_loop outs_len False (count + 3) (c # cs)
      else if c < 0x80 then utf16_size_loop outs_len False (count + 1) cs
      else if c < 0x800 then utf16_size_loop outs_len False (count + 2) cs
      else if c < 0xd800 then utf16_size_loop outs_len False (count + 3) cs
      else if c < 0xdc00 then utf16_size_loop outs_len True count cs
      else utf16_size_loop outs_len False (count + 3) cs)"
  by pat_completeness auto
termination
  by (relation "measure (\<lambda>(m, s, n, cs). 2 * length cs + (if s then 1 else 0))") auto

definition utf16_to_utf8_size :: "ntfschar list \<Rightarrow> int \<Rightarrow> int outcome" where
  "utf16_to_utf8_size ins outs_len =
     (let (surrog, count) = utf16_size_loop outs_len False 0 ins;
          count = (if surrog \<and> count \<le> outs_len then count + 3 else count) in
      if count > outs_len then Err ENAMETOOLONG else Ok count)"

text \<open>The three bytes of a unit from \<^verbatim>\<open>0x800\<close> on, and the four bytes of a pair.\<close>

definition utf8_3 :: "u32 \<Rightarrow> u8 list" where
  "utf8_3 c = [ucast (0xe0 OR drop_bit 12 c), ucast (0x80 OR (drop_bit 6 c AND 0x3f)), ucast (0x80 OR (c AND 0x3f))]"

definition utf8_4 :: "u32 \<Rightarrow> u32 \<Rightarrow> u8 list" where
  "utf8_4 halfpair c =
     [ucast (0xf0 + (drop_bit 8 (halfpair + 64) AND 7)), ucast (0x80 + (drop_bit 2 (halfpair + 64) AND 63)),
      ucast (0x80 + (drop_bit 6 c AND 15) + push_bit 4 (halfpair AND 3)), ucast (0x80 + (c AND 63))]"

text \<open>The bytes written by the conversion loop; \<^verbatim>\<open>halfpair\<close> is 0 when no half is pending.\<close>

function utf8_loop :: "u32 \<Rightarrow> ntfschar list \<Rightarrow> u8 list" where
  "utf8_loop halfpair [] = (if halfpair \<noteq> 0 then utf8_3 halfpair else [])"
| "utf8_loop halfpair (u # cs) =
     (let c = ucast u in
      if u = 0 then (if halfpair \<noteq> 0 then utf8_3 halfpair else [])
      else if halfpair \<noteq> 0
      then if u \<ge> 0xdc00 \<and> u < 0xe000 then utf8_4 halfpair c @ utf8_loop 0 cs
           else utf8_3 halfpair @ utf8_loop 0 (u # cs)
      else if u < 0x80 then ucast c # utf8_loop 0 cs
      else if u < 0x800 then ucast (0xc0 OR (drop_bit 6 c AND 0x3f)) # ucast (0x80 OR (c AND 0x3f)) # utf8_loop 0 cs
      else if u < 0xd800 then utf8_3 c @ utf8_loop 0 cs
      else if u < 0xdc00 then utf8_loop c cs
      else utf8_3 c @ utf8_loop 0 cs)"
  by pat_completeness auto
termination
  by (relation "measure (\<lambda>(h, cs). 2 * length cs + (if h \<noteq> 0 then 1 else 0))") auto

text \<open>The result is the buffer and the length. Without a buffer one of the computed size is allocated.\<close>

definition ntfs_utf16_to_utf8 ::
  "u8 heap \<Rightarrow> nat \<Rightarrow> ntfschar list \<Rightarrow> u8 list option \<Rightarrow> (u8 list \<times> int) outcome" where
  "ntfs_utf16_to_utf8 H path_max ins outs =
     obind (utf16_to_utf8_size ins ((case outs of None \<Rightarrow> int path_max | Some b \<Rightarrow> int (length b)) - 1)) (\<lambda>size.
     obind (case outs of
              Some b \<Rightarrow> Ok b
            | None \<Rightarrow> if alloc_ok H (size + 1) then Ok (replicate (nat (size + 1)) (alloc_junk H)) else Err ENOMEM) (\<lambda>buf.
     let out = utf8_loop 0 ins @ [0] in
     obind (acopy buf 0 out 0 (int (length out))) (\<lambda>buf. Ok (buf, int (length out) - 1))))"

section \<open>UTF-8 to UTF-16\<close>

text \<open>The counting loop. The tests for the end of the string inside a sequence leave the loop.\<close>

fun utf8_size_loop :: "nat \<Rightarrow> nat \<Rightarrow> u8 list \<Rightarrow> nat outcome" where
  "utf8_size_loop path_max count [] = Fault"
| "utf8_size_loop path_max count (byte # s) =
     (if byte = 0 then Ok count
      else if count + 1 \<ge> path_max then Err ENAMETOOLONG
      else if byte \<ge> 0xc0
      then if byte \<ge> 0xf5 then Err EILSEQ
           else (case s of [] \<Rightarrow> Fault
                 | b1 # s1 \<Rightarrow> if b1 = 0 then Ok (count + 1)
                   else (case s1 of [] \<Rightarrow> Fault
                         | b2 # s2 \<Rightarrow> if b2 = 0 then Ok (count + 1)
                           else if byte < 0xe0 then utf8_size_loop path_max (count + 1) s1
                           else (case s2 of [] \<Rightarrow> Fault
                                 | b3 # s3 \<Rightarrow> if b3 = 0 then Ok (count + 1)
                                   else if byte < 0xf0 then utf8_size_loop path_max (count + 1) s2
                                   else if count + 2 \<ge> path_max then Err ENAMETOOLONG
                                   else utf8_size_loop path_max (count + 2) s3)))
      else utf8_size_loop path_max (count + 1) s)"

definition utf8_to_utf16_size :: "nat \<Rightarrow> u8 list \<Rightarrow> nat outcome" where
  "utf8_to_utf16_size path_max s = utf8_size_loop path_max 0 s"

definition is_cont :: "u8 list \<Rightarrow> nat \<Rightarrow> bool outcome" where
  "is_cont s i = obind (aget s (int i)) (\<lambda>b. Ok (b AND 0xc0 = 0x80))"

text \<open>The values of sequences of two, three and four bytes.\<close>

definition wc2 :: "u8 \<Rightarrow> u8 \<Rightarrow> u32" where
  "wc2 b0 b1 = push_bit 6 (ucast b0 AND 0x1f) OR (ucast b1 AND 0x3f)"

definition wc3 :: "u8 \<Rightarrow> u8 \<Rightarrow> u8 \<Rightarrow> u32" where
  "wc3 b0 b1 b2 = push_bit 12 (ucast b0 AND 0x0f) OR push_bit 6 (ucast b1 AND 0x3f) OR (ucast b2 AND 0x3f)"

definition wc4 :: "u8 \<Rightarrow> u8 \<Rightarrow> u8 \<Rightarrow> u8 \<Rightarrow> u32" where
  "wc4 b0 b1 b2 b3 =
     push_bit 18 (ucast b0 AND 0x07) OR push_bit 12 (ucast b1 AND 0x3f) OR push_bit 6 (ucast b2 AND 0x3f) OR (ucast b3 AND 0x3f)"

text \<open>The value and the number of bytes used, 0 at the end of the string.\<close>

definition utf8_to_unicode :: "u8 list \<Rightarrow> (u32 \<times> nat) outcome" where
  "utf8_to_unicode s =
     obind (aget s 0) (\<lambda>byte.
     if byte = 0 then Ok (0, 0)
     else if byte < 0x80 then Ok (ucast byte, 1)
     else if byte < 0xc2 then Err EILSEQ
     else if byte < 0xe0
     then obind (is_cont s 1) (\<lambda>k1.
          if k1 then Ok (wc2 byte (s ! 1), 2) else Err EILSEQ)
     else if byte < 0xf0
     then obind (is_cont s 1) (\<lambda>k1. obind (if k1 then is_cont s 2 else Ok False) (\<lambda>k2.
          if k2
          then let wc = wc3 byte (s ! 1) (s ! 2) in
               if wc \<ge> 0x800 \<and> wc \<le> 0xffff then Ok (wc, 3) else Err EILSEQ
          else Err EILSEQ))
     else if byte < 0xf5
     then obind (is_cont s 1) (\<lambda>k1. obind (if k1 then is_cont s 2 else Ok False) (\<lambda>k2.
          obind (if k2 then is_cont s 3 else Ok False) (\<lambda>k3.
          if k3
          then let wc = wc4 byte (s ! 1) (s ! 2) (s ! 3) in
               if wc \<le> 0x10ffff \<and> wc \<ge> 0x10000 then Ok (wc, 4) else Err EILSEQ
          else Err EILSEQ)))
     else Err EILSEQ)"

text \<open>The units of a code point.\<close>

definition utf16_units :: "u32 \<Rightarrow> ntfschar list" where
  "utf16_units wc =
     (if wc < 0x10000 then [ucast wc]
      else let wc = wc - 0x10000 in [ucast (drop_bit 10 wc + 0xd800), ucast ((wc AND 0x3ff) + 0xdc00)])"

lemma utf8_to_unicode_len: "utf8_to_unicode s = Ok (wc, m) \<Longrightarrow> m \<le> length s"
  by (auto simp: utf8_to_unicode_def is_cont_def aget_def Let_def obind_Ok_iff Suc_le_eq split: if_splits)

text \<open>The conversion loop writes to \<open>buf\<close> from index \<open>p\<close> on and gives the buffer and the index behind
  the terminating zero.\<close>

function utf16_loop :: "ntfschar list \<Rightarrow> nat \<Rightarrow> u8 list \<Rightarrow> (ntfschar list \<times> nat) outcome" where
  "utf16_loop buf p t =
     obind (utf8_to_unicode t) (\<lambda>(wc, m).
     if m = 0 then obind (aset buf (int p) 0) (\<lambda>buf. Ok (buf, p + 1))
     else let us = utf16_units wc in
          obind (acopy buf (int p) us 0 (int (length us))) (\<lambda>buf.
          utf16_loop buf (p + length us) (drop m t)))"
  by pat_completeness auto
termination
proof (relation "measure (\<lambda>(buf, p, t). length t)", goal_cases)
  case (2 buf p t x wc m us buf')
  then show ?case
    using utf8_to_unicode_len [of t wc m] by auto
qed simp

declare utf16_loop.simps [simp del]

definition ntfs_utf8_to_utf16 ::
  "u16 heap \<Rightarrow> nat \<Rightarrow> u8 list \<Rightarrow> ntfschar list option \<Rightarrow> (ntfschar list \<times> int) outcome" where
  "ntfs_utf8_to_utf16 H path_max ins outs =
     obind (utf8_to_utf16_size path_max ins) (\<lambda>shorts.
     obind (case outs of
              Some b \<Rightarrow> Ok b
            | None \<Rightarrow> if alloc_ok H ((int shorts + 1) * 2) then Ok (replicate (shorts + 1) (alloc_junk H)) else Err ENOMEM) (\<lambda>buf.
     obind (utf16_loop buf 0 ins) (\<lambda>(buf, p). Ok (buf, int p - 1))))"

end
