(* ===== verification/Utf_Props.thy ===== *)
theory Utf_Props
  imports Utf
begin

text \<open>
  The conversions between UTF-16 and UTF-8 are inverse on every string of units, single surrogates
  included, and never write behind the buffer they allocate. The bytes and units are compared as
  natural numbers, where the shifts and masks of the code are quotients and remainders.
\<close>

section \<open>Shifts and masks as arithmetic\<close>

lemma push_or_nat:
  assumes "b < 2 ^ n"
  shows "push_bit n a OR b = push_bit n a + (b :: nat)"
proof -
  have b: "b = take_bit n b"
    using assms by (simp add: take_bit_nat_eq_self)
  have "\<not> bit (push_bit n a) m \<or> \<not> bit (take_bit n b) m" for m
    by (auto simp: bit_simps)
  then show ?thesis
    using b disjunctive_add [of "push_bit n a" b] by simp
qed

lemma or_arith:
  fixes b :: nat
  shows "b < 16 \<Longrightarrow> 0xe0 OR b = 0xe0 + b" "b < 64 \<Longrightarrow> 0xc0 OR b = 0xc0 + b" "b < 64 \<Longrightarrow> 0x80 OR b = 0x80 + b"
  using push_or_nat [of b 4 14] push_or_nat [of b 6 3] push_or_nat [of b 6 2] by (simp_all add: push_bit_eq_mult)

lemma and_masks:
  fixes x :: u32
  shows "x AND 7 = take_bit 3 x" "x AND 0xf = take_bit 4 x" "x AND 0x1f = take_bit 5 x" "x AND 0x3f = take_bit 6 x"
    "x AND 3 = take_bit 2 x" "x AND 0x3ff = take_bit 10 x"
  by (simp_all add: take_bit_eq_mask mask_eq_exp_minus_1)

lemma unat_view:
  fixes x :: u32
  shows "unat (take_bit n x) = unat x mod 2 ^ n" "unat (drop_bit n x) = unat x div 2 ^ n"
    "unat (push_bit n x) = unat x * 2 ^ n mod 2 ^ 32"
proof -
  show "unat (take_bit n x) = unat x mod 2 ^ n"
    by (simp only: unsigned_take_bit_eq) (simp add: take_bit_eq_mod)
  show "unat (drop_bit n x) = unat x div 2 ^ n"
    using unsigned_less [of x, where ?'a = nat]
    by (simp only: unsigned_drop_bit_eq) (simp add: drop_bit_eq_div take_bit_nat_eq_self)
  show "unat (push_bit n x) = unat x * 2 ^ n mod 2 ^ 32"
    by (simp only: unsigned_push_bit_eq) (simp add: push_bit_eq_mult take_bit_eq_mod)
qed

lemma unat_casts:
  "unat (ucast (u :: u16) :: u32) = unat u" "unat (ucast (b :: u8) :: u32) = unat b"
  "unat (ucast (x :: u32) :: u8) = unat x mod 256" "unat (ucast (x :: u32) :: u16) = unat x mod 65536"
proof -
  show "unat (ucast (u :: u16) :: u32) = unat u"
    using unsigned_less [of u, where ?'a = nat] by (simp add: unsigned_ucast_eq take_bit_nat_eq_self)
  show "unat (ucast (b :: u8) :: u32) = unat b"
    using unsigned_less [of b, where ?'a = nat] by (simp add: unsigned_ucast_eq take_bit_nat_eq_self)
qed (simp_all add: unsigned_ucast_eq take_bit_eq_mod)

lemma and_push: "n AND push_bit k m = push_bit k (drop_bit k n AND (m :: nat))"
  by (rule bit_eqI) (auto simp: bit_simps)

lemma cont_iff: "(b :: u8) AND 0xc0 = 0x80 \<longleftrightarrow> 0x80 \<le> unat b \<and> unat b < 0xc0"
proof -
  have lt: "unat b < 256"
    using unsigned_less [of b, where ?'a = nat] by simp
  have "unat b div 64 AND 3 = unat b div 64 mod 4"
    using take_bit_eq_mask [of 2 "unat b div 64"] by (simp add: take_bit_eq_mod mask_eq_exp_minus_1)
  then have "unat (b AND 0xc0) = unat b div 64 mod 4 * 64"
    using and_push [of "unat b" 6 3] by (simp add: unsigned_and_eq push_bit_eq_mult drop_bit_eq_div)
  then have "b AND 0xc0 = 0x80 \<longleftrightarrow> unat b div 64 mod 4 * 64 = 128"
    by (simp add: word_unat_eq_iff)
  then show ?thesis
    using lt by auto
qed

lemmas u8_order = word_less_nat_alt word_le_nat_alt unat_eq_0 [symmetric]

section \<open>Decoding\<close>

lemma byte_bits:
  fixes b :: u8
  shows "unat b = 0xc0 + A \<Longrightarrow> A < 32 \<Longrightarrow> unat (ucast b AND 0x1f :: u32) = A"
    and "unat b = 0xe0 + A \<Longrightarrow> A < 16 \<Longrightarrow> unat (ucast b AND 0xf :: u32) = A"
    and "unat b = 0xf0 + A \<Longrightarrow> A < 8 \<Longrightarrow> unat (ucast b AND 7 :: u32) = A"
    and "unat b = 0x80 + A \<Longrightarrow> A < 64 \<Longrightarrow> unat (ucast b AND 0x3f :: u32) = A"
  using mod_mult_self3 [of 6 32 A] mod_mult_self3 [of 14 16 A] mod_mult_self3 [of 30 8 A] mod_mult_self3 [of 2 64 A]
  by (simp_all only: and_masks unat_view unat_casts) simp_all

lemma unat_push: "unat (x :: u32) = A \<Longrightarrow> A * 2 ^ n < 2 ^ 32 \<Longrightarrow> unat (push_bit n x) = push_bit n A"
  by (simp only: unat_view) (simp add: push_bit_eq_mult)

lemma of_unat: "unat w = n \<Longrightarrow> w = word_of_nat n"
  by auto

lemma dec1:
  assumes "unat b0 = k" "0 < k" "k < 0x80"
  shows "utf8_to_unicode (b0 # r) = Ok (word_of_nat k, 1)"
proof -
  have "ucast b0 = (word_of_nat k :: u32)"
    using assms by (simp add: word_unat_eq_iff unat_casts unat_of_nat)
  then show ?thesis
    using assms by (auto simp: utf8_to_unicode_def aget_def u8_order)
qed

lemma dec2:
  assumes "unat b0 = 0xc0 + A" "unat b1 = 0x80 + B" "2 \<le> A" "A < 32" "B < 64"
  shows "utf8_to_unicode (b0 # b1 # r) = Ok (word_of_nat (A * 64 + B), 2)"
proof -
  have wc: "unat (wc2 b0 b1) = A * 64 + B"
  proof -
    have "unat (push_bit 6 (ucast b0 AND 0x1f) :: u32) = push_bit 6 A"
      using assms by (intro unat_push byte_bits) simp_all
    moreover have "push_bit 6 A OR B = A * 64 + B"
      using push_or_nat [of B 6 A] assms by (simp add: push_bit_eq_mult)
    ultimately show ?thesis
      by (simp only: wc2_def unsigned_or_eq byte_bits(4) [OF assms(2,5)])
  qed
  show ?thesis
    unfolding of_unat [OF wc, symmetric]
    using assms by (simp add: utf8_to_unicode_def is_cont_def cont_iff aget_def u8_order Let_def)
qed

lemma dec3:
  assumes "unat b0 = 0xe0 + A" "unat b1 = 0x80 + B" "unat b2 = 0x80 + C" "A < 16" "B < 64" "C < 64"
    and "0x800 \<le> A * 4096 + B * 64 + C"
  shows "utf8_to_unicode (b0 # b1 # b2 # r) = Ok (word_of_nat (A * 4096 + B * 64 + C), 3)"
proof -
  have wc: "unat (wc3 b0 b1 b2) = A * 4096 + B * 64 + C"
  proof -
    have "unat (push_bit 12 (ucast b0 AND 0xf) :: u32) = push_bit 12 A" "unat (push_bit 6 (ucast b1 AND 0x3f) :: u32) = push_bit 6 B"
      using assms by (intro unat_push byte_bits; simp)+
    moreover have "push_bit 6 B OR C = B * 64 + C" "push_bit 12 A OR (B * 64 + C) = A * 4096 + B * 64 + C"
      using push_or_nat [of C 6 B] push_or_nat [of "B * 64 + C" 12 A] assms by (simp_all add: push_bit_eq_mult)
    ultimately show ?thesis
      by (simp only: wc3_def unsigned_or_eq byte_bits(4) [OF assms(3,6)] or.assoc)
  qed
  show ?thesis
    unfolding of_unat [OF wc, symmetric]
    using assms by (simp add: utf8_to_unicode_def is_cont_def cont_iff aget_def u8_order Let_def wc)
qed

lemma dec4:
  assumes "unat b0 = 0xf0 + A" "unat b1 = 0x80 + B" "unat b2 = 0x80 + C" "unat b3 = 0x80 + D" "A < 5" "B < 64" "C < 64" "D < 64"
    and "16 \<le> A * 64 + B" "A * 64 + B < 0x110"
  shows "utf8_to_unicode (b0 # b1 # b2 # b3 # r) = Ok (word_of_nat (A * 262144 + B * 4096 + C * 64 + D), 4)"
proof -
  have wc: "unat (wc4 b0 b1 b2 b3) = A * 262144 + B * 4096 + C * 64 + D"
  proof -
    have "unat (push_bit 18 (ucast b0 AND 7) :: u32) = push_bit 18 A" "unat (push_bit 12 (ucast b1 AND 0x3f) :: u32) = push_bit 12 B"
      "unat (push_bit 6 (ucast b2 AND 0x3f) :: u32) = push_bit 6 C"
      using assms by (intro unat_push byte_bits; simp)+
    moreover have "push_bit 6 C OR D = C * 64 + D" "push_bit 12 B OR (C * 64 + D) = B * 4096 + C * 64 + D"
      "push_bit 18 A OR (B * 4096 + C * 64 + D) = A * 262144 + B * 4096 + C * 64 + D"
      using push_or_nat [of D 6 C] push_or_nat [of "C * 64 + D" 12 B] push_or_nat [of "B * 4096 + C * 64 + D" 18 A] assms
      by (simp_all add: push_bit_eq_mult)
    ultimately show ?thesis
      by (simp only: wc4_def unsigned_or_eq byte_bits(4) [OF assms(4,8)] or.assoc)
  qed
  show ?thesis
    unfolding of_unat [OF wc, symmetric]
    using assms by (simp add: utf8_to_unicode_def is_cont_def cont_iff aget_def u8_order Let_def wc)
qed

section \<open>Encoding\<close>

lemma u16_bound: "unat (u :: u16) < 65536"
  using unsigned_less [of u, where ?'a = nat] by simp

lemma enc2:
  fixes u :: u16
  assumes "unat u < 0x800"
  shows "unat (ucast (0xc0 OR (drop_bit 6 (ucast u :: u32) AND 0x3f)) :: u8) = 0xc0 + unat u div 64"
    and "unat (ucast (0x80 OR ((ucast u :: u32) AND 0x3f)) :: u8) = 0x80 + unat u mod 64"
proof -
  have q: "unat u div 64 < 32"
    using assms by simp
  show "unat (ucast (0xc0 OR (drop_bit 6 (ucast u :: u32) AND 0x3f)) :: u8) = 0xc0 + unat u div 64"
    using q by (simp only: unat_casts and_masks unsigned_or_eq unat_view) (simp add: or_arith)
  show "unat (ucast (0x80 OR ((ucast u :: u32) AND 0x3f)) :: u8) = 0x80 + unat u mod 64"
    by (simp only: unat_casts and_masks unsigned_or_eq unat_view) (simp add: or_arith)
qed

lemma enc3:
  fixes c :: u32
  assumes "unat c < 0x10000"
  shows "map unat (utf8_3 c) = [0xe0 + unat c div 4096, 0x80 + unat c div 64 mod 64, 0x80 + unat c mod 64]"
proof -
  have q: "unat c div 4096 < 16"
    using assms by simp
  show ?thesis
    using q by (simp only: utf8_3_def list.map unat_casts and_masks unsigned_or_eq unat_view) (simp add: or_arith)
qed

lemma enc4:
  fixes h :: u32 and l :: u32
  assumes "unat h = 0xd800 + X" "unat l = 0xdc00 + Y" "X < 1024" "Y < 1024"
  shows "map unat (utf8_4 h l) =
    [0xf0 + (X + 64) div 256, 0x80 + (X + 64) div 4 mod 64, 0x80 + (Y div 64 + X mod 4 * 16), 0x80 + Y mod 64]"
proof -
  have h: "unat (h + 64) = 0xd840 + X"
    using assms by (simp add: unat_word_ariths)
  have d: "(0xd840 + X) div 256 = (X + 64) div 256 + 27 * 8" "(0xd840 + X) div 4 = (X + 64) div 4 + 216 * 64"
    "(0xdc00 + Y) div 64 = Y div 64 + 55 * 16"
    using div_mult_self1 [of 256 "X + 64" 216] div_mult_self1 [of 4 "X + 64" "216 * 64"] div_mult_self1 [of 64 Y 880]
    by (simp_all add: add.commute)
  have q: "(0xd840 + X) div 256 mod 8 = (X + 64) div 256" "(0xd840 + X) div 4 mod 64 = (X + 64) div 4 mod 64"
    "(0xdc00 + Y) div 64 mod 16 = Y div 64" "(0xd800 + X) mod 4 = X mod 4" "(0xdc00 + Y) mod 64 = Y mod 64"
    using assms(3,4) mod_mult_self3 [of 13824 4 X] mod_mult_self3 [of 880 64 Y]
    unfolding d mod_mult_self1 by simp_all
  have "(X + 64) div 256 < 8" "Y div 64 < 16"
    using assms by auto
  then show ?thesis
    unfolding utf8_4_def list.map unat_casts and_masks unat_word_ariths unat_view h assms(1,2)
    by (simp add: q)
qed

lemma units_bmp: "utf16_units (word_of_nat (unat u)) = [u]"
  using u16_bound [of u]
  by (simp add: utf16_units_def word_less_nat_alt unat_of_nat word_unat_eq_iff unat_casts)

lemma units_ucast: "utf16_units (ucast (u :: u16)) = [u]"
  using units_bmp [of u] by simp

lemma units_pair:
  assumes "unat h = 0xd800 + X" "unat l = 0xdc00 + Y" "X < 1024" "Y < 1024"
  shows "utf16_units (word_of_nat (0x10000 + X * 1024 + Y)) = [h, l]"
proof -
  let ?w = "word_of_nat (0x10000 + X * 1024 + Y) :: u32"
  have w: "?w - 0x10000 = word_of_nat (X * 1024 + Y)"
    by simp
  have u: "unat (word_of_nat (X * 1024 + Y) :: u32) = X * 1024 + Y"
    using assms by (simp only: unat_of_nat) simp
  have "unat (ucast (drop_bit 10 (word_of_nat (X * 1024 + Y)) + 0xd800 :: u32) :: u16) = unat h"
    "unat (ucast ((word_of_nat (X * 1024 + Y) AND 0x3ff) + 0xdc00 :: u32) :: u16) = unat l"
    using assms unfolding unat_casts and_masks unat_word_ariths unat_view u by simp_all
  moreover have "\<not> ?w < 0x10000"
    using assms by (simp only: word_less_nat_alt unat_of_nat) simp
  ultimately show ?thesis
    unfolding utf16_units_def Let_def w by (simp add: word_unat_eq_iff)
qed

section \<open>The strings that decode\<close>

text \<open>\<open>decodes t us\<close>: the conversion loop reads the units \<open>us\<close> from \<open>t\<close> and meets the terminating zero.\<close>

inductive decodes :: "u8 list \<Rightarrow> ntfschar list \<Rightarrow> bool" where
  stop: "decodes (0 # r) []"
| step: "utf8_to_unicode t = Ok (wc, m) \<Longrightarrow> m \<noteq> 0 \<Longrightarrow> decodes (drop m t) us \<Longrightarrow> decodes t (utf16_units wc @ us)"

lemma decodes_seq:
  "utf8_to_unicode (bs @ t) = Ok (wc, length bs) \<Longrightarrow> bs \<noteq> [] \<Longrightarrow> decodes t us \<Longrightarrow> utf16_units wc = vs \<Longrightarrow> decodes (bs @ t) (vs @ us)"
  using decodes.step [of "bs @ t" wc "length bs" us] by auto

lemma decodes_3:
  assumes "0x800 \<le> unat u" "decodes t us"
  shows "decodes (utf8_3 (ucast u) @ t) (u # us)"
proof -
  obtain b0 b1 b2 where b: "utf8_3 (ucast u) = [b0, b1, b2]"
    by (simp add: utf8_3_def)
  have u: "unat b0 = 0xe0 + unat u div 4096" "unat b1 = 0x80 + unat u div 64 mod 64" "unat b2 = 0x80 + unat u mod 64"
    using enc3 [of "ucast u"] u16_bound [of u] unfolding unat_casts b by simp_all
  have k: "unat u div 4096 * 4096 + unat u div 64 mod 64 * 64 + unat u mod 64 = unat u"
  proof -
    have "unat u div 4096 * 64 + unat u div 64 mod 64 = unat u div 64"
      using div_mult_mod_eq [of "unat u div 64" 64] by (simp add: div_mult2_eq [symmetric])
    then show ?thesis
      using div_mult_mod_eq [of "unat u" 64] by linarith
  qed
  have "utf8_to_unicode (b0 # b1 # b2 # t) = Ok (word_of_nat (unat u), 3)"
    using dec3 [OF u, of t] u16_bound [of u] assms(1) unfolding k by simp
  then show ?thesis
    using decodes_seq [of "[b0, b1, b2]" t _ us "[u]"] assms(2) unfolding b by (simp add: units_ucast)
qed

lemma decodes_2:
  assumes "0x80 \<le> unat u" "unat u < 0x800" "decodes t us"
  shows "decodes (ucast (0xc0 OR (drop_bit 6 (ucast u :: u32) AND 0x3f)) # ucast (0x80 OR ((ucast u :: u32) AND 0x3f)) # t) (u # us)"
    (is "decodes (?b0 # ?b1 # t) _")
proof -
  have "utf8_to_unicode (?b0 # ?b1 # t) = Ok (word_of_nat (unat u), 2)"
    using dec2 [OF enc2 [OF assms(2)], of t] assms by simp
  then show ?thesis
    using decodes_seq [of "[?b0, ?b1]" t _ us "[u]"] assms(3) by (simp add: units_ucast)
qed

lemma decodes_1:
  assumes "0 < unat u" "unat u < 0x80" "decodes t us"
  shows "decodes (ucast (ucast u :: u32) # t) (u # us)"
proof -
  have "utf8_to_unicode (ucast (ucast u :: u32) # t) = Ok (word_of_nat (unat u), 1)"
    using assms by (intro dec1) (simp_all add: unat_casts)
  then show ?thesis
    using decodes_seq [of "[ucast (ucast u :: u32)]" t _ us "[u]"] assms(3) by (simp add: units_ucast)
qed

lemma pair_arith:
  assumes "A * 64 + B = Q" "Q = X4 + 16" "Y64 * 64 + Ym = Y" "X4 * 4 + Xm = X"
  shows "A * 262144 + B * 4096 + (Y64 + Xm * 16) * 64 + Ym = 0x10000 + X * 1024 + (Y :: nat)"
proof -
  have "A * 262144 + B * 4096 = 4096 * X4 + 0x10000"
    using arg_cong [OF trans [OF assms(1,2)], of "(*) 4096"] by simp
  then show ?thesis
    unfolding assms(3,4) [symmetric] by simp
qed

lemma decodes_4:
  assumes "unat h = 0xd800 + X" "unat l = 0xdc00 + Y" "X < 1024" "Y < 1024" "decodes t us"
  shows "decodes (utf8_4 (ucast h) (ucast l) @ t) (h # l # us)"
proof -
  obtain b0 b1 b2 b3 where b: "utf8_4 (ucast h) (ucast l) = [b0, b1, b2, b3]"
    by (simp add: utf8_4_def)
  have u: "unat b0 = 0xf0 + (X + 64) div 256" "unat b1 = 0x80 + (X + 64) div 4 mod 64"
    "unat b2 = 0x80 + (Y div 64 + X mod 4 * 16)" "unat b3 = 0x80 + Y mod 64"
    using enc4 [of "ucast h" X "ucast l" Y] assms unfolding unat_casts b by simp_all
  have q: "(X + 64) div 256 * 64 + (X + 64) div 4 mod 64 = (X + 64) div 4"
    using div_mult_mod_eq [of "(X + 64) div 4" 64] by (simp add: div_mult2_eq [symmetric])
  have r: "(X + 64) div 4 = X div 4 + 16"
    using div_mult_self1 [of 4 X 16] by simp
  have k: "(X + 64) div 256 * 262144 + (X + 64) div 4 mod 64 * 4096 + (Y div 64 + X mod 4 * 16) * 64 + Y mod 64
    = 0x10000 + X * 1024 + Y"
    by (rule pair_arith [OF q r]) simp_all
  have "X mod 4 * 16 \<le> 48" "Y div 64 < 16"
    using assms by (auto simp: less_Suc_eq_le [symmetric])
  then have "utf8_to_unicode (b0 # b1 # b2 # b3 # t) = Ok (word_of_nat (0x10000 + X * 1024 + Y), 4)"
    using dec4 [OF u, of t] assms q unfolding k by auto
  then show ?thesis
    using decodes_seq [of "[b0, b1, b2, b3]" t _ us "[h, l]"] assms(5) units_pair [OF assms(1-4)] unfolding b by simp
qed

text \<open>The bytes of a string of units read back as these units, a pending half first.\<close>

lemma utf8_loop_0:
  "u \<noteq> 0 \<Longrightarrow> utf8_loop 0 (u # cs) =
    (if unat u < 0x80 then ucast (ucast u :: u32) # utf8_loop 0 cs
     else if unat u < 0x800
     then ucast (0xc0 OR (drop_bit 6 (ucast u :: u32) AND 0x3f)) # ucast (0x80 OR ((ucast u :: u32) AND 0x3f)) # utf8_loop 0 cs
     else if 0xd800 \<le> unat u \<and> unat u < 0xdc00 then utf8_loop (ucast u) cs
     else utf8_3 (ucast u) @ utf8_loop 0 cs)"
  by (simp add: Let_def word_less_nat_alt)

lemma utf8_loop_h:
  "h \<noteq> 0 \<Longrightarrow> u \<noteq> 0 \<Longrightarrow> utf8_loop h (u # cs) =
    (if 0xdc00 \<le> u \<and> u < 0xe000 then utf8_4 h (ucast u) @ utf8_loop 0 cs else utf8_3 h @ utf8_loop 0 (u # cs))"
  by (subst utf8_loop.simps) (simp del: utf8_loop.simps)

declare utf8_loop.simps(2) [simp del]

lemma utf8_loop_decodes:
  assumes "0 \<notin> set us"
  shows "decodes (utf8_loop 0 us @ [0]) us"
    and "0xd800 \<le> h \<Longrightarrow> h < 0xdc00 \<Longrightarrow> decodes (utf8_loop (ucast h) us @ [0]) (h # us)"
proof -
  have "decodes (utf8_loop 0 us @ [0]) us \<and>
    (\<forall>h. 0xd800 \<le> h \<longrightarrow> h < 0xdc00 \<longrightarrow> decodes (utf8_loop (ucast h) us @ [0]) (h # us))"
    using assms
  proof (induction us)
    case Nil
    have "decodes (utf8_3 (ucast h) @ [0]) [h]" if "0xd800 \<le> h" "h < 0xdc00" for h :: u16
      using that decodes_3 [OF _ decodes.stop, of h "[]"] by (simp add: word_le_nat_alt)
    moreover have "ucast h \<noteq> (0 :: u32)" if "0xd800 \<le> h" for h :: u16
      using that by (auto simp: word_le_nat_alt word_unat_eq_iff unat_casts)
    ultimately show ?case
      by (auto simp: decodes.stop)
  next
    case (Cons u cs)
    then have u: "u \<noteq> 0" and A: "decodes (utf8_loop 0 cs @ [0]) cs"
      and B: "\<And>h. 0xd800 \<le> h \<Longrightarrow> h < 0xdc00 \<Longrightarrow> decodes (utf8_loop (ucast h) cs @ [0]) (h # cs)"
      by auto
    note ord = word_le_nat_alt word_less_nat_alt not_less not_le
    have A': "decodes (utf8_loop 0 (u # cs) @ [0]) (u # cs)"
      using u A B [of u] decodes_1 [OF _ _ A, of u] decodes_2 [OF _ _ A, of u] decodes_3 [OF _ A, of u]
      by (auto simp: utf8_loop_0 ord unat_gt_0)
    have "decodes (utf8_loop (ucast h) (u # cs) @ [0]) (h # u # cs)" if h: "0xd800 \<le> h" "h < 0xdc00" for h
    proof -
      have "ucast h \<noteq> (0 :: u32)"
        using h by (auto simp: word_le_nat_alt word_unat_eq_iff unat_casts)
      moreover have "decodes (utf8_4 (ucast h) (ucast u) @ utf8_loop 0 cs @ [0]) (h # u # cs)" if "0xdc00 \<le> u \<and> u < 0xe000"
        using that h A by (intro decodes_4 [of h "unat h - 0xd800" u "unat u - 0xdc00"]) (auto simp: ord)
      moreover have "decodes (utf8_3 (ucast h) @ utf8_loop 0 (u # cs) @ [0]) (h # u # cs)"
        using h A' by (intro decodes_3) (auto simp: ord)
      ultimately show ?thesis
        using u by (simp add: utf8_loop_h)
    qed
    then show ?case
      using A' by blast
  qed
  then show "decodes (utf8_loop 0 us @ [0]) us"
    and "0xd800 \<le> h \<Longrightarrow> h < 0xdc00 \<Longrightarrow> decodes (utf8_loop (ucast h) us @ [0]) (h # us)"
    by blast+
qed

section \<open>The size and the buffer\<close>

lemma units_length: "length (utf16_units wc) = (if wc < 0x10000 then 1 else 2)"
  by (simp add: utf16_units_def Let_def)

lemma unat_wc2: "unat (wc2 a b) < 2048"
proof -
  have "unat (ucast a AND 0x1f :: u32) < 32" "unat (ucast b AND 0x3f :: u32) < 64"
    by (simp_all only: and_masks unat_view) simp_all
  then show ?thesis
    using unat_push [of "ucast a AND 0x1f" _ 6] push_or_nat [of "unat (ucast b AND 0x3f :: u32)" 6 "unat (ucast a AND 0x1f :: u32)"]
    by (simp only: wc2_def unsigned_or_eq) (simp add: push_bit_eq_mult)
qed

lemma is_cont_Cons: "is_cont (b # s) (Suc i) = is_cont s i" "is_cont [] i = Fault"
  "is_cont (b # s) 0 = Ok (0x80 \<le> unat b \<and> unat b < 0xc0)"
  by (simp_all add: is_cont_def aget_def cont_iff nat_add_distrib flip: of_nat_Suc)

lemma is_cont_numeral: "is_cont (b # s) (numeral k) = is_cont s (pred_numeral k)"
  by (simp add: numeral_eq_Suc is_cont_Cons)

text \<open>The sequences that are read: the first byte gives the length, and no later byte is zero.\<close>

lemma utf8_to_unicode_cases:
  assumes "utf8_to_unicode t = Ok (wc, m)" "m \<noteq> 0"
  obtains b s where "t = b # s" "b \<noteq> 0" "unat b < 0xc0" "m = 1" "wc < 0x10000"
  | b b1 s where "t = b # b1 # s" "0xc0 \<le> unat b" "unat b < 0xe0" "b1 \<noteq> 0" "m = 2" "wc < 0x10000"
  | b b1 b2 s where "t = b # b1 # b2 # s" "0xe0 \<le> unat b" "unat b < 0xf0" "b1 \<noteq> 0" "b2 \<noteq> 0" "m = 3" "wc < 0x10000"
  | b b1 b2 b3 s where "t = b # b1 # b2 # b3 # s" "0xf0 \<le> unat b" "unat b < 0xf5" "b1 \<noteq> 0" "b2 \<noteq> 0" "b3 \<noteq> 0" "m = 4"
      "\<not> wc < 0x10000"
proof (cases t)
  case Nil
  then show ?thesis
    using assms by (simp add: utf8_to_unicode_def aget_def)
next
  case (Cons b s)
  note ev = utf8_to_unicode_def aget_def is_cont_Cons is_cont_numeral word_less_nat_alt word_le_nat_alt Let_def
  have "b \<noteq> 0"
    using assms unfolding Cons by (auto simp: utf8_to_unicode_def aget_def split: if_splits)
  consider "unat b < 0x80" | "0xc2 \<le> unat b" "unat b < 0xe0" | "0xe0 \<le> unat b" "unat b < 0xf0" | "0xf0 \<le> unat b" "unat b < 0xf5"
    using assms unfolding Cons
    by (auto simp: utf8_to_unicode_def aget_def word_less_nat_alt not_less split: if_splits)
  then show ?thesis
  proof cases
    case 1
    then show ?thesis
      using assms \<open>b \<noteq> 0\<close> that(1) [of b s] unfolding Cons
      by (auto simp: utf8_to_unicode_def aget_def word_less_nat_alt unat_casts)
  next
    case 2
    then obtain b1 s1 where s: "s = b1 # s1" "0x80 \<le> unat b1" "m = 2" "wc = wc2 b b1"
      using assms \<open>b \<noteq> 0\<close> unfolding Cons by (cases s) (auto simp: ev split: if_splits)
    then show ?thesis
      using 2 unat_wc2 [of b b1] by (intro that(2) [of b b1 s1]) (auto simp: Cons word_less_nat_alt)
  next
    case 3
    then obtain b1 b2 s1 where s: "s = b1 # b2 # s1" "0x80 \<le> unat b1" "0x80 \<le> unat b2" "m = 3" "unat wc < 0x10000"
      using assms \<open>b \<noteq> 0\<close> unfolding Cons
      by (cases s; cases "tl s") (auto simp: ev obind_Ok_iff split: if_splits)
    then show ?thesis
      using 3 by (intro that(3) [of b b1 b2 s1]) (auto simp: Cons word_less_nat_alt)
  next
    case 4
    then obtain b1 b2 b3 s1 where s: "s = b1 # b2 # b3 # s1" "0x80 \<le> unat b1" "0x80 \<le> unat b2" "0x80 \<le> unat b3"
        "m = 4" "\<not> unat wc < 0x10000"
      using assms \<open>b \<noteq> 0\<close> unfolding Cons
      by (cases s; cases "tl s"; cases "tl (tl s)") (auto simp: ev obind_Ok_iff split: if_splits)
    then show ?thesis
      using 4 by (intro that(4) [of b b1 b2 b3 s1]) (auto simp: Cons word_less_nat_alt)
  qed
qed

lemma size_loop_0: "utf8_size_loop path_max c (0 # s) = Ok c"
  by simp

lemma size_loop_seq:
  assumes "c + 1 < path_max"
  shows "b \<noteq> 0 \<Longrightarrow> unat b < 0xc0 \<Longrightarrow> utf8_size_loop path_max c (b # s) = utf8_size_loop path_max (c + 1) s"
    and "0xc0 \<le> unat b \<Longrightarrow> unat b < 0xe0 \<Longrightarrow> b1 \<noteq> 0 \<Longrightarrow>
      utf8_size_loop path_max c (b # b1 # s) = utf8_size_loop path_max (c + 1) s"
    and "0xe0 \<le> unat b \<Longrightarrow> unat b < 0xf0 \<Longrightarrow> b1 \<noteq> 0 \<Longrightarrow> b2 \<noteq> 0 \<Longrightarrow>
      utf8_size_loop path_max c (b # b1 # b2 # s) = utf8_size_loop path_max (c + 1) s"
    and "0xf0 \<le> unat b \<Longrightarrow> unat b < 0xf5 \<Longrightarrow> b1 \<noteq> 0 \<Longrightarrow> b2 \<noteq> 0 \<Longrightarrow> b3 \<noteq> 0 \<Longrightarrow>
      utf8_size_loop path_max c (b # b1 # b2 # b3 # s) =
        (if c + 2 < path_max then utf8_size_loop path_max (c + 2) s else Err ENAMETOOLONG)"
  using assms
  by (subst utf8_size_loop.simps, auto simp: word_less_nat_alt word_le_nat_alt unat_eq_0 size_loop_0 simp del: utf8_size_loop.simps(2) split: list.split)+

declare utf8_size_loop.simps(2) [simp del]

lemma size_loop_step:
  assumes "utf8_to_unicode t = Ok (wc, m)" "m \<noteq> 0" "c + length (utf16_units wc) < path_max"
  shows "utf8_size_loop path_max c t = utf8_size_loop path_max (c + length (utf16_units wc)) (drop m t)"
  using assms(1,2) by (cases rule: utf8_to_unicode_cases) (use assms(3) in \<open>simp_all add: units_length size_loop_seq\<close>)

lemma size_loop_decodes:
  "decodes t us \<Longrightarrow> c + length us < path_max \<Longrightarrow> utf8_size_loop path_max c t = Ok (c + length us)"
proof (induction arbitrary: c rule: decodes.induct)
  case (step t wc m us)
  have "utf8_size_loop path_max c t = utf8_size_loop path_max (c + length (utf16_units wc)) (drop m t)"
    using step.prems by (intro size_loop_step [OF step.hyps(1,2)]) simp
  then show ?case
    using step.IH [of "c + length (utf16_units wc)"] step.prems by (simp add: add.assoc)
qed (simp add: size_loop_0)

lemma utf16_loop_decodes:
  "decodes t us \<Longrightarrow> length M = length us + 1 \<Longrightarrow>
    utf16_loop (A @ M @ B) (length A) t = Ok (A @ us @ 0 # B, length A + length us + 1)"
proof (induction arbitrary: A M rule: decodes.induct)
  case (stop r)
  then obtain x where "M = [x]"
    by (cases M) auto
  then show ?case
    by (subst utf16_loop.simps) (simp add: utf8_to_unicode_def aget_def aset_app)
next
  case (step t wc m us)
  let ?v = "utf16_units wc"
  have "acopy (A @ take (length ?v) M @ drop (length ?v) M @ B) (int (length A)) ?v 0 (int (length ?v)) =
    Ok ((A @ ?v) @ drop (length ?v) M @ B)"
    using acopy_app [of "int (length A)" A 0 "[]" "int (length ?v)" ?v "take (length ?v) M" "drop (length ?v) M @ B" "[]"] step.prems by simp
  then show ?case
    using step.hyps step.prems step.IH [of "drop (length ?v) M" "A @ ?v"] append_take_drop_id [of "length ?v" M]
    by (subst utf16_loop.simps) (simp add: Let_def add.assoc del: append_take_drop_id flip: append_assoc)
qed

lemma decodes_len: "decodes t us \<Longrightarrow> length us < length t"
proof (induction rule: decodes.induct)
  case (step t wc m us)
  have "length (utf16_units wc) \<le> m \<and> m \<le> length t"
    using step.hyps(1,2) by (cases rule: utf8_to_unicode_cases) (auto simp: units_length)
  then show ?case
    using step.IH by auto
qed simp

section \<open>The size of the bytes\<close>

lemma utf8_lengths: "length (utf8_3 c) = 3" "length (utf8_4 h c) = 4"
  by (simp_all add: utf8_3_def utf8_4_def)

lemma utf8_loop_zero: "utf8_loop h (0 # us) = utf8_loop h []"
  by (simp add: utf8_loop.simps)

lemma size_loop_mono: "utf16_size_loop m b c us = (s, n) \<Longrightarrow> c \<le> n"
  by (induction m b c us rule: utf16_size_loop.induct) (auto split: if_splits)

lemma utf16_size_loop_step:
  assumes "u \<noteq> 0" "c \<le> m"
  shows "utf16_size_loop m True c (u # cs) =
      (if 0xdc00 \<le> u \<and> u < 0xe000 then utf16_size_loop m False (c + 4) cs else utf16_size_loop m False (c + 3) (u # cs))"
    and "utf16_size_loop m False c (u # cs) =
      (if 0xd800 \<le> u \<and> u < 0xdc00 then utf16_size_loop m True c cs
       else utf16_size_loop m False (c + (if u < 0x80 then 1 else if u < 0x800 then 2 else 3)) cs)"
  using assms by (subst utf16_size_loop.simps, simp_all add: word_less_nat_alt word_le_nat_alt del: utf16_size_loop.simps)+

lemma utf16_size_loop_stop: "u = 0 \<or> m < c \<Longrightarrow> utf16_size_loop m b c (u # cs) = (b, c)"
  by simp

declare utf16_size_loop.simps(2) [simp del]

definition sized :: "int \<Rightarrow> bool \<Rightarrow> int \<Rightarrow> ntfschar list \<Rightarrow> nat \<Rightarrow> bool" where
  "sized m b c us k \<longleftrightarrow> (case utf16_size_loop m b c us of (s, n) \<Rightarrow> if n \<le> m then n + (if s then 3 else 0) = c + int k else m < c + int k)"

lemma sized_step:
  "utf16_size_loop m b c us = utf16_size_loop m b' c' us' \<Longrightarrow> sized m b' c' us' k' \<Longrightarrow> c + int k = c' + int k' \<Longrightarrow> sized m b c us k"
  by (auto simp: sized_def split: prod.splits if_splits)

lemma sized_bytes:
  "sized m False c us (length (utf8_loop 0 us))"
  "h \<noteq> 0 \<Longrightarrow> sized m True c us (length (utf8_loop h us))"
proof -
  have "(\<forall>c. sized m False c us (length (utf8_loop 0 us))) \<and> (\<forall>h c. h \<noteq> 0 \<longrightarrow> sized m True c us (length (utf8_loop h us)))"
  proof (induction us)
    case (Cons u cs)
    have A0: "sized m False c cs (length (utf8_loop 0 cs))" and B0: "h \<noteq> 0 \<Longrightarrow> sized m True c cs (length (utf8_loop h cs))" for c h
      using Cons by blast+
    have u32: "0xd800 \<le> unat u \<Longrightarrow> ucast u \<noteq> (0 :: u32)"
      by (auto simp: word_unat_eq_iff unat_casts)
    have A: "sized m False c (u # cs) (length (utf8_loop 0 (u # cs)))" for c
    proof (cases "u = 0 \<or> m < c")
      case False
      show ?thesis
      proof (cases "0xd800 \<le> unat u \<and> unat u < 0xdc00")
        case True
        then show ?thesis
          using False by (intro sized_step [OF _ B0 [of "ucast u" c]])
            (simp_all add: u32 utf16_size_loop_step(2) utf8_loop_0 word_le_nat_alt word_less_nat_alt)
      next
        case outside: False
        then show ?thesis
          using False by (intro sized_step [OF _ A0 [of "c + (if u < 0x80 then 1 else if u < 0x800 then 2 else 3)"]])
            (auto simp: utf16_size_loop_step(2) utf8_loop_0 utf8_lengths word_le_nat_alt word_less_nat_alt)
      qed
    qed (auto simp: sized_def utf8_loop_zero utf16_size_loop_stop)
    have "sized m True c (u # cs) (length (utf8_loop h (u # cs)))" if "h \<noteq> 0" for h c
    proof (cases "u = 0 \<or> m < c")
      case False
      show ?thesis
      proof (cases "0xdc00 \<le> u \<and> u < 0xe000")
        case True
        then show ?thesis
          using False that by (intro sized_step [OF _ A0 [of "c + 4"]])
            (simp_all add: utf16_size_loop_step(1) utf8_loop_h utf8_lengths)
      next
        case outside: False
        then show ?thesis
          using False that by (intro sized_step [OF _ A [of "c + 3"]])
            (auto simp: utf16_size_loop_step(1) utf8_loop_h utf8_lengths)
      qed
    qed (use that in \<open>auto simp: sized_def utf8_loop_zero utf16_size_loop_stop utf8_lengths\<close>)
    with A show ?case
      by blast
  qed (simp add: sized_def utf8_lengths)
  then show "sized m False c us (length (utf8_loop 0 us))" "h \<noteq> 0 \<Longrightarrow> sized m True c us (length (utf8_loop h us))"
    by blast+
qed

lemma utf16_to_utf8_size_bytes:
  "utf16_to_utf8_size us m = (if int (length (utf8_loop 0 us)) \<le> m then Ok (int (length (utf8_loop 0 us))) else Err ENAMETOOLONG)"
  using sized_bytes(1) [of m 0 us] by (auto simp: sized_def utf16_to_utf8_size_def Let_def split: prod.splits if_splits)

text \<open>Into an allocated buffer the conversion gives the bytes of the units and the terminating zero.\<close>

lemma ntfs_utf16_to_utf8_alloc:
  assumes "length (utf8_loop 0 us) < path_max" "\<And>n. alloc_ok H n"
  shows "ntfs_utf16_to_utf8 H path_max us None = Ok (utf8_loop 0 us @ [0], int (length (utf8_loop 0 us)))"
  using assms acopy_app [of 0 "[]" 0 "[]" "1 + int (length (utf8_loop 0 us))" "utf8_loop 0 us @ [0]"
      "replicate (Suc (length (utf8_loop 0 us))) (alloc_junk H)" "[]" "[]"]
  by (auto simp: ntfs_utf16_to_utf8_def utf16_to_utf8_size_bytes Let_def nat_add_distrib add.commute)

lemma ntfs_utf8_to_utf16_decodes:
  assumes "decodes t us" "length us < path_max" "\<And>n. alloc_ok H n"
  shows "ntfs_utf8_to_utf16 H path_max t None = Ok (us @ [0], int (length us))"
  using assms size_loop_decodes [OF assms(1), of 0 path_max]
    utf16_loop_decodes [OF assms(1), of "replicate (length us + 1) (alloc_junk H)" "[]" "[]"]
  by (simp add: ntfs_utf8_to_utf16_def utf8_to_utf16_size_def)

section \<open>Every byte string\<close>

lemma utf8_to_unicode_safe:
  assumes "0 \<in> set t"
  shows "utf8_to_unicode t \<noteq> Fault"
proof -
  obtain b s where t: "t = b # s"
    using assms by (cases t) auto
  then show ?thesis
    using assms by (cases s; cases "tl s"; cases "tl (tl s)")
      (auto simp: utf8_to_unicode_def aget_def is_cont_Cons is_cont_numeral Let_def)
qed

lemma drop_zero:
  "utf8_to_unicode t = Ok (wc, m) \<Longrightarrow> 0 \<in> set t \<Longrightarrow> 0 \<in> set (drop m t)"
  by (cases "m = 0") (auto elim!: utf8_to_unicode_cases)

lemma size_loop_osafe: "0 \<in> set t \<Longrightarrow> osafe (\<lambda>n. c \<le> n) (utf8_size_loop path_max c t)"
proof (induction t arbitrary: c rule: length_induct)
  case (1 t)
  then obtain b s where t: "t = b # s"
    by (cases t) auto
  have IH: "osafe (\<lambda>n. c \<le> n) (utf8_size_loop path_max c' t')" if "length t' < length t" "0 \<in> set t'" "c \<le> c'" for t' c'
  proof -
    have "osafe (\<lambda>n. c' \<le> n) (utf8_size_loop path_max c' t')"
      using 1(1) that by blast
    then show ?thesis
      using that(3) by (elim osafe_mono) simp
  qed
  show ?case
    unfolding t using 1(2) IH [of s "c + 1"] IH [of "tl s" "c + 1"] IH [of "tl (tl s)" "c + 1"] IH [of "tl (tl (tl s))" "c + 2"] t
    by (subst utf8_size_loop.simps) (auto split: list.split)
qed

lemma size_loop_ge: "utf8_size_loop path_max c t = Ok n \<Longrightarrow> 0 \<in> set t \<Longrightarrow> c \<le> n"
  using size_loop_osafe [of t c path_max] by simp

lemma size_loop_short: "path_max \<le> c + 1 \<Longrightarrow> b \<noteq> 0 \<Longrightarrow> utf8_size_loop path_max c (b # s) = Err ENAMETOOLONG"
  by (simp add: utf8_size_loop.simps(2))

lemma size_loop_Ok_step:
  assumes "utf8_to_unicode t = Ok (wc, m)" "m \<noteq> 0" "utf8_size_loop path_max c t = Ok n"
  shows "utf8_size_loop path_max (c + length (utf16_units wc)) (drop m t) = Ok n"
proof -
  have c: "c + 1 < path_max"
    using assms(1,2) by (cases rule: utf8_to_unicode_cases; cases "path_max \<le> c + 1")
      (use assms(3) in \<open>auto simp: size_loop_short simp flip: unat_gt_0\<close>)
  have "c + length (utf16_units wc) < path_max"
    using assms(1,2) by (cases rule: utf8_to_unicode_cases)
      (use c assms(3) in \<open>auto simp: units_length size_loop_seq split: if_splits\<close>)
  then show ?thesis
    using size_loop_step [OF assms(1,2), of c path_max] assms(3) by simp
qed

lemma utf16_loop_safe:
  "0 \<in> set t \<Longrightarrow> utf8_size_loop path_max c t = Ok n \<Longrightarrow> p + n < c + length buf \<Longrightarrow> utf16_loop buf p t \<noteq> Fault"
proof (induction buf p t arbitrary: c rule: utf16_loop.induct)
  case (1 buf p t)
  consider e where "utf8_to_unicode t = Err e" | wc where "utf8_to_unicode t = Ok (wc, 0)"
    | wc m where "utf8_to_unicode t = Ok (wc, m)" "m \<noteq> 0"
    using utf8_to_unicode_safe [OF 1(2)] by (cases "utf8_to_unicode t") auto
  then show ?case
  proof cases
    case 1
    then show ?thesis
      by (subst utf16_loop.simps) simp
  next
    case (2 wc)
    then show ?thesis
      using 1(4) size_loop_ge [OF 1(3,2)] by (subst utf16_loop.simps) (simp add: aset_def)
  next
    case (3 wc m)
    let ?v = "utf16_units wc"
    have n: "utf8_size_loop path_max (c + length ?v) (drop m t) = Ok n"
      by (rule size_loop_Ok_step [OF 3 1(3)])
    have "acopy buf (int p) ?v 0 (int (length ?v)) \<noteq> Fault"
      using size_loop_ge [OF n drop_zero [OF 3(1) 1(2)]] 1(4) by (simp add: acopy_def)
    then obtain buf' where b: "acopy buf (int p) ?v 0 (int (length ?v)) = Ok buf'"
      by (cases "acopy buf (int p) ?v 0 (int (length ?v))") (auto simp: acopy_def split: if_splits)
    have "utf16_loop buf' (p + length ?v) (drop m t) \<noteq> Fault"
      by (rule 1(1) [OF 3(1) refl 3(2) refl b drop_zero [OF 3(1) 1(2)] n]) (use 1(4) acopy_length [OF b] in simp)
    then show ?thesis
      using 3 b by (subst utf16_loop.simps) simp
  qed
qed

section \<open>Properties\<close>

text \<open>C22. A string of UTF-16 units without a zero, single surrogates and all, whose bytes fit in
  \<^verbatim>\<open>PATH_MAX\<close>, is converted to UTF-8 and back to the same units, a terminating zero and its length.\<close>

theorem utf_round_trip:
  assumes "0 \<notin> set us" "length (utf8_loop 0 us) < path_max" "\<And>n. alloc_ok H n" "\<And>n. alloc_ok H' n"
  shows "obind (ntfs_utf16_to_utf8 H path_max us None) (\<lambda>(bytes, n). ntfs_utf8_to_utf16 H' path_max bytes None) =
    Ok (us @ [0], int (length us))"
proof -
  have d: "decodes (utf8_loop 0 us @ [0]) us"
    by (rule utf8_loop_decodes(1) [OF assms(1)])
  then have "length us < path_max"
    using decodes_len [OF d] assms(2) by simp
  then show ?thesis
    using ntfs_utf8_to_utf16_decodes [OF d] ntfs_utf16_to_utf8_alloc assms by simp
qed

theorem utf_round_trip_witness:
  "obind (ntfs_utf16_to_utf8 \<lparr> alloc_ok = (\<lambda>_. True), alloc_junk = 7 \<rparr> 4096 [0x41, 0xe9, 0xd83d, 0xde00, 0xdc00, 0xd800] None)
     (\<lambda>(bytes, n). ntfs_utf8_to_utf16 \<lparr> alloc_ok = (\<lambda>_. True), alloc_junk = 9 \<rparr> 4096 bytes None) =
   Ok ([0x41, 0xe9, 0xd83d, 0xde00, 0xdc00, 0xd800, 0], 6)"
proof -
  have "length (utf8_loop 0 [0x41, 0xe9, 0xd83d, 0xde00, 0xdc00, 0xd800]) < 4096"
    by code_simp
  then show ?thesis
    using utf_round_trip [of "[0x41, 0xe9, 0xd83d, 0xde00, 0xdc00, 0xd800]" 4096 "\<lparr> alloc_ok = (\<lambda>_. True), alloc_junk = 7 \<rparr>"
        "\<lparr> alloc_ok = (\<lambda>_. True), alloc_junk = 9 \<rparr>"] by simp
qed

text \<open>C24. The conversion to UTF-8 never writes outside its buffer, given or allocated, whatever the units:
  a string whose bytes do not fit is refused.\<close>

theorem utf16_to_utf8_safe: "ntfs_utf16_to_utf8 H path_max us outs \<noteq> Fault"
  by (cases outs) (auto simp: ntfs_utf16_to_utf8_def utf16_to_utf8_size_bytes Let_def acopy_def)

text \<open>C23. The conversion of any zero terminated byte string to UTF-16 into an allocated buffer stays
  inside the string and the buffer: what the counting loop allows for is never less than what the
  conversion writes, although it does not check the sequences.\<close>

theorem utf8_to_utf16_safe:
  assumes "0 \<in> set ins"
  shows "ntfs_utf8_to_utf16 H path_max ins None \<noteq> Fault"
proof (cases "utf8_to_utf16_size path_max ins")
  case (Ok n)
  then have "utf16_loop (replicate (n + 1) (alloc_junk H)) 0 ins \<noteq> Fault"
    using assms by (intro utf16_loop_safe [where c = 0]) (auto simp: utf8_to_utf16_size_def)
  then show ?thesis
    using Ok by (cases "utf16_loop (replicate (n + 1) (alloc_junk H)) 0 ins") (auto simp: ntfs_utf8_to_utf16_def)
next
  case Fault
  then show ?thesis
    using size_loop_osafe [OF assms, of 0 path_max] by (simp add: utf8_to_utf16_size_def)
qed (simp add: ntfs_utf8_to_utf16_def)

theorem utf8_to_utf16_safe_witness:
  "(0 :: u8) \<in> set [0x41, 0xf0, 0x9f, 0] \<and>
   ntfs_utf8_to_utf16 \<lparr> alloc_ok = (\<lambda>_. True), alloc_junk = 9 \<rparr> 4096 [0x41, 0xf0, 0x9f, 0] None \<noteq> Fault"
  using utf8_to_utf16_safe [of "[0x41, 0xf0, 0x9f, 0]" "\<lparr> alloc_ok = (\<lambda>_. True), alloc_junk = 9 \<rparr>" 4096] by simp

end
