(* ===== verification/Bootsect.thy ===== *)
theory Bootsect
  imports Le_Bytes Volume
begin

text \<open>
  The boot sector: recognition of an NTFS volume and the set-up of the volume's geometry
  (\<^verbatim>\<open>bootsect.c\<close>). A left shift of a signed value is defined in C only for a value that is not negative, an
  amount below the width and a result that the type can hold; any other shift, and a product of two 16 bit
  numbers that an \<^verbatim>\<open>int\<close> cannot hold, is a \<open>Fault\<close>.
\<close>

section \<open>The sector\<close>

record boot_sector =
  oem_id :: u64
  bytes_per_sector :: u16
  sectors_per_cluster :: u8
  reserved_sectors :: u16
  fats :: u8
  root_entries :: u16
  bpb_sectors :: u16
  sectors_per_fat :: u16
  large_sectors :: u32
  number_of_sectors :: int
  bs_mft_lcn :: int
  bs_mftmirr_lcn :: int
  clusters_per_mft_record :: u8
  clusters_per_index_record :: u8

text \<open>The fields of the packed structure in the bytes of the sector.\<close>

definition boot_sector_of :: "u8 list \<Rightarrow> boot_sector outcome" where
  "boot_sector_of b =
     (if length b < 512 then Fault
      else Ok \<lparr>oem_id = le64_at b 3, bytes_per_sector = le16_at b 11, sectors_per_cluster = b ! 13,
               reserved_sectors = le16_at b 14, fats = b ! 16, root_entries = le16_at b 17, bpb_sectors = le16_at b 19,
               sectors_per_fat = le16_at b 22, large_sectors = le32_at b 32, number_of_sectors = sint (le64_at b 40),
               bs_mft_lcn = sint (le64_at b 48), bs_mftmirr_lcn = sint (le64_at b 56),
               clusters_per_mft_record = b ! 64, clusters_per_index_record = b ! 68\<rparr>)"

section \<open>Recognition\<close>

text \<open>The left shift of a signed integer of \<open>w\<close> bits.\<close>

definition shl_signed :: "nat \<Rightarrow> int \<Rightarrow> int \<Rightarrow> int outcome" where
  "shl_signed w x k =
     (if 0 \<le> x \<and> 0 \<le> k \<and> k < int w \<and> x * 2 ^ nat k < 2 ^ (w - 1) then Ok (x * 2 ^ nat k) else Fault)"

definition NTFS_MAX_CLUSTER_SIZE :: u32 where "NTFS_MAX_CLUSTER_SIZE = 2097152"

text \<open>The number of sectors of a cluster, kept in 16 bits: codes above 128 are negative logarithms.\<close>

definition cluster_sectors :: "u8 \<Rightarrow> u16 outcome" where
  "cluster_sectors spc =
     (if spc > 128 then obind (shl_signed 32 1 (256 - uint spc)) (\<lambda>x. Ok (word_of_int x))
      else Ok (ucast spc))"

definition spc_code_ok :: "u8 \<Rightarrow> bool" where
  "spc_code_ok spc \<longleftrightarrow> spc \<in> {1, 2, 4, 8, 16, 32, 64, 128} \<or> \<not> (spc < 240 \<or> spc > 249)"

definition record_code_ok :: "u8 \<Rightarrow> bool" where
  "record_code_ok c \<longleftrightarrow> \<not> (c < 0xe1 \<or> c > 0xf7) \<or> c \<in> {1, 2, 4, 8, 0x10, 0x20, 0x40}"

definition ntfs_boot_sector_is_ntfs :: "boot_sector \<Rightarrow> bool outcome" where
  "ntfs_boot_sector_is_ntfs b =
     (if oem_id b \<noteq> 0x202020205346544e then Ok False
      else if bytes_per_sector b < 256 \<or> bytes_per_sector b > 4096 then Ok False
      else if \<not> spc_code_ok (sectors_per_cluster b) then Ok False
      else obind (cluster_sectors (sectors_per_cluster b)) (\<lambda>spc.
           if ucast (bytes_per_sector b) * ucast spc > NTFS_MAX_CLUSTER_SIZE then Ok False
           else if reserved_sectors b \<noteq> 0 \<or> root_entries b \<noteq> 0 \<or> bpb_sectors b \<noteq> 0 \<or> sectors_per_fat b \<noteq> 0 \<or>
                   large_sectors b \<noteq> 0 \<or> fats b \<noteq> 0 then Ok False
           else if \<not> record_code_ok (clusters_per_mft_record b) then Ok False
           else Ok (record_code_ok (clusters_per_index_record b))))"

section \<open>Geometry\<close>

text \<open>\<^verbatim>\<open>ffs\<close> of \<^verbatim>\<open>compat.c\<close>, the position of the least bit set, from 1, or 0: halving the word, with arithmetic
  shifts.\<close>

definition ffs_step :: "nat \<Rightarrow> u32 \<times> nat \<Rightarrow> u32 \<times> nat" where
  "ffs_step k = (\<lambda>(x, r). if x AND mask k = 0 then (signed_drop_bit k x, r + k) else (x, r))"

definition ffs :: "u32 \<Rightarrow> nat" where
  "ffs x = (if x = 0 then 0 else snd (fold ffs_step [16, 8, 4, 2, 1] (x, 1)))"

text \<open>The value stored for \<^verbatim>\<open>ffs(x) - 1\<close> in 8 bits.\<close>

definition log_bits :: "u32 \<Rightarrow> u8" where
  "log_bits x = of_nat (ffs x) - 1"

text \<open>The size of a record: a negative code is the negative logarithm of the size in bytes, other codes
  count clusters.\<close>

definition record_size :: "u8 \<Rightarrow> u8 \<Rightarrow> u32 outcome" where
  "record_size c csize_bits =
     obind (if sint c < 0 then shl_signed 32 1 (- sint c) else shl_signed 32 (sint c) (uint csize_bits))
       (\<lambda>x. Ok (word_of_int x))"

text \<open>\<open>seek\<close> is the device's operation, which moves its position; a result of -1 is a failure.\<close>

definition ntfs_boot_sector_parse ::
  "('d \<Rightarrow> int \<Rightarrow> 'd \<times> int) \<Rightarrow> 'd \<Rightarrow> ntfs_volume \<Rightarrow> boot_sector \<Rightarrow> 'd \<times> ntfs_volume outcome" where
  "ntfs_boot_sector_parse seek d vol bs =
     (let ssize = bytes_per_sector bs;
          sbits = log_bits (ucast ssize);
          vol = vol\<lparr>sector_size := ssize, sector_size_bits := sbits\<rparr> in
      case cluster_sectors (sectors_per_cluster bs) of Err e \<Rightarrow> (d, Err e) | Fault \<Rightarrow> (d, Fault) | Ok spc \<Rightarrow>
      if spc AND (spc - 1) \<noteq> 0 then (d, Err EINVAL)
      else let sectors = number_of_sectors bs in
      if sectors = 0 then (d, Err EINVAL)
      else case shl_signed 64 (sectors - 1) (uint sbits) of Err e \<Rightarrow> (d, Err e) | Fault \<Rightarrow> (d, Fault) | Ok last_sector \<Rightarrow>
      case seek d last_sector of (d, res) \<Rightarrow>
      if res = -1 then (d, Err EINVAL)
      else if ffs (ucast spc) = 0 then (d, Fault)
      else let nr = drop_bit (ffs (ucast spc) - 1) sectors;
               vol = vol\<lparr>nr_clusters := nr, mft_lcn := bs_mft_lcn bs, mftmirr_lcn := bs_mftmirr_lcn bs\<rparr> in
      if bs_mft_lcn bs < 0 \<or> bs_mft_lcn bs > nr \<or> bs_mftmirr_lcn bs < 0 \<or> bs_mftmirr_lcn bs > nr then (d, Err EINVAL)
      else if uint spc * uint ssize \<ge> 2 ^ 31 then (d, Fault)
      else let csize = ucast spc * ucast ssize in
      if csize AND (csize - 1) \<noteq> 0 then (d, Err EINVAL)
      else let cbits = log_bits csize; vol = vol\<lparr>cluster_size := csize, cluster_size_bits := cbits\<rparr> in
      (d, obind (record_size (clusters_per_mft_record bs) cbits) (\<lambda>msize.
          if msize AND (msize - 1) \<noteq> 0 then Err EINVAL
          else obind (record_size (clusters_per_index_record bs) cbits) (\<lambda>isize.
          if csize > 4 * msize \<and> msize = 0 then Fault
          else Ok (vol\<lparr>mft_record_size := msize, mft_record_size_bits := log_bits msize,
                       indx_record_size := isize, indx_record_size_bits := log_bits isize,
                       mftmirr_size := (if csize \<le> 4 * msize then 4 else int (unat (csize div msize)))\<rparr>)))))"

end
