(* ===== verification/Bootsect_Props.thy ===== *)
theory Bootsect_Props
  imports Bootsect
begin

text \<open>
  The geometry that the boot sector sets up is consistent: sizes are powers of two whose logarithms are
  stored beside them, the clusters lie in the sectors of the volume, and the MFT starts at most one cluster
  behind the last. Three accepted values are left out, for which the set-up performs an undefined shift: the
  code 240 of the cluster size, which is 0 in 16 bits, the code \<^verbatim>\<open>0xe1\<close> of a record size, which shifts into the
  sign bit, and a number of sectors that is negative or whose size in bytes does not fit 63 bits.
\<close>

section \<open>Powers of two\<close>

text \<open>Every step keeps the sum of the least bit and the count, and halves the range of the least bit.\<close>

definition least_bit :: "u32 \<Rightarrow> nat \<Rightarrow> bool" where
  "least_bit x i \<longleftrightarrow> bit x i \<and> (\<forall>j < i. \<not> bit x j)"

lemma ffs_step_least:
  assumes "least_bit x i" "i < 2 * k" "k < 32"
  obtains x' i' where "ffs_step k (x, r) = (x', r + (i - i'))" "least_bit x' i'" "i' < k" "i' \<le> i"
proof (cases "i < k")
  case True
  then have "x AND mask k \<noteq> 0"
    using assms(1) by (metis bit_0_eq bit_and_iff bit_mask_iff bit_imp_possible_bit bot_apply bot_bool_def least_bit_def)
  then show ?thesis
    using that [of x i] True assms by (simp add: ffs_step_def)
next
  case False
  have "x AND mask k = 0"
    using assms(1) False by (intro bit_word_eqI) (auto simp: bit_simps least_bit_def)
  moreover have "least_bit (signed_drop_bit k x) (i - k)"
  proof -
    have "i < 32"
      using assms(1) bit_imp_le_length [of x i] by (simp add: least_bit_def)
    then show ?thesis
      using assms False by (auto simp: least_bit_def bit_signed_drop_bit_iff)
  qed
  ultimately show ?thesis
    using that [of "signed_drop_bit k x" "i - k"] False assms(2) by (simp add: ffs_step_def)
qed

lemma ffs_fold:
  "least_bit x i \<Longrightarrow> i < 2 ^ n \<Longrightarrow> n \<le> 5 \<Longrightarrow> snd (fold ffs_step (map ((^) 2) (rev [0..<n])) (x, r)) = r + i"
proof (induction n arbitrary: x i r)
  case (Suc n)
  have "(2 :: nat) ^ n < 2 ^ 5"
    using Suc.prems(3) by (intro power_strict_increasing) simp_all
  then obtain x' i' where s: "ffs_step (2 ^ n) (x, r) = (x', r + (i - i'))" "least_bit x' i'" "i' < 2 ^ n" "i' \<le> i"
    using ffs_step_least [OF Suc.prems(1), of "2 ^ n" r] Suc.prems(2) by auto
  then show ?case
    using Suc.IH [OF s(2,3), of "r + (i - i')"] Suc.prems(3) by simp
qed simp

lemma ffs_least:
  assumes "least_bit x i"
  shows "ffs x = i + 1"
proof -
  have i: "i < 2 ^ 5" and x: "x \<noteq> 0"
    using assms bit_imp_le_length [of x i] by (auto simp: least_bit_def)
  have "map ((^) 2) (rev [0..<5]) = [16, 8, 4, 2, 1 :: nat]"
    by (simp add: upt_rec)
  then show ?thesis
    using ffs_fold [OF assms i, of 1] x by (simp add: ffs_def)
qed

lemma ffs_cases:
  obtains "x = 0" "ffs x = 0" | i where "i < 32" "ffs x = i + 1" "bit x i" "\<And>j. j < i \<Longrightarrow> \<not> bit x j"
proof (cases "x = 0")
  case True
  then show ?thesis
    using that(1) by (simp add: ffs_def)
next
  case False
  have "\<exists>k. bit x k"
  proof (rule ccontr)
    assume "\<not> ?thesis"
    then have "x = 0"
      by (intro bit_word_eqI) simp
    then show False
      using False by simp
  qed
  then obtain k where k: "bit x k"
    by blast
  define i where "i = (LEAST j. bit x j)"
  have "bit x i"
    unfolding i_def using k by (rule LeastI [of "bit x"])
  moreover have "\<not> bit x j" if "j < i" for j
    using that unfolding i_def by (rule not_less_Least)
  ultimately have l: "least_bit x i"
    by (simp add: least_bit_def)
  then show ?thesis
    using that(2) [of i] ffs_least [OF l] bit_imp_le_length [of x i] by (simp add: least_bit_def)
qed

lemma half_div: "0 < p \<Longrightarrow> (k * (2 * p) + p - 1) div (2 * p) = k" "0 < p \<Longrightarrow> (k * (2 * p) + p) div (2 * p) = (k :: nat)"
  by (rule div_nat_eqI; simp add: algebra_simps less_imp_diff_less)+

lemma pow2_nat:
  fixes n :: nat
  assumes "bit n i" "\<And>j. j < i \<Longrightarrow> \<not> bit n j" "n AND (n - 1) = 0"
  shows "n = 2 ^ i"
proof -
  have "take_bit i n = 0"
    by (rule bit_eqI) (auto simp: bit_simps assms(2))
  then have d: "n = n div 2 ^ i * 2 ^ i"
    using div_mult_mod_eq [of n "2 ^ i"] by (simp add: take_bit_eq_mod)
  have o: "odd (n div 2 ^ i)"
    using assms(1) by (simp add: bit_iff_odd)
  then obtain k where k: "n div 2 ^ i = 2 * k + 1"
    by (elim oddE)
  have n: "n = k * 2 ^ (i + 1) + 2 ^ i"
    using d unfolding k by (simp add: algebra_simps)
  have "n - 1 = k * 2 ^ (i + 1) + (2 ^ i - 1)"
    unfolding n by simp
  then have "(n - 1) div 2 ^ (i + 1) = k" "n div 2 ^ (i + 1) = k"
    using n half_div [of "2 ^ i" k] by simp_all
  then have "drop_bit (i + 1) (n AND (n - 1)) = k AND k"
    by (simp only: drop_bit_and) (simp add: drop_bit_eq_div)
  then have "k = 0"
    unfolding assms(3) by simp
  then show ?thesis
    using n by simp
qed

lemma pow2_word:
  fixes x :: u32
  assumes "x AND (x - 1) = 0" "x \<noteq> 0"
  obtains i where "i < 32" "ffs x = i + 1" "unat x = 2 ^ i" "log_bits x = of_nat i"
proof (cases x rule: ffs_cases)
  case (2 i)
  have "unat x AND (unat x - 1) = 0"
    using assms by (simp add: unsigned_and_eq unat_minus_one flip: unat_eq_0)
  moreover have "bit (unat x) i" "\<And>j. j < i \<Longrightarrow> \<not> bit (unat x) j"
    using 2 by (auto simp: bit_unsigned_iff)
  ultimately have "unat x = 2 ^ i"
    by (intro pow2_nat)
  then show ?thesis
    using that 2 by (simp add: log_bits_def)
qed (use assms in simp)

lemma ffs_pow2:
  assumes "unat (x :: u32) = 2 ^ k" "k < 32"
  shows "ffs x = k + 1" "log_bits x = of_nat k" "x AND (x - 1) = 0" "x \<noteq> 0"
proof -
  have x: "x = push_bit k 1"
    using arg_cong [OF assms(1), of "word_of_nat :: nat \<Rightarrow> u32"] by (simp add: push_bit_eq_mult)
  have b: "bit x j \<longleftrightarrow> j = k" for j
    using assms(2) by (auto simp: x bit_simps)
  show f: "ffs x = k + 1"
  proof (cases x rule: ffs_cases)
    case 1
    then show ?thesis
      using b [of k] by simp
  next
    case (2 i)
    then show ?thesis
      using b [of i] by simp
  qed
  show "log_bits x = of_nat k"
    by (simp add: log_bits_def f)
  have "unat (x AND (x - 1)) = 2 ^ k AND (2 ^ k - 1)"
    using assms by (simp add: unsigned_and_eq unat_minus_one flip: unat_eq_0)
  also have "\<dots> = 0"
    using take_bit_eq_mask [of k "2 ^ k :: nat"] by (simp add: mask_eq_exp_minus_1 take_bit_eq_mod)
  finally show "x AND (x - 1) = 0"
    by (simp add: unat_eq_0)
  show "x \<noteq> 0"
    using assms by auto
qed

section \<open>The codes\<close>

lemma shl_one: "0 < k \<Longrightarrow> k < 31 \<Longrightarrow> shl_signed 32 1 k = Ok (2 ^ nat k)"
  using power_strict_increasing [of "nat k" 31 "2 :: int"] by (simp add: shl_signed_def)

lemma unat_of_pow2: "k < LENGTH('a::len) \<Longrightarrow> unat (word_of_int (2 ^ k) :: 'a word) = 2 ^ k"
  using unat_of_nat [of "2 ^ k", where ?'a = 'a] by (simp add: take_bit_nat_eq_self)

lemma uint_unat: "uint x = int (unat x)"
  by simp

lemma spc_codes:
  assumes "spc_code_ok spc" "spc \<noteq> 240"
  obtains w j where "cluster_sectors spc = Ok w" "unat w = 2 ^ j" "j \<le> 15"
proof (cases "spc \<in> {1, 2, 4, 8, 16, 32, 64, 128}")
  case True
  then have "\<exists>j \<le> 7. unat spc = 2 ^ j"
    by (elim insertE) (force intro: exI [of _ "0 :: nat"] exI [of _ "1 :: nat"] exI [of _ "2 :: nat"] exI [of _ "3 :: nat"]
        exI [of _ "4 :: nat"] exI [of _ "5 :: nat"] exI [of _ "6 :: nat"] exI [of _ "7 :: nat"])+
  then obtain j where j: "j \<le> 7" "unat spc = 2 ^ j"
    by blast
  moreover have "\<not> spc > 128"
    using True by auto
  moreover have "unat (ucast spc :: u16) = unat spc"
    using unsigned_less [of spc, where ?'a = nat] by (simp add: unsigned_ucast_eq take_bit_nat_eq_self)
  ultimately show ?thesis
    using that [of "ucast spc" j] by (simp add: cluster_sectors_def)
next
  case False
  then have c: "241 \<le> unat spc" "unat spc \<le> 249"
    using assms by (auto simp: spc_code_ok_def word_less_nat_alt not_less word_unat_eq_iff)
  define k where "k = 256 - unat spc"
  have k: "256 - uint spc = int k" "k \<le> 15" "0 < k"
    using c by (simp_all only: k_def uint_unat)
  have "cluster_sectors spc = Ok (word_of_int (2 ^ k))"
    using c(1) k shl_one [of "int k"] by (simp add: cluster_sectors_def word_less_nat_alt)
  then show ?thesis
    using that k(2) unat_of_pow2 [of k, where ?'a = 16] by simp
qed

lemma sint_code:
  assumes "128 \<le> unat (c :: u8)"
  shows "sint c = int (unat c) - 256"
proof -
  have "unat c div 128 = 1"
    using assms unsigned_less [of c, where ?'a = nat] by (intro div_nat_eqI) simp_all
  then have "bit (unat c) 7"
    by (simp add: bit_iff_odd)
  then have "bit (uint c) 7"
    by (simp add: bit_unsigned_iff)
  moreover have "take_bit 8 (uint c) = uint c"
    using unsigned_less [of c, where ?'a = int] by (simp add: take_bit_int_eq_self)
  ultimately show ?thesis
    by (simp add: sint_uint signed_take_bit_eq_take_bit_minus)
qed

lemma record_codes:
  assumes "record_code_ok c" "c \<noteq> 0xe1" "unat cb \<le> 21"
  obtains w k where "record_size c cb = Ok w" "unat w = 2 ^ k" "k < 32"
proof (cases "c \<in> {1, 2, 4, 8, 0x10, 0x20, 0x40}")
  case True
  then have "\<exists>j \<le> 6. sint c = 2 ^ j"
    by (auto intro: exI [of _ "0 :: nat"] exI [of _ "1 :: nat"] exI [of _ "2 :: nat"] exI [of _ "3 :: nat"]
        exI [of _ "4 :: nat"] exI [of _ "5 :: nat"] exI [of _ "6 :: nat"])
  then obtain j where j: "j \<le> 6" "sint c = 2 ^ j"
    by blast
  have u: "uint cb < 32" "nat (uint cb) = unat cb"
    using assms(3) by (simp_all only: uint_unat nat_int)
  have "(2 :: int) ^ (j + unat cb) < 2 ^ 31"
    using j(1) assms(3) by (intro power_strict_increasing) simp_all
  then have "record_size c cb = Ok (word_of_int (2 ^ (j + unat cb)))"
    using j u by (simp add: record_size_def shl_signed_def power_add)
  then show ?thesis
    using that [of _ "j + unat cb"] unat_of_pow2 [of "j + unat cb", where ?'a = 32] j(1) assms(3) by simp
next
  case False
  then have c: "0xe2 \<le> unat c" "unat c \<le> 0xf7"
    using assms(1,2) by (auto simp: record_code_ok_def word_less_nat_alt not_less word_unat_eq_iff)
  define k where "k = 256 - unat c"
  have k: "sint c = - int k" "0 < k" "k < 31"
    using c sint_code [of c] by (simp_all add: k_def)
  then have "record_size c cb = Ok (word_of_int (2 ^ k))"
    using shl_one [of "int k"] by (simp add: record_size_def)
  then show ?thesis
    using that [of _ k] unat_of_pow2 [of k, where ?'a = 32] k by simp
qed

section \<open>The geometry\<close>

definition geometry_ok :: "boot_sector \<Rightarrow> ntfs_volume \<Rightarrow> bool" where
  "geometry_ok b vol \<longleftrightarrow>
     unat (sector_size vol) = 2 ^ unat (sector_size_bits vol) \<and>
     unat (cluster_size vol) = 2 ^ unat (cluster_size_bits vol) \<and>
     unat (mft_record_size vol) = 2 ^ unat (mft_record_size_bits vol) \<and>
     unat (indx_record_size vol) = 2 ^ unat (indx_record_size_bits vol) \<and>
     unat (sector_size vol) \<le> unat (cluster_size vol) \<and> cluster_size vol \<le> NTFS_MAX_CLUSTER_SIZE \<and>
     nr_clusters vol = number_of_sectors b * int (unat (sector_size vol)) div int (unat (cluster_size vol)) \<and>
     0 \<le> mft_lcn vol \<and> mft_lcn vol \<le> nr_clusters vol \<and> 0 \<le> mftmirr_lcn vol \<and> mftmirr_lcn vol \<le> nr_clusters vol"

lemma is_ntfs_fields:
  assumes "ntfs_boot_sector_is_ntfs b = Ok True" "cluster_sectors (sectors_per_cluster b) = Ok spc"
  shows "256 \<le> unat (bytes_per_sector b)" "spc_code_ok (sectors_per_cluster b)"
    "ucast spc * ucast (bytes_per_sector b) \<le> NTFS_MAX_CLUSTER_SIZE"
    "record_code_ok (clusters_per_mft_record b)" "record_code_ok (clusters_per_index_record b)"
  using assms by (auto simp: ntfs_boot_sector_is_ntfs_def word_less_nat_alt word_le_nat_alt mult.commute split: if_splits)

lemma log_bits_pow2: "unat x = 2 ^ k \<Longrightarrow> k < 32 \<Longrightarrow> unat (log_bits x) = k"
  by (simp add: ffs_pow2(2) unat_of_nat)

lemma pow2_factor:
  assumes "2 ^ j * s = (2 :: nat) ^ c"
  obtains i where "s = 2 ^ i" "c = j + i"
proof -
  have "j \<le> c"
  proof (rule ccontr)
    assume "\<not> j \<le> c"
    then have "(2 :: nat) ^ c < 2 ^ j * 1"
      by (simp add: power_strict_increasing)
    then show False
      using assms mult_le_mono2 [of 1 s "2 ^ j"] by (cases "s = 0") auto
  qed
  then have "2 ^ j * s = (2 :: nat) ^ j * 2 ^ (c - j)"
    using assms by (simp flip: power_add)
  then show ?thesis
    using that [of "c - j"] \<open>j \<le> c\<close> by simp
qed

lemma cast16: "unat (ucast (x :: u16) :: u32) = unat x"
  using unsigned_less [of x, where ?'a = nat] by (simp only: unsigned_ucast_eq) (simp add: take_bit_nat_eq_self)

lemma log_bits_small:
  assumes "x \<noteq> 0"
  shows "unat (log_bits x) < 32"
  using assms by (cases x rule: ffs_cases) (simp_all add: log_bits_def unat_of_nat)

lemma bit_le: "bit (n :: nat) i \<Longrightarrow> 2 ^ i \<le> n"
  by (metis bit_iff_odd div_less even_zero not_less)

lemma log_bits_le: "x \<noteq> 0 \<Longrightarrow> 2 ^ unat (log_bits x) \<le> unat x"
  by (cases x rule: ffs_cases) (simp_all add: log_bits_def unat_of_nat bit_le bit_unsigned_iff)

text \<open>The position of the last sector is defined when the bytes of the volume fit 63 bits.\<close>

definition sectors_ok :: "boot_sector \<Rightarrow> bool" where
  "sectors_ok b \<longleftrightarrow> 0 \<le> number_of_sectors b \<and> (number_of_sectors b - 1) * uint (bytes_per_sector b) < 2 ^ 63"

lemma last_sector:
  assumes "sectors_ok b" "number_of_sectors b \<noteq> 0" "bytes_per_sector b \<noteq> 0"
  obtains p where "shl_signed 64 (number_of_sectors b - 1) (uint (log_bits (ucast (bytes_per_sector b)))) = Ok p"
proof -
  let ?s = "ucast (bytes_per_sector b) :: u32" and ?n = "number_of_sectors b - 1"
  have s: "unat ?s = unat (bytes_per_sector b)"
    by (rule cast16)
  then have "?s \<noteq> 0"
    using assms(3) by (metis unat_eq_0)
  then have l: "unat (log_bits ?s) < 32" "2 ^ unat (log_bits ?s) \<le> unat ?s"
    by (rule log_bits_small, rule log_bits_le)
  have "?n * int (2 ^ unat (log_bits ?s)) \<le> ?n * int (unat ?s)"
    using l(2) assms(1,2) by (intro mult_left_mono) (simp_all only: of_nat_le_iff, simp add: sectors_ok_def)
  then have "?n * 2 ^ unat (log_bits ?s) < 2 ^ 63"
    using assms(1) by (simp only: s sectors_ok_def uint_unat of_nat_power of_nat_numeral) linarith
  moreover have "uint (log_bits ?s) < 64" "nat (uint (log_bits ?s)) = unat (log_bits ?s)"
    using l(1) by (simp_all only: uint_unat nat_int)
  ultimately show ?thesis
    using that [of "?n * 2 ^ unat (log_bits ?s)"] assms(1,2) by (simp add: shl_signed_def sectors_ok_def)
qed

text \<open>The size of a cluster fits an \<^verbatim>\<open>int\<close>.\<close>

lemma cluster_product:
  fixes spc ssize :: u16
  assumes "unat spc = 2 ^ j" "j \<le> 15"
  shows "unat (ucast spc * ucast ssize :: u32) = 2 ^ j * unat ssize" "uint spc * uint ssize < 2 ^ 31"
proof -
  have "(2 :: nat) ^ j \<le> 2 ^ 15"
    using assms(2) by (intro power_increasing) simp_all
  then have lt: "2 ^ j * unat ssize < 2 ^ 31"
    using mult_le_mono [of "2 ^ j" "2 ^ 15" "unat ssize" "2 ^ 16 - 1"] unsigned_less [of ssize, where ?'a = nat] by simp
  then show "unat (ucast spc * ucast ssize :: u32) = 2 ^ j * unat ssize"
    by (simp add: unat_word_ariths cast16 assms(1))
  have "int (2 ^ j * unat ssize) < int (2 ^ 31)"
    using lt by (simp only: of_nat_less_iff)
  then show "uint spc * uint ssize < 2 ^ 31"
    by (simp only: uint_unat assms(1) of_nat_mult of_nat_power of_nat_numeral)
qed

text \<open>The sizes that a cluster size, a power of two, leads to.\<close>

lemma cluster_sizes:
  fixes spc ssize :: u16
  defines "c \<equiv> ucast spc * ucast ssize :: u32"
  assumes "unat spc = 2 ^ j" "j \<le> 15" "ssize \<noteq> 0" "c AND (c - 1) = 0" "c \<le> NTFS_MAX_CLUSTER_SIZE"
  obtains s where "unat ssize = 2 ^ s" "unat (log_bits (ucast ssize)) = s" "unat c = 2 ^ (j + s)" "unat (log_bits c) = j + s" "j + s \<le> 21"
proof -
  have u: "unat c = 2 ^ j * unat ssize"
    using cluster_product(1) [OF assms(2,3)] by (simp add: c_def)
  then have "c \<noteq> 0"
    using assms(4) by (auto simp flip: unat_eq_0)
  then obtain i where i: "i < 32" "unat c = 2 ^ i" "log_bits c = of_nat i"
    using assms(5) by (elim pow2_word)
  have "(2 :: nat) ^ i \<le> 2 ^ 21"
    using assms(6) i(2) by (simp add: word_le_nat_alt NTFS_MAX_CLUSTER_SIZE_def)
  then have "i \<le> 21"
    by (simp only: power_increasing_iff)
  have "2 ^ j * unat ssize = 2 ^ i"
    using u i(2) by simp
  then obtain s where s: "unat ssize = 2 ^ s" "i = j + s"
    by (rule pow2_factor)
  then have "unat (log_bits (ucast ssize)) = s"
    using i(1) cast16 [of ssize] by (intro log_bits_pow2) simp_all
  moreover have "unat (log_bits c) = i"
    using i(1,2) by (intro log_bits_pow2)
  ultimately show ?thesis
    using that [OF s(1)] s(2) i(2) \<open>i \<le> 21\<close> by simp
qed

lemma parse_geometry:
  assumes n: "ntfs_boot_sector_is_ntfs b = Ok True" and c: "sectors_per_cluster b \<noteq> 240"
    and r: "clusters_per_mft_record b \<noteq> 0xe1" "clusters_per_index_record b \<noteq> 0xe1" and so: "sectors_ok b"
  shows "osafe (geometry_ok b) (snd (ntfs_boot_sector_parse seek d vol b))"
proof -
  have "spc_code_ok (sectors_per_cluster b)"
    using n by (auto simp: ntfs_boot_sector_is_ntfs_def split: if_splits)
  then obtain spc j where spc: "cluster_sectors (sectors_per_cluster b) = Ok spc" "unat spc = 2 ^ j" "j \<le> 15"
    using c by (rule spc_codes)
  note f = is_ntfs_fields [OF n spc(1)] and pr = cluster_product [OF spc(2,3), of "bytes_per_sector b"]
  let ?s = "ucast (bytes_per_sector b) :: u32" and ?c = "ucast spc * ucast (bytes_per_sector b) :: u32"
  have z: "bytes_per_sector b \<noteq> 0"
    using f(1) by auto
  have ff: "ffs (ucast spc) = j + 1"
    using spc(2,3) cast16 [of spc] by (intro ffs_pow2) simp_all
  consider "number_of_sectors b = 0" | q where "number_of_sectors b \<noteq> 0" "shl_signed 64 (number_of_sectors b - 1) (uint (log_bits ?s)) = Ok q"
    using last_sector [OF so _ z] by metis
  then show ?thesis
  proof cases
    case 1
    then show ?thesis
      using spc(1) by (simp add: ntfs_boot_sector_parse_def Let_def)
  next
    case (2 q)
    show ?thesis
    proof (cases "?c AND (?c - 1) = 0")
      case False
      then show ?thesis
        using spc(1) 2(2) ff pr(2) by (simp add: ntfs_boot_sector_parse_def Let_def split: prod.split)
    next
      case p: True
      obtain s where s: "unat (bytes_per_sector b) = 2 ^ s" "unat (log_bits ?s) = s" "unat ?c = 2 ^ (j + s)" "unat (log_bits ?c) = j + s" "j + s \<le> 21"
        using cluster_sizes [OF spc(2,3) z p f(3)] by blast
      then have cb: "unat (log_bits ?c) \<le> 21"
        by simp
      obtain m k where m: "record_size (clusters_per_mft_record b) (log_bits ?c) = Ok m" "unat m = 2 ^ k" "k < 32"
        using f(4) r(1) cb by (rule record_codes)
      obtain x l where x: "record_size (clusters_per_index_record b) (log_bits ?c) = Ok x" "unat x = 2 ^ l" "l < 32"
        using f(5) r(2) cb by (rule record_codes)
      show ?thesis
        using spc(1) 2(2) ff p m x ffs_pow2 [OF m(2,3)] s f(3) log_bits_pow2 [OF m(2,3)] log_bits_pow2 [OF x(2,3)] pr(2)
        by (simp add: ntfs_boot_sector_parse_def Let_def geometry_ok_def drop_bit_eq_div power_add split: prod.split)
    qed
  qed
qed

section \<open>Properties\<close>

text \<open>A sector of a volume with 512 byte sectors, 4 KB clusters and 1 KB records, with a code of the cluster size
  as argument.\<close>

definition ex_boot :: "u8 \<Rightarrow> boot_sector" where
  "ex_boot spc = \<lparr>oem_id = 0x202020205346544e, bytes_per_sector = 512, sectors_per_cluster = spc, reserved_sectors = 0, fats = 0,
     root_entries = 0, bpb_sectors = 0, sectors_per_fat = 0, large_sectors = 0, number_of_sectors = 8000, bs_mft_lcn = 4,
     bs_mftmirr_lcn = 500, clusters_per_mft_record = 0xf6, clusters_per_index_record = 1\<rparr>"

definition ex_volume :: ntfs_volume where
  "ex_volume = \<lparr>major_ver = 3, sector_size = 0, sector_size_bits = 0, cluster_size = 0, mft_record_size = 0, indx_record_size = 0,
     cluster_size_bits = 0, mft_record_size_bits = 0, indx_record_size_bits = 0, nr_clusters = 0, mft_lcn = 0, mftmirr_lcn = 0,
     mftmirr_size = 0, vol_readonly = True\<rparr>"

text \<open>C28. For every sector that is recognised as NTFS, but for the code 240 of the cluster size, the code \<^verbatim>\<open>0xe1\<close> of
  a record size and a number of sectors that is negative or whose bytes do not fit 63 bits, the set-up of the
  volume performs no undefined shift, product or division, and a volume that is accepted has a consistent
  geometry: the sector, cluster and record sizes are the powers of two whose logarithms are stored, a cluster
  holds whole sectors and at most 2 MB, the number of clusters is the number of whole clusters in the sectors
  of the volume, and the starts of the MFT and of its mirror are at most that number (the test of the code
  admits equality, the cluster just behind the last).\<close>

theorem boot_sector_geometry:
  assumes "ntfs_boot_sector_is_ntfs b = Ok True" "sectors_per_cluster b \<noteq> 240"
    and "clusters_per_mft_record b \<noteq> 0xe1" "clusters_per_index_record b \<noteq> 0xe1" "sectors_ok b"
  shows "osafe (geometry_ok b) (snd (ntfs_boot_sector_parse seek d vol b))"
  using assms by (rule parse_geometry)

theorem boot_sector_geometry_witness:
  "ntfs_boot_sector_is_ntfs (ex_boot 8) = Ok True \<and> sectors_per_cluster (ex_boot 8) \<noteq> 240 \<and> sectors_ok (ex_boot 8) \<and>
   is_Ok (snd (ntfs_boot_sector_parse (\<lambda>d off. (d, off)) () ex_volume (ex_boot 8))) \<and>
   osafe (geometry_ok (ex_boot 8)) (snd (ntfs_boot_sector_parse (\<lambda>d off. (d, off)) () ex_volume (ex_boot 8)))"
proof (intro conjI)
  show a: "ntfs_boot_sector_is_ntfs (ex_boot 8) = Ok True" and b: "sectors_per_cluster (ex_boot 8) \<noteq> 240"
    and c: "sectors_ok (ex_boot 8)"
    by code_simp+
  show "is_Ok (snd (ntfs_boot_sector_parse (\<lambda>d off. (d, off)) () ex_volume (ex_boot 8)))"
    by code_simp
  show "osafe (geometry_ok (ex_boot 8)) (snd (ntfs_boot_sector_parse (\<lambda>d off. (d, off)) () ex_volume (ex_boot 8)))"
    by (rule boot_sector_geometry [OF a b _ _ c]) (simp_all add: ex_boot_def)
qed

text \<open>C30. The code 240 stands for 65536 sectors per cluster, which is 0 in the 16 bits that hold it, so that the test of
  the cluster size passes: a sector with this code is recognised as NTFS exactly when its other fields are
  valid, and for every such sector with a number of sectors other than 0, on every device that can seek, the
  set-up of the volume performs an undefined shift (by a negative amount, where the count of sectors is valid).\<close>

theorem boot_sector_code_240:
  assumes "sectors_per_cluster b = 240" "number_of_sectors b \<noteq> 0" "\<And>p. snd (seek d p) \<noteq> -1"
  shows "ntfs_boot_sector_is_ntfs b = Ok (oem_id b = 0x202020205346544e \<and> bytes_per_sector b \<in> {256..4096} \<and>
           reserved_sectors b = 0 \<and> root_entries b = 0 \<and> bpb_sectors b = 0 \<and> sectors_per_fat b = 0 \<and> large_sectors b = 0 \<and>
           fats b = 0 \<and> record_code_ok (clusters_per_mft_record b) \<and> record_code_ok (clusters_per_index_record b)) \<and>
         snd (ntfs_boot_sector_parse seek d vol b) = Fault"
proof (rule conjI)
  have c: "cluster_sectors 240 = Ok 0" and k: "spc_code_ok 240"
    by code_simp+
  show "ntfs_boot_sector_is_ntfs b = Ok (oem_id b = 0x202020205346544e \<and> bytes_per_sector b \<in> {256..4096} \<and>
           reserved_sectors b = 0 \<and> root_entries b = 0 \<and> bpb_sectors b = 0 \<and> sectors_per_fat b = 0 \<and> large_sectors b = 0 \<and>
           fats b = 0 \<and> record_code_ok (clusters_per_mft_record b) \<and> record_code_ok (clusters_per_index_record b))"
    by (auto simp: ntfs_boot_sector_is_ntfs_def assms(1) c k)
  have s: "shl_signed w x y \<noteq> Err e" for w x y e
    by (simp add: shl_signed_def)
  have "seek d p \<noteq> (d', -1)" for p d'
    using assms(3) [of p] by auto
  then show "snd (ntfs_boot_sector_parse seek d vol b) = Fault"
    using assms(1,2) by (auto simp: ntfs_boot_sector_parse_def Let_def c s ffs_def split: prod.split outcome.split)
qed

theorem boot_sector_code_240_witness:
  "ntfs_boot_sector_is_ntfs (ex_boot 240) = Ok True \<and>
   snd (ntfs_boot_sector_parse (\<lambda>d off. (d, 0)) () ex_volume (ex_boot 240)) = Fault"
  using boot_sector_code_240 [of "ex_boot 240" "\<lambda>d off. (d, 0)" "()" ex_volume]
  by (simp add: ex_boot_def record_code_ok_def)

end
