(* ===== verification/Efi_Time.thy ===== *)
theory Efi_Time
  imports Ntfs_Prelude "HOL-Library.Signed_Division"
begin

text \<open>
  The conversion between the firmware's calendar time and the NTFS clock, which counts units of
  100 ns since 1601, and the check of a calendar time (\<^verbatim>\<open>NtfsDxe/Misc.c\<close>). The fields of \<^verbatim>\<open>EFI_TIME\<close>
  are natural numbers below the bounds of their C types; a store into a field truncates. The clock is a
  64-bit signed number, its quotients and remainders are those of C.
\<close>

section \<open>Times\<close>

record efi_time =
  Year :: nat
  Month :: nat
  Day :: nat
  Hour :: nat
  Minute :: nat
  Second :: nat
  Nanosecond :: nat
  TimeZone :: int
  Daylight :: nat

definition is_leap_year :: "nat \<Rightarrow> bool" where
  "is_leap_year a \<longleftrightarrow> a mod 4 = 0 \<and> (a mod 100 \<noteq> 0 \<or> a mod 400 = 0)"

definition month_days :: "nat list" where
  "month_days = [31, 28, 31, 30, 31, 30, 31, 31, 30, 31, 30, 31]"

definition NtfsIsValidTime :: "efi_time \<Rightarrow> bool outcome" where
  "NtfsIsValidTime t =
     (if Year t < 1980 \<or> Month t < 1 \<or> Month t > 12 \<or> Day t < 1 \<or> Day t > 31 \<or> Hour t > 23 \<or> Minute t > 59 \<or>
         Second t > 59 \<or> Nanosecond t > 999999999
      then Ok False
      else obind (aget month_days (int (Month t) - 1)) (\<lambda>d.
           let d = (if Month t = 2 \<and> is_leap_year (Year t) then d + 1 else d) in
           Ok (\<not> Day t > d)))"

section \<open>Calendar time to clock\<close>

definition BASE_YEAR :: nat where "BASE_YEAR = 1601"

text \<open>The leap years from \<open>y\<close> to before \<open>y'\<close>, in a 16-bit counter.\<close>

function leap_loop :: "nat \<Rightarrow> nat \<Rightarrow> nat \<Rightarrow> nat" where
  "leap_loop y y' added =
     (if y < y' then leap_loop (y + 1) y' (if is_leap_year y then (added + 1) mod 2 ^ 16 else added) else added)"
  by pat_completeness auto
termination
  by (relation "measure (\<lambda>(y, y', added). y' - y)") auto

declare leap_loop.simps [simp del]

text \<open>The days of the months before month \<open>n\<close> (from 0), added to the clock.\<close>

fun month_loop :: "nat \<Rightarrow> nat \<Rightarrow> int \<Rightarrow> int outcome" where
  "month_loop m 0 clock = Ok clock"
| "month_loop m (Suc n) clock = obind (aget month_days (int m)) (\<lambda>d. month_loop (m + 1) n (clock + int d))"

definition EfiTime2NtfsTime :: "efi_time \<Rightarrow> int outcome" where
  "EfiTime2NtfsTime t =
     (let added = leap_loop BASE_YEAR (Year t) 0;
          clock = (int (Year t) - int BASE_YEAR) * 365 + int added in
      obind (month_loop 0 (Month t - 1) clock) (\<lambda>clock.
      let clock = clock + (int (Day t) - 1);
          clock = (if is_leap_year (Year t) \<and> Month t > 2 then clock + 1 else clock);
          clock = clock * 86400;
          clock = clock + (int (Hour t) * 3600 + int (Minute t) * 60 + int (Second t)) in
      Ok (s64 (clock * 10000000 + int (Nanosecond t div 100)))))"

section \<open>Clock to calendar time\<close>

text \<open>The day of the year is turned into month and day; \<open>days\<close> counts from the day 0 of a leap year.\<close>

definition month_of :: "int \<Rightarrow> int \<times> int" where
  "month_of days =
     (if days > 59
      then let mon = (5 * days + 161) div 153 in (mon, days - (153 * mon - 162) div 5)
      else let mon = days div 31 + 1 in (mon, days - (31 * (mon - 1) - 1)))"

text \<open>Year, month and day of a day number: periods of 400, 100, 4 years and of a single year.\<close>

definition civil_of_days :: "int \<Rightarrow> int \<times> int \<times> int" where
  "civil_of_days days =
     (let cnt = days div 146097; days = days - 146097 * cnt; year = int BASE_YEAR + 400 * cnt;
          cnt = (3 * days + 3) div 109573; days = days - 36524 * cnt; year = year + 100 * cnt;
          cnt = days div 1461; days = days - 1461 * cnt; year = year + 4 * cnt;
          cnt = (3 * days + 3) div 1096; days = days - 365 * cnt; year = year + cnt;
          days = (if (if year mod 100 = 0 then year mod 400 \<noteq> 0 else year mod 4 \<noteq> 0) \<and> days > 58 then days + 1 else days) in
      (year, month_of days))"

definition NtfsTime2EfiTime :: "int \<Rightarrow> efi_time \<Rightarrow> efi_time" where
  "NtfsTime2EfiTime stamp et =
     (let days = (stamp sdiv (86400 * 10000000)) AND 0x7ffff;
          seconds = ((stamp sdiv 10000000) smod 86400) AND 0x1ffff;
          nanoseconds = (stamp smod 10000000 * 100) mod 2 ^ 64;
          (year, mon, day) = civil_of_days days in
      et\<lparr>Year := nat year mod 2 ^ 16, Month := nat mon mod 2 ^ 8, Day := nat day mod 2 ^ 8,
         Hour := nat (seconds div 3600) mod 2 ^ 8, Minute := nat (seconds div 60 mod 60) mod 2 ^ 8,
         Second := nat (seconds mod 60) mod 2 ^ 8, Nanosecond := nat nanoseconds mod 2 ^ 32\<rparr>)"

end
