(* ===== verification/Efi_Time_Props.thy ===== *)
theory Efi_Time_Props
  imports Efi_Time
begin

text \<open>
  A valid calendar time of the years 1980 to 3035 survives the conversion to the NTFS clock and back,
  but for the nanoseconds below 100. The year is split into periods of 400, 100, 4 and 1 years, the way
  the code peels them off the count of days.
\<close>

section \<open>Leap years\<close>

definition leaps :: "nat \<Rightarrow> nat" where
  "leaps n = n div 4 - n div 100 + n div 400"

lemma leaps_le: "n div 100 \<le> n div (4 :: nat)"
  by (simp add: div_le_mono2)

lemma leaps_bound: "leaps n \<le> n"
  unfolding leaps_def by linarith

lemma is_leap_base: "is_leap_year (1601 + n) \<longleftrightarrow> (n + 1) mod 4 = 0 \<and> ((n + 1) mod 100 \<noteq> 0 \<or> (n + 1) mod 400 = 0)"
proof -
  have "(1601 + n) mod 4 = (n + 1) mod 4" "(1601 + n) mod 100 = (n + 1) mod 100" "(1601 + n) mod 400 = (n + 1) mod 400"
    using mod_mult_self3 [of 400 4 "n + 1"] mod_mult_self3 [of 16 100 "n + 1"] mod_mult_self3 [of 4 400 "n + 1"] by simp_all
  then show ?thesis
    by (simp add: is_leap_year_def)
qed

lemma leaps_Suc: "leaps (n + 1) = leaps n + (if is_leap_year (1601 + n) then 1 else 0)"
proof -
  have s: "(n + 1) div k = n div k + (if (n + 1) mod k = 0 then 1 else 0)" for k :: nat
    by (simp add: div_Suc)
  have m: "(n + 1) mod 100 = 0 \<Longrightarrow> (n + 1) mod 4 = 0" "(n + 1) mod 400 = 0 \<Longrightarrow> (n + 1) mod 100 = 0"
    using dvd_trans [of 4 100 "n + 1"] dvd_trans [of 100 400 "n + 1"] by (simp_all add: mod_eq_0_iff_dvd)
  show ?thesis
    unfolding leaps_def s is_leap_base using m leaps_le [of n] by auto
qed

lemma leap_loop_eq:
  "1601 \<le> y \<Longrightarrow> y \<le> y' \<Longrightarrow> y' < 2 ^ 16 \<Longrightarrow> leap_loop y y' (leaps (y - 1601)) = leaps (y' - 1601)"
proof (induction "y' - y" arbitrary: y)
  case 0
  then show ?case
    by (simp add: leap_loop.simps)
next
  case (Suc k)
  then have y: "y < y'"
    by simp
  have "leaps (y + 1 - 1601) = leaps (y - 1601) + (if is_leap_year y then 1 else 0)"
  proof -
    have "y + 1 - 1601 = y - 1601 + 1" "1601 + (y - 1601) = y"
      using Suc.prems by simp_all
    then show ?thesis
      using leaps_Suc [of "y - 1601"] by simp
  qed
  moreover have "leaps (y + 1 - 1601) < 2 ^ 16"
    using leaps_bound [of "y + 1 - 1601"] Suc.prems y by simp
  moreover have "leap_loop (y + 1) y' (leaps (y + 1 - 1601)) = leaps (y' - 1601)"
    using Suc by (intro Suc.hyps) auto
  ultimately show ?case
    using y by (subst leap_loop.simps) auto
qed

section \<open>Peeling off the years\<close>

lemma split_digits:
  fixes a b c d :: nat
  assumes "n = 400 * a + 100 * b + 4 * c + d" "b \<le> 3" "c \<le> 24" "d \<le> 3"
  shows "n div 4 = 100 * a + 25 * b + c" "n div 100 = 4 * a + b" "n div 400 = a"
    and "(n + 1) mod 4 = (d + 1) mod 4" "(n + 1) mod 100 = (4 * c + d + 1) mod 100"
    and "(n + 1) mod 400 = (100 * b + 4 * c + d + 1) mod 400"
proof -
  have n: "n = d + 4 * (100 * a + 25 * b + c)" "n = (4 * c + d) + 100 * (4 * a + b)" "n = (100 * b + 4 * c + d) + 400 * a"
    using assms(1) by simp_all
  show "n div 4 = 100 * a + 25 * b + c"
    unfolding n(1) using assms by simp
  show "n div 100 = 4 * a + b"
    unfolding n(2) using assms by (simp del: distrib_left_numeral)
  show "n div 400 = a"
    unfolding n(3) using assms by simp
  show "(n + 1) mod 4 = (d + 1) mod 4"
    unfolding n(1) using mod_mult_self2 [of "d + 1" 4 "100 * a + 25 * b + c"] by (simp add: ac_simps del: distrib_left_numeral)
  show "(n + 1) mod 100 = (4 * c + d + 1) mod 100"
    unfolding n(2) using mod_mult_self2 [of "4 * c + d + 1" 100 "4 * a + b"] by (simp add: ac_simps del: distrib_left_numeral)
  show "(n + 1) mod 400 = (100 * b + 4 * c + d + 1) mod 400"
    unfolding n(3) using mod_mult_self2 [of "100 * b + 4 * c + d + 1" 400 a] by (simp add: ac_simps)
qed

lemma year_split:
  obtains a b c d where "n = 400 * a + 100 * b + 4 * c + d" "b \<le> 3" "c \<le> 24" "d \<le> 3"
    "leaps n = 97 * a + 24 * b + c" "is_leap_year (1601 + n) \<longleftrightarrow> d = 3 \<and> (c \<noteq> 24 \<or> b = 3)"
proof -
  define r s where rs: "r = n mod 400" "s = r mod 100"
  define a b c d where abcd: "a = n div 400" "b = r div 100" "c = s div 4" "d = s mod 4"
  have e: "a * 400 + r = n" "b * 100 + s = r" "c * 4 + d = s" "r < 400" "s < 100" "d < 4"
    by (simp_all add: rs abcd)
  then have n: "n = 400 * a + 100 * b + 4 * c + d" and b: "b \<le> 3" and c: "c \<le> 24" and d: "d \<le> 3"
    by linarith+
  note q = split_digits [OF n b c d]
  have 4: "(d + 1) mod 4 = 0 \<longleftrightarrow> d = 3"
    using d by (cases "d + 1 < 4") auto
  have 100: "(4 * c + d + 1) mod 100 = 0 \<longleftrightarrow> c = 24 \<and> d = 3"
  proof (cases "c = 24 \<and> d = 3")
    case False
    then have "4 * c + d + 1 < 100"
      using c d by linarith
    then show ?thesis
      using False by simp
  qed auto
  have 400: "(100 * b + 4 * c + d + 1) mod 400 = 0 \<longleftrightarrow> b = 3 \<and> c = 24 \<and> d = 3"
  proof (cases "b = 3 \<and> c = 24 \<and> d = 3")
    case False
    then have "100 * b + 4 * c + d + 1 < 400"
      using b c d by linarith
    then show ?thesis
      using False by simp
  qed auto
  have "leaps n = 97 * a + 24 * b + c"
    unfolding leaps_def q(1-3) by simp
  moreover have "is_leap_year (1601 + n) \<longleftrightarrow> d = 3 \<and> (c \<noteq> 24 \<or> b = 3)"
    unfolding is_leap_base q(4-6) 4 100 400 by auto
  ultimately show thesis
    using that n b c d by blast
qed

lemma div_eqI: "k * q \<le> x \<Longrightarrow> x < k * q + k \<Longrightarrow> x div k = (q :: int)"
  by (rule int_div_pos_eq [of _ _ _ "x - k * q"]) simp_all

text \<open>The periods in the order of the code, for the day \<open>y\<close> of the year.\<close>

lemma peel:
  fixes a b c d y :: int
  assumes "0 \<le> b" "b \<le> 3" "0 \<le> c" "c \<le> 24" "0 \<le> d" "d \<le> 3" "0 \<le> y" "y \<le> (if d = 3 \<and> (c \<noteq> 24 \<or> b = 3) then 365 else 364)"
  shows "(146097 * a + (36524 * b + (1461 * c + (365 * d + y)))) div 146097 = a"
    and "(3 * (36524 * b + (1461 * c + (365 * d + y))) + 3) div 109573 = b"
    and "(1461 * c + (365 * d + y)) div 1461 = c"
    and "(3 * (365 * d + y) + 3) div 1096 = d"
proof -
  have "365 * d + y \<le> 1460" "1461 * c + (365 * d + y) \<le> (if b = 3 then 36524 else 36523)"
    using assms by (auto split: if_splits)
  then show "(146097 * a + (36524 * b + (1461 * c + (365 * d + y)))) div 146097 = a"
    "(3 * (36524 * b + (1461 * c + (365 * d + y))) + 3) div 109573 = b"
    "(1461 * c + (365 * d + y)) div 1461 = c"
    using assms(1-7) by (intro div_eqI; simp split: if_splits)+
  show "(3 * (365 * d + y) + 3) div 1096 = d"
    using assms by (intro div_eqI) (auto split: if_splits)
qed

section \<open>The months\<close>

text \<open>The days before a month in a leap year, and before it in the table of the code.\<close>

definition before :: "nat \<Rightarrow> nat" where
  "before m = [0, 0, 31, 59, 90, 120, 151, 181, 212, 243, 273, 304, 334] ! m"

lemma months: "1 \<le> m \<Longrightarrow> m \<le> 12 \<Longrightarrow> m \<in> {1, 2, 3, 4, 5, 6, 7, 8, 9, 10, 11, 12 :: nat}"
  by (simp only: insert_iff empty_iff) presburger

lemma month_loop_before:
  assumes "1 \<le> m" "m \<le> 12"
  shows "month_loop 0 (m - 1) clock = Ok (clock + int (before m))"
  using months [OF assms] by (elim insertE) (simp_all add: before_def month_days_def aget_def numeral_eq_Suc)

lemma month_of_late:
  "59 < x \<Longrightarrow> 153 * m \<le> 5 * x + 161 \<Longrightarrow> 5 * x + 161 < 153 * m + 153 \<Longrightarrow> day = x - (153 * m - 162) div 5 \<Longrightarrow> month_of x = (m, day)"
  using div_eqI [of 153 m "5 * x + 161"] by (simp add: month_of_def)

lemma month_of_early: "0 \<le> x \<Longrightarrow> x \<le> 59 \<Longrightarrow> month_of x = (if x < 31 then (1, x + 1) else (2, x - 30))"
  using div_eqI [of 31 0 x] div_eqI [of 31 1 x] by (simp add: month_of_def)

lemma month_of_eq:
  assumes "1 \<le> m" "m \<le> 12" "1 \<le> day" "day \<le> (if m = 2 then 29 else month_days ! (m - 1))"
  shows "month_of (int (before m) + int day - 1 + (if 2 < m then 1 else 0)) = (int m, int day)"
  using assms(3,4) months [OF assms(1,2)]
  by (elim insertE) (simp_all add: before_def month_days_def month_of_late month_of_early)

section \<open>The clock\<close>

text \<open>The day number of a date, and the clock of a time.\<close>

definition year_day :: "efi_time \<Rightarrow> nat" where
  "year_day t = before (Month t) + Day t - 1 + (if is_leap_year (Year t) \<and> 2 < Month t then 1 else 0)"

definition day_number :: "efi_time \<Rightarrow> nat" where
  "day_number t = 365 * (Year t - 1601) + leaps (Year t - 1601) + year_day t"

definition day_seconds :: "efi_time \<Rightarrow> nat" where
  "day_seconds t = Hour t * 3600 + Minute t * 60 + Second t"

lemma valid_fields:
  assumes "NtfsIsValidTime t = Ok True"
  shows "1980 \<le> Year t" "1 \<le> Month t" "Month t \<le> 12" "1 \<le> Day t" "Hour t \<le> 23" "Minute t \<le> 59" "Second t \<le> 59"
    "Nanosecond t \<le> 999999999"
    "Day t \<le> (if Month t = 2 then if is_leap_year (Year t) then 29 else 28 else month_days ! (Month t - 1))" "Day t \<le> 31"
  using assms by (auto simp: NtfsIsValidTime_def aget_def month_days_def Let_def nat_diff_distrib split: if_splits)

lemma year_day_bound:
  assumes "NtfsIsValidTime t = Ok True"
  shows "year_day t \<le> (if is_leap_year (Year t) then 365 else 364)"
  using months [OF valid_fields(2,3) [OF assms]] valid_fields(9) [OF assms]
  by (elim insertE) (auto simp: year_day_def before_def month_days_def split: if_splits)

lemma clock_of_time:
  assumes v: "NtfsIsValidTime t = Ok True" and y: "Year t \<le> 3035"
  shows "EfiTime2NtfsTime t = Ok ((int (day_number t) * 86400 + int (day_seconds t)) * 10000000 + int (Nanosecond t div 100))"
    and "day_number t < 2 ^ 19" "day_seconds t < 86400" "Nanosecond t div 100 < 10000000"
proof -
  note f = valid_fields [OF v]
  show d: "day_number t < 2 ^ 19"
  proof -
    have "leaps (Year t - 1601) \<le> 361"
      using y div_le_mono [of "Year t - 1601" 1434 4] div_le_mono [of "Year t - 1601" 1434 400] unfolding leaps_def by simp
    moreover have "year_day t \<le> 365" "Year t - 1601 \<le> 1434"
      using year_day_bound [OF v] y by (auto split: if_splits)
    ultimately show ?thesis
      unfolding day_number_def by simp
  qed
  show s: "day_seconds t < 86400" and n: "Nanosecond t div 100 < 10000000"
    using f by (auto simp: day_seconds_def)
  have "leap_loop BASE_YEAR (Year t) 0 = leaps (Year t - 1601)"
    using leap_loop_eq [of 1601 "Year t"] f y leaps_bound [of 0] by (simp add: BASE_YEAR_def)
  then have "EfiTime2NtfsTime t = Ok (s64 ((int (day_number t) * 86400 + int (day_seconds t)) * 10000000 + int (Nanosecond t div 100)))"
    unfolding EfiTime2NtfsTime_def Let_def month_loop_before [OF f(2,3)] obind.simps
    using f by (simp add: day_number_def year_day_def day_seconds_def BASE_YEAR_def of_nat_diff algebra_simps)
  moreover have "in_s64 ((int (day_number t) * 86400 + int (day_seconds t)) * 10000000 + int (Nanosecond t div 100))"
    using d s n unfolding in_s64_def by auto
  ultimately show "EfiTime2NtfsTime t = Ok ((int (day_number t) * 86400 + int (day_seconds t)) * 10000000 + int (Nanosecond t div 100))"
    by (simp add: s64_id)
qed

lemma clock_parts:
  assumes "d < 2 ^ 19" "s < 86400" "n < 10000000" "K = (int d * 86400 + int s) * 10000000 + int n"
  shows "K sdiv (86400 * 10000000) AND 0x7ffff = int d" "(K sdiv 10000000) smod 86400 AND 0x1ffff = int s" "K smod 10000000 = int n"
proof -
  have K: "0 \<le> K"
    using assms by simp
  have q: "x sdiv k = x div k" "x smod k = x mod k" if "0 \<le> x" "0 < k" for x k :: int
    using that by (auto simp: signed_divide_int_def signed_modulo_int_def sgn_if)
  have msk: "x AND 0x7ffff = x mod 2 ^ 19" "x AND 0x1ffff = x mod 2 ^ 17" for x :: int
    using take_bit_eq_mask [of 19 x] take_bit_eq_mask [of 17 x] by (simp_all add: take_bit_eq_mod mask_eq_exp_minus_1)
  have t: "K div 10000000 = int d * 86400 + int s" "K mod 10000000 = int n"
    using assms div_eqI [of 10000000 "int d * 86400 + int s" K] by (simp_all add: minus_div_mult_eq_mod [symmetric])
  have "K div (86400 * 10000000) = int d"
    using assms by (intro div_eqI) simp_all
  then show "K sdiv (86400 * 10000000) AND 0x7ffff = int d"
    using K assms(1) unfolding msk by (simp add: q)
  show "(K sdiv 10000000) smod 86400 AND 0x1ffff = int s"
    using K assms(2) t(1) unfolding msk by (simp add: q)
  show "K smod 10000000 = int n"
    using K t(2) by (simp add: q)
qed

lemma leap_test: "(if int y mod 100 = 0 then int y mod 400 \<noteq> 0 else int y mod 4 \<noteq> 0) \<longleftrightarrow> \<not> is_leap_year y"
proof -
  have "int y mod 100 = int (y mod 100)" "int y mod 400 = int (y mod 400)" "int y mod 4 = int (y mod 4)"
    by (simp_all add: zmod_int)
  moreover have "y mod 100 = 0 \<Longrightarrow> y mod 4 = 0"
    using dvd_trans [of 4 100 y] by (simp add: mod_eq_0_iff_dvd)
  ultimately show ?thesis
    by (simp add: is_leap_year_def)
qed

lemma year_day_month:
  assumes "NtfsIsValidTime t = Ok True"
  shows "(if \<not> is_leap_year (Year t) \<and> 58 < int (year_day t) then int (year_day t) + 1 else int (year_day t)) =
    int (before (Month t)) + int (Day t) - 1 + (if 2 < Month t then 1 else 0)"
  using months [OF valid_fields(2,3) [OF assms]] valid_fields(4,9) [OF assms]
  by (elim insertE) (auto simp: year_day_def before_def month_days_def of_nat_diff split: if_splits)

lemma civil_of_day_number:
  assumes v: "NtfsIsValidTime t = Ok True"
  shows "civil_of_days (int (day_number t)) = (int (Year t), int (Month t), int (Day t))"
proof -
  define n where "n = Year t - 1601"
  note f = valid_fields [OF v]
  have y: "Year t = 1601 + n"
    using f(1) by (simp add: n_def)
  obtain a b c d where n: "n = 400 * a + 100 * b + 4 * c + d" "b \<le> 3" "c \<le> 24" "d \<le> 3"
    and l: "leaps n = 97 * a + 24 * b + c" and lp: "is_leap_year (Year t) \<longleftrightarrow> d = 3 \<and> (c \<noteq> 24 \<or> b = 3)"
    unfolding y by (rule year_split)
  let ?yd = "int (year_day t)"
  have D: "int (day_number t) = 146097 * int a + (36524 * int b + (1461 * int c + (365 * int d + ?yd)))"
    unfolding day_number_def n_def [symmetric] l using n(1) by simp
  have "?yd \<le> (if int d = 3 \<and> (int c \<noteq> 24 \<or> int b = 3) then 365 else 364)"
    using year_day_bound [OF v] lp by (auto split: if_splits)
  then have h: "0 \<le> int b" "int b \<le> 3" "0 \<le> int c" "int c \<le> 24" "0 \<le> int d" "int d \<le> 3" "0 \<le> ?yd"
    "?yd \<le> (if int d = 3 \<and> (int c \<noteq> 24 \<or> int b = 3) then 365 else 364)"
    using n(2-4) by simp_all
  note p = peel [OF h]
  have Y: "int BASE_YEAR + 400 * int a + 100 * int b + 4 * int c + int d = int (Year t)"
    unfolding y n(1) by (simp add: BASE_YEAR_def)
  have "month_of (if \<not> is_leap_year (Year t) \<and> 58 < ?yd then ?yd + 1 else ?yd) = (int (Month t), int (Day t))"
    unfolding year_day_month [OF v] using f by (intro month_of_eq) (auto split: if_splits)
  then show ?thesis
    by (simp only: civil_of_days_def Let_def D p add_diff_cancel_left' Y leap_test)
qed

text \<open>The mask on the day count makes the clock wrap to 1601 after 2 to the 19 days, in the year 3036.\<close>

lemma clock_wraps: "Year (NtfsTime2EfiTime (2 ^ 19 * 864000000000) t) = 1601"
proof -
  have "fst (civil_of_days (2 ^ 19 * 864000000000 sdiv (86400 * 10000000) AND 0x7ffff)) = 1601"
    by code_simp
  then show ?thesis
    unfolding NtfsTime2EfiTime_def Let_def by (auto split: prod.split)
qed

section \<open>Properties\<close>

text \<open>C29. A valid calendar time up to the year 3035 is converted to the NTFS clock and back to itself, with the
  nanoseconds rounded down to the resolution of the clock.\<close>

theorem efi_time_round_trip:
  assumes "NtfsIsValidTime t = Ok True" "Year t \<le> 3035"
  shows "obind (EfiTime2NtfsTime t) (\<lambda>clock. Ok (NtfsTime2EfiTime clock t)) = Ok (t\<lparr>Nanosecond := Nanosecond t div 100 * 100\<rparr>)"
proof -
  note f = valid_fields [OF assms(1)] and c = clock_of_time [OF assms]
  have sec: "int (day_seconds t) div 3600 = int (Hour t)" "int (day_seconds t) div 60 mod 60 = int (Minute t)"
    "int (day_seconds t) mod 60 = int (Second t)"
  proof -
    have q: "int (day_seconds t) div 60 = int (Hour t) * 60 + int (Minute t)"
      using f by (intro div_eqI) (simp_all add: day_seconds_def)
    show "int (day_seconds t) div 60 mod 60 = int (Minute t)"
      using f unfolding q by simp
    show "int (day_seconds t) mod 60 = int (Second t)"
      unfolding minus_div_mult_eq_mod [symmetric] q by (simp add: day_seconds_def)
    show "int (day_seconds t) div 3600 = int (Hour t)"
      using f by (intro div_eqI) (simp_all add: day_seconds_def)
  qed
  have ns: "nat (int (Nanosecond t div 100) * 100 mod 2 ^ 64) mod 2 ^ 32 = Nanosecond t div 100 * 100"
    using c(4) by (simp add: nat_mult_distrib)
  have st: "nat (int (Year t)) mod 2 ^ 16 = Year t" "nat (int (Month t)) mod 2 ^ 8 = Month t" "nat (int (Day t)) mod 2 ^ 8 = Day t"
    "nat (int (Hour t)) mod 2 ^ 8 = Hour t" "nat (int (Minute t)) mod 2 ^ 8 = Minute t" "nat (int (Second t)) mod 2 ^ 8 = Second t"
    using f(3,5-7,10) assms(2) by simp_all
  show ?thesis
    unfolding c(1) obind.simps NtfsTime2EfiTime_def clock_parts [OF c(2-4) refl] civil_of_day_number [OF assms(1)]
      Let_def prod.case sec ns st by simp
qed

theorem efi_time_round_trip_witness:
  "obind (EfiTime2NtfsTime \<lparr>Year = 2024, Month = 2, Day = 29, Hour = 23, Minute = 59, Second = 58, Nanosecond = 123456789, TimeZone = 60, Daylight = 1\<rparr>)
     (\<lambda>clock. Ok (NtfsTime2EfiTime clock \<lparr>Year = 2024, Month = 2, Day = 29, Hour = 23, Minute = 59, Second = 58, Nanosecond = 123456789, TimeZone = 60, Daylight = 1\<rparr>)) =
   Ok \<lparr>Year = 2024, Month = 2, Day = 29, Hour = 23, Minute = 59, Second = 58, Nanosecond = 123456700, TimeZone = 60, Daylight = 1\<rparr>"
  using efi_time_round_trip [of "\<lparr>Year = 2024, Month = 2, Day = 29, Hour = 23, Minute = 59, Second = 58, Nanosecond = 123456789, TimeZone = 60, Daylight = 1\<rparr>"]
  by (simp add: NtfsIsValidTime_def aget_def month_days_def is_leap_year_def)

end
