(* ===== verification/Driver.thy ===== *)
theory Driver
  imports Efi_Time Bootsect
begin

text \<open>
  The file protocol of the UEFI driver (\<^verbatim>\<open>NtfsDxe\<close>): the volume with its reference count, the open
  handles, the lock, and the operations that firmware applications call on them. The NTFS library and the
  disk below are the argument \<open>fs\<close>, a record of the library calls over a state of their own. A \<open>Fault\<close> is
  the use of freed memory or of a null pointer, or an attempt to acquire a lock that is held, which the
  firmware asserts against.
\<close>

section \<open>Data\<close>

type_synonym char16 = u16
type_synonym path = "u8 list"

datatype efi_status =
    EFI_SUCCESS | EFI_INVALID_PARAMETER | EFI_UNSUPPORTED | EFI_BUFFER_TOO_SMALL | EFI_DEVICE_ERROR
  | EFI_WRITE_PROTECTED | EFI_OUT_OF_RESOURCES | EFI_NOT_FOUND | EFI_ACCESS_DENIED

text \<open>What the driver reads of an inode; \<open>ni_dir\<close> is the answer of \<^verbatim>\<open>IsDir\<close>.\<close>

record inode =
  ni_flags :: u32
  ni_dir :: bool
  ni_data_size :: nat
  ni_allocated_size :: nat
  ni_access_time :: int
  ni_creation_time :: int
  ni_change_time :: int

text \<open>The library. \<open>mem_ok\<close> tells whether an allocation from the pool is served. \<open>fs_readdir\<close> lists the name, its type, the reference and the kind of the entries that
  the directory reader hands to its callback, in order.\<close>

datatype pool_use = PoolIFile | PoolName nat | PoolInfo nat | PoolPath nat

record 's fs_ops =
  mem_ok :: "pool_use \<Rightarrow> bool"
  path_limit :: nat
  fs_mount :: "'s \<Rightarrow> 's \<times> bool"
  fs_fix :: "'s \<Rightarrow> 's \<times> bool"
  fs_alternate_boot :: "'s \<Rightarrow> 's \<times> bool"
  fs_version_bad :: "'s \<Rightarrow> bool"
  fs_umount :: "'s \<Rightarrow> 's"
  fs_sync :: "'s \<Rightarrow> 's \<times> bool"
  fs_lookup :: "'s \<Rightarrow> path \<Rightarrow> inode option"
  fs_close :: "'s \<Rightarrow> inode option \<Rightarrow> 's"
  fs_parent :: "'s \<Rightarrow> inode option \<Rightarrow> inode option"
  fs_name :: "'s \<Rightarrow> inode option \<Rightarrow> path"
  fs_create :: "'s \<Rightarrow> inode option \<Rightarrow> char16 list \<Rightarrow> bool \<times> bool \<times> bool \<times> bool \<Rightarrow> 's \<times> inode option"
  fs_delete :: "'s \<Rightarrow> path \<Rightarrow> inode option \<Rightarrow> inode option \<Rightarrow> char16 list \<Rightarrow> 's \<times> bool"
  fs_readdir :: "'s \<Rightarrow> inode \<Rightarrow> (char16 list \<times> bool \<times> nat \<times> bool) list"
  fs_inode_open :: "'s \<Rightarrow> nat \<Rightarrow> inode option"
  fs_read :: "'s \<Rightarrow> inode option \<Rightarrow> nat \<Rightarrow> int \<Rightarrow> u8 list option"
  fs_write :: "'s \<Rightarrow> inode option \<Rightarrow> u8 list \<Rightarrow> int \<Rightarrow> 's \<times> inode option \<times> nat option"

record file_info =
  InfoSize :: nat
  FileSize :: nat
  PhysicalSize :: nat
  CreateTime :: efi_time
  LastAccessTime :: efi_time
  ModificationTime :: efi_time
  Attribute :: u64
  FileName :: "char16 list"

text \<open>An entry of a directory listing, an open file, and the volume. The file information of a handle may
  be a null pointer.\<close>

record sub_file =
  sub_Path :: path
  sub_IsDir :: bool
  sub_InfoSize :: nat

record ifile =
  Path :: path
  Position :: int
  ReadOnly :: bool
  IsDir :: bool
  IsRoot :: bool
  FileInfoSize :: nat
  FileInfo :: "file_info option"
  SubFiles :: "sub_file list"

record volume =
  Valid :: bool
  RefCount :: u64
  VolReadOnly :: bool

text \<open>The driver: the state of the library, the lock, the volume (\<open>None\<close> when it is freed) and the memory of the
  handles, a finite map whose domain is below \<open>next_handle\<close>.\<close>

record 's driver =
  lib :: 's
  locked :: bool
  vol :: "volume option"
  handles :: "nat \<Rightarrow> ifile option"
  next_handle :: nat

section \<open>Names\<close>

text \<open>The name without leading and trailing blanks, and whether it is acceptable. The test of the characters
  looks at the terminating zero of an empty name.\<close>

definition bad_name_char :: "char16 \<Rightarrow> bool" where
  "bad_name_char c \<longleftrightarrow> c < 0x20 \<or> c \<in> {0x22, 0x2a, 0x2f, 0x3a, 0x3c, 0x3e, 0x3f, 0x7c}"

definition NtfsFileNameIsValid :: "char16 list \<Rightarrow> char16 list \<times> bool" where
  "NtfsFileNameIsValid input =
     (let out = rev (dropWhile (\<lambda>c. c = 0x20) (rev (dropWhile (\<lambda>c. c = 0x20) input))) in
      (out, \<not> length out > 255 \<and> out \<noteq> [] \<and> \<not> list_ex bad_name_char out))"

text \<open>Unicode to ASCII and back. The copy stops at the first byte that is zero; \<^verbatim>\<open>CHAR8\<close> is signed.\<close>

definition Unicode2Ascii :: "char16 list \<Rightarrow> u8 list" where
  "Unicode2Ascii s = takeWhile (\<lambda>b. b \<noteq> 0) (map ucast s)"

definition Ascii2Unicode :: "u8 list \<Rightarrow> char16 list" where
  "Ascii2Unicode s = map scast s"

definition create_pathname :: "path \<Rightarrow> u8 list \<Rightarrow> nat \<Rightarrow> path" where
  "create_pathname dir name bufsize = take (bufsize - 1) (dir @ [0x5c] @ name)"

definition GetFileNameFromPathW :: "char16 list \<Rightarrow> char16 list" where
  "GetFileNameFromPathW p = rev (takeWhile (\<lambda>c. c \<noteq> 0x5c) (rev p))"

section \<open>The lock and the volume\<close>

definition NtfsAcquireLock :: "'s driver \<Rightarrow> 's driver outcome" where
  "NtfsAcquireLock d = (if locked d then Fault else Ok (d\<lparr>locked := True\<rparr>))"

definition NtfsAcquireLockOrFail :: "'s driver \<Rightarrow> 's driver \<times> bool" where
  "NtfsAcquireLockOrFail d = (if locked d then (d, False) else (d\<lparr>locked := True\<rparr>, True))"

definition NtfsReleaseLock :: "'s driver \<Rightarrow> 's driver" where
  "NtfsReleaseLock d = d\<lparr>locked := False\<rparr>"

definition the_vol :: "'s driver \<Rightarrow> volume outcome" where
  "the_vol d = (case vol d of None \<Rightarrow> Fault | Some v \<Rightarrow> Ok v)"

definition the_file :: "'s driver \<Rightarrow> nat \<Rightarrow> ifile outcome" where
  "the_file d h = (case handles d h of None \<Rightarrow> Fault | Some f \<Rightarrow> Ok f)"

definition the_info :: "ifile \<Rightarrow> file_info outcome" where
  "the_info f = (case FileInfo f of None \<Rightarrow> Fault | Some i \<Rightarrow> Ok i)"

definition NtfsFreeVolume :: "'s driver \<Rightarrow> 's driver" where
  "NtfsFreeVolume d = d\<lparr>vol := None\<rparr>"

definition NtfsCleanupVolume :: "'s fs_ops \<Rightarrow> 's driver \<Rightarrow> 's driver outcome" where
  "NtfsCleanupVolume fs d =
     obind (the_vol d) (\<lambda>v.
     Ok (if RefCount v = 0 \<and> \<not> Valid v then NtfsFreeVolume (d\<lparr>lib := fs_umount fs (lib d)\<rparr>) else d))"

text \<open>The end of an operation that holds the lock.\<close>

definition finish :: "'s fs_ops \<Rightarrow> 's driver \<Rightarrow> efi_status \<Rightarrow> ('s driver \<times> efi_status) outcome" where
  "finish fs d st = obind (NtfsCleanupVolume fs d) (\<lambda>d. Ok (NtfsReleaseLock d, st))"

text \<open>The driver is stopped: the protocol is uninstalled by the firmware, whose answer is an argument.\<close>

definition NtfsAbandonVolume :: "'s fs_ops \<Rightarrow> efi_status \<Rightarrow> 's driver \<Rightarrow> ('s driver \<times> efi_status) outcome" where
  "NtfsAbandonVolume fs uninstalled d =
     obind (the_vol d) (\<lambda>v.
     if uninstalled \<noteq> EFI_SUCCESS then Ok (d, uninstalled)
     else let (d, mine) = NtfsAcquireLockOrFail d;
              d = d\<lparr>vol := Some (v\<lparr>Valid := False\<rparr>)\<rparr> in
          if mine then obind (NtfsCleanupVolume fs d) (\<lambda>d. Ok (d, EFI_SUCCESS))
          else Ok (d, EFI_SUCCESS))"

section \<open>Directory entries\<close>

definition new_ifile :: ifile where
  "new_ifile = \<lparr>Path = [], Position = 0, ReadOnly = False, IsDir = False, IsRoot = False, FileInfoSize = 0, FileInfo = None, SubFiles = []\<rparr>"

definition NtfsAllocateIFile :: "'s fs_ops \<Rightarrow> ifile option" where
  "NtfsAllocateIFile fs = (if mem_ok fs PoolIFile then Some new_ifile else None)"

definition SIZE_OF_EFI_FILE_INFO :: nat where "SIZE_OF_EFI_FILE_INFO = 80"

definition ESTR :: "char16 list list" where
  "ESTR = map (map of_char) [''$MFT'', ''$MFTMirr'', ''$LogFile'', ''$Volume'', ''$AttrDef'', ''root directory'', ''$Bitmap'',
     ''$Boot'', ''$BadClus'', ''$Secure'', ''$UpCase'', ''$Extend'', ''..'']"

text \<open>Whether \<^verbatim>\<open>StrnCmp\<close> of a name, for its length, and a zero terminated string is 0. The function belongs to the
  firmware's base library; this is its documented behaviour.\<close>

fun StrnCmp_0 :: "char16 list \<Rightarrow> char16 list \<Rightarrow> bool" where
  "StrnCmp_0 [] s = True"
| "StrnCmp_0 (a # as) s =
     (let b = (case s of [] \<Rightarrow> 0 | b # _ \<Rightarrow> b) in
      if a \<noteq> 0 \<and> b \<noteq> 0 \<and> a = b \<and> as \<noteq> [] then StrnCmp_0 as (tl s) else a = b)"

text \<open>One entry of a directory is added to the listing of the open directory; \<open>False\<close> ends the listing.\<close>

definition NtfsFiller :: "'s fs_ops \<Rightarrow> 's \<Rightarrow> ifile \<Rightarrow> char16 list \<times> bool \<times> nat \<times> bool \<Rightarrow> (ifile \<times> bool) outcome" where
  "NtfsFiller fs s f = (\<lambda>(name, dos, mref, dir).
     if list_ex (StrnCmp_0 name) ESTR then Ok (f, True)
     else if dos then Ok (f, True)
     else if NtfsAllocateIFile fs = None then Ok (f, False)
     else case fs_inode_open fs s mref of
       None \<Rightarrow> Ok (f, False)
     | Some ni \<Rightarrow>
         let sub = \<lparr>sub_Path = fs_name fs s (Some ni), sub_IsDir = dir, sub_InfoSize = SIZE_OF_EFI_FILE_INFO + (length name + 1) * 2\<rparr> in
         obind (the_info f) (\<lambda>i.
         Ok (f\<lparr>SubFiles := SubFiles f @ [sub], FileInfo := Some (i\<lparr>FileSize := FileSize i + sub_InfoSize sub\<rparr>)\<rparr>, True)))"

fun fill_dir :: "'s fs_ops \<Rightarrow> 's \<Rightarrow> ifile \<Rightarrow> (char16 list \<times> bool \<times> nat \<times> bool) list \<Rightarrow> ifile outcome" where
  "fill_dir fs s f [] = Ok f"
| "fill_dir fs s f (e # es) = obind (NtfsFiller fs s f e) (\<lambda>(f, go). if go then fill_dir fs s f es else Ok f)"

definition EFI_FILE_VALID_ATTR :: u64 where "EFI_FILE_VALID_ATTR = 0x37"
definition EFI_FILE_DIRECTORY :: u64 where "EFI_FILE_DIRECTORY = 0x10"

definition no_time :: efi_time where
  "no_time = \<lparr>Year = 0, Month = 0, Day = 0, Hour = 0, Minute = 0, Second = 0, Nanosecond = 0, TimeZone = 0, Daylight = 0\<rparr>"

definition no_info :: file_info where
  "no_info = \<lparr>InfoSize = 0, FileSize = 0, PhysicalSize = 0, CreateTime = no_time, LastAccessTime = no_time, ModificationTime = no_time,
     Attribute = 0, FileName = []\<rparr>"

text \<open>The information about a file for a buffer of \<open>bufsize\<close> bytes that holds \<open>buf\<close>. With \<open>own\<close> the buffer is the file
  information of the handle itself, and the listing of a directory is counted into it; otherwise it is the
  caller's. The result is the handle, the size needed and, if the buffer is large enough, its contents.\<close>

definition NtfsGetDirEntInfo ::
  "'s fs_ops \<Rightarrow> 's \<Rightarrow> ifile \<Rightarrow> nat \<Rightarrow> file_info option \<Rightarrow> bool \<Rightarrow> bool \<Rightarrow> ('s \<times> ifile \<times> nat \<times> file_info option) outcome" where
  "NtfsGetDirEntInfo fs s f bufsize buf own count =
     (let name = GetFileNameFromPathW (Ascii2Unicode (Path f));
          result = SIZE_OF_EFI_FILE_INFO + (length name + 1) * 2 in
      if \<not> mem_ok fs (PoolPath ((length (Path f) + 1) * 2)) then Fault
      else if bufsize < result then Ok (s, f, result, None)
      else case (buf, fs_lookup fs s (Path f)) of
        (Some b, Some ni) \<Rightarrow>
          let b = b\<lparr>InfoSize := result, LastAccessTime := NtfsTime2EfiTime (ni_access_time ni) (LastAccessTime b),
                    CreateTime := NtfsTime2EfiTime (ni_creation_time ni) (CreateTime b),
                    ModificationTime := NtfsTime2EfiTime (ni_change_time ni) (ModificationTime b),
                    Attribute := ucast (ni_flags ni) AND EFI_FILE_VALID_ATTR\<rparr> in
          if IsDir f
          then let f = (if own then f\<lparr>FileInfo := Some b\<rparr> else f) in
               obind (the_info f) (\<lambda>i.
               let f = f\<lparr>FileInfo := Some (i\<lparr>FileSize := 0\<rparr>)\<rparr> in
               obind (if count then fill_dir fs s f (fs_readdir fs s ni) else Ok f) (\<lambda>f.
               obind (the_info f) (\<lambda>i.
               let b = b\<lparr>FileSize := FileSize i, PhysicalSize := FileSize i, Attribute := Attribute b OR EFI_FILE_DIRECTORY, FileName := name\<rparr> in
               Ok (fs_close fs s (Some ni), if own then f\<lparr>FileInfo := Some b\<rparr> else f, result, Some b))))
          else let b = b\<lparr>FileSize := ni_data_size ni, PhysicalSize := ni_allocated_size ni, FileName := name\<rparr> in
               Ok (fs_close fs s (Some ni), if own then f\<lparr>FileInfo := Some b\<rparr> else f, result, Some b)
      | _ \<Rightarrow> Fault)"

section \<open>Open\<close>

definition EFI_FILE_MODE_READ :: u64 where "EFI_FILE_MODE_READ = 1"
definition EFI_FILE_MODE_WRITE :: u64 where "EFI_FILE_MODE_WRITE = 2"
definition EFI_FILE_MODE_CREATE :: u64 where "EFI_FILE_MODE_CREATE = 0x8000000000000000"

text \<open>The inode that a name relative to a directory stands for and its path, created if asked for. The kind of a new
  file is whether it is a directory, a regular file, read only, hidden.\<close>

definition open_target ::
  "'s fs_ops \<Rightarrow> 's \<Rightarrow> path \<Rightarrow> char16 list \<Rightarrow> u64 \<Rightarrow> u8 \<Rightarrow> ('s \<times> efi_status \<times> inode option \<times> path) outcome" where
  "open_target fs s dir name mode attrs =
     (if name = [0x2e] then Ok (s, EFI_SUCCESS, fs_lookup fs s dir, dir)
      else if name = [0x2e, 0x2e]
      then let cur = fs_lookup fs s dir; ni = fs_parent fs s cur; s = fs_close fs s cur in
           Ok (s, EFI_SUCCESS, ni, fs_name fs s ni)
      else if \<not> mem_ok fs (PoolName (length name + 2)) then Fault
      else let p = create_pathname dir (Unicode2Ascii name) (path_limit fs) in
           case fs_lookup fs s p of
             Some ni \<Rightarrow> Ok (s, EFI_SUCCESS, Some ni, p)
           | None \<Rightarrow>
               if mode AND EFI_FILE_MODE_CREATE = 0 then Ok (s, EFI_NOT_FOUND, None, p)
               else let isdir = attrs AND 0x10 \<noteq> 0;
                        kind = (isdir, attrs AND 4 = 0 \<and> \<not> isdir, attrs AND 1 \<noteq> 0, attrs AND 2 \<noteq> 0);
                        cur = fs_lookup fs s dir;
                        (s, ni) = fs_create fs s cur (GetFileNameFromPathW name) kind in
                    Ok (fs_close fs s cur, EFI_SUCCESS, ni, p))"

text \<open>The new handle for an inode: its file information is sized first and then read.\<close>

definition open_handle ::
  "'s fs_ops \<Rightarrow> 's driver \<Rightarrow> volume \<Rightarrow> inode \<Rightarrow> path \<Rightarrow> bool \<Rightarrow> ('s driver \<times> efi_status \<times> nat option) outcome" where
  "open_handle fs d v ni p write =
     (let s = fs_close fs (lib d) (Some ni); d = d\<lparr>lib := s\<rparr> in
      case NtfsAllocateIFile fs of
        None \<Rightarrow> Ok (d, EFI_OUT_OF_RESOURCES, None)
      | Some f \<Rightarrow>
          let f = f\<lparr>IsDir := ni_dir ni, ReadOnly := \<not> write, Path := p\<rparr> in
          obind (NtfsGetDirEntInfo fs s f 0 None True True) (\<lambda>(s, f, need, _).
          if \<not> mem_ok fs (PoolInfo need) then Ok (d, EFI_OUT_OF_RESOURCES, None)
          else let f = f\<lparr>FileInfoSize := need, FileInfo := Some no_info\<rparr> in
               obind (NtfsGetDirEntInfo fs s f need (Some no_info) True True) (\<lambda>(s, f, need, b).
               if b = None then Ok (d, EFI_DEVICE_ERROR, None)
               else Ok (d\<lparr>lib := s, vol := Some (v\<lparr>RefCount := RefCount v + 1\<rparr>),
                          handles := (handles d)(next_handle d \<mapsto> f), next_handle := next_handle d + 1\<rparr>,
                        EFI_SUCCESS, Some (next_handle d)))))"

definition NtfsOFileOpen ::
  "'s fs_ops \<Rightarrow> 's driver \<Rightarrow> nat \<Rightarrow> char16 list \<Rightarrow> u64 \<Rightarrow> u8 \<Rightarrow> ('s driver \<times> efi_status \<times> nat option) outcome" where
  "NtfsOFileOpen fs d h fname mode attrs =
     obind (the_file d h) (\<lambda>f. obind (the_vol d) (\<lambda>v.
     let write = (mode AND EFI_FILE_MODE_WRITE \<noteq> 0) in
     if VolReadOnly v \<and> write then Ok (d, EFI_WRITE_PROTECTED, None)
     else if \<not> mem_ok fs (PoolName ((length fname + 1) * 2)) then Fault
     else let (name, ok) = NtfsFileNameIsValid fname in
     if \<not> ok then Ok (d, EFI_INVALID_PARAMETER, None)
     else obind (open_target fs (lib d) (Path f) name mode attrs) (\<lambda>(s, st, target, p).
     let d = d\<lparr>lib := s\<rparr> in
     if st \<noteq> EFI_SUCCESS then Ok (d, st, None)
     else case target of
       None \<Rightarrow> Ok (d, EFI_DEVICE_ERROR, None)
     | Some ni \<Rightarrow>
         if ni_flags ni AND 1 \<noteq> 0 \<and> ni_flags ni AND 0x10 = 0 \<and> write
         then Ok (d\<lparr>lib := fs_close fs s (Some ni)\<rparr>, EFI_ACCESS_DENIED, None)
         else open_handle fs d v ni p write)))"

definition NtfsOpen ::
  "'s fs_ops \<Rightarrow> 's driver \<Rightarrow> nat \<Rightarrow> char16 list option \<Rightarrow> u64 \<Rightarrow> u64 \<Rightarrow> ('s driver \<times> efi_status \<times> nat option) outcome" where
  "NtfsOpen fs d h fname mode attrs =
     (case fname of
        None \<Rightarrow> Ok (d, EFI_INVALID_PARAMETER, None)
      | Some fname \<Rightarrow>
          if mode \<notin> {EFI_FILE_MODE_READ, EFI_FILE_MODE_READ OR EFI_FILE_MODE_WRITE,
                     EFI_FILE_MODE_READ OR EFI_FILE_MODE_WRITE OR EFI_FILE_MODE_CREATE}
          then Ok (d, EFI_INVALID_PARAMETER, None)
          else obind (NtfsAcquireLock d) (\<lambda>d.
               obind (NtfsOFileOpen fs d h fname mode (ucast attrs)) (\<lambda>(d, st, h').
               obind (finish fs d st) (\<lambda>(d, st). Ok (d, st, h')))))"

text \<open>Mounting is tried again after a repair.\<close>

definition mount_volume :: "'s fs_ops \<Rightarrow> 's \<Rightarrow> 's \<times> bool" where
  "mount_volume fs s =
     (let (s, ok) = fs_mount fs s in
      if ok then (s, True)
      else let (s, fixed) = fs_fix fs s in
           if \<not> fixed then (s, False)
           else let (s, ok) = fs_mount fs s in
                if \<not> ok then (s, False)
                else let (s, bad) = fs_alternate_boot fs s in
                     if bad then (s, False) else (s, \<not> fs_version_bad fs s))"

definition NtfsOpenVolume :: "'s fs_ops \<Rightarrow> 's driver \<Rightarrow> ('s driver \<times> efi_status \<times> nat option) outcome" where
  "NtfsOpenVolume fs d =
     obind (the_vol d) (\<lambda>_.
     obind (NtfsAcquireLock d) (\<lambda>d.
     let (s, ok) = mount_volume fs (lib d); d = d\<lparr>lib := s\<rparr> in
     if \<not> ok then obind (finish fs d EFI_UNSUPPORTED) (\<lambda>(d, st). Ok (d, st, None))
     else case NtfsAllocateIFile fs of
       None \<Rightarrow> obind (finish fs d EFI_OUT_OF_RESOURCES) (\<lambda>(d, st). Ok (d, st, None))
     | Some f \<Rightarrow>
         let f = f\<lparr>IsRoot := True, IsDir := True, Path := [0x5c]\<rparr>; h = next_handle d in
         obind (finish fs (d\<lparr>handles := (handles d)(h \<mapsto> f), next_handle := h + 1\<rparr>) EFI_SUCCESS) (\<lambda>(d, st). Ok (d, st, Some h))))"

section \<open>Close, delete and flush\<close>

text \<open>Freeing a handle frees its file information; freeing a null pointer is asserted against.\<close>

definition NtfsIFileClose :: "'s driver \<Rightarrow> nat \<Rightarrow> 's driver outcome" where
  "NtfsIFileClose d h = obind (the_file d h) (\<lambda>f. obind (the_info f) (\<lambda>_. Ok (d\<lparr>handles := (handles d)(h := None)\<rparr>)))"

definition NtfsClose :: "'s fs_ops \<Rightarrow> 's driver \<Rightarrow> nat \<Rightarrow> ('s driver \<times> efi_status) outcome" where
  "NtfsClose fs d h =
     obind (the_file d h) (\<lambda>f. obind (the_info f) (\<lambda>_.
     obind (NtfsAcquireLock d) (\<lambda>d.
     obind (NtfsIFileClose d h) (\<lambda>d.
     obind (the_vol d) (\<lambda>v.
     finish fs (d\<lparr>vol := Some (v\<lparr>RefCount := RefCount v - 1\<rparr>)\<rparr>) EFI_SUCCESS)))))"

definition delete_file :: "'s fs_ops \<Rightarrow> 's driver \<Rightarrow> ifile \<Rightarrow> ('s driver \<times> efi_status) outcome" where
  "delete_file fs d f =
     (if ReadOnly f then Ok (d, EFI_WRITE_PROTECTED)
      else if IsRoot f then Ok (d, EFI_ACCESS_DENIED)
      else obind (the_vol d) (\<lambda>_.
           let ni = fs_lookup fs (lib d) (Path f); par = fs_parent fs (lib d) ni in
           obind (the_info f) (\<lambda>i.
           let (s, failed) = fs_delete fs (lib d) (Path f) ni par (FileName i) in
           Ok (d\<lparr>lib := s\<rparr>, if failed then EFI_DEVICE_ERROR else EFI_SUCCESS))))"

definition NtfsDelete :: "'s fs_ops \<Rightarrow> 's driver \<Rightarrow> nat \<Rightarrow> ('s driver \<times> efi_status) outcome" where
  "NtfsDelete fs d h =
     obind (the_file d h) (\<lambda>f.
     obind (NtfsAcquireLock d) (\<lambda>d.
     obind (delete_file fs d f) (\<lambda>(d, st).
     obind (NtfsIFileClose d h) (\<lambda>d. finish fs d st))))"

definition NtfsFlush :: "'s fs_ops \<Rightarrow> 's driver \<Rightarrow> nat \<Rightarrow> ('s driver \<times> efi_status) outcome" where
  "NtfsFlush fs d h =
     obind (the_file d h) (\<lambda>f. obind (the_vol d) (\<lambda>v.
     if VolReadOnly v then Ok (d, EFI_WRITE_PROTECTED)
     else if ReadOnly f then Ok (d, EFI_ACCESS_DENIED)
     else obind (NtfsAcquireLock d) (\<lambda>d.
          let (s, failed) = fs_sync fs (lib d) in
          finish fs (d\<lparr>lib := s\<rparr>) (if failed then EFI_DEVICE_ERROR else EFI_SUCCESS))))"

section \<open>Position, read and write\<close>

definition NtfsGetPosition :: "'s driver \<Rightarrow> nat \<Rightarrow> (efi_status \<times> u64 option) outcome" where
  "NtfsGetPosition d h =
     obind (the_file d h) (\<lambda>f. Ok (if IsDir f then (EFI_UNSUPPORTED, None) else (EFI_SUCCESS, Some (word_of_int (Position f)))))"

text \<open>The position is a 64-bit number; all ones stand for the end of the file.\<close>

definition NtfsSetPosition :: "'s driver \<Rightarrow> nat \<Rightarrow> u64 \<Rightarrow> ('s driver \<times> efi_status) outcome" where
  "NtfsSetPosition d h pos =
     obind (the_file d h) (\<lambda>f.
     if IsDir f \<and> pos \<noteq> 0 then Ok (d, EFI_UNSUPPORTED)
     else obind (if pos = -1 then obind (the_info f) (\<lambda>i. Ok (s64 (int (FileSize i)))) else Ok (sint pos)) (\<lambda>p.
          Ok (d\<lparr>handles := (handles d)(h \<mapsto> f\<lparr>Position := p\<rparr>)\<rparr>, EFI_SUCCESS)))"

text \<open>The entry of the listing at a position: the size of the entries before it and the last entry looked at.\<close>

fun find_sub :: "int \<Rightarrow> nat \<Rightarrow> sub_file option \<Rightarrow> sub_file list \<Rightarrow> nat \<times> sub_file option" where
  "find_sub pos sz sub [] = (sz, sub)"
| "find_sub pos sz sub (x # xs) = (if int sz = pos then (sz, Some x) else find_sub pos (sz + sub_InfoSize x) (Some x) xs)"

definition sub_ifile :: "sub_file \<Rightarrow> ifile" where
  "sub_ifile x = new_ifile\<lparr>Path := sub_Path x, IsDir := sub_IsDir x, FileInfoSize := sub_InfoSize x\<rparr>"

text \<open>What a read puts into the caller's buffer.\<close>

datatype read_data = NoData | FileBytes "u8 list" | EntryInfo file_info

text \<open>The next entry of a directory: the size stored, the status and the data. The entry has no file
  information of its own.\<close>

definition read_dir :: "'s fs_ops \<Rightarrow> 's \<Rightarrow> ifile \<Rightarrow> nat \<Rightarrow> ('s \<times> nat \<times> efi_status \<times> read_data) outcome" where
  "read_dir fs s f bufsize =
     obind (the_info f) (\<lambda>i.
     let (sz, sub) = find_sub (Position f) 0 None (SubFiles f) in
     if sz = FileSize i then Ok (s, 0, EFI_SUCCESS, NoData)
     else case sub of
       None \<Rightarrow> Fault
     | Some x \<Rightarrow>
         obind (NtfsGetDirEntInfo fs s (sub_ifile x) bufsize (Some no_info) False False) (\<lambda>(s, _, need, b).
         case b of None \<Rightarrow> Ok (s, need, EFI_BUFFER_TOO_SMALL, NoData) | Some b \<Rightarrow> Ok (s, need, EFI_SUCCESS, EntryInfo b)))"

definition NtfsRead :: "'s fs_ops \<Rightarrow> 's driver \<Rightarrow> nat \<Rightarrow> nat \<Rightarrow> ('s driver \<times> nat \<times> efi_status \<times> read_data) outcome" where
  "NtfsRead fs d h bufsize =
     obind (the_file d h) (\<lambda>f. obind (the_info f) (\<lambda>i.
     if Position f mod 2 ^ 64 > int (FileSize i) then Ok (d, bufsize, EFI_DEVICE_ERROR, NoData)
     else obind (NtfsAcquireLock d) (\<lambda>d. obind (the_vol d) (\<lambda>_.
     let ni = fs_lookup fs (lib d) (Path f) in
     obind (if IsDir f then read_dir fs (lib d) f bufsize
            else Ok (case fs_read fs (lib d) ni bufsize (Position f) of
                       None \<Rightarrow> (lib d, bufsize, EFI_DEVICE_ERROR, NoData)
                     | Some bs \<Rightarrow> (lib d, length bs, EFI_SUCCESS, FileBytes bs))) (\<lambda>(s, n, st, data).
     let d = d\<lparr>lib := fs_close fs s ni\<rparr> in
     if st = EFI_SUCCESS
     then Ok (NtfsReleaseLock (d\<lparr>handles := (handles d)(h \<mapsto> f\<lparr>Position := s64 (Position f + int n)\<rparr>)\<rparr>), n, st, data)
     else obind (finish fs d st) (\<lambda>(d, st). Ok (d, n, st, data)))))))"

definition NtfsWrite :: "'s fs_ops \<Rightarrow> 's driver \<Rightarrow> nat \<Rightarrow> u8 list \<Rightarrow> ('s driver \<times> nat \<times> efi_status) outcome" where
  "NtfsWrite fs d h buf =
     obind (the_file d h) (\<lambda>f. obind (the_vol d) (\<lambda>v.
     if VolReadOnly v then Ok (d, length buf, EFI_WRITE_PROTECTED)
     else if ReadOnly f then Ok (d, length buf, EFI_ACCESS_DENIED)
     else if IsDir f then Ok (d, length buf, EFI_UNSUPPORTED)
     else obind (NtfsAcquireLock d) (\<lambda>d.
     let (s, ni, res) = fs_write fs (lib d) (fs_lookup fs (lib d) (Path f)) buf (Position f) in
     case res of
       None \<Rightarrow> obind (finish fs (d\<lparr>lib := fs_close fs s ni\<rparr>) EFI_DEVICE_ERROR) (\<lambda>(d, st). Ok (d, length buf, st))
     | Some n \<Rightarrow>
         obind (the_info f) (\<lambda>i.
         case ni of
           None \<Rightarrow> Fault
         | Some x \<Rightarrow>
             Ok (NtfsReleaseLock (d\<lparr>lib := fs_close fs s ni,
                   handles := (handles d)(h \<mapsto> f\<lparr>FileInfo := Some (i\<lparr>FileSize := ni_data_size x, PhysicalSize := ni_allocated_size x\<rparr>),
                                               Position := s64 (Position f + int n)\<rparr>)\<rparr>), n, EFI_SUCCESS)))))"

section \<open>Sequences of operations\<close>

datatype driver_op =
    OpenVolume
  | Open nat "char16 list option" u64 u64
  | Close nat
  | Delete nat
  | Flush nat
  | SetPosition nat u64
  | Read nat nat
  | Write nat "u8 list"
  | Abandon efi_status

fun driver_step :: "'s fs_ops \<Rightarrow> driver_op \<Rightarrow> 's driver \<Rightarrow> 's driver outcome" where
  "driver_step fs OpenVolume d = obind (NtfsOpenVolume fs d) (\<lambda>(d, _). Ok d)"
| "driver_step fs (Open h n m a) d = obind (NtfsOpen fs d h n m a) (\<lambda>(d, _). Ok d)"
| "driver_step fs (Close h) d = obind (NtfsClose fs d h) (\<lambda>(d, _). Ok d)"
| "driver_step fs (Delete h) d = obind (NtfsDelete fs d h) (\<lambda>(d, _). Ok d)"
| "driver_step fs (Flush h) d = obind (NtfsFlush fs d h) (\<lambda>(d, _). Ok d)"
| "driver_step fs (SetPosition h p) d = obind (NtfsSetPosition d h p) (\<lambda>(d, _). Ok d)"
| "driver_step fs (Read h n) d = obind (NtfsRead fs d h n) (\<lambda>(d, _). Ok d)"
| "driver_step fs (Write h b) d = obind (NtfsWrite fs d h b) (\<lambda>(d, _). Ok d)"
| "driver_step fs (Abandon u) d = obind (NtfsAbandonVolume fs u d) (\<lambda>(d, _). Ok d)"

fun driver_run :: "'s fs_ops \<Rightarrow> driver_op list \<Rightarrow> 's driver \<Rightarrow> 's driver outcome" where
  "driver_run fs [] d = Ok d"
| "driver_run fs (x # xs) d = obind (driver_step fs x d) (driver_run fs xs)"

text \<open>The driver after \<^verbatim>\<open>NtfsAllocateVolume\<close> has succeeded.\<close>

definition started :: "'s \<Rightarrow> bool \<Rightarrow> 's driver" where
  "started s ro = \<lparr>lib = s, locked = False, vol = Some \<lparr>Valid = True, RefCount = 0, VolReadOnly = ro\<rparr>, handles = (\<lambda>_. None), next_handle = 0\<rparr>"

section \<open>Binding to a device\<close>

text \<open>The driver starts when the first sector can be read and is NTFS, and the firmware installs the protocol; the
  status of the read and of the installation are arguments. The caller gets no volume otherwise.\<close>

definition NtfsOpenDevice :: "efi_status \<Rightarrow> u8 list \<Rightarrow> efi_status outcome" where
  "NtfsOpenDevice rd sector =
     (if rd \<noteq> EFI_SUCCESS then Ok rd
      else obind (boot_sector_of sector) (\<lambda>b. obind (ntfs_boot_sector_is_ntfs b) (\<lambda>ok. Ok (if ok then EFI_SUCCESS else EFI_UNSUPPORTED))))"

definition NtfsAllocateVolume :: "bool \<Rightarrow> efi_status \<Rightarrow> u8 list \<Rightarrow> efi_status \<Rightarrow> 's \<Rightarrow> bool \<Rightarrow> (efi_status \<times> 's driver option) outcome" where
  "NtfsAllocateVolume mem rd sector install s ro =
     (if \<not> mem then Ok (EFI_OUT_OF_RESOURCES, None)
      else obind (NtfsOpenDevice rd sector) (\<lambda>st.
           if st \<noteq> EFI_SUCCESS then Ok (st, None)
           else if install \<noteq> EFI_SUCCESS then Ok (install, None)
           else Ok (EFI_SUCCESS, Some (started s ro))))"

end
