(* ===== verification/Driver_Props.thy ===== *)
theory Driver_Props
  imports Driver
begin

text \<open>
  What the driver's reference count guards: the volume stays allocated while a file other than the root
  directory is open. The root directory is not counted, and its handle has no file information: three
  properties show what goes wrong with it and with the lock.
\<close>

section \<open>The kind of a handle\<close>

lemma NtfsFiller_keeps: "NtfsFiller fs s f e = Ok (f', go) \<Longrightarrow> IsRoot f' = IsRoot f"
  by (auto simp: NtfsFiller_def the_info_def Let_def obind_Ok_iff split: if_splits option.splits prod.splits)

lemma fill_dir_keeps: "fill_dir fs s f es = Ok f' \<Longrightarrow> IsRoot f' = IsRoot f"
  by (induction es arbitrary: f) (auto simp: obind_Ok_iff dest!: NtfsFiller_keeps split: if_splits)

lemma NtfsGetDirEntInfo_keeps: "NtfsGetDirEntInfo fs s f n buf own cnt = Ok (s', f', need, b) \<Longrightarrow> IsRoot f' = IsRoot f"
  by (auto simp: NtfsGetDirEntInfo_def Let_def obind_Ok_iff dest!: fill_dir_keeps split: if_splits option.splits)

text \<open>Opening adds a handle of a file and one reference, or changes neither handles nor volume.\<close>

definition same :: "'s driver \<Rightarrow> 's driver \<Rightarrow> bool" where
  "same d d' \<longleftrightarrow> vol d' = vol d \<and> handles d' = handles d \<and> next_handle d' = next_handle d"

definition opened :: "'s driver \<Rightarrow> 's driver \<Rightarrow> bool" where
  "opened d d' \<longleftrightarrow> (\<exists>v f. vol d = Some v \<and> \<not> IsRoot f \<and> vol d' = Some (v\<lparr>RefCount := RefCount v + 1\<rparr>) \<and>
     handles d' = (handles d)(next_handle d \<mapsto> f) \<and> next_handle d' = next_handle d + 1)"

lemma open_handle_cases:
  "open_handle fs d v ni p w = Ok (d', st, h) \<Longrightarrow> vol d = Some v \<Longrightarrow> same d d' \<or> opened d d'"
  by (auto simp: open_handle_def same_def opened_def Let_def obind_Ok_iff NtfsAllocateIFile_def new_ifile_def
      dest!: NtfsGetDirEntInfo_keeps split: if_splits option.splits prod.splits)

lemma same_lib: "same (d\<lparr>lib := s\<rparr>) d' \<longleftrightarrow> same d d'" "opened (d\<lparr>lib := s\<rparr>) d' \<longleftrightarrow> opened d d'"
  by (simp_all add: same_def opened_def)

lemma open_handle_lib:
  "open_handle fs (d\<lparr>lib := s\<rparr>) v ni p w = Ok (d', st, h) \<Longrightarrow> vol d = Some v \<Longrightarrow> same d d' \<or> opened d d'"
  using open_handle_cases [of fs "d\<lparr>lib := s\<rparr>" v ni p w d' st h] by (simp add: same_lib)

lemma NtfsOFileOpen_cases:
  assumes "NtfsOFileOpen fs d h n m a = Ok (d', st, h')"
  shows "same d d' \<or> opened d d'"
proof -
  have r: "same d d" "same d (d\<lparr>lib := s\<rparr>)" for s
    by (simp_all add: same_def)
  obtain f v where fv: "the_file d h = Ok f" "vol d = Some v"
    using assms by (auto simp: NtfsOFileOpen_def obind_Ok_iff the_vol_def split: option.splits)
  obtain name ok where name: "NtfsFileNameIsValid n = (name, ok)"
    by fastforce
  show ?thesis
  proof (cases "open_target fs (lib d) (Path f) name m a")
    case (Ok t)
    obtain s st' target p where t: "t = (s, st', target, p)"
      by (cases t) auto
    show ?thesis
      using assms fv Ok t name r
      by (cases target) (auto simp: NtfsOFileOpen_def the_vol_def Let_def dest: open_handle_lib split: if_splits)
  qed (use assms fv name r in \<open>auto simp: NtfsOFileOpen_def the_vol_def Let_def split: if_splits\<close>)
qed

section \<open>The invariant\<close>

definition files :: "(nat \<Rightarrow> ifile option) \<Rightarrow> nat set" where
  "files hs = {h. \<exists>f. hs h = Some f \<and> \<not> IsRoot f}"

text \<open>A handle of the root has no file information. The reference count, which is at most \<open>n\<close>, covers the open files.\<close>

definition driver_inv :: "nat \<Rightarrow> 's driver \<Rightarrow> bool" where
  "driver_inv n d \<longleftrightarrow>
     finite (dom (handles d)) \<and> (\<forall>h f. handles d h = Some f \<longrightarrow> h < next_handle d \<and> (IsRoot f \<longrightarrow> FileInfo f = None \<and> IsDir f)) \<and>
     (case vol d of None \<Rightarrow> files (handles d) = {} | Some v \<Rightarrow> card (files (handles d)) \<le> unat (RefCount v) \<and> unat (RefCount v) \<le> n)"

lemma finite_files: "finite (dom hs) \<Longrightarrow> finite (files hs)"
  by (rule finite_subset [of _ "dom hs"]) (auto simp: files_def)

lemma driver_inv_mono: "driver_inv n d \<Longrightarrow> n \<le> m \<Longrightarrow> driver_inv m d"
  by (auto simp: driver_inv_def split: option.splits)

lemma driver_inv_same: "same d d' \<Longrightarrow> driver_inv n d' \<longleftrightarrow> driver_inv n d"
  by (simp add: driver_inv_def same_def split: option.split)

lemma driver_inv_simps [simp]:
  "driver_inv n (d\<lparr>lib := s\<rparr>) = driver_inv n d" "driver_inv n (d\<lparr>locked := b\<rparr>) = driver_inv n d"
  by (simp_all add: driver_inv_def split: option.split)

lemma driver_inv_opened:
  assumes "driver_inv n d" "opened d d'" "n < 2 ^ 64 - 1"
  shows "driver_inv (n + 1) d'"
proof -
  obtain v f where v: "vol d = Some v" "\<not> IsRoot f" "vol d' = Some (v\<lparr>RefCount := RefCount v + 1\<rparr>)"
    "handles d' = (handles d)(next_handle d \<mapsto> f)" "next_handle d' = next_handle d + 1"
    using assms(2) by (auto simp: opened_def)
  have fin: "finite (files (handles d))"
    using assms(1) by (auto simp: driver_inv_def intro: finite_files)
  have "card (files (handles d')) \<le> card (insert (next_handle d) (files (handles d)))"
    using fin by (intro card_mono) (auto simp: files_def v split: if_splits)
  also have "\<dots> \<le> card (files (handles d)) + 1"
    using fin by (simp add: card_insert_if)
  finally have "card (files (handles d')) \<le> card (files (handles d)) + 1" .
  moreover have "unat (RefCount v + 1) = unat (RefCount v) + 1"
    using assms(1,3) v(1) by (simp add: driver_inv_def unat_word_ariths)
  ultimately show ?thesis
    using assms(1) v by (auto simp: driver_inv_def intro: less_SucI split: if_splits)
qed

lemma cleanup_inv:
  assumes "NtfsCleanupVolume fs d = Ok d'" "driver_inv n d"
  shows "driver_inv n d'"
proof -
  obtain v where v: "vol d = Some v"
    using assms(1) by (auto simp: NtfsCleanupVolume_def the_vol_def split: option.splits)
  have "files (handles d) = {}" if "RefCount v = 0"
    using that assms(2) v finite_files [of "handles d"] by (simp add: driver_inv_def)
  then show ?thesis
    using assms v by (auto simp: NtfsCleanupVolume_def the_vol_def NtfsFreeVolume_def driver_inv_def files_def split: if_splits)
qed

lemma finish_inv: "finish fs d st = Ok (d', st') \<Longrightarrow> driver_inv n d \<Longrightarrow> driver_inv n d'"
  by (auto simp: finish_def obind_Ok_iff NtfsReleaseLock_def dest: cleanup_inv)

lemma finish_handles: "finish fs d st = Ok (d', st') \<Longrightarrow> handles d' = handles d"
  by (auto simp: finish_def NtfsCleanupVolume_def NtfsReleaseLock_def NtfsFreeVolume_def obind_Ok_iff split: if_splits)

section \<open>Every operation\<close>

lemma lock_inv: "NtfsAcquireLock d = Ok d' \<Longrightarrow> driver_inv n d' = driver_inv n d"
  by (auto simp: NtfsAcquireLock_def split: if_splits)

lemma set_handle_inv:
  assumes "driver_inv n d" "handles d h = Some f" "IsRoot f' = IsRoot f" "IsRoot f \<Longrightarrow> FileInfo f' = None \<and> IsDir f'"
  shows "driver_inv n (d\<lparr>handles := (handles d)(h \<mapsto> f')\<rparr>)"
proof -
  have "files ((handles d)(h \<mapsto> f')) = files (handles d)"
    using assms(2,3) by (auto simp: files_def)
  then show ?thesis
    using assms by (auto simp: driver_inv_def split: option.splits if_splits)
qed

lemma drop_handle_inv:
  assumes "driver_inv n d" "handles d h = Some f" "\<not> IsRoot f"
  shows "driver_inv n (d\<lparr>handles := (handles d)(h := None)\<rparr>)"
    and "vol d = Some v \<Longrightarrow> driver_inv n (d\<lparr>handles := (handles d)(h := None), vol := Some (v\<lparr>RefCount := RefCount v - 1\<rparr>)\<rparr>)"
proof -
  have h: "h \<in> files (handles d)" "finite (files (handles d))"
    using assms finite_files [of "handles d"] by (auto simp: files_def [of "handles d"] driver_inv_def)
  moreover have "files ((handles d)(h := None)) = files (handles d) - {h}"
    by (auto simp: files_def)
  ultimately have c: "card (files ((handles d)(h := None))) = card (files (handles d)) - 1" "0 < card (files (handles d))"
    by (auto simp: card_gt_0_iff)
  show "driver_inv n (d\<lparr>handles := (handles d)(h := None)\<rparr>)"
    using assms(1) c h by (auto simp: driver_inv_def files_def split: option.splits if_splits)
  show "driver_inv n (d\<lparr>handles := (handles d)(h := None), vol := Some (v\<lparr>RefCount := RefCount v - 1\<rparr>)\<rparr>)" if v: "vol d = Some v"
  proof -
    have "unat (RefCount v - 1) = unat (RefCount v) - 1"
      using assms(1) c(2) v by (intro unat_minus_one) (auto simp: driver_inv_def)
    then show ?thesis
      using assms(1) c v by (auto simp: driver_inv_def split: if_splits)
  qed
qed

lemma NtfsOpen_inv:
  assumes "NtfsOpen fs d h n m a = Ok (d', r)" "driver_inv k d" "k < 2 ^ 64 - 1"
  shows "driver_inv (k + 1) d'"
proof -
  have k: "driver_inv (k + 1) d"
    using assms(2) by (rule driver_inv_mono) simp
  show ?thesis
  proof (cases "d' = d")
    case False
    then obtain name d1 d2 st h' st' where o: "NtfsAcquireLock d = Ok d1" "NtfsOFileOpen fs d1 h name m (ucast a) = Ok (d2, st, h')"
      "finish fs d2 st = Ok (d', st')"
      using assms(1) by (auto simp: NtfsOpen_def obind_Ok_iff split: option.splits if_splits)
    have "driver_inv k d1"
      using assms(2) lock_inv [OF o(1)] by simp
    then have "driver_inv (k + 1) d2"
      using NtfsOFileOpen_cases [OF o(2)] driver_inv_opened [of k d1 d2] driver_inv_same [of d1 d2 "k + 1"] driver_inv_mono [of k d1 "k + 1"]
        assms(3) by auto
    then show ?thesis
      using finish_inv [OF o(3)] by simp
  qed (use k in simp)
qed

lemma new_root_inv:
  assumes "driver_inv k d"
  shows "driver_inv k (d\<lparr>handles := (handles d)(next_handle d \<mapsto> new_ifile\<lparr>IsRoot := True, IsDir := True, Path := p\<rparr>), next_handle := next_handle d + 1\<rparr>)"
proof -
  have "files ((handles d)(next_handle d \<mapsto> new_ifile\<lparr>IsRoot := True, IsDir := True, Path := p\<rparr>)) = files (handles d)"
    using assms by (auto simp: files_def driver_inv_def split: if_splits)
  then show ?thesis
    using assms by (auto simp: driver_inv_def new_ifile_def intro: less_SucI split: option.splits if_splits)
qed

lemma NtfsOpenVolume_inv:
  assumes "NtfsOpenVolume fs d = Ok (d', r)" "driver_inv k d"
  shows "driver_inv k d'"
  using assms new_root_inv [of k "d\<lparr>locked := True, lib := fst (mount_volume fs (lib d))\<rparr>" "[0x5c]"]
  by (auto simp: NtfsOpenVolume_def obind_Ok_iff NtfsAcquireLock_def NtfsAllocateIFile_def Let_def
      dest!: finish_inv split: option.splits if_splits prod.splits)

lemma NtfsIFileClose_iff:
  "NtfsIFileClose d h = Ok d' \<longleftrightarrow> (\<exists>f i. handles d h = Some f \<and> FileInfo f = Some i \<and> d' = d\<lparr>handles := (handles d)(h := None)\<rparr>)"
  by (auto simp: NtfsIFileClose_def the_file_def the_info_def obind_Ok_iff split: option.splits)

lemma root_handle: "driver_inv k d \<Longrightarrow> handles d h = Some f \<Longrightarrow> IsRoot f \<Longrightarrow> FileInfo f = None \<and> IsDir f"
  by (auto simp: driver_inv_def)

lemma has_info_not_root: "driver_inv k d \<Longrightarrow> handles d h = Some f \<Longrightarrow> FileInfo f = Some i \<Longrightarrow> \<not> IsRoot f"
  by (auto simp: driver_inv_def)

lemma NtfsClose_inv:
  assumes "NtfsClose fs d h = Ok (d', r)" "driver_inv k d"
  shows "driver_inv k d'"
proof -
  obtain f i v where f: "handles d h = Some f" "FileInfo f = Some i" "vol d = Some v"
    and c: "finish fs (d\<lparr>locked := True, handles := (handles d)(h := None), vol := Some (v\<lparr>RefCount := RefCount v - 1\<rparr>)\<rparr>) EFI_SUCCESS = Ok (d', r)"
    using assms(1) by (auto simp: NtfsClose_def obind_Ok_iff NtfsIFileClose_iff NtfsAcquireLock_def the_vol_def the_file_def the_info_def
        split: option.splits if_splits)
  show ?thesis
    using finish_inv [OF c] drop_handle_inv(2) [of k "d\<lparr>locked := True\<rparr>" h f v] has_info_not_root [OF assms(2) f(1,2)] f assms(2) by simp
qed

lemma delete_file_same: "delete_file fs d f = Ok (d', st) \<Longrightarrow> same d d'"
  by (cases "the_vol d"; cases "the_info f") (auto simp: delete_file_def same_def Let_def split: if_splits prod.splits)

lemma NtfsDelete_inv:
  assumes "NtfsDelete fs d h = Ok (d', r)" "driver_inv k d"
  shows "driver_inv k d'"
proof -
  obtain f d1 d2 st d3 where o: "NtfsAcquireLock d = Ok d1" "delete_file fs d1 f = Ok (d2, st)" "NtfsIFileClose d2 h = Ok d3"
    "finish fs d3 st = Ok (d', r)"
    using assms(1) by (auto simp: NtfsDelete_def obind_Ok_iff)
  have d2: "driver_inv k d2"
    using assms(2) lock_inv [OF o(1)] driver_inv_same [OF delete_file_same [OF o(2)]] by simp
  obtain f i where f: "handles d2 h = Some f" "FileInfo f = Some i" "d3 = d2\<lparr>handles := (handles d2)(h := None)\<rparr>"
    using o(3) unfolding NtfsIFileClose_iff by blast
  show ?thesis
    using finish_inv [OF o(4)] drop_handle_inv(1) [OF d2 f(1) has_info_not_root [OF d2 f(1,2)]] f(3) by simp
qed

lemma NtfsFlush_inv: "NtfsFlush fs d h = Ok (d', r) \<Longrightarrow> driver_inv k d \<Longrightarrow> driver_inv k d'"
  by (auto simp: NtfsFlush_def obind_Ok_iff NtfsAcquireLock_def Let_def dest!: finish_inv split: if_splits prod.splits)

lemma NtfsSetPosition_inv: "NtfsSetPosition d h p = Ok (d', r) \<Longrightarrow> driver_inv k d \<Longrightarrow> driver_inv k d'"
  by (auto simp: NtfsSetPosition_def obind_Ok_iff the_file_def dest: root_handle intro!: set_handle_inv split: option.splits if_splits)

lemma NtfsRead_inv:
  assumes "NtfsRead fs d h n = Ok (d', r)" "driver_inv k d"
  shows "driver_inv k d'"
proof (cases "same d d'")
  case False
  obtain f i where f: "handles d h = Some f" "FileInfo f = Some i"
    using assms(1) by (auto simp: NtfsRead_def the_file_def the_info_def obind_Ok_iff split: option.splits)
  have p: "driver_inv k (d\<lparr>handles := (handles d)(h \<mapsto> f\<lparr>Position := q\<rparr>)\<rparr>)" for q
    using has_info_not_root [OF assms(2) f] by (intro set_handle_inv [OF assms(2) f(1)]) auto
  consider s st st' where "finish fs (d\<lparr>locked := True, lib := s\<rparr>) st = Ok (d', st')"
    | q where "same (d\<lparr>handles := (handles d)(h \<mapsto> f\<lparr>Position := q\<rparr>)\<rparr>) d'"
    using assms(1) False f
    by (auto simp: NtfsRead_def the_file_def the_info_def NtfsAcquireLock_def obind_Ok_iff Let_def NtfsReleaseLock_def same_def
        split: if_splits prod.splits)
  then show ?thesis
  proof cases
    case 1
    then show ?thesis
      using finish_inv [OF 1] assms(2) by simp
  next
    case 2
    then show ?thesis
      using p driver_inv_same [OF 2] by simp
  qed
qed (use assms driver_inv_same [of d d' k] in simp)

lemma NtfsWrite_inv:
  assumes "NtfsWrite fs d h b = Ok (d', r)" "driver_inv k d"
  shows "driver_inv k d'"
proof (cases "same d d'")
  case False
  obtain f where f: "handles d h = Some f"
    using assms(1) by (auto simp: NtfsWrite_def the_file_def obind_Ok_iff split: option.splits)
  have p: "driver_inv k (d\<lparr>handles := (handles d)(h \<mapsto> f\<lparr>FileInfo := i, Position := q\<rparr>)\<rparr>)" if "\<not> IsDir f" for q i
    using root_handle [OF assms(2) f] that by (intro set_handle_inv [OF assms(2) f]) auto
  consider s where "finish fs (d\<lparr>locked := True, lib := s\<rparr>) EFI_DEVICE_ERROR = Ok (d', snd r)"
    | i q where "\<not> IsDir f" "same (d\<lparr>handles := (handles d)(h \<mapsto> f\<lparr>FileInfo := i, Position := q\<rparr>)\<rparr>) d'"
    using assms(1) False f
    by (auto simp: NtfsWrite_def the_file_def NtfsAcquireLock_def obind_Ok_iff Let_def NtfsReleaseLock_def same_def split: if_splits prod.splits option.splits)
  then show ?thesis
  proof cases
    case 1
    then show ?thesis
      using finish_inv [OF 1] assms(2) by simp
  next
    case 2
    then show ?thesis
      using p driver_inv_same [OF 2(2)] by simp
  qed
qed (use assms driver_inv_same [of d d' k] in simp)

lemma NtfsAbandonVolume_inv:
  assumes "NtfsAbandonVolume fs u d = Ok (d', r)" "driver_inv k d"
  shows "driver_inv k d'"
proof -
  obtain v where v: "vol d = Some v"
    using assms(1) by (auto simp: NtfsAbandonVolume_def the_vol_def obind_Ok_iff split: option.splits)
  have p: "driver_inv k (d\<lparr>locked := l, vol := Some (v\<lparr>Valid := False\<rparr>)\<rparr>)" for l
    using assms(2) v by (simp add: driver_inv_def)
  show ?thesis
    using assms v p [of True] p [of "locked d"]
    by (auto simp: NtfsAbandonVolume_def the_vol_def NtfsAcquireLockOrFail_def obind_Ok_iff dest!: cleanup_inv split: if_splits)
qed

lemma driver_step_inv:
  assumes "driver_step fs x d = Ok d'" "driver_inv k d" "k < 2 ^ 64 - 1"
  shows "driver_inv (k + 1) d'"
proof (cases x)
  case (Open h n m a)
  then show ?thesis
    using assms by (auto simp: obind_Ok_iff dest: NtfsOpen_inv)
qed (use assms in \<open>auto simp: obind_Ok_iff dest!: NtfsOpenVolume_inv NtfsClose_inv NtfsDelete_inv NtfsFlush_inv NtfsSetPosition_inv NtfsRead_inv NtfsWrite_inv NtfsAbandonVolume_inv elim!: driver_inv_mono\<close>)

lemma driver_run_inv:
  "driver_run fs xs d = Ok d' \<Longrightarrow> driver_inv k d \<Longrightarrow> k + length xs < 2 ^ 64 \<Longrightarrow> driver_inv (k + length xs) d'"
proof (induction xs arbitrary: d k)
  case (Cons x xs)
  then obtain d1 where s: "driver_step fs x d = Ok d1" "driver_run fs xs d1 = Ok d'"
    by (auto simp: obind_Ok_iff)
  then show ?case
    using Cons.IH [OF s(2) driver_step_inv [OF s(1) Cons.prems(2)]] Cons.prems(3) by simp
qed simp

section \<open>Properties\<close>

text \<open>A library whose volume mounts and in which every path is a file of 5 bytes.\<close>

definition ex_inode :: inode where
  "ex_inode = \<lparr>ni_flags = 0x20, ni_dir = False, ni_data_size = 5, ni_allocated_size = 8, ni_access_time = 0, ni_creation_time = 0, ni_change_time = 0\<rparr>"

definition ex_fs :: "unit fs_ops" where
  "ex_fs = \<lparr>mem_ok = (\<lambda>_. True), path_limit = 4096, fs_mount = (\<lambda>s. (s, True)), fs_fix = (\<lambda>s. (s, True)), fs_alternate_boot = (\<lambda>s. (s, False)),
     fs_version_bad = (\<lambda>_. False), fs_umount = (\<lambda>s. s), fs_sync = (\<lambda>s. (s, False)), fs_lookup = (\<lambda>_ _. Some ex_inode), fs_close = (\<lambda>s _. s),
     fs_parent = (\<lambda>_ _. Some ex_inode), fs_name = (\<lambda>_ _. [0x5c]), fs_create = (\<lambda>s _ _ _. (s, Some ex_inode)), fs_delete = (\<lambda>s _ _ _ _. (s, False)),
     fs_readdir = (\<lambda>_ _. []), fs_inode_open = (\<lambda>_ _. Some ex_inode), fs_read = (\<lambda>_ _ n _. Some (replicate (min n 5) 0)),
     fs_write = (\<lambda>s ni b _. (s, ni, Some (length b)))\<rparr>"

lemmas driver_eval =
  started_def NtfsOpenVolume_def mount_volume_def NtfsAcquireLock_def NtfsAllocateIFile_def new_ifile_def finish_def NtfsCleanupVolume_def
  the_vol_def the_file_def the_info_def NtfsReleaseLock_def NtfsAbandonVolume_def NtfsAcquireLockOrFail_def NtfsFreeVolume_def Let_def
  NtfsOpen_def NtfsOFileOpen_def NtfsFileNameIsValid_def bad_name_char_def open_target_def open_handle_def NtfsGetDirEntInfo_def
  EFI_FILE_MODE_READ_def EFI_FILE_MODE_WRITE_def EFI_FILE_MODE_CREATE_def create_pathname_def Unicode2Ascii_def Ascii2Unicode_def
  GetFileNameFromPathW_def

text \<open>C10. After any sequence of operations that runs without a fault, starting with the driver just bound to the
  device, an open file other than the root keeps the volume allocated, and the reference count covers all such files:
  opening counts, closing a file uncounts, and stopping the driver frees the volume only when no file is open.\<close>

theorem open_files_hold_volume:
  assumes "driver_run fs xs (started s ro) = Ok d" "length xs < 2 ^ 64" "handles d h = Some f" "\<not> IsRoot f"
  shows "\<exists>v. vol d = Some v \<and> card {h. \<exists>f. handles d h = Some f \<and> \<not> IsRoot f} \<le> unat (RefCount v)"
proof -
  have "driver_inv 0 (started s ro)"
    by (simp add: driver_inv_def started_def files_def)
  then have i: "driver_inv (length xs) d"
    using driver_run_inv [OF assms(1), of 0] assms(2) by simp
  moreover have "files (handles d) \<noteq> {}"
    using assms(3,4) by (auto simp: files_def)
  ultimately show ?thesis
    by (auto simp: driver_inv_def files_def split: option.splits)
qed

theorem open_files_hold_volume_witness:
  "case driver_run ex_fs [OpenVolume, Open 0 (Some [0x61]) 1 0, Abandon EFI_SUCCESS] (started () False) of
     Ok d \<Rightarrow> \<exists>v. vol d = Some v \<and> card {h. \<exists>f. handles d h = Some f \<and> \<not> IsRoot f} \<le> unat (RefCount v)
   | _ \<Rightarrow> False"
proof -
  let ?xs = "[OpenVolume, Open 0 (Some [0x61]) 1 0, Abandon EFI_SUCCESS]"
  have "case driver_run ex_fs ?xs (started () False) of Ok d \<Rightarrow> (case handles d 1 of None \<Rightarrow> False | Some f \<Rightarrow> \<not> IsRoot f) | _ \<Rightarrow> False"
    by (simp add: driver_eval ex_fs_def ex_inode_def)
  then obtain d f where "driver_run ex_fs ?xs (started () False) = Ok d" "handles d 1 = Some f" "\<not> IsRoot f"
    by (auto split: outcome.splits option.splits)
  then show ?thesis
    using open_files_hold_volume [of ex_fs ?xs "()" False d 1 f] by simp
qed

text \<open>C34. The root directory is not counted: when the driver is stopped while only the root is open, the volume is
  freed and the handle of the root, which refers to it, remains.\<close>

theorem root_handle_dangles:
  assumes "mount_volume fs s = (s', True)" "mem_ok fs PoolIFile"
  shows "\<exists>d f. driver_run fs [OpenVolume, Abandon EFI_SUCCESS] (started s ro) = Ok d \<and> vol d = None \<and> handles d 0 = Some f \<and> IsRoot f"
  using assms
  by (simp add: started_def NtfsOpenVolume_def NtfsAcquireLock_def NtfsAllocateIFile_def new_ifile_def finish_def NtfsCleanupVolume_def
      the_vol_def NtfsReleaseLock_def NtfsAbandonVolume_def NtfsAcquireLockOrFail_def NtfsFreeVolume_def Let_def)

theorem root_handle_dangles_witness:
  "\<exists>d f. driver_run ex_fs [OpenVolume, Abandon EFI_SUCCESS] (started () False) = Ok d \<and> vol d = None \<and> handles d 0 = Some f \<and> IsRoot f"
  using root_handle_dangles [of ex_fs "()" "()" False] by (simp add: ex_fs_def mount_volume_def)

text \<open>C35. The handle of the root that opening the volume returns has no file information: closing, deleting or reading it
  uses a null pointer.\<close>

theorem root_handle_without_info:
  assumes "NtfsOpenVolume fs d = Ok (d', st, Some h)"
  shows "NtfsClose fs d' h = Fault \<and> NtfsDelete fs d' h = Fault \<and> NtfsRead fs d' h n = Fault"
proof -
  have f: "\<exists>f. handles d' h = Some f \<and> IsRoot f \<and> FileInfo f = None"
    using assms
    by (cases "mount_volume fs (lib d)"; cases "the_vol d")
      (auto simp: NtfsOpenVolume_def NtfsAcquireLock_def NtfsAllocateIFile_def new_ifile_def obind_Ok_iff Let_def dest!: finish_handles
        split: option.splits if_splits)
  then show ?thesis
    by (auto simp: NtfsClose_def NtfsDelete_def NtfsRead_def NtfsIFileClose_def delete_file_def NtfsAcquireLock_def the_file_def the_info_def)
qed

theorem root_handle_without_info_witness:
  "case NtfsOpenVolume ex_fs (started () False) of
     Ok (d', st, Some h) \<Rightarrow> NtfsClose ex_fs d' h = Fault \<and> NtfsDelete ex_fs d' h = Fault \<and> NtfsRead ex_fs d' h 80 = Fault
   | _ \<Rightarrow> False"
proof -
  obtain d' st h where "NtfsOpenVolume ex_fs (started () False) = Ok (d', st, Some h)"
    by (simp add: driver_eval ex_fs_def)
  then show ?thesis
    using root_handle_without_info [of ex_fs "started () False" d' st h 80] by simp
qed

text \<open>Stopping the driver leaves the lock held: no file can be opened afterwards, on any handle.\<close>

theorem abandon_keeps_lock:
  assumes "NtfsAbandonVolume fs EFI_SUCCESS d = Ok (d', st)"
  shows "NtfsOpen fs d' h (Some name) EFI_FILE_MODE_READ attrs = Fault"
proof -
  have "locked d'"
    using assms by (auto simp: NtfsAbandonVolume_def NtfsAcquireLockOrFail_def NtfsCleanupVolume_def NtfsFreeVolume_def obind_Ok_iff Let_def split: if_splits)
  then show ?thesis
    by (simp add: NtfsOpen_def NtfsAcquireLock_def)
qed

theorem abandon_keeps_lock_witness:
  "case NtfsAbandonVolume ex_fs EFI_SUCCESS (started () False) of
     Ok (d', st) \<Rightarrow> NtfsOpen ex_fs d' 0 (Some [0x61]) EFI_FILE_MODE_READ 0 = Fault
   | _ \<Rightarrow> False"
proof -
  obtain d' st where "NtfsAbandonVolume ex_fs EFI_SUCCESS (started () False) = Ok (d', st)"
    by (simp add: driver_eval ex_fs_def)
  then show ?thesis
    using abandon_keeps_lock [of ex_fs "started () False" d' st 0 "[0x61]" 0] by simp
qed

lemma StrnCmp_0_append: "StrnCmp_0 name (name @ rest)"
  by (induction name) (auto simp: Let_def)

text \<open>C36. A directory listing leaves out every file whose name is the beginning of a name of the list of system
  files, such as a file called ``r'' or ``$M''.\<close>

theorem listing_hides_prefixes:
  assumes "name @ rest \<in> set ESTR"
  shows "NtfsFiller fs s f (name, dos, mref, dir) = Ok (f, True)"
proof -
  have "list_ex (StrnCmp_0 name) ESTR"
    using assms StrnCmp_0_append unfolding list_ex_iff by blast
  then show ?thesis
    by (simp add: NtfsFiller_def)
qed

theorem listing_hides_prefixes_witness:
  "NtfsFiller ex_fs () new_ifile ([0x72], False, 40, False) = Ok (new_ifile, True)"
  using listing_hides_prefixes [of "[0x72]" "map of_char ''oot directory''" ex_fs "()" new_ifile False 40 False]
  by (simp add: ESTR_def)

end
