(* ===== verification/Compress.thy ===== *)
theory Compress
  imports Le_Bytes
begin

text \<open>
  Compressed attributes (\<^verbatim>\<open>compress.c\<close>): decompression of a compression block into a buffer and compression of
  one sub-block of 4096 bytes. Buffers are lists with checked accesses and pointers are positions in them,
  so an access outside a buffer is a \<open>Fault\<close>. A buffer may be longer than the size that the code is told.
\<close>

section \<open>Decompression\<close>

definition NTFS_SB_SIZE :: nat where "NTFS_SB_SIZE = 0x1000"
definition NTFS_SB_SIZE_MASK :: u16 where "NTFS_SB_SIZE_MASK = 0x0fff"
definition NTFS_SB_IS_COMPRESSED :: u16 where "NTFS_SB_IS_COMPRESSED = 0x8000"

text \<open>The logarithm that divides a phrase token into its two fields; \<open>i\<close> is a 16-bit variable.\<close>

fun lg_loop :: "nat \<Rightarrow> nat" where
  "lg_loop i = (if i \<ge> 0x10 then Suc (lg_loop (i div 2)) else 0)"

declare lg_loop.simps [simp del]

fun copy_bytes :: "nat \<Rightarrow> u8 list \<Rightarrow> nat \<Rightarrow> nat \<Rightarrow> u8 list outcome" where
  "copy_bytes 0 D dest back = Ok D"
| "copy_bytes (Suc n) D dest back = obind (aget D (int back)) (\<lambda>b. obind (aset D (int dest) b) (\<lambda>D. copy_bytes n D (dest + 1) (back + 1)))"

text \<open>A phrase token: \<open>s\<close> and \<open>e\<close> are the start and the end of the sub-block in the destination. The result is the
  destination buffer and the position behind the phrase.\<close>

definition phrase_token :: "u8 list \<Rightarrow> nat \<Rightarrow> nat \<Rightarrow> u8 list \<Rightarrow> nat \<Rightarrow> nat \<Rightarrow> (u8 list \<times> nat) outcome" where
  "phrase_token B s e D dest cb =
     (if dest = s then Err EOVERFLOW
      else let lg = lg_loop ((dest - s - 1) mod 2 ^ 16) in
      obind (get_le16 B cb) (\<lambda>pt.
      let dist = unat (drop_bit (12 - lg) pt) + 1 in
      if dest < s + dist then Err EOVERFLOW
      else let len = unat (pt AND drop_bit lg 0xfff) + 3; back = dest - dist in
      if dest + len > e then Err EOVERFLOW
      else if len \<le> dist then obind (acopy D (int dest) D (int back) (int len)) (\<lambda>D. Ok (D, dest + len))
      else obind (acopy D (int dest) D (int back) (int dist)) (\<lambda>D.
           obind (copy_bytes (len - dist) D (dest + dist) (back + dist)) (\<lambda>D. Ok (D, dest + len)))))"

text \<open>The tokens of a tag, at most \<open>n\<close> of them.\<close>

fun token_loop :: "u8 list \<Rightarrow> nat \<Rightarrow> nat \<Rightarrow> nat \<Rightarrow> nat \<Rightarrow> u8 \<Rightarrow> u8 list \<Rightarrow> nat \<Rightarrow> nat \<Rightarrow> (u8 list \<times> nat \<times> nat) outcome" where
  "token_loop B s e sb_end 0 tag D dest cb = Ok (D, dest, cb)"
| "token_loop B s e sb_end (Suc n) tag D dest cb =
     (if cb \<ge> sb_end \<or> dest > e then Ok (D, dest, cb)
      else if tag AND 1 = 0
      then obind (aget B (int cb)) (\<lambda>b. obind (aset D (int dest) b) (\<lambda>D. token_loop B s e sb_end n (drop_bit 1 tag) D (dest + 1) (cb + 1)))
      else obind (phrase_token B s e D dest cb) (\<lambda>(D, dest). token_loop B s e sb_end n (drop_bit 1 tag) D dest (cb + 2)))"

lemma token_loop_mono: "token_loop B s e sb_end n tag D dest cb = Ok (D', dest', cb') \<Longrightarrow> cb \<le> cb'"
proof (induction B s e sb_end n tag D dest cb rule: token_loop.induct)
  case (2 B s e sb_end n tag D dest cb)
  show ?case
  proof (cases "cb \<ge> sb_end \<or> dest > e")
    case False
    then show ?thesis
      using 2 by (fastforce simp: obind_Ok_iff split: if_splits prod.splits)
  qed (use 2 in simp)
qed simp

text \<open>The tags of a sub-block; at the end the rest of the sub-block is zeroed.\<close>

definition fill_zero :: "u8 list \<Rightarrow> nat \<Rightarrow> nat \<Rightarrow> u8 list outcome" where
  "fill_zero D dest n = acopy D (int dest) (replicate n 0) 0 (int n)"

function tag_loop :: "u8 list \<Rightarrow> nat \<Rightarrow> nat \<Rightarrow> nat \<Rightarrow> u8 list \<Rightarrow> nat \<Rightarrow> nat \<Rightarrow> (u8 list \<times> nat) outcome" where
  "tag_loop B s e sb_end D dest cb =
     (if cb = sb_end
      then (if dest < e then obind (fill_zero D dest (e - dest)) (\<lambda>D. Ok (D, e)) else Ok (D, dest))
      else if cb > sb_end \<or> dest > e then Err EOVERFLOW
      else obind (aget B (int cb)) (\<lambda>tag.
           obind (token_loop B s e sb_end 8 tag D dest (cb + 1)) (\<lambda>r. tag_loop B s e sb_end (fst r) (fst (snd r)) (snd (snd r)))))"
  by pat_completeness auto
termination
proof (relation "measure (\<lambda>(B, s, e, sb_end, D, dest, cb). sb_end - cb)", goal_cases)
  case (2 B s e sb_end D dest cb tag r)
  obtain D' dest' cb' where r: "r = (D', dest', cb')"
    by (cases r) auto
  then have "cb + 1 \<le> cb'"
    using 2 token_loop_mono by blast
  then show ?case
    using 2 r by auto
qed simp

declare tag_loop.simps [simp del]

text \<open>The sub-blocks of a compression block.\<close>

function decompress_loop :: "u8 list \<Rightarrow> nat \<Rightarrow> nat \<Rightarrow> u8 list \<Rightarrow> nat \<Rightarrow> nat \<Rightarrow> u8 list outcome" where
  "decompress_loop B cb_end dest_end D dest cb =
     (if cb = cb_end then Ok D
      else obind (get_le16 B cb) (\<lambda>hd.
      if hd = 0 \<or> dest = dest_end then Ok D
      else let e = dest + NTFS_SB_SIZE in
      if e > dest_end then Err EOVERFLOW
      else if cb + 6 > cb_end then Err EOVERFLOW
      else let sb_end = cb + unat (hd AND NTFS_SB_SIZE_MASK) + 3 in
      if sb_end > cb_end then Err EOVERFLOW
      else if hd AND NTFS_SB_IS_COMPRESSED = 0
      then if sb_end \<noteq> cb + 2 + NTFS_SB_SIZE then Err EOVERFLOW
           else obind (acopy D (int dest) B (int (cb + 2)) (int NTFS_SB_SIZE)) (\<lambda>D. decompress_loop B cb_end dest_end D e sb_end)
      else obind (tag_loop B dest e sb_end D dest (cb + 2)) (\<lambda>r. decompress_loop B cb_end dest_end (fst r) (snd r) sb_end)))"
  by pat_completeness auto
termination
  by (relation "measure (\<lambda>(B, cb_end, dest_end, D, dest, cb). cb_end - cb)") auto

declare decompress_loop.simps [simp del]

definition ntfs_decompress :: "u8 list \<Rightarrow> nat \<Rightarrow> u8 list \<Rightarrow> nat \<Rightarrow> u8 list outcome" where
  "ntfs_decompress dest dest_size cb cb_size = decompress_loop cb cb_size dest_size dest 0 0"

section \<open>Finding matches\<close>

definition NICE_MATCH_LEN :: nat where "NICE_MATCH_LEN = 18"
definition MAX_SEARCH_DEPTH :: nat where "MAX_SEARCH_DEPTH = 24"
definition HASH_SHIFT :: nat where "HASH_SHIFT = 14"
definition HASH_MULTIPLIER :: u32 where "HASH_MULTIPLIER = 0x1E35A7BD"

text \<open>The context of a compression. Its memory is not initialised; the buffer and its size are an argument of the
  functions. A position in a hash chain is a 16-bit number, -1 ends a chain.\<close>

record compress_context =
  m_size :: nat
  m_rel :: int
  m_mxsz :: nat
  m_head :: "int list"
  m_prev :: "int list"

text \<open>The hash reads four bytes and uses three.\<close>

definition ntfs_hash :: "u8 list \<Rightarrow> nat \<Rightarrow> nat outcome" where
  "ntfs_hash b p = obind (get_le32 b p) (\<lambda>w. Ok (unat (drop_bit (32 - HASH_SHIFT) ((w AND 0xffffff) * HASH_MULTIPLIER))))"

text \<open>Whether the bytes \<open>len\<close> to \<open>n\<close> of the strings at \<open>m\<close> and \<open>s\<close> agree.\<close>

function same_bytes :: "u8 list \<Rightarrow> nat \<Rightarrow> nat \<Rightarrow> nat \<Rightarrow> nat \<Rightarrow> bool outcome" where
  "same_bytes b m s len n =
     (if len < n
      then obind (aget b (int (m + len))) (\<lambda>x. obind (aget b (int (s + len))) (\<lambda>y. if x \<noteq> y then Ok False else same_bytes b m s (len + 1) n))
      else Ok True)"
  by pat_completeness auto
termination
  by (relation "measure (\<lambda>(b, m, s, len, n). n - len)") auto

declare same_bytes.simps [simp del]

definition same_byte :: "u8 list \<Rightarrow> nat \<Rightarrow> nat \<Rightarrow> nat \<Rightarrow> bool outcome" where
  "same_byte b m s k = obind (aget b (int (m + k))) (\<lambda>x. obind (aget b (int (s + k))) (\<lambda>y. Ok (x = y)))"

text \<open>A match is extended to the maximal length, and to the length at which the search is given up.\<close>

function extend_max :: "u8 list \<Rightarrow> nat \<Rightarrow> nat \<Rightarrow> nat \<Rightarrow> nat \<Rightarrow> nat outcome" where
  "extend_max b m s best_len max_len =
     (if best_len < max_len
      then obind (same_byte b m s best_len) (\<lambda>eq. if eq then extend_max b m s (best_len + 1) max_len else Ok best_len)
      else Ok best_len)"
  by pat_completeness auto
termination
  by (relation "measure (\<lambda>(b, m, s, best_len, max_len). max_len - best_len)") auto

declare extend_max.simps [simp del]

function extend_nice :: "u8 list \<Rightarrow> nat \<Rightarrow> nat \<Rightarrow> nat \<Rightarrow> nat \<Rightarrow> nat \<Rightarrow> (nat \<times> bool) outcome" where
  "extend_nice b m s best_len nice_len max_len =
     (if best_len + 1 \<ge> nice_len then obind (extend_max b m s (best_len + 1) max_len) (\<lambda>l. Ok (l, True))
      else obind (same_byte b m s (best_len + 1)) (\<lambda>eq. if eq then extend_nice b m s (best_len + 1) nice_len max_len else Ok (best_len + 1, False)))"
  by pat_completeness auto
termination
  by (relation "measure (\<lambda>(b, m, s, best_len, nice_len, max_len). nice_len - best_len)") auto

declare extend_nice.simps [simp del]

text \<open>Whether the match at \<open>m\<close> is longer than the best so far.\<close>

definition longer_match :: "u8 list \<Rightarrow> nat \<Rightarrow> nat \<Rightarrow> nat \<Rightarrow> bool outcome" where
  "longer_match b m s best_len =
     obind (same_byte b m s best_len) (\<lambda>eq. if \<not> eq then Ok False
     else obind (same_byte b m s (best_len - 1)) (\<lambda>eq. if \<not> eq then Ok False
     else obind (same_byte b m s 0) (\<lambda>eq. if \<not> eq then Ok False
     else same_bytes b m s 1 (best_len - 1))))"

fun match_search :: "u8 list \<Rightarrow> int list \<Rightarrow> nat \<Rightarrow> nat \<Rightarrow> nat \<Rightarrow> nat \<Rightarrow> int \<Rightarrow> nat \<Rightarrow> nat \<Rightarrow> (nat \<times> nat) outcome" where
  "match_search b prev s nice_len max_len 0 cur best_len best = Ok (best_len, best)"
| "match_search b prev s nice_len max_len (Suc depth) cur best_len best =
     (if cur < 0 then Ok (best_len, best)
      else obind (longer_match b (nat cur) s best_len) (\<lambda>longer.
           obind (if longer then obind (extend_nice b (nat cur) s best_len nice_len max_len) (\<lambda>(l, end). Ok (l, nat cur, end))
                  else Ok (best_len, best, False)) (\<lambda>r.
           if snd (snd r) then Ok (fst r, fst (snd r))
           else obind (aget prev cur) (\<lambda>cur. match_search b prev s nice_len max_len depth cur (fst r) (fst (snd r))))))"

text \<open>The current position is entered into its hash chain.\<close>

definition chain_insert :: "u8 list \<Rightarrow> compress_context \<Rightarrow> nat \<Rightarrow> (compress_context \<times> int) outcome" where
  "chain_insert b c i =
     obind (ntfs_hash b i) (\<lambda>h.
     obind (aget (m_head c) (int h)) (\<lambda>cur.
     obind (aset (m_prev c) (int i) cur) (\<lambda>prev.
     obind (aset (m_head c) (int h) (int i)) (\<lambda>head. Ok (c\<lparr>m_prev := prev, m_head := head\<rparr>, cur)))))"

definition ntfs_best_match :: "u8 list \<Rightarrow> compress_context \<Rightarrow> nat \<Rightarrow> nat \<Rightarrow> compress_context outcome" where
  "ntfs_best_match b c i best_len =
     (let max_len = min (length b - i) (m_mxsz c); nice_len = min NICE_MATCH_LEN max_len in
      if max_len < 4 then Ok (c\<lparr>m_size := best_len, m_rel := 0\<rparr>)
      else obind (chain_insert b c i) (\<lambda>r.
           if best_len \<ge> max_len then Ok ((fst r)\<lparr>m_size := best_len, m_rel := 0\<rparr>)
           else obind (match_search b (m_prev (fst r)) i nice_len max_len MAX_SEARCH_DEPTH (snd r) best_len i) (\<lambda>q.
                Ok ((fst r)\<lparr>m_size := fst q, m_rel := int (snd q) - int i\<rparr>))))"

definition ntfs_skip_position :: "u8 list \<Rightarrow> compress_context \<Rightarrow> nat \<Rightarrow> compress_context outcome" where
  "ntfs_skip_position b c i = (if length b - i < 4 then Ok c else obind (chain_insert b c i) (\<lambda>r. Ok (fst r)))"

text \<open>The positions from \<open>i\<close> on to \<open>j\<close> are skipped. With \<open>j\<close> not behind \<open>i\<close> the counter would pass the largest number.\<close>

function skip_loop :: "u8 list \<Rightarrow> compress_context \<Rightarrow> nat \<Rightarrow> nat \<Rightarrow> compress_context outcome" where
  "skip_loop b c i j =
     (if j \<le> i then Fault
      else obind (ntfs_skip_position b c i) (\<lambda>c. if i + 1 = j then Ok c else skip_loop b c (i + 1) j))"
  by pat_completeness auto
termination
  by (relation "measure (\<lambda>(b, c, i, j). j - i)") auto

declare skip_loop.simps [simp del]

section \<open>Compression\<close>

record compress_state =
  c_i :: nat
  c_bp :: nat
  c_mxoff :: nat
  c_have :: bool
  c_tag :: u8
  c_ntag :: nat
  c_ptag :: nat
  c_xout :: nat
  c_out :: "u8 list"
  c_ctx :: compress_context

text \<open>The largest offset is doubled until it is at least the position; it is never 0.\<close>

function raise_offset :: "nat \<Rightarrow> nat \<Rightarrow> nat \<Rightarrow> nat \<Rightarrow> nat \<times> nat \<times> nat" where
  "raise_offset i bp mxoff mxsz = (if 0 < mxoff \<and> mxoff < i then raise_offset i (bp + 1) (mxoff * 2) ((mxsz + 2) div 2) else (bp, mxoff, mxsz))"
  by pat_completeness auto
termination
  by (relation "measure (\<lambda>(i, bp, mxoff, mxsz). i - mxoff)") auto

declare raise_offset.simps [simp del]

definition put_byte :: "compress_state \<Rightarrow> u8 \<Rightarrow> compress_state outcome" where
  "put_byte st v = obind (aset (c_out st) (int (c_xout st)) v) (\<lambda>o'. Ok (st\<lparr>c_out := o', c_xout := c_xout st + 1\<rparr>))"

definition put_literal :: "u8 list \<Rightarrow> compress_state \<Rightarrow> compress_state outcome" where
  "put_literal b st = obind (aget b (int (c_i st))) (\<lambda>v. obind (put_byte st v) (\<lambda>st. Ok (st\<lparr>c_i := c_i st + 1\<rparr>)))"

definition put_phrase :: "compress_state \<Rightarrow> nat \<Rightarrow> int \<Rightarrow> nat \<Rightarrow> compress_state outcome" where
  "put_phrase st bp offs len =
     (let q = push_bit (16 - bp) (NOT (word_of_int offs)) + word_of_nat len :: u32 in
      obind (put_byte st (ucast q)) (\<lambda>st.
      obind (put_byte st (ucast (drop_bit 8 q))) (\<lambda>st. Ok (st\<lparr>c_tag := c_tag st OR push_bit (8 - c_ntag st) 1\<rparr>))))"

definition store_tag :: "compress_state \<Rightarrow> compress_state outcome" where
  "store_tag st =
     (if c_ntag st - 1 = 0
      then obind (aset (c_out st) (int (c_ptag st)) (c_tag st)) (\<lambda>o'.
           Ok (st\<lparr>c_out := o', c_ntag := 8, c_ptag := c_xout st, c_xout := c_xout st + 1, c_tag := 0\<rparr>))
      else Ok (st\<lparr>c_ntag := c_ntag st - 1\<rparr>))"

text \<open>The match at the current position, if it is not known from the previous one.\<close>

definition find_match :: "u8 list \<Rightarrow> compress_state \<Rightarrow> compress_state outcome" where
  "find_match b st =
     (if c_have st then Ok st
      else let (bp, mxoff, mxsz) = raise_offset (c_i st) (c_bp st) (c_mxoff st) (m_mxsz (c_ctx st)) in
           obind (ntfs_best_match b ((c_ctx st)\<lparr>m_mxsz := mxsz\<rparr>) (c_i st) 2) (\<lambda>c.
           Ok (st\<lparr>c_bp := bp, c_mxoff := mxoff, c_ctx := c\<rparr>)))"

text \<open>The choice between the match at the position \<open>i\<close> and the one at the next position.\<close>

definition lazy_match :: "u8 list \<Rightarrow> compress_state \<Rightarrow> compress_state outcome" where
  "lazy_match b st =
     (let i = c_i st; c = c_ctx st; j = i + m_size c; bp_cur = c_bp st; offs = m_rel c;
          (bp, mxoff, mxsz) = (if c_mxoff st < i + 1 then (c_bp st + 1, c_mxoff st * 2, (m_mxsz c + 2) div 2) else (c_bp st, c_mxoff st, m_mxsz c)) in
      obind (ntfs_best_match b (c\<lparr>m_mxsz := mxsz\<rparr>) (i + 1) (m_size c)) (\<lambda>c.
      let st = st\<lparr>c_bp := bp, c_mxoff := mxoff, c_ctx := c\<rparr> in
      if i + 1 + m_size c > j + 1 then obind (put_literal b st) (\<lambda>st. Ok (st\<lparr>c_have := True\<rparr>))
      else obind (put_phrase st bp_cur offs (j - i - 3)) (\<lambda>st.
           obind (skip_loop b (c_ctx st) (i + 2) j) (\<lambda>c. Ok (st\<lparr>c_i := j, c_ctx := c, c_have := False\<rparr>)))))"

text \<open>One round of the loop; \<open>True\<close> leaves it.\<close>

definition compress_step :: "u8 list \<Rightarrow> compress_state \<Rightarrow> (compress_state \<times> bool) outcome" where
  "compress_step b st =
     obind (find_match b st) (\<lambda>st.
     let i = c_i st; c = c_ctx st; j = i + m_size c in
     if m_size c \<ge> 3
     then if m_size c \<ge> NICE_MATCH_LEN
          then obind (put_phrase st (c_bp st) (m_rel c) (j - i - 3)) (\<lambda>st.
               if j = length b then Ok (st\<lparr>c_i := j, c_ntag := c_ntag st - 1\<rparr>, True)
               else obind (skip_loop b (c_ctx st) (i + 1) j) (\<lambda>c.
                    obind (store_tag (st\<lparr>c_i := j, c_ctx := c, c_have := False\<rparr>)) (\<lambda>st. Ok (st, False))))
          else obind (lazy_match b st) (\<lambda>st. obind (store_tag st) (\<lambda>st. Ok (st, False)))
     else obind (put_literal b st) (\<lambda>st. obind (store_tag (st\<lparr>c_have := False\<rparr>)) (\<lambda>st. Ok (st, False))))"

text \<open>Every round moves on.\<close>

lemma put_byte_i: "put_byte st v = Ok st' \<Longrightarrow> c_i st' = c_i st"
  by (auto simp: put_byte_def obind_Ok_iff)

lemma put_phrase_i: "put_phrase st bp offs len = Ok st' \<Longrightarrow> c_i st' = c_i st"
  by (auto simp: put_phrase_def obind_Ok_iff Let_def dest!: put_byte_i)

lemma put_literal_i: "put_literal b st = Ok st' \<Longrightarrow> c_i st' = c_i st + 1"
  by (auto simp: put_literal_def obind_Ok_iff dest!: put_byte_i)

lemma store_tag_i: "store_tag st = Ok st' \<Longrightarrow> c_i st' = c_i st"
  by (auto simp: store_tag_def obind_Ok_iff split: if_splits)

lemma find_match_i: "find_match b st = Ok st' \<Longrightarrow> c_i st' = c_i st"
  by (cases "raise_offset (c_i st) (c_bp st) (c_mxoff st) (m_mxsz (c_ctx st))")
    (auto simp: find_match_def obind_Ok_iff split: if_splits)

lemma lazy_match_i:
  assumes "lazy_match b st = Ok st'" "m_size (c_ctx st) \<ge> 3"
  shows "c_i st < c_i st'"
  using assms
  by (auto simp: lazy_match_def obind_Ok_iff Let_def dest!: put_literal_i split: if_splits)

lemma compress_step_i: "compress_step b st = Ok (st', stop) \<Longrightarrow> c_i st < c_i st'"
  by (auto simp: compress_step_def obind_Ok_iff Let_def dest!: find_match_i put_phrase_i put_literal_i store_tag_i lazy_match_i split: if_splits)

function compress_loop :: "u8 list \<Rightarrow> compress_state \<Rightarrow> compress_state outcome" where
  "compress_loop b st =
     (if c_i st < length b \<and> c_xout st < NTFS_SB_SIZE + 2
      then obind (compress_step b st) (\<lambda>r. if snd r then Ok (fst r) else compress_loop b (fst r))
      else Ok st)"
  by pat_completeness auto
termination
proof (relation "measure (\<lambda>(b, st). length b - c_i st)", goal_cases)
  case (2 b st r)
  then show ?case
    using compress_step_i [of b st "fst r" "snd r"] by (cases r) auto
qed simp

declare compress_loop.simps [simp del]

text \<open>Compression of a block; \<open>mem\<close> is the memory of the context, if the allocator serves it. The result is the
  length of the output, with its header, and the output buffer.\<close>

definition ntfs_compress_block :: "compress_context option \<Rightarrow> u8 list \<Rightarrow> u8 list \<Rightarrow> (nat \<times> u8 list) outcome" where
  "ntfs_compress_block mem inbuf outbuf =
     (case mem of
        None \<Rightarrow> Err ENOMEM
      | Some c \<Rightarrow>
          let c = c\<lparr>m_head := replicate (2 ^ HASH_SHIFT) (-1), m_mxsz := 2 ^ (16 - 4) + 2\<rparr>;
              st = \<lparr>c_i = 0, c_bp = 4, c_mxoff = 2 ^ 4, c_have = False, c_tag = 0, c_ntag = 8, c_ptag = 2, c_xout = 3, c_out = outbuf, c_ctx = c\<rparr> in
          obind (compress_loop inbuf st) (\<lambda>st.
          obind (if c_ntag st = 8 then Ok (st\<lparr>c_xout := c_xout st - 1\<rparr>)
                 else obind (aset (c_out st) (int (c_ptag st)) (c_tag st)) (\<lambda>o'. Ok (st\<lparr>c_out := o'\<rparr>))) (\<lambda>st.
          let x = c_xout st in
          if c_i st \<ge> length inbuf \<and> x < NTFS_SB_SIZE + 2
          then obind (aset (c_out st) 0 (word_of_nat (x - 3))) (\<lambda>o'.
               obind (aset o' 1 (0xb0 + word_of_nat ((x - 3) div 256 mod 16))) (\<lambda>o'. Ok (x, o')))
          else obind (acopy (c_out st) 2 inbuf 0 (int (length inbuf))) (\<lambda>o'.
               obind (if length inbuf < NTFS_SB_SIZE then fill_zero o' (length inbuf + 2) (NTFS_SB_SIZE - length inbuf) else Ok o') (\<lambda>o'.
               obind (aset o' 0 0xff) (\<lambda>o'.
               obind (aset o' 1 0x3f) (\<lambda>o'. Ok (NTFS_SB_SIZE + 2, o'))))))))"

end
