(* ===== verification/Decompress_Props.thy ===== *)
theory Decompress_Props
  imports Compress
begin

text \<open>
  Decompression of arbitrary bytes: with one spare byte behind each buffer it stays in the buffers, and without the spare
  byte of the destination it does not.
\<close>

section \<open>Safety\<close>

text \<open>\<open>flows P m\<close>: \<open>m\<close> does not fault, its value satisfies \<open>P\<close>, and its only error is an overflow of the stream.\<close>

fun flows :: "('a \<Rightarrow> bool) \<Rightarrow> 'a outcome \<Rightarrow> bool" where
  "flows P (Ok x) = P x"
| "flows P (Err e) = (e = EOVERFLOW)"
| "flows P Fault = False"

lemma flows_bind: "flows P m \<Longrightarrow> (\<And>x. P x \<Longrightarrow> flows Q (f x)) \<Longrightarrow> flows Q (obind m f)"
  by (cases m) auto

lemma copy_bytes_Ok:
  "dest + n \<le> length D \<Longrightarrow> bk \<le> dest \<Longrightarrow> \<exists>D'. copy_bytes n D dest bk = Ok D' \<and> length D' = length D"
proof (induction n arbitrary: D dest bk)
  case (Suc n)
  then show ?case
    using Suc.IH [of "dest + 1" "D[dest := D ! bk]" "bk + 1"] by (simp add: aget_def aset_def)
qed simp

lemma copy_bytes_flows:
  "dest + n \<le> length D \<Longrightarrow> bk \<le> dest \<Longrightarrow> flows (\<lambda>D'. length D' = length D) (copy_bytes n D dest bk)"
  using copy_bytes_Ok [of dest n D bk] by auto

lemma acopy_flows:
  "d + n \<le> length D \<Longrightarrow> b + n \<le> length B \<Longrightarrow> flows (\<lambda>D'. length D' = length D) (acopy D (int d) B (int b) (int n))"
  by (auto simp: acopy_def nat_add_distrib)

lemma phrase_token_flows:
  assumes "cb + 2 \<le> length B" "e \<le> length D" "s \<le> dest"
  shows "flows (\<lambda>(D', dest'). length D' = length D \<and> s \<le> dest' \<and> dest' \<le> e) (phrase_token B s e D dest cb)"
proof -
  define pt where "pt = le16_at B cb"
  define lg where "lg = lg_loop ((dest - s - 1) mod 2 ^ 16)"
  define dist where "dist = Suc (unat (drop_bit (12 - lg) pt))"
  define len where "len = unat (pt AND drop_bit lg 0xfff) + 3"
  show ?thesis
  proof (cases "dest = s \<or> dest < s + dist \<or> dest + len > e")
    case True
    then show ?thesis
      using assms(1) by (auto simp: phrase_token_def get_le16_def Let_def pt_def lg_def dist_def len_def)
  next
    case False
    then have p: "phrase_token B s e D dest cb =
      (if len \<le> dist then obind (acopy D (int dest) D (int (dest - dist)) (int len)) (\<lambda>D. Ok (D, dest + len))
       else obind (acopy D (int dest) D (int (dest - dist)) (int dist)) (\<lambda>D.
            obind (copy_bytes (len - dist) D (dest + dist) (dest - dist + dist)) (\<lambda>D. Ok (D, dest + len))))"
      using assms(1) by (simp add: phrase_token_def get_le16_def Let_def pt_def lg_def dist_def len_def)
    have c: "flows (\<lambda>D'. length D' = length D) (acopy D (int dest) D (int (dest - dist)) (int n))" if "n \<le> len" for n
      using that False assms by (intro acopy_flows) auto
    show ?thesis
    proof (cases "len \<le> dist")
      case True
      then show ?thesis
        using False flows_bind [OF c [OF order_refl], of _ "\<lambda>D. Ok (D, dest + len)"] assms by (simp add: p)
    next
      case le: False
      then have "flows (\<lambda>(D', dest'). length D' = length D \<and> s \<le> dest' \<and> dest' \<le> e)
          (obind (acopy D (int dest) D (int (dest - dist)) (int dist)) (\<lambda>D.
            obind (copy_bytes (len - dist) D (dest + dist) (dest - dist + dist)) (\<lambda>D. Ok (D, dest + len))))"
        using False assms by (intro flows_bind [OF c] flows_bind [OF copy_bytes_flows]) auto
      then show ?thesis
        using le p by simp
    qed
  qed
qed

lemma token_loop_flows:
  assumes "sb_end < length B" "e < length D" "s \<le> dest" "dest \<le> Suc e"
  shows "flows (\<lambda>(D', dest', cb'). length D' = length D \<and> s \<le> dest' \<and> dest' \<le> Suc e) (token_loop B s e sb_end n tag D dest cb)"
  using assms
proof (induction n arbitrary: tag D dest cb)
  case (Suc n)
  show ?case
  proof (cases "cb \<ge> sb_end \<or> dest > e")
    case False
    show ?thesis
    proof (cases "tag AND 1 = 0")
      case True
      then show ?thesis
        using False Suc.prems Suc.IH [of "D[dest := B ! cb]" "dest + 1" "drop_bit 1 tag" "cb + 1"] by (simp add: aget_def aset_def)
    next
      case odd: False
      have "flows (\<lambda>(D', dest'). length D' = length D \<and> s \<le> dest' \<and> dest' \<le> e) (phrase_token B s e D dest cb)"
        using False Suc.prems by (intro phrase_token_flows) auto
      then have "flows (\<lambda>(D', dest', cb'). length D' = length D \<and> s \<le> dest' \<and> dest' \<le> Suc e)
        (obind (phrase_token B s e D dest cb) (\<lambda>(D, dest). token_loop B s e sb_end n (drop_bit 1 tag) D dest (cb + 2)))"
      proof (rule flows_bind, clarify)
        fix D' :: "u8 list" and dest'
        assume "length D' = length D" "s \<le> dest'" "dest' \<le> e"
        then show "flows (\<lambda>(D'', dest', cb'). length D'' = length D \<and> s \<le> dest' \<and> dest' \<le> Suc e)
            (token_loop B s e sb_end n (drop_bit 1 tag) D' dest' (cb + 2))"
          using Suc.IH [of D' dest' "drop_bit 1 tag" "cb + 2"] Suc.prems by simp
      qed
      then show ?thesis
        using False odd by simp
    qed
  qed (use Suc.prems in auto)
qed auto

lemma tag_loop_flows:
  assumes "sb_end < length B" "e < length D" "s \<le> dest" "dest \<le> Suc e"
  shows "flows (\<lambda>(D', dest'). length D' = length D \<and> dest' \<le> Suc e) (tag_loop B s e sb_end D dest cb)"
  using assms
proof (induction B s e sb_end D dest cb rule: tag_loop.induct)
  case (1 B s e sb_end D dest cb)
  show ?case
  proof (cases "cb < sb_end \<and> dest \<le> e")
    case True
    then have "aget B (int cb) = Ok (B ! cb)"
      using 1 by (simp add: aget_def)
    moreover have "flows (\<lambda>(D', dest'). length D' = length D \<and> dest' \<le> Suc e)
        (obind (token_loop B s e sb_end 8 (B ! cb) D dest (cb + 1)) (\<lambda>r. tag_loop B s e sb_end (fst r) (fst (snd r)) (snd (snd r))))"
    proof (cases "token_loop B s e sb_end 8 (B ! cb) D dest (cb + 1)")
      case (Ok r)
      then show ?thesis
        using 1(1) [of "B ! cb" r] 1(2-5) True token_loop_flows [OF 1(2-5), of 8 "B ! cb" "cb + 1"]
        by (cases r) (simp add: aget_def)
    qed (use token_loop_flows [OF 1(2-5), of 8 "B ! cb" "cb + 1"] in auto)
    ultimately show ?thesis
      using True by (simp add: tag_loop.simps [of B s e sb_end D dest cb])
  next
    case False
    then show ?thesis
      using 1(2-5) by (auto simp: tag_loop.simps [of B s e sb_end D dest cb] fill_zero_def acopy_def nat_add_distrib of_nat_diff)
  qed
qed

lemma decompress_loop_flows:
  assumes "cb_end < length B" "dest_end < length D" "cb \<le> cb_end"
  shows "flows (\<lambda>D'. length D' = length D) (decompress_loop B cb_end dest_end D dest cb)"
  using assms
proof (induction B cb_end dest_end D dest cb rule: decompress_loop.induct)
  case (1 B cb_end dest_end D dest cb)
  define hd where "hd = le16_at B cb"
  define sb_end where "sb_end = cb + unat (hd AND NTFS_SB_SIZE_MASK) + 3"
  define e where "e = dest + NTFS_SB_SIZE"
  show ?case
  proof (cases "cb = cb_end \<or> hd = 0 \<or> dest = dest_end \<or> e > dest_end \<or> cb + 6 > cb_end \<or> sb_end > cb_end
      \<or> hd AND NTFS_SB_IS_COMPRESSED = 0 \<and> sb_end \<noteq> cb + 2 + NTFS_SB_SIZE")
    case True
    then show ?thesis
      using 1(3-5) by (auto simp: decompress_loop.simps [of B cb_end dest_end D dest cb] get_le16_def Let_def hd_def sb_end_def e_def)
  next
    case ok: False
    then have g: "get_le16 B cb = Ok hd"
      using 1(3-5) by (auto simp: get_le16_def hd_def)
    have s: "decompress_loop B cb_end dest_end D dest cb =
       (if hd AND NTFS_SB_IS_COMPRESSED = 0
        then obind (acopy D (int dest) B (int (cb + 2)) (int NTFS_SB_SIZE)) (\<lambda>D. decompress_loop B cb_end dest_end D e sb_end)
        else obind (tag_loop B dest e sb_end D dest (cb + 2)) (\<lambda>r. decompress_loop B cb_end dest_end (fst r) (snd r) sb_end))"
      using ok by (simp add: decompress_loop.simps [of B cb_end dest_end D dest cb] g Let_def e_def sb_end_def)
    show ?thesis
    proof (cases "hd AND NTFS_SB_IS_COMPRESSED = 0")
      case True
      obtain D' where D': "acopy D (int dest) B (int (cb + 2)) (int NTFS_SB_SIZE) = Ok D'" "length D' = length D"
        using acopy_flows [of dest NTFS_SB_SIZE D "cb + 2" B] ok True 1(3-5)
        by (cases "acopy D (int dest) B (int (cb + 2)) (int NTFS_SB_SIZE)") (auto simp: e_def acopy_def split: if_splits)
      then have "flows (\<lambda>D''. length D'' = length D') (decompress_loop B cb_end dest_end D' e sb_end)"
        using 1(1) [OF _ g _ e_def _ _ sb_end_def _ True _ D'(1)] ok True 1(3-5) by simp
      then show ?thesis
        using s True D' by simp
    next
      case False
      have f: "flows (\<lambda>(D', dest'). length D' = length D \<and> dest' \<le> Suc e) (tag_loop B dest e sb_end D dest (cb + 2))"
        using ok 1(3-5) by (intro tag_loop_flows) (auto simp: e_def)
      show ?thesis
      proof (cases "tag_loop B dest e sb_end D dest (cb + 2)")
        case (Ok r)
        then have "flows (\<lambda>D''. length D'' = length (fst r)) (decompress_loop B cb_end dest_end (fst r) (snd r) sb_end)"
          using 1(2) [OF _ g _ e_def _ _ sb_end_def _ False Ok] ok f 1(3-5) by (simp add: split_beta)
        then show ?thesis
          using s False Ok f by (simp add: split_beta)
      qed (use f s False in auto)
    qed
  qed
qed

text \<open>C13. Decompressing arbitrary bytes always returns. It reads at most one byte behind the compression block and writes at
  most one byte behind the destination: with that byte in both buffers every access is inside them, and the
  only error is an overflow of the stream.\<close>

theorem ntfs_decompress_safe:
  assumes "cb_size < length cb" "dest_size < length dest"
  shows "(\<exists>D. ntfs_decompress dest dest_size cb cb_size = Ok D \<and> length D = length dest) \<or> ntfs_decompress dest dest_size cb cb_size = Err EOVERFLOW"
  using decompress_loop_flows [OF assms, of 0 0]
  by (cases "decompress_loop cb cb_size dest_size dest 0 0") (auto simp: ntfs_decompress_def)

theorem ntfs_decompress_safe_witness:
  "(\<exists>D. ntfs_decompress [9] 0 [0, 0, 0] 2 = Ok D \<and> length D = length [9 :: u8]) \<or> ntfs_decompress [9] 0 [0, 0, 0] 2 = Err EOVERFLOW"
  by (rule ntfs_decompress_safe) simp_all

section \<open>The spare byte of the destination\<close>

text \<open>A compressed sub-block of a symbol and a phrase that fills the rest of its 4096 bytes, and one with one more symbol.\<close>

definition full_sub :: "u8 \<Rightarrow> u8 list" where
  "full_sub c = [0x03, 0x80, 0x02, c, 0xfc, 0x0f]"

definition over_sub :: "u8 \<Rightarrow> u8 \<Rightarrow> u8 list" where
  "over_sub c x = [0x04, 0x80, 0x02, c, 0xfc, 0x0f, x]"

lemma long_phrase:
  assumes "get_le16 B p = Ok 0xffc" "d + 4096 \<le> length D"
  shows "\<exists>D'. phrase_token B d (d + 4096) D (d + 1) p = Ok (D', d + 4096) \<and> length D' = length D"
proof -
  have l: "lg_loop 0 = 0"
    by (simp add: lg_loop.simps)
  obtain D1 where D1: "acopy D (int (d + 1)) D (int d) 1 = Ok D1" "length D1 = length D"
    using acopy_flows [of "d + 1" 1 D d D] assms(2) by (cases "acopy D (int (d + 1)) D (int d) 1") (auto simp: acopy_def split: if_splits)
  obtain D2 where D2: "copy_bytes 4094 D1 (d + 2) (d + 1) = Ok D2" "length D2 = length D"
    using copy_bytes_Ok [of "d + 2" 4094 D1 "d + 1"] D1(2) assms(2) by auto
  have "phrase_token B d (d + 4096) D (d + 1) p = Ok (D2, d + 4096)"
    using D1(1) D2(1) by (simp add: phrase_token_def assms(1) l Let_def)
  then show ?thesis
    using D2(2) by blast
qed

lemma drop_head: "drop i B = L \<Longrightarrow> k < length L \<Longrightarrow> i + k < length B \<and> B ! (i + k) = L ! k"
  by (metis add.commute less_diff_conv length_drop nth_drop less_imp_le_nat add_leE not_less drop_all list.size(3) less_nat_zero_code)

lemma get_le16_drop: "drop i B = a # b # R \<Longrightarrow> get_le16 B i = Ok (ucast a OR push_bit 8 (ucast b))"
  using drop_head [of i B "a # b # R" 0] drop_head [of i B "a # b # R" 1] by (simp add: get_le16_def le16_at_def)

lemma sub_words:
  "ucast (0xfc :: u8) OR push_bit 8 (ucast (0x0f :: u8)) = (0xffc :: u16)"
  "ucast (0x03 :: u8) OR push_bit 8 (ucast (0x80 :: u8)) = (0x8003 :: u16)"
  "ucast (0x04 :: u8) OR push_bit 8 (ucast (0x80 :: u8)) = (0x8004 :: u16)"
  by code_simp+

lemma symbol_phrase:
  assumes "drop p B = 0x02 # c # 0xfc # 0x0f # R" "d + 4096 \<le> length D" "p1 = p + 1" "p4 = p + 4" "p4 \<le> q"
  shows "\<exists>D'. length D' = length D \<and>
     token_loop B d (d + 4096) q (Suc (Suc n)) 0x02 D d p1 = token_loop B d (d + 4096) q n 0 D' (d + 4096) p4"
proof -
  have "drop (p + 2) B = 0xfc # 0x0f # R"
    using arg_cong [OF assms(1), of "drop 2"] by (simp add: add.commute)
  then have pt: "get_le16 B (p + 2) = Ok 0xffc"
    by (simp only: get_le16_drop sub_words)
  have c: "aget B (int (p + 1)) = Ok c"
    using drop_head [OF assms(1), of 1] by (simp add: aget_def nat_add_distrib)
  obtain D' where "phrase_token B d (d + 4096) (D[d := c]) (d + 1) (p + 2) = Ok (D', d + 4096)" "length D' = length D"
    using long_phrase [OF pt, of d "D[d := c]"] assms(2) by auto
  moreover have "p4 = Suc (Suc (Suc (Suc p)))"
    using assms(4) by simp
  ultimately show ?thesis
    using c assms(2,3,5) by (intro exI [of _ D']) (simp add: aset_def)
qed

lemma full_sub_ok:
  assumes "drop cb B = full_sub c @ R" "d + 4096 \<le> length D" "d + 4096 \<le> de" "cb + 6 \<le> ce"
  shows "\<exists>D'. decompress_loop B ce de D d cb = decompress_loop B ce de D' (d + 4096) (cb + 6) \<and> length D' = length D"
proof -
  have h: "get_le16 B cb = Ok 0x8003"
    using assms(1) by (simp only: full_sub_def append_Cons append_Nil get_le16_drop sub_words)
  have t: "drop (cb + 2) B = 0x02 # c # 0xfc # 0x0f # R"
    using arg_cong [OF assms(1), of "drop 2"] by (simp add: full_sub_def add.commute)
  from symbol_phrase [OF this assms(2), of "cb + 2 + 1" "cb + 6" "cb + 6" 6]
  obtain D' where D': "token_loop B d (d + 4096) (cb + 6) 8 0x02 D d (cb + 2 + 1) = token_loop B d (d + 4096) (cb + 6) (Suc 5) 0 D' (d + 4096) (cb + 6)" "length D' = length D"
    by auto
  then have "token_loop B d (d + 4096) (cb + 6) 8 0x02 D d (cb + 2 + 1) = Ok (D', d + 4096, cb + 6)"
    by (simp only: token_loop.simps order_refl simp_thms if_True)
  moreover have "aget B (int (cb + 2)) = Ok 0x02"
    using drop_head [OF t, of 0] by (simp add: aget_def nat_add_distrib)
  ultimately have "tag_loop B d (d + 4096) (cb + 6) D d (cb + 2) = Ok (D', d + 4096)"
    by (simp add: tag_loop.simps [of B d "d + 4096" "cb + 6" D d "cb + 2"] tag_loop.simps [of B d "d + 4096" "cb + 6" D'] del: add_2_eq_Suc')
  then have "decompress_loop B ce de D d cb = decompress_loop B ce de D' (d + 4096) (cb + 6)"
    using assms(3,4) h by (simp add: decompress_loop.simps [of B ce de D d cb] NTFS_SB_SIZE_def NTFS_SB_SIZE_MASK_def NTFS_SB_IS_COMPRESSED_def Let_def add.commute [of _ cb] del: add_2_eq_Suc')
  then show ?thesis
    using D'(2) by blast
qed

lemma over_sub_fault:
  assumes "drop cb B = over_sub c x @ R" "length D = d + 4096" "cb + 7 \<le> ce"
  shows "decompress_loop B ce (d + 4096) D d cb = Fault"
proof -
  have h: "get_le16 B cb = Ok 0x8004"
    using assms(1) by (simp only: over_sub_def append_Cons append_Nil get_le16_drop sub_words)
  have t: "drop (cb + 2) B = 0x02 # c # 0xfc # 0x0f # x # R"
    using arg_cong [OF assms(1), of "drop 2"] by (simp add: over_sub_def add.commute)
  from symbol_phrase [OF this, of d D "cb + 2 + 1" "cb + 6" "cb + 7" 6] assms(2)
  obtain D' where D': "token_loop B d (d + 4096) (cb + 7) 8 0x02 D d (cb + 2 + 1) = token_loop B d (d + 4096) (cb + 7) (Suc 5) 0 D' (d + 4096) (cb + 6)" "length D' = length D"
    by auto
  have a: "aget B (int (cb + 6)) = Ok x" "aget B (int (cb + 2)) = Ok 0x02"
    using drop_head [OF t, of 0] drop_head [OF t, of 4] by (simp_all add: aget_def nat_add_distrib add.commute)
  have "token_loop B d (d + 4096) (cb + 7) 8 0x02 D d (cb + 2 + 1) = Fault"
  proof -
    have "aset D' (int (d + 4096)) x = Fault"
      using D'(2) assms(2) by (simp add: aset_def)
    then have "token_loop B d (d + 4096) (cb + 7) (Suc 5) 0 D' (d + 4096) (cb + 6) = Fault"
      using a(1) by (subst token_loop.simps) simp
    then show ?thesis
      using D'(1) by simp
  qed
  then have "tag_loop B d (d + 4096) (cb + 7) D d (cb + 2) = Fault"
    using a(2) by (simp add: tag_loop.simps [of B d "d + 4096" "cb + 7" D d "cb + 2"] del: add_2_eq_Suc')
  then show ?thesis
    using assms(3) h by (simp add: decompress_loop.simps [of B ce "d + 4096" D d cb] NTFS_SB_SIZE_def NTFS_SB_SIZE_MASK_def NTFS_SB_IS_COMPRESSED_def Let_def add.commute [of _ cb] del: add_2_eq_Suc')
qed

lemma subs_fault:
  assumes "drop cb B = concat (map full_sub S) @ over_sub c x @ R" "length D = d + 4096 * (length S + 1)"
    "cb + 6 * length S + 7 \<le> ce"
  shows "decompress_loop B ce (length D) D d cb = Fault"
  using assms
proof (induction S arbitrary: cb D d)
  case Nil
  then show ?case
    using over_sub_fault [of cb B c x R D d ce] by simp
next
  case (Cons a S)
  have b: "drop cb B = full_sub a @ concat (map full_sub S) @ over_sub c x @ R"
    using Cons.prems(1) by simp
  obtain D' where D': "decompress_loop B ce (length D) D d cb = decompress_loop B ce (length D) D' (d + 4096) (cb + 6)" "length D' = length D"
    using full_sub_ok [OF b, of d D "length D" ce] Cons.prems(2,3) by auto
  have "drop (cb + 6) B = concat (map full_sub S) @ over_sub c x @ R"
    using arg_cong [OF b, of "drop 6"] by (simp add: full_sub_def add.commute)
  then show ?case
    using Cons.IH [of "cb + 6" D' "d + 4096"] D' Cons.prems(2,3) by simp
qed

text \<open>C37. The spare byte of the destination is needed, for destinations of any number of sub-blocks: a compression block
  whose sub-blocks each fill their 4096 bytes, the last one with one more symbol, writes behind the destination,
  whatever the symbols and the bytes behind the sub-blocks are. With enough of these bytes the compression block
  has the size of the destination, as in a read of a compressed attribute up to the end of a block.\<close>

theorem ntfs_decompress_overflows:
  assumes "cb = concat (map full_sub S) @ over_sub c x @ R" "length dest = 4096 * (length S + 1)"
  shows "ntfs_decompress dest (length dest) cb (length cb) = Fault"
proof -
  have "6 * length S + 7 \<le> length cb"
    unfolding assms(1) by (induction S) (simp_all add: full_sub_def over_sub_def)
  then show ?thesis
    using subs_fault [of 0 cb S c x R dest 0 "length cb"] assms by (simp add: ntfs_decompress_def)
qed

theorem ntfs_decompress_overflows_witness:
  "\<exists>cb. length cb = 8192 \<and> ntfs_decompress (replicate 8192 0) 8192 cb 8192 = Fault"
proof -
  let ?cb = "concat (map full_sub [0x61]) @ over_sub 0x62 0x63 @ replicate 8179 0"
  have l: "length ?cb = 8192" "length (replicate 8192 (0 :: u8)) = 8192"
    by (simp_all add: full_sub_def over_sub_def)
  have "length (replicate 8192 (0 :: u8)) = 4096 * (length [0x61 :: u8] + 1)"
    by simp
  then show ?thesis
    using ntfs_decompress_overflows [OF refl, where dest = "replicate 8192 0" and S = "[0x61]" and c = "0x62" and x = "0x63" and R = "replicate 8179 0"] l
    by (intro exI [of _ ?cb]) (simp only: simp_thms)
qed

end
