(* ===== verification/Lz_Stream.thy ===== *)
theory Lz_Stream
  imports Decompress_Props
begin

text \<open>
  The format of compressed data: tokens, their meaning, and their encoding in groups of eight behind a tag byte. The
  decoder is shown to give the meaning of every well formed stream.
\<close>

section \<open>Tokens\<close>

datatype token = Sym u8 | Phrase nat nat

text \<open>A phrase repeats, byte by byte, what was written at a distance.\<close>

fun lz :: "u8 list \<Rightarrow> nat \<Rightarrow> nat \<Rightarrow> u8 list" where
  "lz out d 0 = out"
| "lz out d (Suc n) = lz (out @ [out ! (length out - d)]) d n"

fun expand1 :: "u8 list \<Rightarrow> token \<Rightarrow> u8 list" where
  "expand1 out (Sym b) = out @ [b]"
| "expand1 out (Phrase d l) = lz out d l"

definition expand :: "u8 list \<Rightarrow> token list \<Rightarrow> u8 list" where
  "expand = foldl expand1"

fun tok_len :: "token \<Rightarrow> nat" where
  "tok_len (Sym b) = 1"
| "tok_len (Phrase d l) = l"

definition len_bits :: "nat \<Rightarrow> nat" where
  "len_bits pos = 12 - lg_loop (pos - 1)"

fun tok_ok :: "nat \<Rightarrow> token \<Rightarrow> bool" where
  "tok_ok pos (Sym b) = (pos < 4096)"
| "tok_ok pos (Phrase d l) = (1 \<le> d \<and> d \<le> pos \<and> 3 \<le> l \<and> pos + l \<le> 4096 \<and> l < 2 ^ len_bits pos + 3)"

definition phrase_code :: "nat \<Rightarrow> nat \<Rightarrow> nat \<Rightarrow> nat" where
  "phrase_code pos d l = (d - 1) * 2 ^ len_bits pos + (l - 3)"

fun tok_bytes :: "nat \<Rightarrow> token \<Rightarrow> u8 list" where
  "tok_bytes pos (Sym b) = [b]"
| "tok_bytes pos (Phrase d l) = [word_of_nat (phrase_code pos d l), word_of_nat (phrase_code pos d l div 256)]"

fun toks_ok :: "nat \<Rightarrow> token list \<Rightarrow> bool" where
  "toks_ok pos [] = True"
| "toks_ok pos (t # ts) = (tok_ok pos t \<and> toks_ok (pos + tok_len t) ts)"

fun toks_bytes :: "nat \<Rightarrow> token list \<Rightarrow> u8 list" where
  "toks_bytes pos [] = []"
| "toks_bytes pos (t # ts) = tok_bytes pos t @ toks_bytes (pos + tok_len t) ts"

definition toks_len :: "token list \<Rightarrow> nat" where
  "toks_len ts = sum_list (map tok_len ts)"

fun is_phrase :: "token \<Rightarrow> bool" where
  "is_phrase (Sym b) = False"
| "is_phrase (Phrase d l) = True"

fun tag_of :: "token list \<Rightarrow> u8" where
  "tag_of [] = 0"
| "tag_of (t # ts) = (if is_phrase t then 1 else 0) OR push_bit 1 (tag_of ts)"

lemma toks_len_simps [simp]: "toks_len [] = 0" "toks_len (t # ts) = tok_len t + toks_len ts" "toks_len (ts @ us) = toks_len ts + toks_len us"
  by (simp_all add: toks_len_def)

lemma toks_ok_append [simp]: "toks_ok pos (ts @ us) \<longleftrightarrow> toks_ok pos ts \<and> toks_ok (pos + toks_len ts) us"
  by (induction ts arbitrary: pos) (auto simp: add.assoc)

lemma toks_bytes_append [simp]: "toks_bytes pos (ts @ us) = toks_bytes pos ts @ toks_bytes (pos + toks_len ts) us"
  by (induction ts arbitrary: pos) (auto simp: add.assoc)

lemma expand_simps [simp]: "expand out [] = out" "expand out (t # ts) = expand (expand1 out t) ts" "expand out (ts @ us) = expand (expand out ts) us"
  by (simp_all add: expand_def)

lemma length_lz [simp]: "length (lz out d n) = length out + n"
  by (induction out d n rule: lz.induct) auto

lemma length_expand1 [simp]: "length (expand1 out t) = length out + tok_len t"
  by (cases t) auto

lemma length_expand [simp]: "length (expand out ts) = length out + toks_len ts"
  by (induction ts arbitrary: out) auto

declare tag_of.simps(2) [simp del]

lemma bit_tag_of: "bit (tag_of ts) n \<longleftrightarrow> n < 8 \<and> n < length ts \<and> is_phrase (ts ! n)"
proof (induction ts arbitrary: n)
  case (Cons t ts)
  have p: "bit (if is_phrase t then 1 else 0 :: u8) n \<longleftrightarrow> is_phrase t \<and> n = 0"
    by (simp add: bit_1_iff)
  have "bit (tag_of (t # ts)) n \<longleftrightarrow> is_phrase t \<and> n = 0 \<or> 1 \<le> n \<and> n < LENGTH(8) \<and> bit (tag_of ts) (n - 1)"
    by (simp only: tag_of.simps bit_or_iff bit_push_bit_iff possible_bit_word p)
  then show ?case
    unfolding Cons by (cases n) (auto simp: less_Suc_eq)
qed simp

lemma tag_of_snoc: "tag_of (ts @ [t]) = tag_of ts OR (if is_phrase t then push_bit (length ts) 1 else 0)"
  by (rule bit_word_eqI) (auto simp: bit_tag_of bit_or_iff bit_exp_iff nth_append less_Suc_eq)

lemma tag_of_low: "tag_of (t # ts) AND 1 = (if is_phrase t then 1 else 0)"
  by (rule bit_word_eqI) (auto simp: bit_tag_of bit_and_iff bit_1_iff intro: gr0I)

lemma tag_of_drop: "length ts < 8 \<Longrightarrow> drop_bit 1 (tag_of (t # ts)) = tag_of ts"
  by (rule bit_word_eqI) (auto simp: bit_tag_of bit_drop_bit_eq)

section \<open>Phrases\<close>

lemma lz_add: "lz out d (m + n) = lz (lz out d m) d n"
  by (induction out d m rule: lz.induct) auto

lemma lz_short:
  assumes "n \<le> d" "d \<le> length out"
  shows "lz out d n = out @ take n (drop (length out - d) out)"
  using assms
proof (induction n)
  case (Suc n)
  have "lz out d (Suc n) = lz (lz out d n) d 1"
    using lz_add [of out d n 1] by simp
  then show ?case
    using Suc by (simp add: take_Suc_conv_app_nth nth_append)
qed simp

lemma aget_int: "aget xs (int i) = (if i < length xs then Ok (xs ! i) else Fault)"
  by (simp add: aget_def)

lemma aset_int: "aset xs (int i) v = (if i < length xs then Ok (xs[i := v]) else Fault)"
  by (simp add: aset_def)

lemma acopy_int:
  "acopy xs (int d) ys (int s) (int n) =
     (if d + n \<le> length xs \<and> s + n \<le> length ys then Ok (take d xs @ take n (drop s ys) @ drop (d + n) xs) else Fault)"
  by (auto simp: acopy_def nat_add_distrib)

lemma fill_zero_int: "fill_zero D dest n = (if dest + n \<le> length D then Ok (take dest D @ replicate n 0 @ drop (dest + n) D) else Fault)"
  using acopy_int [of D dest "replicate n 0" 0 n] by (simp add: fill_zero_def)

lemma copy_bytes_lz:
  assumes "D = pre @ out @ rest" "dest = length pre + length out" "bk = dest - d" "1 \<le> d" "d \<le> length out" "n \<le> length rest"
  shows "copy_bytes n D dest bk = Ok (pre @ lz out d n @ drop n rest)"
  using assms
proof (induction n arbitrary: D out rest dest bk)
  case (Suc n)
  then obtain r rs where r: "rest = r # rs"
    by (cases rest) auto
  have b: "D ! bk = out ! (length out - d)" "bk < length D" "dest < length D"
    using Suc.prems r by (auto simp: nth_append)
  have u: "D[dest := v] = pre @ (out @ [v]) @ rs" for v
    using Suc.prems(1,2) r by (simp add: list_update_append)
  have "copy_bytes n (D[dest := D ! bk]) (dest + 1) (bk + 1) = Ok (pre @ lz (out @ [D ! bk]) d n @ drop n rs)"
    by (rule Suc.IH [OF u]) (use Suc.prems r in auto)
  then show ?case
    using b r by (simp add: aget_int aset_int)
qed simp

lemma lg_loop_bound: "n < 16 * 2 ^ k \<Longrightarrow> lg_loop n \<le> k"
proof (induction k arbitrary: n)
  case (Suc k)
  then have "n div 2 < 16 * 2 ^ k"
    by auto
  then show ?case
    using Suc.IH [of "n div 2"] by (simp add: lg_loop.simps [of n])
qed (simp add: lg_loop.simps)

lemma lg_loop_less: "n < 16 * 2 ^ lg_loop n"
proof (induction n rule: lg_loop.induct)
  case (1 n)
  then show ?case
    by (cases "n \<ge> 16") (auto simp: lg_loop.simps [of n])
qed

text \<open>The code of a phrase is a 16-bit number, and its fields give the phrase back.\<close>

lemma phrase_code_fields:
  assumes "tok_ok pos (Phrase d l)"
  shows "phrase_code pos d l < 2 ^ 16" "phrase_code pos d l div 2 ^ len_bits pos = d - 1" "phrase_code pos d l mod 2 ^ len_bits pos = l - 3"
proof -
  have l: "l - 3 < 2 ^ len_bits pos" and p: "pos \<ge> 1" "pos - 1 < 16 * 2 ^ 8"
    using assms by auto
  then have g: "lg_loop (pos - 1) \<le> 8"
    using lg_loop_bound by blast
  have "d - 1 < 16 * 2 ^ lg_loop (pos - 1)"
    using lg_loop_less [of "pos - 1"] assms by (auto intro: le_less_trans)
  then have "(d - 1 + 1) * 2 ^ len_bits pos \<le> (16 * 2 ^ lg_loop (pos - 1)) * 2 ^ len_bits pos"
    by (intro mult_right_mono) auto
  also have "\<dots> = 2 ^ 16"
    using g by (simp add: len_bits_def mult.assoc flip: power_add)
  finally show "phrase_code pos d l < 2 ^ 16"
    using l by (simp add: phrase_code_def algebra_simps)
  show "phrase_code pos d l div 2 ^ len_bits pos = d - 1" "phrase_code pos d l mod 2 ^ len_bits pos = l - 3"
    using l by (simp_all add: phrase_code_def)
qed

lemma le16_of_code:
  assumes "n < 2 ^ 16"
  shows "(ucast (word_of_nat n :: u8) :: u16) OR push_bit 8 (ucast (word_of_nat (n div 256) :: u8)) = word_of_nat n"
proof -
  have u: "unat (drop_bit 8 (word_of_nat n :: u16)) = n div 256"
    using assms by (subst unat_drop_bit_eq) (simp add: unat_of_nat drop_bit_eq_div)
  have e: "word_of_nat (n div 256) = (ucast (drop_bit 8 (word_of_nat n :: u16)) :: u8)"
    by (intro word_unat_eq_iff [THEN iffD2]) (simp only: unat_of_nat unsigned_ucast_eq u take_bit_eq_mod)
  have f: "word_of_nat n = (ucast (word_of_nat n :: u16) :: u8)"
    by (intro word_unat_eq_iff [THEN iffD2]) (simp add: unat_of_nat unsigned_ucast_eq take_bit_eq_mod mod_mod_cancel)
  show ?thesis
    unfolding e by (subst f) (rule le16_join_split)
qed

lemma unat_code_fields:
  assumes "n < 2 ^ 16" "k \<le> 12"
  shows "unat (drop_bit (12 - k) (word_of_nat n :: u16)) = n div 2 ^ (12 - k)" "unat ((word_of_nat n :: u16) AND drop_bit k 0xfff) = n mod 2 ^ (12 - k)"
proof -
  have u: "unat (word_of_nat n :: u16) = n"
    using assms(1) by (simp add: unat_of_nat)
  show "unat (drop_bit (12 - k) (word_of_nat n :: u16)) = n div 2 ^ (12 - k)"
    by (subst unat_drop_bit_eq) (simp add: u drop_bit_eq_div)
  have m: "(0xfff :: u16) = mask 12"
    by (simp add: mask_eq_exp_minus_1)
  have k: "drop_bit k (0xfff :: u16) = mask (12 - k)"
    unfolding m by (rule bit_word_eqI) (auto simp: bit_drop_bit_eq bit_mask_iff)
  show "unat ((word_of_nat n :: u16) AND drop_bit k 0xfff) = n mod 2 ^ (12 - k)"
    by (simp only: k u unsigned_take_bit_eq flip: take_bit_eq_mask) (simp only: take_bit_eq_mod)
qed

text \<open>A well formed phrase is copied as it should.\<close>

lemma phrase_token_code:
  assumes ok: "tok_ok (length out) (Phrase d l)"
    and B: "B = A @ tok_bytes (length out) (Phrase d l) @ C" "cb = length A"
    and D: "D = pre @ out @ rest" "s = length pre" "e = s + 4096" "dest = s + length out" "4096 \<le> length out + length rest"
  shows "phrase_token B s e D dest cb = Ok (pre @ lz out d l @ drop l rest, dest + l)"
proof -
  let ?c = "phrase_code (length out) d l" and ?lg = "lg_loop (length out - 1)"
  have g: "get_le16 B cb = Ok (word_of_nat ?c)"
    using phrase_code_fields(1) [OF ok] B by (simp add: get_le16_def le16_at_def nth_append le16_of_code)
  have o: "1 \<le> d" "d \<le> length out" "length out + l \<le> 4096" "3 \<le> l"
    using ok by auto
  then have lg: "?lg \<le> 8" "lg_loop ((dest - s - 1) mod 2 ^ 16) = ?lg"
    using lg_loop_bound [of "length out - 1" 8] D by simp_all
  have dist: "unat (drop_bit (12 - ?lg) (word_of_nat ?c :: u16)) + 1 = d" and len: "unat ((word_of_nat ?c :: u16) AND drop_bit ?lg 0xfff) + 3 = l"
    using unat_code_fields [OF phrase_code_fields(1) [OF ok], of ?lg] phrase_code_fields(2,3) [OF ok] lg o by (simp_all add: len_bits_def)
  have p: "phrase_token B s e D dest cb =
      (if l \<le> d then obind (acopy D (int dest) D (int (dest - d)) (int l)) (\<lambda>D. Ok (D, dest + l))
       else obind (acopy D (int dest) D (int (dest - d)) (int d)) (\<lambda>D.
            obind (copy_bytes (l - d) D (dest + d) (dest - d + d)) (\<lambda>D. Ok (D, dest + l))))"
    using o D unfolding phrase_token_def Let_def g obind.simps lg(2) dist len by auto
  have c: "acopy D (int dest) D (int (dest - d)) (int n) = Ok (pre @ lz out d n @ drop n rest)" if "n \<le> d" "n \<le> l" for n
    using that o D by (simp only: acopy_int) (auto simp: lz_short)
  have r: "copy_bytes (l - d) (pre @ lz out d d @ drop d rest) (dest + d) dest = Ok (pre @ lz (lz out d d) d (l - d) @ drop (l - d) (drop d rest))" if "d < l"
    using that o D by (intro copy_bytes_lz) auto
  have dd: "dest - d + d = dest"
    using o D by simp
  show ?thesis
  proof (cases "l \<le> d")
    case True
    then show ?thesis
      using c [of l] by (simp add: p)
  next
    case False
    then have "lz (lz out d d) d (l - d) = lz out d l"
      using lz_add [of out d d "l - d"] by simp
    then show ?thesis
      using False c [of d] r o dd by (simp add: p del: of_nat_diff)
  qed
qed

section \<open>Streams\<close>

lemma length_tok_bytes: "0 < length (tok_bytes pos t)"
  by (cases t) auto

lemma tok_ok_less: "tok_ok pos t \<Longrightarrow> pos < 4096 \<and> pos + tok_len t \<le> 4096"
  by (cases t) auto

lemma toks_ok_le: "toks_ok pos ts \<Longrightarrow> pos \<le> 4096 \<Longrightarrow> pos + toks_len ts \<le> 4096"
  by (induction ts arbitrary: pos) (force dest: tok_ok_less)+

lemma token_loop_toks:
  assumes "toks_ok (length out) ts" "length ts \<le> n" "n \<le> 8"
    and "B = A @ toks_bytes (length out) ts @ C" "cb = length A" "length A + length (toks_bytes (length out) ts) \<le> sb_end"
    and "length ts = n \<or> sb_end = length A + length (toks_bytes (length out) ts)"
    and "D = pre @ out @ rest" "s = length pre" "e = s + 4096" "dest = s + length out" "4096 \<le> length out + length rest"
  shows "token_loop B s e sb_end n (tag_of ts) D dest cb =
     Ok (pre @ expand out ts @ drop (toks_len ts) rest, dest + toks_len ts, cb + length (toks_bytes (length out) ts))"
  using assms
proof (induction ts arbitrary: n out A cb D rest dest)
  case Nil
  then show ?case
    by (cases n) auto
next
  case (Cons t ts)
  obtain m where n: "n = Suc m"
    using Cons.prems(2) by (cases n) auto
  have "cb < sb_end"
    using Cons.prems(5,6) length_tok_bytes [of "length out" t] unfolding toks_bytes.simps length_append by linarith
  then have run: "\<not> (cb \<ge> sb_end \<or> dest > e)"
    using Cons.prems tok_ok_less [of "length out" t] by auto
  have d: "drop_bit 1 (tag_of (t # ts)) = tag_of ts"
    using Cons.prems(2,3) by (intro tag_of_drop) auto
  show ?case
  proof (cases t)
    case (Sym b)
    then obtain x xs where x: "rest = x # xs"
      using Cons.prems by (cases rest) auto
    have g: "aget B (int cb) = Ok b" "aset D (int dest) b = Ok (pre @ (out @ [b]) @ xs)"
      using Cons.prems(4,5,8,9,11) Sym x aset_app [of "int dest" "pre @ out" x xs b] by (simp_all add: aget_int)
    have "token_loop B s e sb_end m (tag_of ts) (pre @ (out @ [b]) @ xs) (dest + 1) (cb + 1) =
        Ok (pre @ expand (out @ [b]) ts @ drop (toks_len ts) xs, dest + 1 + toks_len ts, cb + 1 + length (toks_bytes (length (out @ [b])) ts))"
      by (rule Cons.IH [of "out @ [b]" m "A @ [b]"]) (use Cons.prems Sym x n in auto)
    then show ?thesis
      using run d g Sym x by (simp add: n tag_of_low)
  next
    case (Phrase k l)
    have p: "phrase_token B s e D dest cb = Ok (pre @ lz out k l @ drop l rest, dest + l)"
      by (rule phrase_token_code [of out k l B A "toks_bytes (length out + l) ts @ C"]) (use Cons.prems Phrase in auto)
    have "token_loop B s e sb_end m (tag_of ts) (pre @ lz out k l @ drop l rest) (dest + l) (cb + 2) =
        Ok (pre @ expand (lz out k l) ts @ drop (toks_len ts) (drop l rest), dest + l + toks_len ts, cb + 2 + length (toks_bytes (length (lz out k l)) ts))"
      by (rule Cons.IH [of "lz out k l" m "A @ tok_bytes (length out) t"]) (use Cons.prems Phrase n in auto)
    then show ?thesis
      using run d p Phrase by (simp add: n tag_of_low add.commute [of "toks_len ts" l])
  qed
qed

fun groups_bytes :: "nat \<Rightarrow> token list list \<Rightarrow> u8 list" where
  "groups_bytes pos [] = []"
| "groups_bytes pos (g # gs) = tag_of g # toks_bytes pos g @ groups_bytes (pos + toks_len g) gs"

fun groups_shape :: "token list list \<Rightarrow> bool" where
  "groups_shape [] = True"
| "groups_shape (g # gs) = (if gs = [] then 1 \<le> length g \<and> length g \<le> 8 else length g = 8 \<and> groups_shape gs)"

lemma tag_loop_groups:
  assumes "toks_ok (length out) (concat gs)" "groups_shape gs" "length out \<le> 4096"
    and "B = A @ groups_bytes (length out) gs @ C" "cb = length A" "sb_end = length A + length (groups_bytes (length out) gs)"
    and "D = pre @ out @ rest" "s = length pre" "e = s + 4096" "dest = s + length out" "4096 \<le> length out + length rest"
  shows "tag_loop B s e sb_end D dest cb =
     Ok (pre @ expand out (concat gs) @ replicate (4096 - (length out + toks_len (concat gs))) 0 @ drop (4096 - length out) rest, e)"
  using assms
proof (induction gs arbitrary: out A cb D rest dest)
  case Nil
  then show ?case
    unfolding tag_loop.simps [of B s e sb_end D dest cb] by (auto simp: fill_zero_int)
next
  case (Cons g gs)
  let ?tb = "toks_bytes (length out) g" and ?out = "expand out g"
  have run: "cb \<noteq> sb_end" "\<not> (cb > sb_end \<or> dest > e)" "aget B (int cb) = Ok (tag_of g)"
    using Cons.prems by (auto simp: aget_int)
  have t: "token_loop B s e sb_end 8 (tag_of g) D dest (cb + 1) =
      Ok (pre @ ?out @ drop (toks_len g) rest, dest + toks_len g, cb + 1 + length ?tb)"
    by (rule token_loop_toks [of out g 8 B "A @ [tag_of g]" "groups_bytes (length out + toks_len g) gs @ C"])
      (use Cons.prems in \<open>auto split: if_splits\<close>)
  have l: "length out + toks_len g \<le> 4096"
    using Cons.prems(1,3) toks_ok_le [of "length out" g] by simp
  have "tag_loop B s e sb_end (pre @ ?out @ drop (toks_len g) rest) (dest + toks_len g) (cb + 1 + length ?tb) =
     Ok (pre @ expand ?out (concat gs) @ replicate (4096 - (length ?out + toks_len (concat gs))) 0 @ drop (4096 - length ?out) (drop (toks_len g) rest), e)"
    by (rule Cons.IH [of ?out "A @ tag_of g # ?tb"]) (use Cons.prems l in \<open>auto split: if_splits\<close>)
  then show ?case
    using run t l by (simp add: tag_loop.simps [of B s e sb_end D dest cb] add.assoc)
qed

section \<open>Sub-blocks\<close>

text \<open>The header of a compressed sub-block of \<open>m + 3\<close> bytes.\<close>

lemma header_fields:
  assumes "m < 4096"
  defines "hw \<equiv> (ucast (word_of_nat m :: u8) :: u16) OR push_bit 8 (ucast (0xb0 + word_of_nat (m div 256 mod 16) :: u8))"
  shows "hw \<noteq> 0" "unat (hw AND NTFS_SB_SIZE_MASK) = m" "hw AND NTFS_SB_IS_COMPRESSED \<noteq> 0"
proof -
  have a: "(word_of_nat (0xb000 + m) :: u8) = word_of_nat m"
  proof -
    have "(0xb000 :: u8) = 0"
      by (simp add: word_unat_eq_iff)
    then show ?thesis
      by simp
  qed
  have "(0xb000 + m) div 256 = 0xb0 + m div 256" "m div 256 mod 16 = m div 256"
    using assms(1) by auto
  then have b: "(word_of_nat ((0xb000 + m) div 256) :: u8) = 0xb0 + word_of_nat (m div 256 mod 16)"
    by simp
  have hw: "hw = word_of_nat (0xb000 + m)"
    using le16_of_code [of "0xb000 + m"] assms unfolding a b by simp
  have u: "unat hw = 0xb000 + m"
    using assms(1) unfolding hw unat_of_nat by simp
  then show "hw \<noteq> 0"
    by auto
  have m: "NTFS_SB_SIZE_MASK = mask 12"
    by (simp add: NTFS_SB_SIZE_MASK_def mask_eq_exp_minus_1)
  have "unat (hw AND NTFS_SB_SIZE_MASK) = take_bit 12 (unat hw)"
    by (simp only: m unsigned_take_bit_eq flip: take_bit_eq_mask)
  then show "unat (hw AND NTFS_SB_SIZE_MASK) = m"
    using assms(1) mod_mult_self3 [of 11 4096 m] by (simp add: u take_bit_eq_mod)
  have "(0xb000 + m) div 2 ^ 15 = 1"
    using assms(1) by (intro div_nat_eqI) auto
  then have "bit (unat hw) 15"
    by (simp add: u bit_iff_odd)
  then have "bit (hw AND NTFS_SB_IS_COMPRESSED) 15"
    by (simp add: bit_unsigned_iff bit_and_iff NTFS_SB_IS_COMPRESSED_def)
  then show "hw AND NTFS_SB_IS_COMPRESSED \<noteq> 0"
    by auto
qed

lemma decompress_groups:
  assumes "toks_ok 0 (concat gs)" "groups_shape gs" "gs \<noteq> []"
    and x: "x = 2 + length (groups_bytes 0 gs)" "4 \<le> x" "x < 4098"
    and B: "B = word_of_nat (x - 3) # (0xb0 + word_of_nat ((x - 3) div 256 mod 16)) # groups_bytes 0 gs @ replicate k 0" "2 \<le> k"
    and D: "4096 \<le> length D"
  shows "ntfs_decompress D 4096 B (x + k) = Ok (expand [] (concat gs) @ replicate (4096 - toks_len (concat gs)) 0 @ drop 4096 D)"
proof -
  define hw where "hw = (ucast (word_of_nat (x - 3) :: u8) :: u16) OR push_bit 8 (ucast (0xb0 + word_of_nat ((x - 3) div 256 mod 16) :: u8))"
  have h: "get_le16 B 0 = Ok hw" "hw \<noteq> 0" "unat (hw AND NTFS_SB_SIZE_MASK) + 3 = x" "hw AND NTFS_SB_IS_COMPRESSED \<noteq> 0"
    using header_fields [of "x - 3"] x(2,3) B by (simp_all add: get_le16_def le16_at_def hw_def)
  let ?D = "expand [] (concat gs) @ replicate (4096 - toks_len (concat gs)) 0 @ drop 4096 D"
  have t: "tag_loop B 0 4096 x D 0 2 = Ok (?D, 4096)"
    using tag_loop_groups [OF _ assms(2), of "[]" B "take 2 B" "replicate k 0" 2 x D "[]" D 0 4096 0] assms by simp
  have "drop x B = replicate k 0" "length B = x + k"
    using x B by simp_all
  then have "B ! x = 0" "B ! (x + 1) = 0"
    using B(2) nth_drop [of x B 0] nth_drop [of x B 1] by simp_all
  then have z: "get_le16 B x = Ok 0"
    using B(2) \<open>length B = x + k\<close> by (simp add: get_le16_def le16_at_def)
  have "decompress_loop B (x + k) 4096 ?D 4096 x = Ok ?D"
    using z B(2) by (simp add: decompress_loop.simps [of B "x + k" 4096 ?D])
  moreover have "decompress_loop B (x + k) 4096 D 0 0 = obind (tag_loop B 0 4096 x D 0 2) (\<lambda>r. decompress_loop B (x + k) 4096 (fst r) (snd r) x)"
    unfolding decompress_loop.simps [of B "x + k" 4096 D 0 0] using h x(2) B(2) by (simp add: Let_def NTFS_SB_SIZE_def numeral_2_eq_2)
  ultimately show ?thesis
    by (simp add: ntfs_decompress_def t)
qed

end
