(* ===== verification/Lz_Match.thy ===== *)
theory Lz_Match
  imports Lz_Stream
begin

text \<open>
  The search for matches: the hash chains lead to earlier positions only, and what the search returns is a match
  inside the buffer.
\<close>

definition matches :: "u8 list \<Rightarrow> nat \<Rightarrow> nat \<Rightarrow> nat \<Rightarrow> bool" where
  "matches b m s n \<longleftrightarrow> (\<forall>k < n. b ! (m + k) = b ! (s + k))"

lemma matches_Suc: "matches b m s (Suc n) \<longleftrightarrow> matches b m s n \<and> b ! (m + n) = b ! (s + n)"
  by (auto simp: matches_def less_Suc_eq)

section \<open>Comparisons\<close>

lemma same_byte_Ok: "m \<le> s \<Longrightarrow> s + k < length b \<Longrightarrow> same_byte b m s k = Ok (b ! (m + k) = b ! (s + k))"
  by (simp add: same_byte_def aget_int del: of_nat_add)

lemma same_bytes_Ok:
  "m \<le> s \<Longrightarrow> s + n \<le> length b \<Longrightarrow> same_bytes b m s len n = Ok (\<forall>k. len \<le> k \<and> k < n \<longrightarrow> b ! (m + k) = b ! (s + k))"
proof (induction b m s len n rule: same_bytes.induct)
  case (1 b m s len n)
  show ?case
  proof (cases "len < n")
    case True
    have "len \<le> k \<and> k < n \<longleftrightarrow> k = len \<or> len + 1 \<le> k \<and> k < n" for k
      using True by auto
    then have "(\<forall>k. len \<le> k \<and> k < n \<longrightarrow> b ! (m + k) = b ! (s + k)) \<longleftrightarrow>
        b ! (m + len) = b ! (s + len) \<and> (\<forall>k. len + 1 \<le> k \<and> k < n \<longrightarrow> b ! (m + k) = b ! (s + k))"
      by auto
    then show ?thesis
      using True 1 by (simp add: same_bytes.simps [of b m s len n] aget_int del: of_nat_add)
  qed (auto simp: same_bytes.simps [of b m s len n])
qed

lemma extend_max_Ok:
  assumes "m \<le> s" "s + max_len \<le> length b" "matches b m s bl" "bl \<le> max_len"
  shows "\<exists>l. extend_max b m s bl max_len = Ok l \<and> bl \<le> l \<and> l \<le> max_len \<and> matches b m s l"
  using assms
proof (induction b m s bl max_len rule: extend_max.induct)
  case (1 b m s bl max_len)
  show ?case
  proof (cases "bl < max_len \<and> b ! (m + bl) = b ! (s + bl)")
    case True
    then obtain l where "extend_max b m s (bl + 1) max_len = Ok l" "bl + 1 \<le> l" "l \<le> max_len" "matches b m s l"
      using 1 by (auto simp: matches_Suc same_byte_Ok)
    then show ?thesis
      using True 1(2,3) by (auto simp: extend_max.simps [of b m s bl max_len] same_byte_Ok)
  next
    case False
    then show ?thesis
      using 1(2-5) by (auto simp: extend_max.simps [of b m s bl max_len] same_byte_Ok)
  qed
qed

lemma extend_nice_Ok:
  assumes "m \<le> s" "s + max_len \<le> length b" "matches b m s (Suc bl)" "bl < nice" "nice \<le> max_len"
  shows "\<exists>l stop. extend_nice b m s bl nice max_len = Ok (l, stop) \<and> bl < l \<and> l \<le> max_len \<and> matches b m s l \<and> (\<not> stop \<longrightarrow> l < nice)"
  using assms
proof (induction b m s bl nice max_len rule: extend_nice.induct)
  case (1 b m s bl nice max_len)
  consider "bl + 1 \<ge> nice" | "bl + 1 < nice" "b ! (m + Suc bl) = b ! (s + Suc bl)" | "bl + 1 < nice" "b ! (m + Suc bl) \<noteq> b ! (s + Suc bl)"
    by linarith
  then show ?case
  proof cases
    case 1
    then show ?thesis
      using extend_max_Ok [of m s max_len b "bl + 1"] "1.prems" by (auto simp: extend_nice.simps [of b m s bl nice max_len])
  next
    case 2
    moreover have "same_byte b m s (bl + 1) = Ok True"
      using 2 "1.prems" by (simp add: same_byte_Ok)
    moreover have "\<exists>l stop. extend_nice b m s (bl + 1) nice max_len = Ok (l, stop) \<and> bl + 1 < l \<and> l \<le> max_len \<and> matches b m s l \<and> (\<not> stop \<longrightarrow> l < nice)"
      using "1.IH" [of True] "1.prems" 2 calculation(3) by (auto simp: matches_Suc [of b m s "Suc bl"])
    ultimately show ?thesis
      by (auto simp: extend_nice.simps [of b m s bl nice max_len])
  next
    case 3
    then show ?thesis
      using "1.prems" by (auto simp: extend_nice.simps [of b m s bl nice max_len] same_byte_Ok)
  qed
qed

lemma longer_match_Ok:
  assumes "m \<le> s" "s + bl < length b" "2 \<le> bl"
  shows "longer_match b m s bl = Ok (matches b m s (Suc bl))"
proof -
  have "matches b m s (Suc bl) \<longleftrightarrow> b ! (m + bl) = b ! (s + bl) \<and> b ! (m + (bl - 1)) = b ! (s + (bl - 1)) \<and> b ! (m + 0) = b ! (s + 0) \<and>
      (\<forall>k. 1 \<le> k \<and> k < bl - 1 \<longrightarrow> b ! (m + k) = b ! (s + k))" (is "_ \<longleftrightarrow> ?r")
  proof
    assume r: ?r
    have "b ! (m + k) = b ! (s + k)" if "k < Suc bl" for k
    proof -
      have "k = bl \<or> k = bl - 1 \<or> k = 0 \<or> 1 \<le> k \<and> k < bl - 1"
        using that by linarith
      then show ?thesis
        using r by auto
    qed
    then show "matches b m s (Suc bl)"
      by (simp add: matches_def)
  next
    assume "matches b m s (Suc bl)"
    then have "b ! (m + k) = b ! (s + k)" if "k \<le> bl" for k
      using that by (simp add: matches_def)
    from this [of bl] this [of "bl - 1"] this [of 0] this show ?r
      by auto
  qed
  then show ?thesis
    using assms by (simp add: longer_match_def same_byte_Ok same_bytes_Ok)
qed

section \<open>Hash chains\<close>

text \<open>The positions below \<open>n\<close> with four bytes left are in the chains, and every link leads to an earlier one.\<close>

definition chain :: "u8 list \<Rightarrow> nat \<Rightarrow> compress_context \<Rightarrow> bool" where
  "chain b n c \<longleftrightarrow> length (m_head c) = 2 ^ 14 \<and> length (m_prev c) = 4096
     \<and> (\<forall>h \<in> set (m_head c). h < int (min n (length b - 3))) \<and> (\<forall>p < min n (length b - 3). m_prev c ! p < int p)"

lemma chain_size [simp]: "chain b n (c\<lparr>m_size := x\<rparr>) = chain b n c" "chain b n (c\<lparr>m_rel := r\<rparr>) = chain b n c" "chain b n (c\<lparr>m_mxsz := x\<rparr>) = chain b n c"
  by (simp_all add: chain_def)

lemma chain_end: "length b - i < 4 \<Longrightarrow> chain b (i + 1) c = chain b i c"
  by (cases "length b - 3 = min i (length b - 3)") (auto simp: chain_def min_def)

lemma ntfs_hash_Ok:
  assumes "i + 4 \<le> length b"
  shows "\<exists>h < 2 ^ 14. ntfs_hash b i = Ok h"
proof -
  let ?w = "(le32_at b i AND 0xffffff) * HASH_MULTIPLIER"
  have "unat (drop_bit 18 ?w) = unat ?w div 2 ^ 18"
    by (subst unat_drop_bit_eq) (simp add: drop_bit_eq_div)
  moreover have "unat ?w < 2 ^ 18 * 2 ^ 14"
    using unsigned_less [of ?w, where ?'a = nat] by simp
  ultimately have "unat (drop_bit 18 ?w) < 2 ^ 14"
    by (simp add: less_mult_imp_div_less mult.commute)
  then show ?thesis
    using assms by (simp add: ntfs_hash_def get_le32_def HASH_SHIFT_def)
qed

lemma chain_insert_Ok:
  assumes "chain b i c" "i + 4 \<le> length b" "length b \<le> 4096"
  shows "\<exists>c' cur. chain_insert b c i = Ok (c', cur) \<and> chain b (i + 1) c' \<and> m_mxsz c' = m_mxsz c \<and> cur < int i"
proof -
  obtain h where h: "ntfs_hash b i = Ok h" "h < 2 ^ 14"
    using ntfs_hash_Ok assms(2) by blast
  let ?cur = "m_head c ! h"
  let ?c = "c\<lparr>m_prev := (m_prev c)[i := ?cur], m_head := (m_head c)[h := int i]\<rparr>"
  have m: "min i (length b - 3) = i" "min (i + 1) (length b - 3) = i + 1"
    using assms(2) by auto
  have c: "length (m_head c) = 2 ^ 14" "length (m_prev c) = 4096" "\<And>x. x \<in> set (m_head c) \<Longrightarrow> x < int i" "\<And>p. p < i \<Longrightarrow> m_prev c ! p < int p"
    using assms(1) unfolding chain_def m by auto
  then have cur: "?cur < int i"
    using h(2) by simp
  have "x < int (i + 1)" if "x \<in> set ((m_head c)[h := int i])" for x
    using that c(3) set_update_subset_insert [of "m_head c" h "int i"] by fastforce
  moreover have "(m_prev c)[i := ?cur] ! p < int p" if "p < i + 1" for p
    using that c(2,4) cur assms by (cases "p = i") auto
  ultimately have "chain b (i + 1) ?c"
    unfolding chain_def m by (simp add: c)
  moreover have "chain_insert b c i = Ok (?c, ?cur)"
    using h c assms by (simp add: chain_insert_def aget_int aset_int)
  ultimately show ?thesis
    using cur by auto
qed

lemma match_search_Ok:
  assumes prev: "\<And>p. p \<le> s \<Longrightarrow> prev ! p < int p" "s < length prev"
    and "cur < int s" "2 \<le> bl" "bl < nice" "nice \<le> max_len" "s + max_len \<le> length b"
  shows "\<exists>l m. match_search b prev s nice max_len depth cur bl best = Ok (l, m)
     \<and> (l = bl \<and> m = best \<or> bl < l \<and> l \<le> max_len \<and> m < s \<and> matches b m s l)"
  using assms(3-)
proof (induction depth arbitrary: cur bl best)
  case (Suc depth)
  show ?case
  proof (cases "cur < 0")
    case False
    define m where "m = nat cur"
    have m: "m < s" "cur = int m"
      using False Suc.prems(1) by (auto simp: m_def)
    have nxt: "aget prev cur = Ok (prev ! m)" "prev ! m < int s"
      using m prev(1) [of m] prev(2) by (auto simp: aget_int)
    have lm: "longer_match b m s bl = Ok (matches b m s (Suc bl))"
      using m Suc.prems by (intro longer_match_Ok) auto
    show ?thesis
    proof (cases "matches b m s (Suc bl)")
      case True
      then obtain l stop where e: "extend_nice b m s bl nice max_len = Ok (l, stop)" "bl < l" "l \<le> max_len" "matches b m s l" "\<not> stop \<longrightarrow> l < nice"
        using extend_nice_Ok [of m s max_len b bl nice] m Suc.prems by auto
      show ?thesis
      proof (cases stop)
        case True
        then show ?thesis
          using False e lm m \<open>matches b m s (Suc bl)\<close> by simp
      next
        case go: False
        then obtain l' m' where "match_search b prev s nice max_len depth (prev ! m) l m = Ok (l', m')"
          "l' = l \<and> m' = m \<or> l < l' \<and> l' \<le> max_len \<and> m' < s \<and> matches b m' s l'"
          using Suc.IH [of "prev ! m" l m] nxt e Suc.prems by auto
        then show ?thesis
          using False e lm m nxt go True by auto
      qed
    next
      case no: False
      then show ?thesis
        using False lm m nxt Suc.IH [of "prev ! m" bl best] Suc.prems by simp
    qed
  qed simp
qed simp

text \<open>What a search returns: nothing longer than asked for, or a match at an earlier position.\<close>

definition found :: "u8 list \<Rightarrow> nat \<Rightarrow> compress_context \<Rightarrow> bool" where
  "found b i c \<longleftrightarrow> i + m_size c \<le> length b \<and> m_size c \<le> m_mxsz c \<and> (\<exists>m < i. m_rel c = int m - int i \<and> matches b m i (m_size c))"

lemma ntfs_best_match_Ok:
  assumes "chain b i c" "length b \<le> 4096" "i \<le> length b" "4 \<le> m_mxsz c" "2 \<le> bl" "bl < 18"
  shows "\<exists>c'. ntfs_best_match b c i bl = Ok c' \<and> chain b (i + 1) c' \<and> m_mxsz c' = m_mxsz c \<and> (m_size c' = bl \<or> bl < m_size c' \<and> found b i c')"
proof -
  define ml where "ml = min (length b - i) (m_mxsz c)"
  define ni where "ni = min NICE_MATCH_LEN ml"
  have d: "ntfs_best_match b c i bl =
      (if ml < 4 then Ok (c\<lparr>m_size := bl, m_rel := 0\<rparr>)
       else obind (chain_insert b c i) (\<lambda>r.
            if bl \<ge> ml then Ok ((fst r)\<lparr>m_size := bl, m_rel := 0\<rparr>)
            else obind (match_search b (m_prev (fst r)) i ni ml MAX_SEARCH_DEPTH (snd r) bl i) (\<lambda>q.
                 Ok ((fst r)\<lparr>m_size := fst q, m_rel := int (snd q) - int i\<rparr>))))"
    unfolding ntfs_best_match_def Let_def ml_def ni_def ..
  show ?thesis
  proof (cases "ml < 4")
    case True
    then have "length b - i < 4"
      using assms(4) by (auto simp: ml_def)
    then show ?thesis
      using True assms(1) chain_end [of b i c] by (simp add: d)
  next
    case False
    then have "i + 4 \<le> length b"
      using assms(3) by (auto simp: ml_def)
    then obtain c' cur where c': "chain_insert b c i = Ok (c', cur)" "chain b (i + 1) c'" "m_mxsz c' = m_mxsz c" "cur < int i"
      using chain_insert_Ok assms by blast
    show ?thesis
    proof (cases "bl \<ge> ml")
      case True
      then show ?thesis
        using False c' by (simp add: d)
    next
      case lt: False
      have "m_prev c' ! p < int p" if "p \<le> i" for p
        using c'(2) that \<open>i + 4 \<le> length b\<close> by (auto simp: chain_def)
      moreover have "i < length (m_prev c')"
        using c'(2) assms(2) \<open>i + 4 \<le> length b\<close> by (simp add: chain_def)
      moreover have "bl < ni" "ni \<le> ml" "i + ml \<le> length b"
        using lt assms(3,6) by (auto simp: ni_def ml_def NICE_MATCH_LEN_def)
      ultimately obtain l m where "match_search b (m_prev c') i ni ml MAX_SEARCH_DEPTH cur bl i = Ok (l, m)"
        "l = bl \<and> m = i \<or> bl < l \<and> l \<le> ml \<and> m < i \<and> matches b m i l"
        using match_search_Ok [of i "m_prev c'" cur bl ni ml b MAX_SEARCH_DEPTH i] c'(4) assms(5) by blast
      then show ?thesis
        using False lt c' by (auto simp: d found_def ml_def)
    qed
  qed
qed

lemma ntfs_skip_position_Ok:
  assumes "chain b i c" "length b \<le> 4096"
  shows "\<exists>c'. ntfs_skip_position b c i = Ok c' \<and> chain b (i + 1) c' \<and> m_mxsz c' = m_mxsz c"
proof (cases "length b - i < 4")
  case True
  then show ?thesis
    using assms(1) chain_end [of b i c] by (simp add: ntfs_skip_position_def)
next
  case False
  then have "i + 4 \<le> length b"
    by linarith
  then show ?thesis
    using False chain_insert_Ok [of b i c] assms by (auto simp: ntfs_skip_position_def)
qed

lemma skip_loop_Ok:
  assumes "chain b i c" "length b \<le> 4096" "i < j"
  shows "\<exists>c'. skip_loop b c i j = Ok c' \<and> chain b j c' \<and> m_mxsz c' = m_mxsz c"
  using assms
proof (induction b c i j rule: skip_loop.induct)
  case (1 b c i j)
  obtain c1 where c1: "ntfs_skip_position b c i = Ok c1" "chain b (i + 1) c1" "m_mxsz c1 = m_mxsz c"
    using ntfs_skip_position_Ok 1 by blast
  show ?case
  proof (cases "i + 1 = j")
    case True
    then show ?thesis
      using c1 by (auto simp: skip_loop.simps [of b c i j])
  next
    case False
    then show ?thesis
      using 1 c1 by (auto simp: skip_loop.simps [of b c i j])
  qed
qed

end
