(* ===== verification/Compress_Props.thy ===== *)
theory Compress_Props
  imports Lz_Match
begin

text \<open>
  Compression is correct: the compressor never leaves its buffers and its output decompresses to the input.
\<close>

section \<open>The width of the fields of a phrase\<close>

definition off :: "nat \<Rightarrow> nat \<Rightarrow> nat \<Rightarrow> nat \<Rightarrow> bool" where
  "off i bp mxoff mxsz \<longleftrightarrow> 4 \<le> bp \<and> bp \<le> 12 \<and> mxoff = 2 ^ bp \<and> mxsz = 2 ^ (16 - bp) + 2 \<and> (bp = 4 \<or> 2 ^ (bp - 1) < i)"

lemma off_mono: "off i bp mxoff mxsz \<Longrightarrow> i \<le> j \<Longrightarrow> off j bp mxoff mxsz"
  by (auto simp: off_def)

lemma off_raise:
  assumes "off j bp mxoff mxsz" "mxoff < i" "i \<le> 4096"
  shows "off i (bp + 1) (mxoff * 2) ((mxsz + 2) div 2)"
proof -
  have o: "4 \<le> bp" "mxoff = 2 ^ bp" "mxsz = 2 ^ (16 - bp) + 2" "bp \<le> 12"
    using assms(1) by (auto simp: off_def)
  have "(2 :: nat) ^ bp < 2 ^ 12"
    using assms(2,3) o(2) by simp
  then have b: "bp < 12"
    by (subst (asm) power_strict_increasing_iff) auto
  then have "16 - bp = Suc (16 - (bp + 1))"
    by simp
  then have "mxsz = 2 * 2 ^ (16 - (bp + 1)) + 2"
    using o(3) by (simp only: power_Suc)
  then show ?thesis
    using o b assms(2) by (simp add: off_def)
qed

lemma raise_offset_off:
  assumes "off j bp mxoff mxsz" "j \<le> i" "i \<le> 4096" "raise_offset i bp mxoff mxsz = (bp', mxoff', mxsz')"
  shows "off i bp' mxoff' mxsz' \<and> i \<le> mxoff'"
  using assms
proof (induction i bp mxoff mxsz arbitrary: j rule: raise_offset.induct)
  case (1 i bp mxoff mxsz)
  show ?case
  proof (cases "0 < mxoff \<and> mxoff < i")
    case True
    then show ?thesis
      using 1(1) [OF True off_raise [OF 1(2), of i] order_refl] 1(4,5) by (simp add: raise_offset.simps [of i bp])
  next
    case False
    moreover have "0 < mxoff"
      using 1(2) by (simp add: off_def)
    ultimately show ?thesis
      using 1 off_mono by (auto simp: raise_offset.simps [of i bp])
  qed
qed

lemma off_len_bits:
  assumes "off i bp mxoff mxsz" "i \<le> mxoff" "1 \<le> i"
  shows "len_bits i = 16 - bp"
proof -
  have o: "4 \<le> bp" "bp \<le> 12" "mxoff = 2 ^ bp" "bp = 4 \<or> 2 ^ (bp - 1) < i"
    using assms(1) by (auto simp: off_def)
  have "(16 :: nat) * 2 ^ (bp - 4) = 2 ^ (4 + (bp - 4))"
    by (simp add: power_add)
  then have "i - 1 < 16 * 2 ^ (bp - 4)"
    using assms(2,3) o by simp
  then have le: "lg_loop (i - 1) \<le> bp - 4"
    by (rule lg_loop_bound)
  have "bp - 4 \<le> lg_loop (i - 1)"
  proof (cases "bp = 4")
    case False
    have "(2 :: nat) ^ (bp - 1) \<le> i - 1"
      using False o(4) by simp
    also have "i - 1 < 2 ^ (4 + lg_loop (i - 1))"
      using lg_loop_less [of "i - 1"] by (simp add: power_add)
    finally have "bp - 1 < 4 + lg_loop (i - 1)"
      by (subst (asm) power_strict_increasing_iff) auto
    then show ?thesis
      by simp
  qed simp
  then show ?thesis
    using le o(1,2) by (simp add: len_bits_def)
qed

section \<open>The data coded so far\<close>

definition coded :: "u8 list \<Rightarrow> nat \<Rightarrow> token list \<Rightarrow> bool" where
  "coded b i ts \<longleftrightarrow> toks_ok 0 ts \<and> expand [] ts = take i b \<and> i \<le> length b \<and> length b \<le> 4096"

lemma coded_len: "coded b i ts \<Longrightarrow> toks_len ts = i"
  using length_expand [of "[]" ts] by (simp add: coded_def)

lemma coded_literal:
  assumes "coded b i ts" "i < length b"
  shows "coded b (i + 1) (ts @ [Sym (b ! i)])"
  using assms coded_len [OF assms(1)] by (auto simp: coded_def take_Suc_conv_app_nth)

lemma lz_matches:
  assumes "matches b m i l" "m < i" "i + l \<le> length b"
  shows "lz (take i b) (i - m) l = take (i + l) b"
  using assms
proof (induction l)
  case (Suc l)
  have "lz (take i b) (i - m) (Suc l) = lz (lz (take i b) (i - m) l) (i - m) 1"
    using lz_add [of "take i b" "i - m" l 1] by simp
  also have "\<dots> = take (i + l) b @ [b ! (m + l)]"
    using Suc by (simp add: matches_Suc add.commute [of l m])
  also have "\<dots> = take (i + Suc l) b"
    using Suc.prems by (simp add: matches_Suc take_Suc_conv_app_nth)
  finally show ?case .
qed simp

lemma coded_phrase:
  assumes "coded b i ts" "found b i c" "off i bp mxoff (m_mxsz c)" "i \<le> mxoff" "3 \<le> m_size c"
  shows "\<exists>d. 1 \<le> d \<and> d \<le> i \<and> m_rel c = - int d \<and> len_bits i = 16 - bp \<and> tok_ok i (Phrase d (m_size c)) \<and>
    coded b (i + m_size c) (ts @ [Phrase d (m_size c)])"
proof -
  obtain m where m: "m < i" "m_rel c = int m - int i" "matches b m i (m_size c)" and s: "i + m_size c \<le> length b" "m_size c \<le> m_mxsz c"
    using assms(2) by (auto simp: found_def)
  have l: "len_bits i = 16 - bp"
    using off_len_bits assms(3,4) m(1) by simp
  have "tok_ok i (Phrase (i - m) (m_size c))"
    using assms(1,3,5) m(1) s l by (auto simp: coded_def off_def)
  then have "coded b (i + m_size c) (ts @ [Phrase (i - m) (m_size c)])"
    using assms(1) coded_len [OF assms(1)] lz_matches [OF m(3,1) s(1)] s by (simp add: coded_def del: tok_ok.simps)
  then show ?thesis
    using m l \<open>tok_ok i (Phrase (i - m) (m_size c))\<close> by (intro exI [of _ "i - m"]) auto
qed

section \<open>The bytes written so far\<close>

text \<open>The output after the complete groups \<open>gs\<close> and the tokens \<open>ts\<close> of the next one, whose tag is not stored yet.\<close>

definition written :: "compress_state \<Rightarrow> token list list \<Rightarrow> token list \<Rightarrow> bool" where
  "written st gs ts \<longleftrightarrow>
     (\<exists>h t tail. c_out st = h @ groups_bytes 0 gs @ t # toks_bytes (toks_len (concat gs)) ts @ tail \<and> length h = 2) \<and>
     length (c_out st) = 4100 \<and> c_tag st = tag_of ts \<and> c_ptag st = 2 + length (groups_bytes 0 gs) \<and>
     c_xout st = 3 + length (groups_bytes 0 gs) + length (toks_bytes (toks_len (concat gs)) ts)"

lemma written_update [simp]:
  "written (st\<lparr>c_i := i\<rparr>) gs ts = written st gs ts" "written (st\<lparr>c_ctx := c\<rparr>) gs ts = written st gs ts"
  "written (st\<lparr>c_have := v\<rparr>) gs ts = written st gs ts" "written (st\<lparr>c_ntag := n\<rparr>) gs ts = written st gs ts"
  "written (st\<lparr>c_bp := n\<rparr>) gs ts = written st gs ts" "written (st\<lparr>c_mxoff := n\<rparr>) gs ts = written st gs ts"
  by (simp_all add: written_def)

lemma written_cong:
  "written st gs ts \<Longrightarrow> c_out st' = c_out st \<Longrightarrow> c_tag st' = c_tag st \<Longrightarrow> c_ptag st' = c_ptag st \<Longrightarrow> c_xout st' = c_xout st \<Longrightarrow> written st' gs ts"
  by (simp add: written_def)

lemma groups_bytes_append: "groups_bytes pos (gs @ hs) = groups_bytes pos gs @ groups_bytes (pos + toks_len (concat gs)) hs"
  by (induction gs arbitrary: pos) (auto simp: add.assoc)

lemma written_Sym:
  assumes "written st gs ts" "c_xout st < 4100"
  shows "\<exists>out. aset (c_out st) (int (c_xout st)) v = Ok out \<and> written (st\<lparr>c_out := out, c_xout := c_xout st + 1\<rparr>) gs (ts @ [Sym v])"
proof -
  let ?G = "groups_bytes 0 gs" and ?T = "toks_bytes (toks_len (concat gs)) ts"
  obtain h t tail where o: "c_out st = h @ ?G @ t # ?T @ tail" "length h = 2" and l: "length (c_out st) = 4100"
    and w: "c_tag st = tag_of ts" "c_ptag st = 2 + length ?G" "c_xout st = 3 + length ?G + length ?T"
    using assms(1) by (auto simp: written_def)
  obtain y ys where y: "tail = y # ys"
    using o l w assms(2) by (cases tail) auto
  have "aset (c_out st) (int (c_xout st)) v = Ok ((h @ ?G @ t # ?T) @ v # ys)"
    using aset_app [of "int (c_xout st)" "h @ ?G @ t # ?T" y ys v] o w(3) y by simp
  moreover have "written (st\<lparr>c_out := (h @ ?G @ t # ?T) @ v # ys, c_xout := c_xout st + 1\<rparr>) gs (ts @ [Sym v])"
    using o l w y unfolding written_def by (auto simp: tag_of_snoc)
  ultimately show ?thesis
    by blast
qed

lemma written_Phrase:
  assumes "written st gs ts" "c_xout st < 4099" "length ts = n" "pos = toks_len (concat gs @ ts)"
    and v: "tok_bytes pos (Phrase d l) = [v, w]"
  shows "\<exists>out out'. aset (c_out st) (int (c_xout st)) v = Ok out \<and> aset out (int (c_xout st + 1)) w = Ok out' \<and>
    written (st\<lparr>c_out := out', c_xout := c_xout st + 2, c_tag := c_tag st OR push_bit n 1\<rparr>) gs (ts @ [Phrase d l])"
proof -
  let ?G = "groups_bytes 0 gs" and ?T = "toks_bytes (toks_len (concat gs)) ts"
  obtain h t tail where o: "c_out st = h @ ?G @ t # ?T @ tail" "length h = 2" and l: "length (c_out st) = 4100"
    and x: "c_tag st = tag_of ts" "c_ptag st = 2 + length ?G" "c_xout st = 3 + length ?G + length ?T"
    using assms(1) by (auto simp: written_def)
  have "2 \<le> length tail"
    using o l x assms(2) by simp
  then obtain y z zs where y: "tail = y # z # zs"
    by (cases tail; cases "tl tail") auto
  have "aset (c_out st) (int (c_xout st)) v = Ok ((h @ ?G @ t # ?T) @ v # z # zs)"
    using aset_app [of "int (c_xout st)" "h @ ?G @ t # ?T" y "z # zs" v] o x(3) y by simp
  moreover have "aset ((h @ ?G @ t # ?T) @ v # z # zs) (int (c_xout st + 1)) w = Ok ((h @ ?G @ t # ?T @ [v]) @ w # zs)"
    using aset_app [of "int (c_xout st + 1)" "h @ ?G @ t # ?T @ [v]" z zs w] o x(3) by simp
  moreover have "written (st\<lparr>c_out := (h @ ?G @ t # ?T @ [v]) @ w # zs, c_xout := c_xout st + 2, c_tag := c_tag st OR push_bit n 1\<rparr>) gs (ts @ [Phrase d l])"
    using o l x y v assms(3,4) unfolding written_def by (auto simp: tag_of_snoc simp del: tok_bytes.simps)
  ultimately show ?thesis
    by blast
qed

lemma store_tag_Ok:
  assumes "written st gs ts" "c_xout st < 4100" "c_ntag st = 9 - length ts" "1 \<le> length ts" "length ts \<le> 8"
  shows "\<exists>st'. store_tag st = Ok st' \<and> c_i st' = c_i st \<and> c_bp st' = c_bp st \<and> c_mxoff st' = c_mxoff st \<and> c_have st' = c_have st \<and> c_ctx st' = c_ctx st \<and>
    (if length ts = 8 then written st' (gs @ [ts]) [] \<and> c_ntag st' = 8 else written st' gs ts \<and> c_ntag st' = 8 - length ts)"
proof (cases "length ts = 8")
  case True
  let ?G = "groups_bytes 0 gs" and ?T = "toks_bytes (toks_len (concat gs)) ts"
  obtain h t tail where o: "c_out st = h @ ?G @ t # ?T @ tail" "length h = 2" and l: "length (c_out st) = 4100"
    and w: "c_tag st = tag_of ts" "c_ptag st = 2 + length ?G" "c_xout st = 3 + length ?G + length ?T"
    using assms(1) by (auto simp: written_def)
  obtain y ys where y: "tail = y # ys"
    using o l w assms(2) by (cases tail) auto
  have "aset (c_out st) (int (c_ptag st)) (c_tag st) = Ok ((h @ ?G) @ tag_of ts # ?T @ tail)"
    using aset_app [of "int (c_ptag st)" "h @ ?G" t "?T @ tail"] o w by simp
  moreover have "written (st\<lparr>c_out := (h @ ?G) @ tag_of ts # ?T @ tail, c_ntag := 8, c_ptag := c_xout st, c_xout := c_xout st + 1, c_tag := 0\<rparr>) (gs @ [ts]) []"
    using o l w y unfolding written_def by (auto simp: groups_bytes_append)
  ultimately show ?thesis
    using True assms(3) by (simp add: store_tag_def)
next
  case False
  then show ?thesis
    using assms by (simp add: store_tag_def written_def)
qed

lemma put_literal_Ok:
  assumes "written st gs ts" "c_xout st < 4100" "c_i st < length b"
  shows "\<exists>out. put_literal b st = Ok (st\<lparr>c_out := out, c_xout := c_xout st + 1, c_i := c_i st + 1\<rparr>) \<and>
    written (st\<lparr>c_out := out, c_xout := c_xout st + 1, c_i := c_i st + 1\<rparr>) gs (ts @ [Sym (b ! c_i st)])"
proof -
  obtain out where "aset (c_out st) (int (c_xout st)) (b ! c_i st) = Ok out"
    "written (st\<lparr>c_out := out, c_xout := c_xout st + 1\<rparr>) gs (ts @ [Sym (b ! c_i st)])"
    using written_Sym [OF assms(1,2)] by blast
  then show ?thesis
    using assms(3) by (intro exI [of _ out]) (simp add: put_literal_def put_byte_def aget_int)
qed

text \<open>The word that is stored for a phrase is its code.\<close>

lemma phrase_word:
  assumes "1 \<le> d" "len_bits pos = 16 - bp"
  shows "push_bit (16 - bp) (NOT (word_of_int (- int d))) + word_of_nat (l - 3) = (word_of_nat (phrase_code pos d l) :: u32)"
proof -
  have "NOT (word_of_int (- int d)) = (word_of_nat (d - 1) :: u32)"
    using assms(1) by (simp add: not_eq_complement of_nat_diff)
  then show ?thesis
    by (simp add: push_bit_eq_mult phrase_code_def assms(2))
qed

lemma put_phrase_Ok:
  assumes "written st gs ts" "c_xout st < 4099" "c_ntag st = 8 - length ts" "length ts < 8" "pos = toks_len (concat gs @ ts)"
    and t: "tok_ok pos (Phrase d l)" "len_bits pos = 16 - bp"
  shows "\<exists>out. put_phrase st bp (- int d) (l - 3) = Ok (st\<lparr>c_out := out, c_xout := c_xout st + 2, c_tag := c_tag st OR push_bit (length ts) 1\<rparr>) \<and>
    written (st\<lparr>c_out := out, c_xout := c_xout st + 2, c_tag := c_tag st OR push_bit (length ts) 1\<rparr>) gs (ts @ [Phrase d l])"
proof -
  let ?c = "phrase_code pos d l"
  have c: "?c < 2 ^ 16"
    by (rule phrase_code_fields) (rule t)
  have u: "unat (word_of_nat ?c :: u32) = ?c"
    using c by (simp add: unat_of_nat)
  have "unat (drop_bit 8 (word_of_nat ?c :: u32)) = ?c div 256"
    by (subst unat_drop_bit_eq) (simp add: u drop_bit_eq_div)
  then have b: "(ucast (word_of_nat ?c :: u32) :: u8) = word_of_nat ?c" "(ucast (drop_bit 8 (word_of_nat ?c :: u32)) :: u8) = word_of_nat (?c div 256)"
    by (simp_all only: word_unat_eq_iff unsigned_ucast_eq u unat_of_nat take_bit_eq_mod) (simp add: mod_mod_cancel)
  have q: "push_bit (16 - bp) (NOT (word_of_int (- int d))) + word_of_nat (l - 3) = (word_of_nat ?c :: u32)"
    by (rule phrase_word) (use t in auto)
  obtain out out' where "aset (c_out st) (int (c_xout st)) (word_of_nat ?c) = Ok out" "aset out (int (c_xout st + 1)) (word_of_nat (?c div 256)) = Ok out'"
    "written (st\<lparr>c_out := out', c_xout := c_xout st + 2, c_tag := c_tag st OR push_bit (length ts) 1\<rparr>) gs (ts @ [Phrase d l])"
    using written_Phrase [OF assms(1,2) refl assms(5)] by fastforce
  then show ?thesis
    using assms(3,4) unfolding put_phrase_def Let_def q b put_byte_def by (auto simp: add.commute)
qed

section \<open>The loop\<close>

text \<open>\<open>progress\<close> is what holds of the output at every time, \<open>ready\<close> what holds when the match at the current position is known.\<close>

definition progress :: "u8 list \<Rightarrow> compress_state \<Rightarrow> token list list \<Rightarrow> token list \<Rightarrow> bool" where
  "progress b st gs ts \<longleftrightarrow> written st gs ts \<and> c_ntag st = 8 - length ts \<and> length ts \<le> 8 \<and> (\<forall>g \<in> set gs. length g = 8) \<and> coded b (c_i st) (concat gs @ ts)"

definition ready :: "u8 list \<Rightarrow> compress_state \<Rightarrow> bool" where
  "ready b st \<longleftrightarrow> off (c_i st) (c_bp st) (c_mxoff st) (m_mxsz (c_ctx st)) \<and> c_i st \<le> c_mxoff st \<and> chain b (c_i st + 1) (c_ctx st) \<and>
     (3 \<le> m_size (c_ctx st) \<longrightarrow> found b (c_i st) (c_ctx st))"

definition compress_inv :: "u8 list \<Rightarrow> compress_state \<Rightarrow> token list list \<Rightarrow> token list \<Rightarrow> bool" where
  "compress_inv b st gs ts \<longleftrightarrow> progress b st gs ts \<and> length ts < 8 \<and>
     (if c_have st then ready b st else off (c_i st) (c_bp st) (c_mxoff st) (m_mxsz (c_ctx st)) \<and> chain b (c_i st) (c_ctx st))"

lemma off_mxsz: "off i bp mxoff mxsz \<Longrightarrow> 4 \<le> mxsz"
proof -
  assume "off i bp mxoff mxsz"
  then have "mxsz = 2 ^ (16 - bp) + 2" "bp \<le> 12"
    by (auto simp: off_def)
  moreover have "(2 :: nat) ^ 1 \<le> 2 ^ (16 - bp)"
    using \<open>bp \<le> 12\<close> by (intro power_increasing) auto
  ultimately show ?thesis
    by simp
qed

lemma find_match_Ok:
  assumes "compress_inv b st gs ts" "c_i st < length b"
  shows "\<exists>bp mxoff c. find_match b st = Ok (st\<lparr>c_bp := bp, c_mxoff := mxoff, c_ctx := c\<rparr>) \<and> ready b (st\<lparr>c_bp := bp, c_mxoff := mxoff, c_ctx := c\<rparr>)"
proof (cases "c_have st")
  case True
  then show ?thesis
    using assms by (intro exI [of _ "c_bp st"] exI [of _ "c_mxoff st"] exI [of _ "c_ctx st"]) (simp add: find_match_def compress_inv_def)
next
  case False
  obtain bp mxoff mxsz where r: "raise_offset (c_i st) (c_bp st) (c_mxoff st) (m_mxsz (c_ctx st)) = (bp, mxoff, mxsz)"
    by (metis prod_cases3)
  have l: "length b \<le> 4096"
    using assms(1) by (simp add: compress_inv_def progress_def coded_def)
  have o: "off (c_i st) bp mxoff mxsz" "c_i st \<le> mxoff"
    using raise_offset_off [OF _ order_refl _ r] False assms l by (auto simp: compress_inv_def)
  obtain c where "ntfs_best_match b ((c_ctx st)\<lparr>m_mxsz := mxsz\<rparr>) (c_i st) 2 = Ok c" "chain b (c_i st + 1) c" "m_mxsz c = mxsz"
    "m_size c = 2 \<or> 2 < m_size c \<and> found b (c_i st) c"
    using ntfs_best_match_Ok [of b "c_i st" "(c_ctx st)\<lparr>m_mxsz := mxsz\<rparr>" 2] False assms l off_mxsz [OF o(1)] by (auto simp: compress_inv_def)
  then show ?thesis
    using False r o by (intro exI [of _ bp] exI [of _ mxoff] exI [of _ c]) (auto simp: find_match_def ready_def)
qed

lemma progress_literal:
  assumes "progress b st gs ts" "length ts < 8" "c_xout st < 4098" "c_i st < length b"
  shows "\<exists>out. put_literal b st = Ok (st\<lparr>c_out := out, c_xout := c_xout st + 1, c_i := c_i st + 1\<rparr>) \<and>
    written (st\<lparr>c_out := out, c_xout := c_xout st + 1, c_i := c_i st + 1\<rparr>) gs (ts @ [Sym (b ! c_i st)]) \<and>
    coded b (c_i st + 1) (concat gs @ ts @ [Sym (b ! c_i st)])"
  using put_literal_Ok [of st gs ts b] coded_literal [of b "c_i st" "concat gs @ ts"] assms by (auto simp: progress_def)

lemma progress_phrase:
  assumes "progress b st gs ts" "length ts < 8" "c_xout st < 4098" "off (c_i st) bp mxoff (m_mxsz c)" "c_i st \<le> mxoff"
    "found b (c_i st) c" "3 \<le> m_size c"
  shows "\<exists>out d. put_phrase st bp (m_rel c) (m_size c - 3) = Ok (st\<lparr>c_out := out, c_xout := c_xout st + 2, c_tag := c_tag st OR push_bit (length ts) 1\<rparr>) \<and>
    written (st\<lparr>c_out := out, c_xout := c_xout st + 2, c_tag := c_tag st OR push_bit (length ts) 1\<rparr>) gs (ts @ [Phrase d (m_size c)]) \<and>
    coded b (c_i st + m_size c) (concat gs @ ts @ [Phrase d (m_size c)])"
proof -
  have w: "written st gs ts" "c_ntag st = 8 - length ts" and c: "coded b (c_i st) (concat gs @ ts)"
    using assms(1) by (auto simp: progress_def)
  obtain d where d: "m_rel c = - int d" "len_bits (c_i st) = 16 - bp" "tok_ok (c_i st) (Phrase d (m_size c))"
    "coded b (c_i st + m_size c) ((concat gs @ ts) @ [Phrase d (m_size c)])"
    using coded_phrase [OF c assms(6,4,5,7)] by blast
  have "c_i st = toks_len (concat gs @ ts)"
    using coded_len [OF c] by simp
  then show ?thesis
    using put_phrase_Ok [OF w(1) _ w(2) assms(2) _ d(3,2)] d assms(3) by auto
qed

lemma progress_store:
  assumes "written st gs (ts @ [t])" "c_xout st < 4100" "c_ntag st = 8 - length ts" "length ts < 8" "\<forall>g \<in> set gs. length g = 8"
    "coded b (c_i st) (concat gs @ ts @ [t])"
  shows "\<exists>st' gs' ts'. store_tag st = Ok st' \<and> c_i st' = c_i st \<and> c_bp st' = c_bp st \<and> c_mxoff st' = c_mxoff st \<and> c_have st' = c_have st \<and> c_ctx st' = c_ctx st \<and>
    progress b st' gs' ts' \<and> length ts' < 8"
proof -
  obtain st' where s: "store_tag st = Ok st'" "c_i st' = c_i st" "c_bp st' = c_bp st" "c_mxoff st' = c_mxoff st" "c_have st' = c_have st" "c_ctx st' = c_ctx st"
    "if length (ts @ [t]) = 8 then written st' (gs @ [ts @ [t]]) [] \<and> c_ntag st' = 8 else written st' gs (ts @ [t]) \<and> c_ntag st' = 8 - length (ts @ [t])"
    using store_tag_Ok [OF assms(1,2)] assms(3,4) by auto
  show ?thesis
  proof (cases "length (ts @ [t]) = 8")
    case True
    then have "progress b st' (gs @ [ts @ [t]]) []"
      using s assms(5,6) by (auto simp: progress_def)
    then show ?thesis
      using s(1-6) by fastforce
  next
    case False
    then have "progress b st' gs (ts @ [t])" "length (ts @ [t]) < 8"
      using s assms(4-6) by (auto simp: progress_def)
    then show ?thesis
      using s(1-6) by fastforce
  qed
qed

text \<open>A round of the loop writes one token.\<close>

definition token_put :: "u8 list \<Rightarrow> compress_state \<Rightarrow> compress_state \<Rightarrow> token list list \<Rightarrow> token list \<Rightarrow> token \<Rightarrow> bool" where
  "token_put b st st' gs ts t \<longleftrightarrow> written st' gs (ts @ [t]) \<and> c_xout st' < 4100 \<and> c_ntag st' = c_ntag st \<and> coded b (c_i st') (concat gs @ ts @ [t]) \<and>
     (if c_have st' then ready b st' else off (c_i st') (c_bp st') (c_mxoff st') (m_mxsz (c_ctx st')) \<and> chain b (c_i st') (c_ctx st'))"

lemma lazy_match_Ok:
  assumes p: "progress b st gs ts" "length ts < 8" "c_xout st < 4098" "c_i st < length b"
    and r: "ready b st" "3 \<le> m_size (c_ctx st)" "m_size (c_ctx st) < 18"
  shows "\<exists>st' t. lazy_match b st = Ok st' \<and> token_put b st st' gs ts t"
proof -
  define i c where "i = c_i st" and "c = c_ctx st"
  have o: "off i (c_bp st) (c_mxoff st) (m_mxsz c)" "i \<le> c_mxoff st" and ch: "chain b (i + 1) c" and f: "found b i c"
    using r by (auto simp: ready_def i_def c_def)
  have l: "length b \<le> 4096" "i < length b" "i + m_size c \<le> length b"
    using p f by (auto simp: progress_def coded_def i_def found_def)
  obtain bp mxoff mxsz where e: "(if c_mxoff st < i + 1 then (c_bp st + 1, c_mxoff st * 2, (m_mxsz c + 2) div 2) else (c_bp st, c_mxoff st, m_mxsz c)) = (bp, mxoff, mxsz)"
    by (metis prod_cases3)
  have "16 \<le> c_mxoff st"
    using o(1) power_increasing [of 4 "c_bp st" "2 :: nat"] by (simp add: off_def)
  then have o': "off (i + 1) bp mxoff mxsz" "i + 1 \<le> mxoff"
    using e o l off_raise [OF o(1), of "i + 1"] off_mono [OF o(1), of "i + 1"] by (auto split: if_splits)
  obtain c' where c': "ntfs_best_match b (c\<lparr>m_mxsz := mxsz\<rparr>) (i + 1) (m_size c) = Ok c'" "chain b (i + 2) c'" "m_mxsz c' = mxsz"
    "m_size c' = m_size c \<or> m_size c < m_size c' \<and> found b (i + 1) c'"
    using ntfs_best_match_Ok [of b "i + 1" "c\<lparr>m_mxsz := mxsz\<rparr>" "m_size c"] ch l off_mxsz [OF o'(1)] r by (auto simp: c_def)
  let ?st = "st\<lparr>c_bp := bp, c_mxoff := mxoff, c_ctx := c'\<rparr>"
  have p': "progress b ?st gs ts"
    using p(1) by (simp add: progress_def)
  have d: "lazy_match b st =
      (if m_size c' > m_size c then obind (put_literal b ?st) (\<lambda>st. Ok (st\<lparr>c_have := True\<rparr>))
       else obind (put_phrase ?st (c_bp st) (m_rel c) (m_size c - 3)) (\<lambda>st.
            obind (skip_loop b (c_ctx st) (i + 2) (i + m_size c)) (\<lambda>c. Ok (st\<lparr>c_i := i + m_size c', c_ctx := c, c_have := False\<rparr>))))"
    if "m_size c' \<ge> m_size c"
    using e c'(1) that by (auto simp: lazy_match_def Let_def simp flip: i_def c_def)
  show ?thesis
  proof (cases "m_size c' > m_size c")
    case True
    obtain out where "put_literal b ?st = Ok (?st\<lparr>c_out := out, c_xout := c_xout st + 1, c_i := i + 1\<rparr>)"
      "written (?st\<lparr>c_out := out, c_xout := c_xout st + 1, c_i := i + 1\<rparr>) gs (ts @ [Sym (b ! i)])"
      "coded b (i + 1) (concat gs @ ts @ [Sym (b ! i)])"
      using progress_literal [OF p' p(2)] p(3,4) by (auto simp: i_def)
    then show ?thesis
      using True d p(3) o' c' by (auto simp: token_put_def ready_def)
  next
    case False
    then have eq: "m_size c' = m_size c"
      using c'(4) by simp
    obtain out k where ph: "put_phrase ?st (c_bp st) (m_rel c) (m_size c - 3) = Ok (?st\<lparr>c_out := out, c_xout := c_xout st + 2, c_tag := c_tag st OR push_bit (length ts) 1\<rparr>)"
      "written (?st\<lparr>c_out := out, c_xout := c_xout st + 2, c_tag := c_tag st OR push_bit (length ts) 1\<rparr>) gs (ts @ [Phrase k (m_size c)])"
      "coded b (i + m_size c) (concat gs @ ts @ [Phrase k (m_size c)])"
      using progress_phrase [OF p' p(2), of "c_bp st" "c_mxoff st" c] p(3) o f r(2) by (auto simp: i_def c_def)
    have "i + 2 < i + m_size c"
      using r(2) by (simp add: c_def)
    then obtain c'' where sk: "skip_loop b c' (i + 2) (i + m_size c) = Ok c''" "chain b (i + m_size c) c''" "m_mxsz c'' = mxsz"
      using skip_loop_Ok [OF c'(2) l(1)] c'(3) by metis
    let ?st' = "?st\<lparr>c_out := out, c_xout := c_xout st + 2, c_tag := c_tag st OR push_bit (length ts) 1, c_i := i + m_size c, c_ctx := c'', c_have := False\<rparr>"
    have "lazy_match b st = Ok ?st'"
      using False eq d ph(1) sk(1) by simp
    moreover have "written ?st' gs (ts @ [Phrase k (m_size c)])"
      by (rule written_cong [OF ph(2)]) simp_all
    ultimately show ?thesis
      using ph(3) sk p(3) off_mono [OF o'(1), of "i + m_size c"] r(2)
      by (intro exI [of _ ?st'] exI [of _ "Phrase k (m_size c)"]) (simp add: token_put_def c_def)
  qed
qed

lemma token_put_inv:
  assumes "progress b st gs ts" "length ts < 8" "token_put b st st1 gs ts t"
  shows "\<exists>st' gs' ts'. store_tag st1 = Ok st' \<and> compress_inv b st' gs' ts'"
proof -
  have "c_ntag st1 = 8 - length ts" "\<forall>g \<in> set gs. length g = 8"
    using assms by (auto simp: progress_def token_put_def)
  then obtain st' gs' ts' where s: "store_tag st1 = Ok st'" "c_i st' = c_i st1" "c_bp st' = c_bp st1" "c_mxoff st' = c_mxoff st1" "c_have st' = c_have st1" "c_ctx st' = c_ctx st1"
    "progress b st' gs' ts'" "length ts' < 8"
    using progress_store [of st1 gs ts t b] assms by (auto simp: token_put_def)
  then have "compress_inv b st' gs' ts'"
    using assms(3) by (auto simp: compress_inv_def token_put_def ready_def)
  then show ?thesis
    using s(1) by blast
qed

lemma compress_step_Ok:
  assumes "compress_inv b st gs ts" "c_i st < length b" "c_xout st < 4098"
  shows "\<exists>st' stop gs' ts'. compress_step b st = Ok (st', stop) \<and>
    (if stop then progress b st' gs' ts' \<and> c_i st' = length b else compress_inv b st' gs' ts')"
proof -
  obtain bp mxoff c where fm: "find_match b st = Ok (st\<lparr>c_bp := bp, c_mxoff := mxoff, c_ctx := c\<rparr>)" "ready b (st\<lparr>c_bp := bp, c_mxoff := mxoff, c_ctx := c\<rparr>)"
    using find_match_Ok [OF assms(1,2)] by blast
  define st0 where "st0 = st\<lparr>c_bp := bp, c_mxoff := mxoff, c_ctx := c\<rparr>"
  have p: "progress b st0 gs ts" "length ts < 8" "c_xout st0 < 4098" "c_i st0 < length b" and r: "ready b st0" and f: "find_match b st = Ok st0"
    using fm assms by (auto simp: st0_def compress_inv_def progress_def)
  have ctx: "c_ctx st0 = c"
    by (simp add: st0_def)
  consider "3 \<le> m_size c" "m_size c < 18" | "m_size c < 3" | "18 \<le> m_size c"
    by linarith
  then show ?thesis
  proof cases
    case 1
    obtain st1 t where "lazy_match b st0 = Ok st1" "token_put b st0 st1 gs ts t"
      using lazy_match_Ok [OF p r] 1 by (auto simp: st0_def)
    moreover obtain st' gs' ts' where "store_tag st1 = Ok st'" "compress_inv b st' gs' ts'"
      using token_put_inv [OF p(1,2) calculation(2)] by blast
    ultimately show ?thesis
      using 1 f ctx by (auto simp: compress_step_def NICE_MATCH_LEN_def)
  next
    case 2
    obtain out where l: "put_literal b st0 = Ok (st0\<lparr>c_out := out, c_xout := c_xout st0 + 1, c_i := c_i st0 + 1\<rparr>)"
      "written (st0\<lparr>c_out := out, c_xout := c_xout st0 + 1, c_i := c_i st0 + 1\<rparr>) gs (ts @ [Sym (b ! c_i st0)])"
      "coded b (c_i st0 + 1) (concat gs @ ts @ [Sym (b ! c_i st0)])"
      using progress_literal [OF p] by blast
    moreover have "off (c_i st0 + 1) (c_bp st0) (c_mxoff st0) (m_mxsz (c_ctx st0))" "chain b (c_i st0 + 1) (c_ctx st0)"
      using r off_mono [of "c_i st0" "c_bp st0" "c_mxoff st0" "m_mxsz (c_ctx st0)" "c_i st0 + 1"] by (simp_all add: ready_def)
    ultimately have "token_put b st0 (st0\<lparr>c_out := out, c_xout := c_xout st0 + 1, c_i := c_i st0 + 1, c_have := False\<rparr>) gs ts (Sym (b ! c_i st0))"
      using p(3) by (simp add: token_put_def)
    then obtain st' gs' ts' where "store_tag (st0\<lparr>c_out := out, c_xout := c_xout st0 + 1, c_i := c_i st0 + 1, c_have := False\<rparr>) = Ok st'" "compress_inv b st' gs' ts'"
      using token_put_inv [OF p(1,2)] by blast
    then show ?thesis
      using 2 f ctx l(1) by (auto simp: compress_step_def)
  next
    case 3
    have o: "off (c_i st0) bp mxoff (m_mxsz c)" "c_i st0 \<le> mxoff" "found b (c_i st0) c" "chain b (c_i st0 + 1) c" "m_size c \<ge> 3"
      using r 3 by (auto simp: ready_def st0_def)
    obtain out k where ph: "put_phrase st0 bp (m_rel c) (m_size c - 3) = Ok (st0\<lparr>c_out := out, c_xout := c_xout st0 + 2, c_tag := c_tag st0 OR push_bit (length ts) 1\<rparr>)"
      (is "_ = Ok ?st1") "written (st0\<lparr>c_out := out, c_xout := c_xout st0 + 2, c_tag := c_tag st0 OR push_bit (length ts) 1\<rparr>) gs (ts @ [Phrase k (m_size c)])"
      "coded b (c_i st0 + m_size c) (concat gs @ ts @ [Phrase k (m_size c)])"
      using progress_phrase [OF p(1-3) o(1,2,3,5)] by blast
    have bp: "c_bp st0 = bp" and mx: "c_mxoff st0 = mxoff"
      by (simp_all add: st0_def)
    show ?thesis
    proof (cases "c_i st0 + m_size c = length b")
      case True
      have "progress b (?st1\<lparr>c_i := length b, c_ntag := c_ntag st0 - 1\<rparr>) gs (ts @ [Phrase k (m_size c)])"
        using ph(2,3) p(1,2) True by (auto simp: progress_def)
      moreover have "compress_step b st = Ok (?st1\<lparr>c_i := length b, c_ntag := c_ntag st0 - 1\<rparr>, True)"
        using True 3 f ctx ph(1) bp by (simp add: compress_step_def NICE_MATCH_LEN_def)
      ultimately show ?thesis
        by fastforce
    next
      case False
      have "c_i st0 + 1 < c_i st0 + m_size c" "length b \<le> 4096"
        using 3 p(1) by (auto simp: progress_def coded_def)
      then obtain c' where c': "skip_loop b c (c_i st0 + 1) (c_i st0 + m_size c) = Ok c'" "chain b (c_i st0 + m_size c) c'" "m_mxsz c' = m_mxsz c"
        using skip_loop_Ok [OF o(4)] by blast
      let ?st2 = "?st1\<lparr>c_i := c_i st0 + m_size c, c_ctx := c', c_have := False\<rparr>"
      have "written ?st2 gs (ts @ [Phrase k (m_size c)])"
        by (rule written_cong [OF ph(2)]) simp_all
      then have "token_put b st0 ?st2 gs ts (Phrase k (m_size c))"
        using ph(3) c' p(3) off_mono [OF o(1), of "c_i st0 + m_size c"] bp mx by (simp add: token_put_def)
      then obtain st' gs' ts' where "store_tag ?st2 = Ok st'" "compress_inv b st' gs' ts'"
        using token_put_inv [OF p(1,2)] by blast
      then show ?thesis
        using False 3 f ctx ph(1) bp c'(1) by (auto simp: compress_step_def NICE_MATCH_LEN_def)
    qed
  qed
qed

lemma compress_loop_Ok:
  assumes "compress_inv b st gs ts"
  shows "\<exists>st' gs' ts'. compress_loop b st = Ok st' \<and> progress b st' gs' ts' \<and> (c_i st' \<ge> length b \<or> c_xout st' \<ge> 4098)"
  using assms
proof (induction b st arbitrary: gs ts rule: compress_loop.induct)
  case (1 b st)
  show ?case
  proof (cases "c_i st < length b \<and> c_xout st < NTFS_SB_SIZE + 2")
    case True
    then obtain st' stop gs' ts' where s: "compress_step b st = Ok (st', stop)"
      "if stop then progress b st' gs' ts' \<and> c_i st' = length b else compress_inv b st' gs' ts'"
      using compress_step_Ok [OF 1(2)] by (auto simp: NTFS_SB_SIZE_def)
    then show ?thesis
      using True 1(1) [OF True s(1)] by (cases stop) (auto simp: compress_loop.simps [of b st])
  next
    case False
    then show ?thesis
      using 1(2) by (auto simp: compress_loop.simps [of b st] compress_inv_def NTFS_SB_SIZE_def)
  qed
qed

section \<open>The round trip\<close>

text \<open>The output of the loop with the last tag stored is a stream of groups.\<close>

lemma progress_groups:
  assumes "progress b st gs ts" "1 \<le> c_i st"
  shows "\<exists>st' hs h tail. (if c_ntag st = 8 then Ok (st\<lparr>c_xout := c_xout st - 1\<rparr>)
      else obind (aset (c_out st) (int (c_ptag st)) (c_tag st)) (\<lambda>o'. Ok (st\<lparr>c_out := o'\<rparr>))) = Ok st' \<and>
    c_i st' = c_i st \<and> c_out st' = h @ groups_bytes 0 hs @ tail \<and> length h = 2 \<and> length (c_out st') = 4100 \<and> c_xout st' = 2 + length (groups_bytes 0 hs) \<and>
    hs \<noteq> [] \<and> groups_shape hs \<and> coded b (c_i st) (concat hs)"
proof -
  let ?G = "groups_bytes 0 gs" and ?T = "toks_bytes (toks_len (concat gs)) ts"
  obtain h t tail where o: "c_out st = h @ ?G @ t # ?T @ tail" "length h = 2" "length (c_out st) = 4100"
    and w: "c_tag st = tag_of ts" "c_ptag st = 2 + length ?G" "c_xout st = 3 + length ?G + length ?T"
    and n: "c_ntag st = 8 - length ts" "length ts \<le> 8" "\<forall>g \<in> set gs. length g = 8" "coded b (c_i st) (concat gs @ ts)"
    using assms(1) by (auto simp: progress_def written_def)
  have shape: "groups_shape (gs @ hs)" if "groups_shape hs" for hs
    using n(3) that by (induction gs) auto
  show ?thesis
  proof (cases "ts = []")
    case True
    then have "gs \<noteq> []"
      using coded_len [OF n(4)] assms(2) by auto
    then show ?thesis
      using True o w n shape [of "[]"] by (intro exI [of _ "st\<lparr>c_xout := c_xout st - 1\<rparr>"] exI [of _ gs] exI [of _ h] exI [of _ "t # tail"]) simp
  next
    case False
    then have "groups_shape (gs @ [ts])"
      using n(2) by (intro shape) (cases ts, auto)
    moreover have "aset (c_out st) (int (c_ptag st)) (c_tag st) = Ok ((h @ ?G) @ tag_of ts # ?T @ tail)"
      using aset_app [of "int (c_ptag st)" "h @ ?G" t "?T @ tail"] o w by simp
    moreover have "c_ntag st \<noteq> 8"
      using False n(1,2) by (cases ts) auto
    ultimately show ?thesis
      using o w n by (intro exI [of _ "st\<lparr>c_out := (h @ ?G) @ tag_of ts # ?T @ tail\<rparr>"] exI [of _ "gs @ [ts]"] exI [of _ h] exI [of _ tail])
        (simp add: groups_bytes_append)
  qed
qed

text \<open>An uncompressed sub-block is copied.\<close>

lemma decompress_plain:
  assumes "length data = 4096" "4096 \<le> length D" "2 \<le> k"
  shows "ntfs_decompress D 4096 (0xff # 0x3f # data @ replicate k 0) (4098 + k) = Ok (data @ drop 4096 D)"
proof -
  let ?B = "0xff # 0x3f # data @ replicate k 0"
  have h: "get_le16 ?B 0 = Ok 0x3fff"
    by (simp add: get_le16_def le16_at_def)
  have "drop 4098 ?B = replicate k 0"
    using assms(1) by simp
  then have "?B ! 4098 = 0" "?B ! 4099 = 0"
    using assms nth_drop [of 4098 ?B 0] nth_drop [of 4098 ?B 1] by simp_all
  then have z: "get_le16 ?B 4098 = Ok 0"
    using assms by (simp add: get_le16_def le16_at_def)
  have "acopy D (int 0) ?B (int 2) (int 4096) = Ok (data @ drop 4096 D)"
    using assms by (simp only: acopy_int) simp
  then have c: "acopy D 0 ?B 2 4096 = Ok (data @ drop 4096 D)"
    by simp
  have "decompress_loop ?B (4098 + k) 4096 (data @ drop 4096 D) 4096 4098 = Ok (data @ drop 4096 D)"
    using z assms(3) by (simp add: decompress_loop.simps [of ?B "4098 + k" 4096 "data @ drop 4096 D"])
  then show ?thesis
    unfolding ntfs_decompress_def decompress_loop.simps [of ?B "4098 + k" 4096 D 0 0]
    using h c by (simp add: Let_def NTFS_SB_SIZE_def NTFS_SB_SIZE_MASK_def NTFS_SB_IS_COMPRESSED_def)
qed

lemma toks_len_0: "toks_ok pos ts \<Longrightarrow> toks_len ts = 0 \<Longrightarrow> ts = []"
  by (cases ts; cases "hd ts") auto

lemma progress_started:
  assumes "progress b st gs ts" "c_i st = 0 \<longrightarrow> c_xout st \<ge> 4098"
  shows "1 \<le> c_i st"
proof (rule ccontr)
  assume "\<not> 1 \<le> c_i st"
  moreover have c: "coded b (c_i st) (concat gs @ ts)" and g: "\<forall>g \<in> set gs. length g = 8"
    using assms(1) by (auto simp: progress_def)
  ultimately have "concat gs @ ts = []"
    using coded_len [OF c] by (intro toks_len_0) (auto simp: coded_def)
  then have "gs = []" "ts = []"
    using g by (cases gs, auto)+
  then have "c_xout st = 3"
    using assms(1) by (simp add: progress_def written_def)
  then show False
    using assms(2) \<open>\<not> 1 \<le> c_i st\<close> by simp
qed

text \<open>The end of the compression, which chooses between the compressed and the plain form.\<close>

definition store_block :: "u8 list \<Rightarrow> compress_state \<Rightarrow> (nat \<times> u8 list) outcome" where
  "store_block inbuf st =
     (let x = c_xout st in
      if c_i st \<ge> length inbuf \<and> x < NTFS_SB_SIZE + 2
      then obind (aset (c_out st) 0 (word_of_nat (x - 3))) (\<lambda>o'.
           obind (aset o' 1 (0xb0 + word_of_nat ((x - 3) div 256 mod 16))) (\<lambda>o'. Ok (x, o')))
      else obind (acopy (c_out st) 2 inbuf 0 (int (length inbuf))) (\<lambda>o'.
           obind (if length inbuf < NTFS_SB_SIZE then fill_zero o' (length inbuf + 2) (NTFS_SB_SIZE - length inbuf) else Ok o') (\<lambda>o'.
           obind (aset o' 0 0xff) (\<lambda>o'.
           obind (aset o' 1 0x3f) (\<lambda>o'. Ok (NTFS_SB_SIZE + 2, o'))))))"

lemma aset_0: "aset (x # xs) 0 v = Ok (v # xs)"
  by (simp add: aset_def)

lemma aset_1: "aset (x # y # xs) 1 v = Ok (x # v # xs)"
  by (simp add: aset_def)

lemma store_block_groups:
  assumes "c_i st \<ge> length inbuf \<and> c_xout st < NTFS_SB_SIZE + 2" "c_out st = h @ G @ tail" "length h = 2" "c_xout st = 2 + length G"
  shows "\<exists>out. store_block inbuf st = Ok (c_xout st, out) \<and>
    take (c_xout st) out = word_of_nat (c_xout st - 3) # (0xb0 + word_of_nat ((c_xout st - 3) div 256 mod 16)) # G"
proof -
  obtain h0 h1 where h: "h = [h0, h1]"
    using assms(3) by (cases h; cases "tl h") auto
  show ?thesis
    using assms(1,2,4) by (simp add: store_block_def h aset_0 aset_1 Let_def)
qed

lemma store_block_plain:
  assumes "\<not> (c_i st \<ge> length inbuf \<and> c_xout st < NTFS_SB_SIZE + 2)" "length (c_out st) = 4100" "length inbuf \<le> 4096"
  shows "\<exists>out. store_block inbuf st = Ok (4098, out) \<and> take 4098 out = 0xff # 0x3f # inbuf @ replicate (4096 - length inbuf) 0"
proof -
  obtain h0 h1 tl where o: "c_out st = h0 # h1 # tl" "length tl = 4098"
    using assms(2) by (cases "c_out st"; cases "List.tl (c_out st)") auto
  have "acopy (c_out st) (int 2) inbuf (int 0) (int (length inbuf)) = Ok (h0 # h1 # inbuf @ drop (length inbuf) tl)"
    using assms(3) o by (simp only: acopy_int) simp
  then have a: "acopy (c_out st) 2 inbuf 0 (int (length inbuf)) = Ok (h0 # h1 # inbuf @ drop (length inbuf) tl)"
    by simp
  have f: "(if length inbuf < NTFS_SB_SIZE then fill_zero (h0 # h1 # inbuf @ drop (length inbuf) tl) (length inbuf + 2) (NTFS_SB_SIZE - length inbuf)
      else Ok (h0 # h1 # inbuf @ drop (length inbuf) tl)) = Ok (h0 # h1 # inbuf @ replicate (4096 - length inbuf) 0 @ drop 4096 tl)"
    using assms(3) o by (auto simp: fill_zero_int NTFS_SB_SIZE_def)
  show ?thesis
    using assms(1,3) unfolding store_block_def Let_def a obind.simps f aset_0 aset_1 by (auto simp: NTFS_SB_SIZE_def)
qed

lemma groups_min: "hs \<noteq> [] \<Longrightarrow> groups_shape hs \<Longrightarrow> 2 \<le> length (groups_bytes 0 hs)"
proof -
  assume "hs \<noteq> []" "groups_shape hs"
  then obtain g gs where "hs = g # gs" "1 \<le> length g"
    by (cases hs) (auto split: if_splits)
  then show ?thesis
    using length_tok_bytes [of 0 "hd g"] by (cases g) (auto simp: Suc_le_eq)
qed

text \<open>C4. Compression is lossless and safe: a sub-block of up to 4096 bytes is compressed without leaving the input, the context or
  the output buffer of 4100 bytes, into at most 4098 bytes, and decompressing them, followed by a terminator,
  gives the sub-block padded with zeroes.\<close>

theorem compress_round_trip:
  assumes "1 \<le> length inbuf" "length inbuf \<le> 4096" "length outbuf = 4100" "length (m_prev c) = 4096" "4096 \<le> length dest" "2 \<le> k"
  shows "\<exists>n out. ntfs_compress_block (Some c) inbuf outbuf = Ok (n, out) \<and> n \<le> 4098 \<and>
    ntfs_decompress dest 4096 (take n out @ replicate k 0) (n + k) = Ok (inbuf @ replicate (4096 - length inbuf) 0 @ drop 4096 dest)"
proof -
  let ?c = "c\<lparr>m_head := replicate (2 ^ HASH_SHIFT) (-1), m_mxsz := 2 ^ (16 - 4) + 2\<rparr>"
  let ?st = "\<lparr>c_i = 0, c_bp = 4, c_mxoff = 2 ^ 4, c_have = False, c_tag = 0, c_ntag = 8, c_ptag = 2, c_xout = 3, c_out = outbuf, c_ctx = ?c\<rparr>"
  have "outbuf = take 2 outbuf @ outbuf ! 2 # drop (Suc 2) outbuf" "length (take 2 outbuf) = 2"
    using id_take_nth_drop [of 2 outbuf] assms(3) by simp_all
  then have "\<exists>h t tail. outbuf = h @ t # tail \<and> length h = 2"
    by blast
  then have "compress_inv inbuf ?st [] []"
    using assms by (auto simp: compress_inv_def progress_def written_def coded_def off_def chain_def HASH_SHIFT_def)
  then obtain st gs ts where l: "compress_loop inbuf ?st = Ok st" "progress inbuf st gs ts" "c_i st \<ge> length inbuf \<or> c_xout st \<ge> 4098"
    using compress_loop_Ok by blast
  have i1: "1 \<le> c_i st"
    by (rule progress_started [OF l(2)]) (use l(3) assms(1) in auto)
  obtain st' hs h tail where st': "(if c_ntag st = 8 then Ok (st\<lparr>c_xout := c_xout st - 1\<rparr>)
      else obind (aset (c_out st) (int (c_ptag st)) (c_tag st)) (\<lambda>o'. Ok (st\<lparr>c_out := o'\<rparr>))) = Ok st'" "c_i st' = c_i st"
    and hs: "c_out st' = h @ groups_bytes 0 hs @ tail" "length h = 2" "length (c_out st') = 4100" "c_xout st' = 2 + length (groups_bytes 0 hs)"
      "hs \<noteq> []" "groups_shape hs" "coded inbuf (c_i st) (concat hs)"
    using progress_groups [OF l(2) i1] by blast
  have b: "ntfs_compress_block (Some c) inbuf outbuf = store_block inbuf st'"
    using l(1) st'(1) by (simp add: ntfs_compress_block_def Let_def store_block_def)
  show ?thesis
  proof (cases "c_i st' \<ge> length inbuf \<and> c_xout st' < NTFS_SB_SIZE + 2")
    case True
    then have i: "c_i st = length inbuf"
      using hs(7) st'(2) by (simp add: coded_def)
    obtain out where o: "store_block inbuf st' = Ok (c_xout st', out)"
      "take (c_xout st') out = word_of_nat (c_xout st' - 3) # (0xb0 + word_of_nat ((c_xout st' - 3) div 256 mod 16)) # groups_bytes 0 hs"
      using store_block_groups [OF True hs(1,2,4)] by blast
    have x: "c_xout st' < 4098" "4 \<le> c_xout st'"
      using True groups_min [OF hs(5,6)] hs(4) by (simp_all add: NTFS_SB_SIZE_def)
    have e: "toks_ok 0 (concat hs)" "expand [] (concat hs) = inbuf" "toks_len (concat hs) = length inbuf"
      using hs(7) i coded_len [OF hs(7)] by (simp_all add: coded_def)
    have "ntfs_decompress dest 4096 (take (c_xout st') out @ replicate k 0) (c_xout st' + k) =
        Ok (expand [] (concat hs) @ replicate (4096 - toks_len (concat hs)) 0 @ drop 4096 dest)"
      by (rule decompress_groups [OF e(1) hs(6,5,4) x(2,1) _ assms(6,5)]) (simp add: o(2))
    then show ?thesis
      using b o(1) x(1) e(2,3) by (intro exI [of _ "c_xout st'"] exI [of _ out]) simp
  next
    case False
    obtain out where o: "store_block inbuf st' = Ok (4098, out)" "take 4098 out = 0xff # 0x3f # inbuf @ replicate (4096 - length inbuf) 0"
      using store_block_plain [OF False hs(3) assms(2)] by blast
    have "ntfs_decompress dest 4096 (take 4098 out @ replicate k 0) (4098 + k) = Ok ((inbuf @ replicate (4096 - length inbuf) 0) @ drop 4096 dest)"
      using decompress_plain [of "inbuf @ replicate (4096 - length inbuf) 0" dest k] assms(2,5,6) by (simp add: o(2))
    then show ?thesis
      using b o(1) by (intro exI [of _ 4098] exI [of _ out]) simp
  qed
qed

theorem compress_round_trip_witness:
  "\<exists>n out. ntfs_compress_block (Some \<lparr>m_size = 0, m_rel = 0, m_mxsz = 0, m_head = [], m_prev = replicate 4096 7\<rparr>) [1, 2, 3] (replicate 4100 9) = Ok (n, out) \<and> n \<le> 4098 \<and>
    ntfs_decompress (replicate 4096 5) 4096 (take n out @ replicate 2 0) (n + 2) = Ok ([1, 2, 3] @ replicate 4093 0)"
proof -
  let ?c = "\<lparr>m_size = 0, m_rel = 0, m_mxsz = 0, m_head = [], m_prev = replicate 4096 7\<rparr>"
  have l: "length [1, 2, 3 :: u8] = 3"
    by simp
  show ?thesis
    using compress_round_trip [of "[1, 2, 3]" "replicate 4100 9" ?c "replicate 4096 5" 2] unfolding l by (simp del: replicate_Suc)
qed

end
