(* ===== verification/Logfile.thy ===== *)
theory Logfile
  imports Mst Le_Bytes Bitmap
begin

text \<open>
  The checks of the journal (\<^verbatim>\<open>logfile.c\<close>). A restart page is a byte buffer with checked accesses; the journal is read and
  written through two functions, arguments of the model. The flag that the journal is empty is an argument and a result.
\<close>

section \<open>Records\<close>

definition magic_RSTR :: "u8 list" where "magic_RSTR = [0x52, 0x53, 0x54, 0x52]"
definition magic_RCRD :: "u8 list" where "magic_RCRD = [0x52, 0x43, 0x52, 0x44]"
definition magic_CHKD :: "u8 list" where "magic_CHKD = [0x43, 0x48, 0x4b, 0x44]"
definition magic_empty :: "u8 list" where "magic_empty = [0xff, 0xff, 0xff, 0xff]"

definition MaxLogFileSize :: int where "MaxLogFileSize = 0x100000000"
definition DefaultLogPageSize :: int where "DefaultLogPageSize = 4096"
definition MinLogRecordPages :: int where "MinLogRecordPages = 48"
definition LOGFILE_NO_CLIENT :: u16 where "LOGFILE_NO_CLIENT = 0xffff"
definition RESTART_VOLUME_IS_CLEAN :: u16 where "RESTART_VOLUME_IS_CLEAN = 2"
definition NTFS_BUF_SIZE :: int where "NTFS_BUF_SIZE = 8192"

text \<open>Offsets of fields: \<^verbatim>\<open>RESTART_PAGE_HEADER\<close> has \<open>usa_ofs\<close> at 4, \<open>usa_count\<close> at 6, \<open>chkdsk_lsn\<close> at 8,
  \<open>system_page_size\<close> at 16, \<open>log_page_size\<close> at 20, \<open>restart_area_offset\<close> at 24, the versions at 26 and 28, \<open>usn\<close> at 30.
  \<^verbatim>\<open>RESTART_AREA\<close> has \<open>current_lsn\<close> at 0, \<open>log_clients\<close> at 8, \<open>client_free_list\<close> at 10, \<open>client_in_use_list\<close> at 12, \<open>flags\<close>
  at 14, \<open>seq_number_bits\<close> at 16, \<open>restart_area_length\<close> at 20, \<open>client_array_offset\<close> at 22, \<open>file_size\<close> at 24,
  \<open>log_record_header_length\<close> at 36, \<open>log_page_data_offset\<close> at 38. \<^verbatim>\<open>LOG_CLIENT_RECORD\<close> has 160 bytes, \<open>prev_client\<close> at 16 and
  \<open>next_client\<close> at 18.\<close>

definition LOG_CLIENT_RECORD_SIZE :: nat where "LOG_CLIENT_RECORD_SIZE = 160"

section \<open>The header of a restart page\<close>

text \<open>The checks from \<^verbatim>\<open>skip_usa_checks\<close> on: the restart area lies behind \<open>low\<close>.\<close>

definition check_ra_ofs :: "u8 list \<Rightarrow> u8 list \<Rightarrow> u32 \<Rightarrow> u16 \<Rightarrow> bool outcome" where
  "check_ra_ofs rp m page_size low =
     obind (get_le16 rp 24) (\<lambda>ra_ofs.
     if ra_ofs AND 7 \<noteq> 0 \<or> ra_ofs < low \<or> (ucast ra_ofs :: u32) > page_size then Ok False
     else obind (get_le64 rp 8) (\<lambda>lsn. Ok (\<not> (m \<noteq> magic_CHKD \<and> lsn \<noteq> 0))))"

definition ntfs_check_restart_page_header :: "u8 list \<Rightarrow> int \<Rightarrow> bool outcome" where
  "ntfs_check_restart_page_header rp pos =
     obind (get_le32 rp 16) (\<lambda>page_size. obind (get_le32 rp 20) (\<lambda>log_size.
     if page_size < 512 \<or> log_size < 512 \<or> page_size AND (page_size - 1) \<noteq> 0 \<or> log_size AND (log_size - 1) \<noteq> 0 then Ok False
     else if pos \<noteq> 0 \<and> pos \<noteq> uint page_size then Ok False
     else obind (get_le16 rp 28) (\<lambda>major. obind (get_le16 rp 26) (\<lambda>minor.
     if (major \<noteq> 1 \<or> minor \<noteq> 1) \<and> (major \<noteq> 2 \<or> minor \<noteq> 0) then Ok False
     else obind (rd_magic rp) (\<lambda>m. obind (get_le16 rp 6) (\<lambda>count.
     if m = magic_CHKD \<and> count = 0 then check_ra_ofs rp m page_size 30
     else let usa_count = ucast (1 + drop_bit 9 page_size) in
          if usa_count \<noteq> count then Ok False
          else obind (get_le16 rp 4) (\<lambda>usa_ofs.
               let usa_end = usa_ofs + usa_count * 2 in
               if usa_ofs < 30 \<or> usa_end > 510 then Ok False else check_ra_ofs rp m page_size usa_end)))))))"

section \<open>The restart area\<close>

definition aligned8 :: "u16 \<Rightarrow> bool" where
  "aligned8 w \<longleftrightarrow> (uint w + 7) AND NOT 7 = uint w"

function fs_bits :: "u64 \<Rightarrow> nat" where
  "fs_bits file_size = (if file_size = 0 then 0 else fs_bits (drop_bit 1 file_size) + 1)"
  by pat_completeness auto
termination
proof (relation "measure unat", goal_cases)
  case (2 w)
  have "unat (drop_bit 1 w) = unat w div 2"
    by (subst unat_drop_bit_eq) (simp add: drop_bit_eq_div)
  then show ?case
    using 2 by (simp add: unat_gt_0)
qed simp

declare fs_bits.simps [simp del]

text \<open>The checks behind the client lists.\<close>

definition check_ra_sizes :: "u8 list \<Rightarrow> nat \<Rightarrow> bool outcome" where
  "check_ra_sizes rp ra =
     obind (get_le64 rp (ra + 24)) (\<lambda>file_size. obind (get_le32 rp (ra + 16)) (\<lambda>seq.
     if seq \<noteq> word_of_int (67 - int (fs_bits file_size)) then Ok False
     else obind (get_le16 rp (ra + 36)) (\<lambda>header_len.
     if \<not> aligned8 header_len then Ok False
     else obind (get_le16 rp (ra + 38)) (\<lambda>data_ofs. Ok (aligned8 data_ofs)))))"

definition ntfs_check_restart_area :: "u8 list \<Rightarrow> bool outcome" where
  "ntfs_check_restart_area rp =
     obind (get_le16 rp 24) (\<lambda>ra_ofs. let ra = unat ra_ofs in
     if ra + 24 > NTFS_BLOCK_SIZE - 2 then Ok False
     else obind (get_le16 rp (ra + 22)) (\<lambda>ca_ofs.
     if \<not> aligned8 ca_ofs \<or> ra + unat ca_ofs > NTFS_BLOCK_SIZE - 2 then Ok False
     else obind (get_le16 rp (ra + 8)) (\<lambda>log_clients. obind (get_le32 rp 16) (\<lambda>page_size. obind (get_le16 rp (ra + 20)) (\<lambda>area_len.
     let ra_len = ca_ofs + log_clients * of_nat LOG_CLIENT_RECORD_SIZE in
     if ra + unat ra_len > unat page_size \<or> ra + unat area_len > unat page_size \<or> ra_len > area_len then Ok False
     else obind (get_le16 rp (ra + 10)) (\<lambda>free_list. obind (get_le16 rp (ra + 12)) (\<lambda>in_use_list.
     if free_list \<noteq> LOGFILE_NO_CLIENT \<and> free_list \<ge> log_clients \<or> in_use_list \<noteq> LOGFILE_NO_CLIENT \<and> in_use_list \<ge> log_clients then Ok False
     else check_ra_sizes rp ra)))))))"

section \<open>The client records\<close>

text \<open>One list: \<open>nr\<close> is the number of records that may still be visited. The result is the number left, or \<open>None\<close> when the list
  is corrupt.\<close>

fun check_list :: "u8 list \<Rightarrow> nat \<Rightarrow> u16 \<Rightarrow> nat \<Rightarrow> u16 \<Rightarrow> bool \<Rightarrow> nat option outcome" where
  "check_list rp ca log_clients 0 idx idx_is_first = (if idx = LOGFILE_NO_CLIENT then Ok (Some 0) else Ok None)"
| "check_list rp ca log_clients (Suc nr) idx idx_is_first =
     (if idx = LOGFILE_NO_CLIENT then Ok (Some (Suc nr))
      else if idx \<ge> log_clients then Ok None
      else let cr = ca + unat idx * LOG_CLIENT_RECORD_SIZE in
           obind (if idx_is_first then obind (get_le16 rp (cr + 16)) (\<lambda>prev. Ok (prev = LOGFILE_NO_CLIENT)) else Ok True) (\<lambda>first_ok.
           if \<not> first_ok then Ok None
           else obind (get_le16 rp (cr + 18)) (\<lambda>next_client. check_list rp ca log_clients nr next_client False)))"

definition ntfs_check_log_client_array :: "u8 list \<Rightarrow> bool outcome" where
  "ntfs_check_log_client_array rp =
     obind (get_le16 rp 24) (\<lambda>ra_ofs. let ra = unat ra_ofs in
     obind (get_le16 rp (ra + 22)) (\<lambda>ca_ofs. let ca = ra + unat ca_ofs in
     obind (get_le16 rp (ra + 8)) (\<lambda>log_clients. obind (get_le16 rp (ra + 10)) (\<lambda>free_list.
     obind (check_list rp ca log_clients (unat log_clients) free_list True) (\<lambda>r.
     case r of None \<Rightarrow> Ok False
     | Some nr \<Rightarrow>
         obind (get_le16 rp (ra + 12)) (\<lambda>in_use_list.
         obind (check_list rp ca log_clients nr in_use_list True) (\<lambda>r. Ok (r \<noteq> None))))))))"

section \<open>Loading a restart page\<close>

text \<open>The whole page, from the block if it fits there. A short read leaves the error code of an earlier call in the source; here it
  is \<open>EIO\<close>.\<close>

definition load_page :: "'s pread_fn \<Rightarrow> 's \<Rightarrow> u8 list \<Rightarrow> int \<Rightarrow> u32 \<Rightarrow> u8 list outcome" where
  "load_page pread s rp pos page_size =
     (if page_size \<le> 512 then if unat page_size \<le> length rp then Ok (take (unat page_size) rp) else Fault
      else case pread s pos (uint page_size) of
        Ok b \<Rightarrow> if length b = unat page_size then Ok b else Err EIO
      | Err e \<Rightarrow> Err (if e = ENOMEM then ENOMEM else EIO)
      | Fault \<Rightarrow> Fault)"

definition deprotect_page :: "u8 list \<Rightarrow> u8 list \<Rightarrow> u32 \<Rightarrow> u8 list outcome" where
  "deprotect_page rp trp page_size =
     obind (rd_magic trp) (\<lambda>m. obind (get_le16 trp 6) (\<lambda>count.
     if m \<noteq> magic_CHKD \<or> count \<noteq> 0
     then obind (ntfs_mst_post_read_fixup trp page_size) (\<lambda>(trp, e).
          if e = None then Ok trp
          else obind (get_le16 rp 24) (\<lambda>ra_ofs. obind (get_le16 rp (unat ra_ofs + 20)) (\<lambda>area_len.
               if unat ra_ofs + unat area_len > NTFS_BLOCK_SIZE - 2 then Err EINVAL else Ok trp)))
     else Ok trp))"

text \<open>The check of the client records and the LSN.\<close>

definition finish_page :: "u8 list \<Rightarrow> u8 list \<Rightarrow> nat \<Rightarrow> (u8 list \<times> u64) outcome" where
  "finish_page rp trp ra =
     obind (rd_magic rp) (\<lambda>m. obind (get_le16 rp (ra + 12)) (\<lambda>in_use_list.
     obind (if m = magic_RSTR \<and> in_use_list \<noteq> LOGFILE_NO_CLIENT then ntfs_check_log_client_array trp else Ok True) (\<lambda>clients_ok.
     if \<not> clients_ok then Err EINVAL
     else obind (if m = magic_RSTR then get_le64 rp ra else get_le64 rp 8) (\<lambda>lsn. Ok (trp, lsn)))))"

text \<open>The result is the page and its LSN. Both are asked for by the only caller.\<close>

definition ntfs_check_and_load_restart_page :: "(int \<Rightarrow> bool) \<Rightarrow> 's pread_fn \<Rightarrow> 's \<Rightarrow> u8 list \<Rightarrow> int \<Rightarrow> (u8 list \<times> u64) outcome" where
  "ntfs_check_and_load_restart_page alloc pread s rp pos =
     obind (ntfs_check_restart_page_header rp pos) (\<lambda>header_ok.
     if \<not> header_ok then Err EINVAL
     else obind (ntfs_check_restart_area rp) (\<lambda>area_ok.
     if \<not> area_ok then Err EINVAL
     else obind (get_le16 rp 24) (\<lambda>ra_ofs. obind (get_le32 rp 16) (\<lambda>page_size.
     if \<not> alloc (uint page_size) then Err ENOMEM
     else obind (load_page pread s rp pos page_size) (\<lambda>trp. obind (deprotect_page rp trp page_size) (\<lambda>trp.
     finish_page rp trp (unat ra_ofs)))))))"

section \<open>The journal\<close>

type_synonym restart_pages = "(u8 list \<times> u64) option \<times> (u8 list \<times> u64) option"

text \<open>The loop over the places where a restart page may begin: the result is whether the journal is empty and the pages found, or
  \<open>None\<close> for \<^verbatim>\<open>err_out\<close>.\<close>

definition next_pos :: "nat \<Rightarrow> nat" where
  "next_pos pos = 2 * (if pos = 0 then NTFS_BLOCK_SIZE div 2 else pos)"

function restart_loop :: "(int \<Rightarrow> bool) \<Rightarrow> 's pread_fn \<Rightarrow> 's \<Rightarrow> nat \<Rightarrow> nat \<Rightarrow> bool \<Rightarrow> restart_pages \<Rightarrow> (bool \<times> restart_pages) option outcome" where
  "restart_loop alloc pread s log_size pos is_empty (r1, r2) =
     (if pos < log_size
      then case pread s (int pos) (int NTFS_BLOCK_SIZE) of
             Fault \<Rightarrow> Fault
           | Err e \<Rightarrow> Ok None
           | Ok kaddr \<Rightarrow>
               if length kaddr \<noteq> NTFS_BLOCK_SIZE then Ok None
               else let m = take 4 kaddr; is_empty' = (is_empty \<and> m = magic_empty) in
                    if m = magic_empty \<and> \<not> is_empty then Ok (Some (is_empty', r1, r2))
                    else if m = magic_RCRD then Ok (Some (is_empty', r1, r2))
                    else if m \<noteq> magic_RSTR \<and> m \<noteq> magic_CHKD then restart_loop alloc pread s log_size (next_pos pos) is_empty' (r1, r2)
                    else case ntfs_check_and_load_restart_page alloc pread s kaddr (int pos) of
                           Fault \<Rightarrow> Fault
                         | Ok p \<Rightarrow>
                             let r = (if r1 = None then (Some p, r2) else (r1, Some p)) in
                             if pos = 0 then restart_loop alloc pread s log_size (next_pos pos) is_empty' r else Ok (Some (is_empty', r))
                         | Err e \<Rightarrow> if e \<noteq> EINVAL then Ok None else restart_loop alloc pread s log_size (next_pos pos) is_empty' (r1, r2)
      else Ok (Some (is_empty, r1, r2)))"
  by pat_completeness auto
termination
  by (relation "measure (\<lambda>(alloc, pread, s, log_size, pos, e, r). log_size - pos)") (auto simp: next_pos_def NTFS_BLOCK_SIZE_def)

declare restart_loop.simps [simp del]

text \<open>The more recent page of those found.\<close>

definition newest_page :: "restart_pages \<Rightarrow> u8 list option" where
  "newest_page r = (case r of
     (None, _) \<Rightarrow> None
   | (Some (p1, l1), None) \<Rightarrow> Some p1
   | (Some (p1, l1), Some (p2, l2)) \<Rightarrow> Some (if sint l2 > sint l1 then p2 else p1))"

text \<open>The result is the flag for an empty journal, the value returned and the page.\<close>

definition ntfs_check_logfile :: "(int \<Rightarrow> bool) \<Rightarrow> 's pread_fn \<Rightarrow> 's \<Rightarrow> int \<Rightarrow> bool \<Rightarrow> (bool \<times> bool \<times> u8 list option) outcome" where
  "ntfs_check_logfile alloc pread s data_size log_empty =
     (if log_empty then Ok (log_empty, True, None)
      else let log_size = min data_size MaxLogFileSize AND NOT (DefaultLogPageSize - 1) in
           if log_size < DefaultLogPageSize * 2 \<or> drop_bit 12 (log_size - DefaultLogPageSize * 2) < MinLogRecordPages then Ok (log_empty, False, None)
           else if \<not> alloc (int NTFS_BLOCK_SIZE) then Ok (log_empty, False, None)
           else obind (restart_loop alloc pread s (nat log_size) 0 True (None, None)) (\<lambda>r.
                case r of
                  None \<Rightarrow> Ok (log_empty, False, None)
                | Some (is_empty, pages) \<Rightarrow>
                    if is_empty then Ok (True, True, None)
                    else Ok (log_empty, newest_page pages \<noteq> None, newest_page pages)))"

definition ntfs_is_logfile_clean :: "bool \<Rightarrow> u8 list option \<Rightarrow> bool outcome" where
  "ntfs_is_logfile_clean log_empty rp =
     (if log_empty then Ok True
      else case rp of None \<Rightarrow> Ok False
      | Some rp \<Rightarrow>
          obind (rd_magic rp) (\<lambda>m.
          if m \<noteq> magic_RSTR \<and> m \<noteq> magic_CHKD then Ok False
          else obind (get_le16 rp 24) (\<lambda>ra_ofs. obind (get_le16 rp (unat ra_ofs + 12)) (\<lambda>in_use_list.
               obind (get_le16 rp (unat ra_ofs + 14)) (\<lambda>flags.
               Ok (\<not> (in_use_list \<noteq> LOGFILE_NO_CLIENT \<and> flags AND RESTART_VOLUME_IS_CLEAN = 0)))))))"

function empty_loop :: "'s pwrite_fn \<Rightarrow> 's \<Rightarrow> int \<Rightarrow> int \<Rightarrow> 's \<times> unit outcome" where
  "empty_loop pwrite s data_size pos =
     (if data_size - pos > 0
      then case pwrite s pos (replicate (nat (min (data_size - pos) NTFS_BUF_SIZE)) 0xff) of
             (s, Fault) \<Rightarrow> (s, Fault)
           | (s, Err e) \<Rightarrow> (s, Err e)
           | (s, Ok count) \<Rightarrow> if count \<le> 0 then (s, Err EIO) else empty_loop pwrite s data_size (pos + count)
      else (s, Ok ()))"
  by pat_completeness auto
termination
  by (relation "measure (\<lambda>(pwrite, s, data_size, pos). nat (data_size - pos))") auto

declare empty_loop.simps [simp del]

definition ntfs_empty_logfile :: "'s pwrite_fn \<Rightarrow> 's \<Rightarrow> bool \<Rightarrow> int \<Rightarrow> bool \<Rightarrow> 's \<times> bool \<times> unit outcome" where
  "ntfs_empty_logfile pwrite s nonresident data_size log_empty =
     (if log_empty then (s, log_empty, Ok ())
      else if \<not> nonresident then (s, log_empty, Err EIO)
      else let (s, r) = empty_loop pwrite s data_size 0 in (s, is_Ok r, r))"

end
