(* ===== verification/Lcnalloc.thy ===== *)
theory Lcnalloc
  imports Volume Runlist Bitmap
begin

text \<open>
  The cluster allocator (\<^verbatim>\<open>lcnalloc.c\<close>). The bitmap of the volume is an attribute that is read and written through
  two functions, arguments of the model, in windows of 4096 bytes. The runlist that is built is the list of its
  elements, and \<open>rlsize\<close> the bytes of its memory block.
\<close>

section \<open>Zones\<close>

record alloc_volume = ntfs_volume +
  full_zones :: u8
  mft_zone_start :: int
  mft_zone_end :: int
  mft_zone_pos :: int
  data1_zone_pos :: int
  data2_zone_pos :: int
  free_clusters :: int

definition NTFS_LCNALLOC_BSIZE :: int where "NTFS_LCNALLOC_BSIZE = 4096"
definition NTFS_LCNALLOC_SKIP :: int where "NTFS_LCNALLOC_SKIP = NTFS_LCNALLOC_BSIZE"

datatype zone = ZONE_MFT | ZONE_DATA1 | ZONE_DATA2

fun zone_bit :: "zone \<Rightarrow> u8" where
  "zone_bit ZONE_MFT = 1"
| "zone_bit ZONE_DATA1 = 2"
| "zone_bit ZONE_DATA2 = 4"

definition MFT_ZONE :: int where "MFT_ZONE = 0"
definition DATA_ZONE :: int where "DATA_ZONE = 1"
definition FIRST_ZONE :: int where "FIRST_ZONE = 0"
definition LAST_ZONE :: int where "LAST_ZONE = 1"

text \<open>The new value of the position \<open>pos\<close>.\<close>

definition ntfs_cluster_set_zone_pos :: "int \<Rightarrow> int \<Rightarrow> int \<Rightarrow> int \<Rightarrow> int" where
  "ntfs_cluster_set_zone_pos start end pos tc = (if tc \<ge> end then start else if tc \<ge> start then tc else pos)"

fun ntfs_cluster_update_zone_pos :: "alloc_volume \<Rightarrow> zone \<Rightarrow> int \<Rightarrow> alloc_volume" where
  "ntfs_cluster_update_zone_pos v ZONE_MFT tc = v\<lparr>mft_zone_pos := ntfs_cluster_set_zone_pos (mft_lcn v) (mft_zone_end v) (mft_zone_pos v) tc\<rparr>"
| "ntfs_cluster_update_zone_pos v ZONE_DATA1 tc = v\<lparr>data1_zone_pos := ntfs_cluster_set_zone_pos (mft_zone_end v) (nr_clusters v) (data1_zone_pos v) tc\<rparr>"
| "ntfs_cluster_update_zone_pos v ZONE_DATA2 tc = v\<lparr>data2_zone_pos := ntfs_cluster_set_zone_pos 0 (mft_zone_start v) (data2_zone_pos v) tc\<rparr>"

definition reopen_zone :: "alloc_volume \<Rightarrow> zone \<Rightarrow> int \<Rightarrow> alloc_volume" where
  "reopen_zone v z l =
     (if full_zones v AND zone_bit z \<noteq> 0 then (ntfs_cluster_update_zone_pos v z l)\<lparr>full_zones := full_zones v AND NOT (zone_bit z)\<rparr> else v)"

definition update_full_status :: "alloc_volume \<Rightarrow> int \<Rightarrow> alloc_volume" where
  "update_full_status v l =
     (if l \<ge> mft_zone_end v then reopen_zone v ZONE_DATA1 l
      else if l < mft_zone_start v then reopen_zone v ZONE_DATA2 l
      else reopen_zone v ZONE_MFT l)"

section \<open>The largest free range\<close>

text \<open>The state of the search is the current run of clear bits, the longest so far and its start, or -1.\<close>

fun range_bits :: "u8 \<Rightarrow> int \<Rightarrow> nat \<Rightarrow> nat \<Rightarrow> int \<times> int \<times> int \<Rightarrow> int \<times> int \<times> int" where
  "range_bits x i j 0 r = r"
| "range_bits x i j (Suc n) (run, max_range, start_pos) =
     range_bits x i (j + 1) n
       (if bit x j then (if run > max_range then (0, run, i * 8 + (int j - run)) else (0, max_range, start_pos))
        else (run + 1, max_range, start_pos))"

lemma takeWhile_drop_pos: "i < length xs \<Longrightarrow> P (xs ! i) \<Longrightarrow> length xs - (i + length (takeWhile P (drop i xs))) < length xs - i"
  by (simp add: Cons_nth_drop_Suc [symmetric])

function range_loop :: "u8 list \<Rightarrow> nat \<Rightarrow> int \<times> int \<times> int \<Rightarrow> int \<times> int \<times> int" where
  "range_loop buf i (run, max_range, start_pos) =
     (if i < length buf
      then if buf ! i = 0
           then let n = length (takeWhile (\<lambda>b. b = 0) (drop i buf)) in range_loop buf (i + n) (run + 8 * int n, max_range, start_pos)
           else if buf ! i = 255
           then let n = length (takeWhile (\<lambda>b. b = 255) (drop i buf)) in
                range_loop buf (i + n) (if run > max_range then (0, run, int i * 8 - run) else (0, max_range, start_pos))
           else range_loop buf (i + 1) (range_bits (buf ! i) (int i) 0 8 (run, max_range, start_pos))
      else (run, max_range, start_pos))"
  by pat_completeness auto
termination
proof (relation "measure (\<lambda>(buf, i, r). length buf - i)", goal_cases)
  case (2 buf i run max_range start_pos n)
  then show ?case
    using takeWhile_drop_pos [of i buf "\<lambda>b. b = 0"] by auto
next
  case (3 buf i run max_range start_pos n)
  then show ?case
    using takeWhile_drop_pos [of i buf "\<lambda>b. b = 255"] by auto
qed auto

declare range_loop.simps [simp del]

definition max_empty_bit_range :: "u8 list \<Rightarrow> int" where
  "max_empty_bit_range buf =
     (let (run, max_range, start_pos) = range_loop buf 0 (0, 0, -1) in
      if run > max_range then int (length buf) * 8 - run else start_pos)"

section \<open>Allocation\<close>

text \<open>\<open>pass2\<close> is the pass from the start of the zone. A runlist of length 0 stands for the null pointer.\<close>

record 's alloc_state =
  a_vol :: alloc_volume
  a_bmp :: 's
  zone_start :: int
  zone_end :: int
  bmp_pos :: int
  prev_lcn :: int
  prev_run_len :: int
  clusters :: int
  a_rl :: runlist
  rlsize :: int
  pass2 :: bool
  search_zone :: zone
  done_zones :: u8
  has_guess :: bool
  used_zone_pos :: bool

text \<open>The bitmap is written back if it was changed. A write of some of the bytes leaves the error code of an earlier call
  in the source; here it is \<open>EIO\<close>, as for a write of none.\<close>

definition bitmap_writeback :: "'s pwrite_fn \<Rightarrow> 's \<Rightarrow> int \<Rightarrow> u8 list \<Rightarrow> bool \<Rightarrow> 's \<times> unit outcome" where
  "bitmap_writeback pwrite s pos buf writeback =
     (if \<not> writeback then (s, Ok ())
      else case pwrite s pos buf of
        (s, Ok written) \<Rightarrow> if written \<noteq> int (length buf) then (s, Err EIO) else (s, Ok ())
      | (s, Err e) \<Rightarrow> (s, Err e)
      | (s, Fault) \<Rightarrow> (s, Fault))"

text \<open>A cluster is added to the runlist, to its last run if it is the next cluster.\<close>

definition add_cluster :: "int \<Rightarrow> 's alloc_state \<Rightarrow> int \<Rightarrow> 's alloc_state outcome" where
  "add_cluster start_vcn st l =
     (let rl = a_rl st; rlpos = length rl in
      if prev_lcn st = l - prev_run_len st \<and> rlpos \<noteq> 0
      then let n = prev_run_len st + 1 in
           Ok (st\<lparr>a_rl := rl[rlpos - 1 := (rl ! (rlpos - 1))\<lparr>rlen := n\<rparr>], prev_run_len := n\<rparr>)
      else if (int rlpos + 1) * rle_size > rlsize st then Fault
      else let v = (if rlpos \<noteq> 0 then vcn (rl ! (rlpos - 1)) + prev_run_len st else start_vcn) in
           Ok (st\<lparr>a_rl := rl @ [\<lparr>vcn = v, lcn = l, rlen = 1\<rparr>], prev_lcn := l, prev_run_len := 1\<rparr>))"

text \<open>The bit \<open>l\<close> of the window \<open>buf\<close>, which starts at the bit \<open>base\<close> of the bitmap and holds \<open>x\<close> there, is allocated; \<open>None\<close> if
  there is no memory for the runlist.\<close>

definition alloc_bit ::
  "(int \<Rightarrow> bool) \<Rightarrow> int \<Rightarrow> int \<Rightarrow> u8 list \<Rightarrow> int \<Rightarrow> u8 \<Rightarrow> 's alloc_state \<Rightarrow> (u8 list \<times> 's alloc_state) option outcome" where
  "alloc_bit alloc start_vcn base buf l x st =
     (let grow = ((int (length (a_rl st)) + 2) * rle_size \<ge> rlsize st) in
      if grow \<and> \<not> alloc (rlsize st + 4096) then Ok None
      else let v = a_vol st;
               st = st\<lparr>rlsize := rlsize st + (if grow then 4096 else 0),
                       a_vol := (if free_clusters v \<le> 0 then v else v\<lparr>free_clusters := free_clusters v - 1\<rparr>)\<rparr> in
           obind (aset buf (l div 8) (x OR push_bit (nat (l mod 8)) 1)) (\<lambda>buf.
           obind (add_cluster start_vcn st (l + base)) (\<lambda>st.
           Ok (Some (buf, st\<lparr>clusters := clusters st - 1\<rparr>)))))"

lemma alloc_bit_frame:
  assumes "alloc_bit alloc start_vcn base buf l x st = Ok (Some (buf', st'))"
  shows "length buf' = length buf \<and> has_guess st' = has_guess st \<and> search_zone st' = search_zone st \<and> done_zones st' = done_zones st \<and>
    used_zone_pos st' = used_zone_pos st \<and> pass2 st' = pass2 st \<and> zone_end st' = zone_end st \<and> zone_start st' = zone_start st \<and> a_bmp st' = a_bmp st \<and>
    bmp_pos st' = bmp_pos st"
  using assms by (auto simp: alloc_bit_def add_cluster_def Let_def obind_Ok_iff dest: aset_length split: if_splits)

text \<open>Why the scan of a window ended.\<close>

datatype scan_end = Scanned | Allocated | NoMemory

text \<open>The scan of the window from its bit \<open>l\<close> on. The result is the window, whether it was changed, the new state and why
  the scan ended.\<close>

function bit_loop ::
  "(int \<Rightarrow> bool) \<Rightarrow> int \<Rightarrow> int \<Rightarrow> u8 list \<Rightarrow> int \<Rightarrow> bool \<Rightarrow> 's alloc_state \<Rightarrow> (u8 list \<times> bool \<times> 's alloc_state \<times> scan_end) outcome" where
  "bit_loop alloc start_vcn base buf l wb st =
     (if l < int (length buf) * 8
      then if \<not> has_guess st
           then if max_empty_bit_range buf < 0 then Ok (buf, wb, st, Scanned)
                else bit_loop alloc start_vcn base buf (max_empty_bit_range buf) wb (st\<lparr>has_guess := True\<rparr>)
           else obind (aget buf (l div 8)) (\<lambda>x.
                if bit x (nat (l mod 8)) then Ok (buf, wb, st\<lparr>has_guess := False\<rparr>, Scanned)
                else obind (alloc_bit alloc start_vcn base buf l x st) (\<lambda>r.
                     case r of
                       None \<Rightarrow> Ok (buf, wb, st, NoMemory)
                     | Some (buf, st) \<Rightarrow>
                         if clusters st = 0
                         then Ok (buf, True,
                                if used_zone_pos st
                                then st\<lparr>a_vol := ntfs_cluster_update_zone_pos (a_vol st) (search_zone st) (l + base + 1 + NTFS_LCNALLOC_SKIP)\<rparr>
                                else st, Allocated)
                         else bit_loop alloc start_vcn base buf (l + 1) True st))
      else Ok (buf, wb, st, Scanned))"
  by pat_completeness auto
termination
proof (relation "measures [\<lambda>(alloc, v, base, buf, l, wb, st). if has_guess st then 0 else 1, \<lambda>(alloc, v, base, buf, l, wb, st). nat (int (length buf) * 8 - l)]", goal_cases)
  case (3 alloc start_vcn base buf l wb st x r p buf' st')
  then have "length buf' = length buf" "has_guess st' = has_guess st"
    using alloc_bit_frame [of alloc start_vcn base buf l x st buf' st'] by auto
  then show ?case
    using 3 by auto
qed auto

declare bit_loop.simps [simp del]

text \<open>The next zone after the current one is exhausted: \<open>None\<close> when all zones are.\<close>

definition switch_zone :: "'s alloc_state \<Rightarrow> 's alloc_state" where
  "switch_zone st =
     (let v = a_vol st;
          data1 = st\<lparr>search_zone := ZONE_DATA1, zone_start := data1_zone_pos v, zone_end := nr_clusters v, pass2 := (data1_zone_pos v = mft_zone_end v)\<rparr> in
      case search_zone st of
        ZONE_MFT \<Rightarrow> data1
      | ZONE_DATA1 \<Rightarrow> st\<lparr>search_zone := ZONE_DATA2, zone_start := data2_zone_pos v, zone_end := mft_zone_start v, pass2 := (data2_zone_pos v = 0)\<rparr>
      | ZONE_DATA2 \<Rightarrow>
          if done_zones st AND zone_bit ZONE_DATA1 = 0 then data1
          else st\<lparr>search_zone := ZONE_MFT, zone_start := mft_zone_pos v, zone_end := mft_zone_end v, pass2 := (mft_zone_pos v = mft_zone_start v)\<rparr>)"

text \<open>The number of zone switches left is bounded by the zones that are not done and the order of the zones.\<close>

definition zones_left :: "zone \<Rightarrow> u8 \<Rightarrow> nat" where
  "zones_left z d =
     (let missing = (\<lambda>y. if (d OR zone_bit z) AND zone_bit y = 0 then 3 else 0) in
      missing ZONE_MFT + missing ZONE_DATA1 + missing ZONE_DATA2 + (case z of ZONE_MFT \<Rightarrow> 2 | ZONE_DATA1 \<Rightarrow> 1 | ZONE_DATA2 \<Rightarrow> 0))"

fun zone_index :: "zone \<Rightarrow> nat" where
  "zone_index ZONE_MFT = 0"
| "zone_index ZONE_DATA1 = 1"
| "zone_index ZONE_DATA2 = 2"

lemma zone_bit_exp: "zone_bit z = push_bit (zone_index z) 1"
  by (cases z) simp_all

lemma zone_index_less: "zone_index z < 8"
  by (cases z) simp_all

lemma and_zone_bit: "x AND zone_bit z = 0 \<longleftrightarrow> \<not> bit x (zone_index z)"
proof -
  have "x AND zone_bit z = 0 \<longleftrightarrow> (\<forall>n < 8. \<not> (bit x n \<and> n = zone_index z))"
    unfolding zone_bit_exp by (simp add: bit_eq_iff bit_and_iff bit_exp_iff)
  then show ?thesis
    using zone_index_less [of z] by auto
qed

lemma bit_or_zone: "n < 8 \<Longrightarrow> bit (x OR zone_bit z) n \<longleftrightarrow> bit x n \<or> n = zone_index z"
  unfolding zone_bit_exp by (auto simp: bit_or_iff bit_exp_iff)

lemma zones_full: "bit d 0 \<Longrightarrow> bit d 1 \<Longrightarrow> bit d 2 \<Longrightarrow> \<not> (d :: u8) < 7"
proof -
  assume b: "bit d 0" "bit d 1" "bit d 2"
  have "(7 :: u8) = mask 3"
    by (simp add: mask_eq_exp_minus_1)
  moreover have "d AND mask 3 = mask 3"
    using b by (auto intro!: bit_word_eqI simp: bit_and_iff bit_mask_iff less_Suc_eq numeral_3_eq_3 numeral_2_eq_2)
  moreover have "d AND mask 3 \<le> d"
    by (rule word_and_le2)
  ultimately show ?thesis
    by (simp add: not_less)
qed

lemma zones_left_switch:
  assumes "done_zones st = d OR zone_bit (search_zone st)" "done_zones st < 7"
  shows "zones_left (search_zone (switch_zone st)) (done_zones st) < zones_left (search_zone st) d"
proof -
  have "\<not> (bit (done_zones st) 0 \<and> bit (done_zones st) 1 \<and> bit (done_zones st) 2)"
    using zones_full assms(2) by blast
  then show ?thesis
    using assms(1) by (cases "search_zone st") (auto simp: zones_left_def switch_zone_def Let_def and_zone_bit bit_or_zone simp del: zone_bit.simps)
qed

definition mark_zone :: "'s alloc_state \<Rightarrow> 's alloc_state" where
  "mark_zone st =
     st\<lparr>done_zones := done_zones st OR zone_bit (search_zone st),
        a_vol := (a_vol st)\<lparr>full_zones := full_zones (a_vol st) OR zone_bit (search_zone st)\<rparr>\<rparr>"

definition enter_zone :: "'s alloc_state \<Rightarrow> 's alloc_state" where
  "enter_zone st =
     (let st = (if a_rl st \<noteq> [] \<and> used_zone_pos st
                then st\<lparr>a_vol := ntfs_cluster_update_zone_pos (a_vol st) (search_zone st)
                          (lcn (last (a_rl st)) + rlen (last (a_rl st)) + NTFS_LCNALLOC_SKIP)\<rparr>
                else st);
          st = switch_zone st in
      st\<lparr>bmp_pos := zone_start st\<rparr>)"

lemma switch_zone_frame:
  "done_zones (switch_zone st) = done_zones st" "used_zone_pos (switch_zone st) = used_zone_pos st" "a_rl (switch_zone st) = a_rl st"
  "a_bmp (switch_zone st) = a_bmp st" "a_vol (switch_zone st) = a_vol st" "clusters (switch_zone st) = clusters st" "prev_lcn (switch_zone st) = prev_lcn st"
  "prev_run_len (switch_zone st) = prev_run_len st" "rlsize (switch_zone st) = rlsize st"
  by (cases "search_zone st"; simp add: switch_zone_def Let_def)+

lemma search_zone_switch: "search_zone (switch_zone (st\<lparr>a_vol := v\<rparr>)) = search_zone (switch_zone st)"
  by (cases "search_zone st") (simp_all add: switch_zone_def Let_def)

lemma enter_zone_left:
  assumes "done_zones (mark_zone st) < 7"
  shows "zones_left (search_zone (enter_zone (mark_zone st))) (done_zones (enter_zone (mark_zone st))) < zones_left (search_zone st) (done_zones st)"
  using zones_left_switch [of "mark_zone st" "done_zones st"] assms
  by (simp add: enter_zone_def Let_def switch_zone_frame search_zone_switch mark_zone_def)

function next_zone :: "'s alloc_state \<Rightarrow> 's alloc_state \<times> bool" where
  "next_zone st =
     (let st1 = mark_zone st; st2 = enter_zone st1 in
      if done_zones st1 < 7 then if zone_start st2 = zone_end st2 then next_zone st2 else (st2, True)
      else (st1, False))"
  by pat_completeness auto
termination
  by (relation "measure (\<lambda>st. zones_left (search_zone st) (done_zones st))") (auto intro: enter_zone_left)

declare next_zone.simps [simp del]

lemma next_zone_left:
  "next_zone st = (st', True) \<Longrightarrow> zones_left (search_zone st') (done_zones st') < zones_left (search_zone st) (done_zones st)"
proof (induction st rule: next_zone.induct)
  case (1 st)
  show ?case
  proof (cases "zone_start (enter_zone (mark_zone st)) = zone_end (enter_zone (mark_zone st)) \<and> done_zones (mark_zone st) < 7")
    case True
    then show ?thesis
      using 1(1) [OF refl refl] 1(2) enter_zone_left [of st] by (auto simp: next_zone.simps [of st] Let_def)
  next
    case False
    then show ?thesis
      using 1(2) enter_zone_left [of st] by (auto simp: next_zone.simps [of st] Let_def split: if_splits)
  qed
qed

text \<open>How the allocation goes on: with another window, or with the return of the runlist or of an error.\<close>

datatype 's alloc_next = Continue "'s alloc_state" | Stop "'s alloc_state" "runlist outcome"

definition zone_first :: "alloc_volume \<Rightarrow> zone \<Rightarrow> int" where
  "zone_first v z = (case z of ZONE_MFT \<Rightarrow> mft_zone_start v | ZONE_DATA1 \<Rightarrow> mft_zone_end v | ZONE_DATA2 \<Rightarrow> 0)"

definition zone_pos :: "alloc_volume \<Rightarrow> zone \<Rightarrow> int" where
  "zone_pos v z = (case z of ZONE_MFT \<Rightarrow> mft_zone_pos v | ZONE_DATA1 \<Rightarrow> data1_zone_pos v | ZONE_DATA2 \<Rightarrow> data2_zone_pos v)"

definition zone_pass_done :: "'s alloc_state \<Rightarrow> 's alloc_next" where
  "zone_pass_done st =
     (if \<not> pass2 st
      then let first = zone_first (a_vol st) (search_zone st) in
           Continue (st\<lparr>pass2 := True, zone_end := max (zone_start st) first, zone_start := first, bmp_pos := first\<rparr>)
      else let (st, found) = next_zone st in if found then Continue st else Stop st (Err ENOSPC))"

text \<open>The position after a window without enough free clusters.\<close>

definition next_window :: "'s alloc_state \<Rightarrow> nat \<Rightarrow> 's alloc_next" where
  "next_window st br =
     (let st = (if \<not> used_zone_pos st
                then let v = a_vol st; zs = zone_pos v (search_zone st) in
                     st\<lparr>used_zone_pos := True, zone_start := zs, pass2 := (pass2 st \<or> zs = 0 \<or> zs = mft_zone_start v \<or> zs = mft_zone_end v), bmp_pos := zs\<rparr>
                else st\<lparr>bmp_pos := bmp_pos st + 8 * int br\<rparr>) in
      if bmp_pos st < zone_end st then Continue st else zone_pass_done st)"

text \<open>The runlist with its terminator.\<close>

definition end_runlist :: "'s alloc_state \<Rightarrow> runlist outcome" where
  "end_runlist st =
     (let rl = a_rl st in
      if rl = [] \<or> (int (length rl) + 1) * rle_size > rlsize st then Fault
      else Ok (rl @ [\<lparr>vcn = vcn (last rl) + rlen (last rl), lcn = LCN_RL_NOT_MAPPED, rlen = 0\<rparr>]))"

definition alloc_window ::
  "(int \<Rightarrow> bool) \<Rightarrow> 's pwrite_fn \<Rightarrow> int \<Rightarrow> u8 list \<Rightarrow> 's alloc_state \<Rightarrow> 's alloc_next" where
  "alloc_window alloc pwrite start_vcn buf st =
     (let pos = bmp_pos st div 8; l = bmp_pos st mod 8; st = st\<lparr>bmp_pos := bmp_pos st - l\<rparr> in
      case bit_loop alloc start_vcn (bmp_pos st) buf l False st of
        Fault \<Rightarrow> Stop st Fault
      | Err e \<Rightarrow> Stop st (Err e)
      | Ok (buf, wb, st, why) \<Rightarrow>
          let (s, w) = bitmap_writeback pwrite (a_bmp st) pos buf wb; st = st\<lparr>a_bmp := s\<rparr> in
          case why of
            NoMemory \<Rightarrow> Stop st (obind w (\<lambda>_. Err ENOMEM))
          | Allocated \<Rightarrow> Stop st (obind (end_runlist st) (\<lambda>rl. obind w (\<lambda>_. Ok rl)))
          | Scanned \<Rightarrow> (case w of Ok _ \<Rightarrow> next_window st (length buf) | Err e \<Rightarrow> Stop st (Err e) | Fault \<Rightarrow> Stop st Fault))"

definition alloc_body :: "(int \<Rightarrow> bool) \<Rightarrow> 's pread_fn \<Rightarrow> 's pwrite_fn \<Rightarrow> int \<Rightarrow> 's alloc_state \<Rightarrow> 's alloc_next" where
  "alloc_body alloc pread pwrite start_vcn st =
     (if zone_bit (search_zone st) AND full_zones (a_vol st) \<noteq> 0 then zone_pass_done st
      else case pread (a_bmp st) (bmp_pos st div 8) NTFS_LCNALLOC_BSIZE of
        Err e \<Rightarrow> Stop st (Err e)
      | Fault \<Rightarrow> Stop st Fault
      | Ok buf \<Rightarrow> if buf = [] then zone_pass_done st else alloc_window alloc pwrite start_vcn buf st)"

text \<open>Every window makes progress: a zone is left, the position of the zone is used, the second pass begins, or the window
  moves on.\<close>

definition alloc_rank :: "('s alloc_state \<times> 's alloc_state) set" where
  "alloc_rank = measures [\<lambda>st. zones_left (search_zone st) (done_zones st), \<lambda>st. if used_zone_pos st then 0 else 1,
     \<lambda>st. if pass2 st then 0 else 1, \<lambda>st. nat (zone_end st - bmp_pos st)]"

lemma wf_alloc_rank: "wf alloc_rank"
  by (simp add: alloc_rank_def)

definition same_search :: "'s alloc_state \<Rightarrow> 's alloc_state \<Rightarrow> bool" where
  "same_search st st' \<longleftrightarrow> search_zone st' = search_zone st \<and> done_zones st' = done_zones st \<and> used_zone_pos st' = used_zone_pos st \<and>
     pass2 st' = pass2 st \<and> zone_start st' = zone_start st \<and> zone_end st' = zone_end st \<and> bmp_pos st' = bmp_pos st \<and> a_bmp st' = a_bmp st"

lemma bit_loop_frame:
  "bit_loop alloc start_vcn base buf l wb st = Ok (buf', wb', st', why) \<Longrightarrow> same_search st st' \<and> length buf' = length buf"
proof (induction alloc start_vcn base buf l wb st arbitrary: buf' wb' st' why rule: bit_loop.induct)
  case (1 alloc start_vcn base buf l wb st)
  show ?case
  proof (cases "l < int (length buf) * 8 \<and> has_guess st")
    case True
    then obtain x where x: "aget buf (l div 8) = Ok x"
      using 1(3) by (auto simp: bit_loop.simps [of alloc start_vcn base buf l] obind_Ok_iff)
    show ?thesis
    proof (cases "bit x (nat (l mod 8))")
      case False
      then obtain r where r: "alloc_bit alloc start_vcn base buf l x st = Ok r"
        using 1(3) True x by (auto simp: bit_loop.simps [of alloc start_vcn base buf l] obind_Ok_iff)
      show ?thesis
      proof (cases r)
        case (Some p)
        obtain buf1 st1 where p: "p = (buf1, st1)"
          by (cases p) auto
        have f: "same_search st st1" "length buf1 = length buf"
          using alloc_bit_frame [of alloc start_vcn base buf l x st buf1 st1] r Some p by (auto simp: same_search_def)
        then show ?thesis
          using 1(2) [OF _ _ x False r Some p [symmetric]] 1(3) True x False r Some p
          by (auto simp: bit_loop.simps [of alloc start_vcn base buf l] same_search_def split: if_splits)
      qed (use 1(3) True x False r in \<open>auto simp: bit_loop.simps [of alloc start_vcn base buf l] same_search_def\<close>)
    qed (use 1(3) True x in \<open>auto simp: bit_loop.simps [of alloc start_vcn base buf l] same_search_def\<close>)
  next
    case False
    then show ?thesis
      using 1(1,3) by (auto simp: bit_loop.simps [of alloc start_vcn base buf l] same_search_def split: if_splits)
  qed
qed

lemma zone_pass_done_rank:
  "zone_pass_done st = Continue st' \<Longrightarrow> search_zone st = search_zone st0 \<Longrightarrow> done_zones st = done_zones st0 \<Longrightarrow>
    (used_zone_pos st0 \<longrightarrow> used_zone_pos st) \<Longrightarrow> (used_zone_pos st0 = used_zone_pos st \<longrightarrow> pass2 st0 \<longrightarrow> pass2 st) \<Longrightarrow> (st', st0) \<in> alloc_rank"
  by (cases "next_zone st") (auto simp: zone_pass_done_def alloc_rank_def Let_def dest: next_zone_left split: if_splits)

lemma next_window_rank:
  assumes "next_window st br = Continue st'" "search_zone st = search_zone st0" "done_zones st = done_zones st0"
    "used_zone_pos st = used_zone_pos st0" "pass2 st = pass2 st0" "zone_end st = zone_end st0" "bmp_pos st = bmp_pos st0 - bmp_pos st0 mod 8" "0 < br"
  shows "(st', st0) \<in> alloc_rank"
proof (cases "used_zone_pos st")
  case True
  have p: "bmp_pos st0 < bmp_pos st + 8 * int br"
    using assms(7,8) pos_mod_bound [of 8 "bmp_pos st0"] by simp
  show ?thesis
  proof (cases "bmp_pos st + 8 * int br < zone_end st")
    case True
    with \<open>used_zone_pos st\<close> have "st' = st\<lparr>bmp_pos := bmp_pos st + 8 * int br\<rparr>"
      using assms(1) by (simp add: next_window_def)
    with assms True p show ?thesis
      by (simp add: alloc_rank_def)
  next
    case False
    with \<open>used_zone_pos st\<close> have "zone_pass_done (st\<lparr>bmp_pos := bmp_pos st + 8 * int br\<rparr>) = Continue st'"
      using assms(1) by (simp add: next_window_def)
    then show ?thesis
      by (rule zone_pass_done_rank) (simp_all add: assms)
  qed
next
  case False
  let ?st = "st\<lparr>used_zone_pos := True, zone_start := zone_pos (a_vol st) (search_zone st),
     pass2 := (pass2 st \<or> zone_pos (a_vol st) (search_zone st) = 0 \<or> zone_pos (a_vol st) (search_zone st) = mft_zone_start (a_vol st) \<or>
       zone_pos (a_vol st) (search_zone st) = mft_zone_end (a_vol st)), bmp_pos := zone_pos (a_vol st) (search_zone st)\<rparr>"
  have n: "next_window st br = (if bmp_pos ?st < zone_end ?st then Continue ?st else zone_pass_done ?st)"
    using False by (simp add: next_window_def Let_def)
  show ?thesis
  proof (cases "bmp_pos ?st < zone_end ?st")
    case True
    with n assms(1) have "st' = ?st"
      by simp
    with assms False show ?thesis
      by (simp add: alloc_rank_def)
  next
    case False
    with n assms(1) have "zone_pass_done ?st = Continue st'"
      by simp
    then show ?thesis
      by (rule zone_pass_done_rank) (use assms \<open>\<not> used_zone_pos st\<close> in simp_all)
  qed
qed

lemma alloc_body_rank:
  assumes "alloc_body alloc pread pwrite start_vcn st = Continue st'"
  shows "(st', st) \<in> alloc_rank"
proof (cases "zone_pass_done st = Continue st'")
  case True
  then show ?thesis
    by (rule zone_pass_done_rank) auto
next
  case False
  then obtain buf where b: "buf \<noteq> []" "alloc_window alloc pwrite start_vcn buf st = Continue st'"
    using assms by (auto simp: alloc_body_def split: if_splits outcome.splits)
  let ?st = "st\<lparr>bmp_pos := bmp_pos st - bmp_pos st mod 8\<rparr>"
  obtain buf' wb st1 why where l: "bit_loop alloc start_vcn (bmp_pos ?st) buf (bmp_pos st mod 8) False ?st = Ok (buf', wb, st1, why)"
    using b(2) by (auto simp: alloc_window_def Let_def split: outcome.splits)
  obtain s w where w: "bitmap_writeback pwrite (a_bmp st1) (bmp_pos st div 8) buf' wb = (s, w)"
    by (cases "bitmap_writeback pwrite (a_bmp st1) (bmp_pos st div 8) buf' wb") auto
  have "next_window (st1\<lparr>a_bmp := s\<rparr>) (length buf') = Continue st'"
    using b(2) l w by (auto simp: alloc_window_def Let_def split: scan_end.splits outcome.splits)
  then show ?thesis
    by (rule next_window_rank) (use bit_loop_frame [OF l] b(1) in \<open>simp_all add: same_search_def\<close>)
qed

function alloc_loop :: "(int \<Rightarrow> bool) \<Rightarrow> 's pread_fn \<Rightarrow> 's pwrite_fn \<Rightarrow> int \<Rightarrow> 's alloc_state \<Rightarrow> 's alloc_state \<times> runlist outcome" where
  "alloc_loop alloc pread pwrite start_vcn st =
     (case alloc_body alloc pread pwrite start_vcn st of
        Continue st \<Rightarrow> alloc_loop alloc pread pwrite start_vcn st
      | Stop st r \<Rightarrow> (st, r))"
  by pat_completeness auto
termination
  by (relation "inv_image alloc_rank (\<lambda>(alloc, pread, pwrite, start_vcn, st). st)")
    (auto intro: wf_alloc_rank alloc_body_rank)

declare alloc_loop.simps [simp del]

section \<open>Freeing clusters\<close>

text \<open>The runs up to the terminator are freed. The result is the bitmap, the volume, the number of clusters freed and the
  status; \<open>None\<close> if the bitmap code does not return.\<close>

type_synonym 's freed = "('s \<times> alloc_volume \<times> int \<times> unit outcome) option"

definition free_run :: "(int \<Rightarrow> bool) \<Rightarrow> 's pread_fn \<Rightarrow> 's pwrite_fn \<Rightarrow> 's \<Rightarrow> alloc_volume \<Rightarrow> int \<Rightarrow> int \<Rightarrow> ('s \<times> alloc_volume \<times> unit outcome) option" where
  "free_run alloc pread pwrite s v l n =
     map_option (\<lambda>(s', r). (case s' of None \<Rightarrow> s | Some s' \<Rightarrow> s', update_full_status v l, r))
       (ntfs_bitmap_clear_run alloc pread pwrite (Some s) l n)"

fun free_loop :: "(int \<Rightarrow> bool) \<Rightarrow> 's pread_fn \<Rightarrow> 's pwrite_fn \<Rightarrow> 's \<Rightarrow> alloc_volume \<Rightarrow> int \<Rightarrow> runlist \<Rightarrow> 's freed" where
  "free_loop alloc pread pwrite s v n [] = Some (s, v, n, Fault)"
| "free_loop alloc pread pwrite s v n (r # rl) =
     (if rlen r = 0 then Some (s, v, n, Ok ())
      else if lcn r \<ge> 0
      then case free_run alloc pread pwrite s v (lcn r) (rlen r) of
             None \<Rightarrow> None
           | Some (s, v, Ok _) \<Rightarrow> free_loop alloc pread pwrite s v (n + rlen r) rl
           | Some (s, v, Err e) \<Rightarrow> Some (s, v, n, Err e)
           | Some (s, v, Fault) \<Rightarrow> Some (s, v, n, Fault)
      else free_loop alloc pread pwrite s v n rl)"

definition add_free :: "alloc_volume \<Rightarrow> int \<Rightarrow> alloc_volume" where
  "add_free v n = v\<lparr>free_clusters := free_clusters v + n\<rparr>"

definition ntfs_cluster_free_from_rl :: "(int \<Rightarrow> bool) \<Rightarrow> 's pread_fn \<Rightarrow> 's pwrite_fn \<Rightarrow> 's \<Rightarrow> alloc_volume \<Rightarrow> runlist \<Rightarrow> ('s \<times> alloc_volume \<times> unit outcome) option" where
  "ntfs_cluster_free_from_rl alloc pread pwrite s v rl =
     map_option (\<lambda>(s, v, n, r). (s, add_free v n, r)) (free_loop alloc pread pwrite s v 0 rl)"

definition ntfs_cluster_free_basic :: "(int \<Rightarrow> bool) \<Rightarrow> 's pread_fn \<Rightarrow> 's pwrite_fn \<Rightarrow> 's \<Rightarrow> alloc_volume \<Rightarrow> int \<Rightarrow> int \<Rightarrow> ('s \<times> alloc_volume \<times> unit outcome) option" where
  "ntfs_cluster_free_basic alloc pread pwrite s v l count =
     (if l \<ge> 0
      then map_option (\<lambda>(s, v, r). (s, if is_Ok r then add_free v count else v, r)) (free_run alloc pread pwrite s v l count)
      else Some (s, v, Ok ()))"

text \<open>Freeing a part of an attribute: \<open>find_vcn\<close> gives the rest of its runlist from the run with a cluster on. A count of -1
  stands for all clusters. The result is the number of clusters freed, as an \<open>int\<close>; when clusters were freed
  before an error, they are counted as free.\<close>

fun free_runs :: "(int \<Rightarrow> bool) \<Rightarrow> 's pread_fn \<Rightarrow> 's pwrite_fn \<Rightarrow> 's \<Rightarrow> alloc_volume \<Rightarrow> int \<Rightarrow> int \<Rightarrow> runlist \<Rightarrow> ('s \<times> alloc_volume \<times> int \<times> int outcome) option" where
  "free_runs alloc pread pwrite s v n count [] = Some (s, v, n, Fault)"
| "free_runs alloc pread pwrite s v n count (r # rl) =
     (if rlen r = 0 \<or> count = 0
      then Some (s, v, n, if count \<noteq> -1 \<and> count \<noteq> 0 then Err EIO else Ok (signed_take_bit 31 n))
      else if lcn r < 0 \<and> lcn r \<noteq> LCN_HOLE then Some (s, v, n, Err EIO)
      else let to_free = (if count \<ge> 0 \<and> rlen r > count then count else rlen r);
               count' = (if count \<ge> 0 then count - to_free else count) in
           if lcn r \<noteq> LCN_HOLE
           then case free_run alloc pread pwrite s v (lcn r) to_free of
                  None \<Rightarrow> None
                | Some (s, v, Ok _) \<Rightarrow> free_runs alloc pread pwrite s v (n + to_free) count' rl
                | Some (s, v, Err e) \<Rightarrow> Some (s, v, n, Err e)
                | Some (s, v, Fault) \<Rightarrow> Some (s, v, n, Fault)
           else free_runs alloc pread pwrite s v n count' rl)"

definition ntfs_cluster_free ::
  "(int \<Rightarrow> bool) \<Rightarrow> 's pread_fn \<Rightarrow> 's pwrite_fn \<Rightarrow> 's \<Rightarrow> alloc_volume \<Rightarrow> (int \<Rightarrow> runlist outcome) \<Rightarrow> int \<Rightarrow> int \<Rightarrow> ('s \<times> alloc_volume \<times> int outcome) option" where
  "ntfs_cluster_free alloc pread pwrite s v find_vcn start_vcn count =
     (if start_vcn < 0 \<or> count < 0 \<and> count \<noteq> -1 then Some (s, v, Err EINVAL)
      else case find_vcn start_vcn of
        Err e \<Rightarrow> Some (s, v, if e = ENOENT then Ok 0 else Err e)
      | Fault \<Rightarrow> Some (s, v, Fault)
      | Ok [] \<Rightarrow> Some (s, v, Fault)
      | Ok (r # rl) \<Rightarrow>
          if lcn r < 0 \<and> lcn r \<noteq> LCN_HOLE then Some (s, v, Err EIO)
          else let delta = start_vcn - vcn r;
                   to_free = (if count \<ge> 0 \<and> rlen r - delta > count then count else rlen r - delta);
                   count' = (if count \<ge> 0 then count - to_free else count);
                   rest = (\<lambda>s v n. map_option (\<lambda>(s, v, n, r). (s, add_free v n, r)) (free_runs alloc pread pwrite s v n count' rl)) in
               if lcn r \<noteq> LCN_HOLE
               then case free_run alloc pread pwrite s v (lcn r + delta) to_free of
                      None \<Rightarrow> None
                    | Some (s, v, Ok _) \<Rightarrow> rest s v to_free
                    | Some (s, v, Err e) \<Rightarrow> Some (s, v, Err e)
                    | Some (s, v, Fault) \<Rightarrow> Some (s, v, Fault)
               else rest s v 0)"

section \<open>The allocator\<close>

text \<open>On an error the clusters allocated so far are freed again.\<close>

definition alloc_failed :: "(int \<Rightarrow> bool) \<Rightarrow> 's pread_fn \<Rightarrow> 's pwrite_fn \<Rightarrow> 's alloc_state \<Rightarrow> errno \<Rightarrow> ('s \<times> alloc_volume \<times> runlist outcome) option" where
  "alloc_failed alloc pread pwrite st e =
     (if a_rl st = [] then Some (a_bmp st, a_vol st, Err e)
      else case end_runlist st of
        Ok rl \<Rightarrow> map_option (\<lambda>(s, v, r). (s, v, if r = Fault then Fault else Err e)) (ntfs_cluster_free_from_rl alloc pread pwrite (a_bmp st) (a_vol st) rl)
      | _ \<Rightarrow> Some (a_bmp st, a_vol st, Fault))"

definition alloc_start :: "alloc_volume \<Rightarrow> 's \<Rightarrow> int \<Rightarrow> int \<Rightarrow> int \<Rightarrow> 's alloc_state" where
  "alloc_start v s count start_lcn zone =
     (let guess = (start_lcn \<ge> 0);
          zs = (if guess then start_lcn else if zone = DATA_ZONE then data1_zone_pos v else mft_zone_pos v);
          (ze, z) = (if zs < mft_zone_start v then (mft_zone_start v, ZONE_DATA2)
                     else if zs < mft_zone_end v then (mft_zone_end v, ZONE_MFT) else (nr_clusters v, ZONE_DATA1)) in
      \<lparr>a_vol = v, a_bmp = s, zone_start = zs, zone_end = ze, bmp_pos = zs, prev_lcn = 0, prev_run_len = 0, clusters = count, a_rl = [], rlsize = 0,
       pass2 = (zs = 0 \<or> zs = mft_zone_start v \<or> zs = mft_zone_end v), search_zone = z, done_zones = 0, has_guess = guess, used_zone_pos = \<not> guess\<rparr>)"

text \<open>The volume and the attribute of its bitmap are there; the tests of the source for null pointers are left out.\<close>

definition ntfs_cluster_alloc ::
  "(int \<Rightarrow> bool) \<Rightarrow> 's pread_fn \<Rightarrow> 's pwrite_fn \<Rightarrow> 's \<Rightarrow> alloc_volume \<Rightarrow> int \<Rightarrow> int \<Rightarrow> int \<Rightarrow> int \<Rightarrow> ('s \<times> alloc_volume \<times> runlist outcome) option" where
  "ntfs_cluster_alloc alloc pread pwrite s v start_vcn count start_lcn zone =
     (if count < 0 \<or> start_lcn < -1 \<or> signed_take_bit 7 zone < FIRST_ZONE \<or> zone > LAST_ZONE then Some (s, v, Err EINVAL)
      else if count = 0
      then Some (s, v, if alloc 0x1000 then Ok [\<lparr>vcn = start_vcn, lcn = LCN_RL_NOT_MAPPED, rlen = 0\<rparr>] else Err ENOMEM)
      else if \<not> alloc NTFS_LCNALLOC_BSIZE then Some (s, v, Err ENOMEM)
      else case alloc_loop alloc pread pwrite start_vcn (alloc_start v s count start_lcn zone) of
        (st, Ok rl) \<Rightarrow> Some (a_bmp st, a_vol st, Ok rl)
      | (st, Err e) \<Rightarrow> alloc_failed alloc pread pwrite st e
      | (st, Fault) \<Rightarrow> Some (a_bmp st, a_vol st, Fault))"

section \<open>The attribute of the bitmap\<close>

text \<open>Reads of an attribute are cut at its size.\<close>

definition attr_pread :: "int \<Rightarrow> 's pread_fn \<Rightarrow> 's pread_fn" where
  "attr_pread data_size pread s pos count =
     (if count = 0 then Ok []
      else if pos + count > data_size then if pos \<ge> data_size then Ok [] else pread s pos (data_size - pos)
      else pread s pos count)"

end
