(* ===== verification/Lcnalloc_Inv.thy ===== *)
theory Lcnalloc_Inv
  imports Lcnalloc Bitmap_Run
begin

text \<open>
  The invariant of the cluster allocator. At every moment the clusters of the runlist built so far are
  different, were clear in the bitmap the allocation began with, and are exactly the bits that were added to it.
\<close>

section \<open>Clusters of a runlist\<close>

definition run_clusters :: "runlist_element \<Rightarrow> nat list" where
  "run_clusters r = [nat (lcn r)..<nat (lcn r + rlen r)]"

definition rl_clusters :: "runlist \<Rightarrow> nat list" where
  "rl_clusters R = concat (map run_clusters R)"

text \<open>Real runs that follow each other from a VCN on.\<close>

fun runs_from :: "int \<Rightarrow> runlist \<Rightarrow> bool" where
  "runs_from v [] \<longleftrightarrow> True"
| "runs_from v (r # R) \<longleftrightarrow> vcn r = v \<and> 0 \<le> lcn r \<and> 0 < rlen r \<and> runs_from (v + rlen r) R"

lemma rl_clusters_simps [simp]: "rl_clusters [] = []" "rl_clusters (r # R) = run_clusters r @ rl_clusters R"
  "rl_clusters (R @ S) = rl_clusters R @ rl_clusters S"
  by (simp_all add: rl_clusters_def)

lemma runs_from_append: "runs_from v (R @ S) \<longleftrightarrow> runs_from v R \<and> runs_from (v + int (length (rl_clusters R))) S"
  by (induction v R rule: runs_from.induct) (auto simp: run_clusters_def nat_add_distrib algebra_simps)

lemma run_clusters_grow: "0 \<le> l \<Longrightarrow> 0 < n \<Longrightarrow>
    run_clusters \<lparr>vcn = v, lcn = l, rlen = n + 1\<rparr> = run_clusters \<lparr>vcn = v, lcn = l, rlen = n\<rparr> @ [nat (l + n)]"
  by (simp add: run_clusters_def nat_add_distrib)

lemma set_run_clusters: "0 \<le> lcn r \<Longrightarrow> j \<in> set (run_clusters r) \<longleftrightarrow> lcn r \<le> int j \<and> int j < lcn r + rlen r"
  by (auto simp: run_clusters_def)

text \<open>Bitmaps with the same bits are the same.\<close>

lemma bm_bit_ext: "length b = length c \<Longrightarrow> (\<And>j. j < 8 * length c \<Longrightarrow> bm_bit b j = bm_bit c j) \<Longrightarrow> b = c"
proof (rule nth_equalityI)
  fix i assume "length b = length c" and b: "\<And>j. j < 8 * length c \<Longrightarrow> bm_bit b j = bm_bit c j" and "i < length b"
  then have "bit (b ! i) k = bit (c ! i) k" if "k < 8" for k
    using b [of "8 * i + k"] that by (simp add: bm_bit_def)
  then show "b ! i = c ! i"
    by (auto intro: bit_word_eqI)
qed

section \<open>The invariant\<close>

definition zones_ok :: "alloc_volume \<Rightarrow> bool" where
  "zones_ok v \<longleftrightarrow> 0 \<le> mft_zone_start v \<and> 0 \<le> mft_zone_end v \<and> 0 \<le> mft_zone_pos v \<and> 0 \<le> data1_zone_pos v \<and> 0 \<le> data2_zone_pos v \<and> 0 \<le> mft_lcn v"

text \<open>\<open>taken c X c'\<close>: the bits of \<open>c'\<close> are those of \<open>c\<close> and the different, clear bits \<open>X\<close>.\<close>

definition taken :: "u8 list \<Rightarrow> nat list \<Rightarrow> u8 list \<Rightarrow> bool" where
  "taken c X c' \<longleftrightarrow> length c' = length c \<and> distinct X \<and> (\<forall>j \<in> set X. j < 8 * length c \<and> \<not> bm_bit c j) \<and>
     (\<forall>j < 8 * length c. bm_bit c' j \<longleftrightarrow> bm_bit c j \<or> j \<in> set X)"

definition free_bits :: "u8 list \<Rightarrow> nat" where
  "free_bits c = card {j. j < 8 * length c \<and> \<not> bm_bit c j}"

lemma taken_free: "taken c X c' \<Longrightarrow> free_bits c = free_bits c' + length X"
proof -
  assume t: "taken c X c'"
  have "{j. j < 8 * length c \<and> \<not> bm_bit c j} = {j. j < 8 * length c' \<and> \<not> bm_bit c' j} \<union> set X" "set X \<inter> {j. j < 8 * length c' \<and> \<not> bm_bit c' j} = {}"
    using t by (auto simp: taken_def)
  moreover have "card (set X) = length X"
    using t by (simp add: taken_def distinct_card)
  ultimately show ?thesis
    unfolding free_bits_def by (simp add: card_Un_disjoint Int_commute)
qed

lemma taken_nil: "taken c [] c"
  by (simp add: taken_def)

lemma taken_snoc:
  assumes "taken c X b" "l < 8 * length c" "\<not> bm_bit b l" "length b' = length b" "\<And>j. j < 8 * length c \<Longrightarrow> bm_bit b' j \<longleftrightarrow> bm_bit b j \<or> j = l"
  shows "taken c (X @ [l]) b'"
  using assms by (auto simp: taken_def)

definition alloc_inv :: "u8 list \<Rightarrow> int \<Rightarrow> int \<Rightarrow> int \<Rightarrow> u8 list \<Rightarrow> 's alloc_state \<Rightarrow> bool" where
  "alloc_inv c start_vcn count F b st \<longleftrightarrow>
     taken c (rl_clusters (a_rl st)) b \<and> runs_from start_vcn (a_rl st) \<and> clusters st + int (length (rl_clusters (a_rl st))) = count \<and>
     (a_rl st \<noteq> [] \<longrightarrow> prev_lcn st = lcn (last (a_rl st)) \<and> prev_run_len st = rlen (last (a_rl st)) \<and> (int (length (a_rl st)) + 1) * rle_size \<le> rlsize st) \<and>
     0 \<le> rlsize st \<and> zones_ok (a_vol st) \<and>
     (int (free_bits c) \<le> F \<longrightarrow> free_clusters (a_vol st) = F - int (length (rl_clusters (a_rl st))))"

text \<open>What the search for the next window leaves alone.\<close>

definition search_step :: "'s alloc_state \<Rightarrow> 's alloc_state \<Rightarrow> bool" where
  "search_step st st' \<longleftrightarrow> a_rl st' = a_rl st \<and> prev_lcn st' = prev_lcn st \<and> prev_run_len st' = prev_run_len st \<and> clusters st' = clusters st \<and>
     rlsize st' = rlsize st \<and> a_bmp st' = a_bmp st \<and> free_clusters (a_vol st') = free_clusters (a_vol st) \<and> (zones_ok (a_vol st) \<longrightarrow> zones_ok (a_vol st'))"

definition pos_ok :: "'s alloc_state \<Rightarrow> bool" where
  "pos_ok st \<longleftrightarrow> 0 \<le> bmp_pos st \<and> 0 \<le> zone_start st"

lemma search_step_inv: "search_step st st' \<Longrightarrow> alloc_inv c v n F b st \<Longrightarrow> alloc_inv c v n F b st'"
  by (simp add: search_step_def alloc_inv_def)

lemma search_step_trans: "search_step st st' \<Longrightarrow> search_step st' st'' \<Longrightarrow> search_step st st''"
  by (simp add: search_step_def)

lemma update_zone_pos_ok: "zones_ok v \<Longrightarrow> zones_ok (ntfs_cluster_update_zone_pos v z tc)"
  by (cases z) (auto simp: zones_ok_def ntfs_cluster_set_zone_pos_def)

lemma update_zone_pos_free [simp]: "free_clusters (ntfs_cluster_update_zone_pos v z tc) = free_clusters v"
  by (cases z) auto

lemma zones_ok_full [simp]: "zones_ok (v\<lparr>full_zones := x\<rparr>) = zones_ok v" "zones_ok (v\<lparr>free_clusters := n\<rparr>) = zones_ok v"
  by (simp_all add: zones_ok_def)

lemma mark_zone_step: "search_step st (mark_zone st)"
  by (simp add: search_step_def mark_zone_def)

lemma enter_zone_step: "search_step st (enter_zone st) \<and> (zones_ok (a_vol st) \<longrightarrow> pos_ok (enter_zone st))"
proof -
  have "zones_ok (a_vol s) \<Longrightarrow> 0 \<le> zone_start (switch_zone s)" for s :: "'a alloc_state"
    by (cases "search_zone s") (auto simp: switch_zone_def Let_def zones_ok_def)
  then show ?thesis
    by (auto simp: search_step_def enter_zone_def Let_def switch_zone_frame update_zone_pos_ok pos_ok_def)
qed

lemma next_zone_step: "next_zone st = (st', m) \<Longrightarrow> search_step st st' \<and> (m \<longrightarrow> zones_ok (a_vol st) \<longrightarrow> pos_ok st')"
proof (induction st rule: next_zone.induct)
  case (1 st)
  have e: "search_step st (enter_zone (mark_zone st))" "zones_ok (a_vol st) \<longrightarrow> pos_ok (enter_zone (mark_zone st)) \<and> zones_ok (a_vol (enter_zone (mark_zone st)))"
    using search_step_trans [OF mark_zone_step] enter_zone_step [of "mark_zone st"] mark_zone_step [of st] by (auto simp: search_step_def)
  show ?case
  proof (cases "done_zones (mark_zone st) < 7 \<and> zone_start (enter_zone (mark_zone st)) = zone_end (enter_zone (mark_zone st))")
    case True
    then show ?thesis
      using 1(1) [OF refl refl] 1(2) e search_step_trans [OF e(1)] by (simp add: next_zone.simps [of st] Let_def)
  next
    case False
    then show ?thesis
      using 1(2) e mark_zone_step [of st] by (auto simp: next_zone.simps [of st] Let_def split: if_splits)
  qed
qed

text \<open>The search goes on in a good state or ends for lack of space.\<close>

definition next_ok :: "'s alloc_state \<Rightarrow> 's alloc_next \<Rightarrow> bool" where
  "next_ok st x = (case x of Continue st' \<Rightarrow> search_step st st' \<and> pos_ok st' | Stop st' r \<Rightarrow> search_step st st' \<and> r = Err ENOSPC)"

lemma zone_pass_done_ok: "zones_ok (a_vol st) \<Longrightarrow> next_ok st (zone_pass_done st)"
proof (cases "pass2 st")
  case True
  assume "zones_ok (a_vol st)"
  then show ?thesis
    using next_zone_step [of st "fst (next_zone st)" "snd (next_zone st)"] True
    by (auto simp: zone_pass_done_def next_ok_def split: prod.splits)
next
  case False
  assume z: "zones_ok (a_vol st)"
  then have "0 \<le> zone_first (a_vol st) (search_zone st)"
    by (cases "search_zone st") (auto simp: zone_first_def zones_ok_def)
  then show ?thesis
    using z False by (simp add: zone_pass_done_def next_ok_def search_step_def pos_ok_def Let_def)
qed

lemma next_ok_step: "search_step st st' \<Longrightarrow> next_ok st' x \<Longrightarrow> next_ok st x"
  by (auto simp: next_ok_def search_step_def split: alloc_next.splits)

lemma next_window_ok:
  assumes "zones_ok (a_vol st)" "pos_ok st"
  shows "next_ok st (next_window st br)"
proof -
  let ?z = "zone_pos (a_vol st) (search_zone st)"
  let ?st = "if \<not> used_zone_pos st
    then st\<lparr>used_zone_pos := True, zone_start := ?z, pass2 := (pass2 st \<or> ?z = 0 \<or> ?z = mft_zone_start (a_vol st) \<or> ?z = mft_zone_end (a_vol st)), bmp_pos := ?z\<rparr>
    else st\<lparr>bmp_pos := bmp_pos st + 8 * int br\<rparr>"
  have "0 \<le> ?z"
    using assms(1) by (cases "search_zone st") (auto simp: zone_pos_def zones_ok_def)
  then have s: "search_step st ?st" "pos_ok ?st" "zones_ok (a_vol ?st)"
    using assms by (auto simp: search_step_def pos_ok_def)
  have "next_window st br = (if bmp_pos ?st < zone_end ?st then Continue ?st else zone_pass_done ?st)"
    by (simp add: next_window_def Let_def)
  then show ?thesis
    using s next_ok_step [OF s(1) zone_pass_done_ok [OF s(3)]] by (auto simp: next_ok_def)
qed

section \<open>One bit\<close>

lemma add_cluster_ok:
  assumes "runs_from v (a_rl st)" "a_rl st \<noteq> [] \<longrightarrow> prev_lcn st = lcn (last (a_rl st)) \<and> prev_run_len st = rlen (last (a_rl st))"
    "(int (length (a_rl st)) + 2) * rle_size \<le> rlsize st"
  shows "\<exists>R. add_cluster v st (int j) = Ok (st\<lparr>a_rl := R, prev_lcn := lcn (last R), prev_run_len := rlen (last R)\<rparr>) \<and> R \<noteq> [] \<and> runs_from v R \<and>
    rl_clusters R = rl_clusters (a_rl st) @ [j] \<and> (int (length R) + 1) * rle_size \<le> rlsize st"
proof (cases "a_rl st" rule: rev_cases)
  case Nil
  then show ?thesis
    using assms(3) by (intro exI [of _ "[\<lparr>vcn = v, lcn = int j, rlen = 1\<rparr>]"])
      (simp add: add_cluster_def run_clusters_def rle_size_def nat_add_distrib)
next
  case (snoc R r)
  have r: "vcn r = v + int (length (rl_clusters R))" "0 \<le> lcn r" "0 < rlen r" "runs_from v R"
    using assms(1) by (simp_all add: snoc runs_from_append)
  have p: "prev_lcn st = lcn r" "prev_run_len st = rlen r"
    using assms(2) by (simp_all add: snoc)
  have n: "int (length (run_clusters r)) = rlen r"
    using r by (simp add: run_clusters_def nat_add_distrib)
  show ?thesis
  proof (cases "lcn r = int j - rlen r")
    case True
    then have "run_clusters (r\<lparr>rlen := rlen r + 1\<rparr>) = run_clusters r @ [j]"
      using r(2,3) run_clusters_grow [of "lcn r" "rlen r" "vcn r"] by (simp add: run_clusters_def)
    then show ?thesis
      using True assms(3) r p by (intro exI [of _ "R @ [r\<lparr>rlen := rlen r + 1\<rparr>]"])
        (simp add: add_cluster_def Let_def snoc runs_from_append rle_size_def)
  next
    case False
    then show ?thesis
      using assms(3) r p n by (intro exI [of _ "R @ [r, \<lparr>vcn = vcn r + rlen r, lcn = int j, rlen = 1\<rparr>]"])
        (simp add: add_cluster_def Let_def snoc runs_from_append run_clusters_def rle_size_def nth_append nat_add_distrib)
  qed
qed

lemma bm_bit_set_bit:
  assumes "p + length buf \<le> length d" "k < 8 * length buf" "i < 8 * length d"
  shows "bm_bit (bsplice d p (buf[k div 8 := buf ! (k div 8) OR push_bit (k mod 8) 1])) i \<longleftrightarrow> bm_bit (bsplice d p buf) i \<or> i = 8 * p + k"
proof -
  have k: "k div 8 < length buf"
    using assms(2) by (simp add: less_mult_imp_div_less mult.commute)
  have i: "i = 8 * (i div 8) + i mod 8" "k = 8 * (k div 8) + k mod 8" "i mod 8 < 8" "k mod 8 < 8"
    by simp_all
  have e: "i = 8 * p + k \<longleftrightarrow> i div 8 = p + k div 8 \<and> i mod 8 = k mod 8"
  proof
    assume "i div 8 = p + k div 8 \<and> i mod 8 = k mod 8"
    then show "i = 8 * p + k"
      using i(1,2) by linarith
  qed simp
  show ?thesis
  proof (cases "p \<le> i div 8 \<and> i div 8 - p = k div 8")
    case True
    then have "i div 8 = p + k div 8"
      by auto
    then show ?thesis
      using assms k i(3,4) unfolding e by (auto simp: bm_bit_bsplice bit_or_iff bit_exp_iff nth_list_update)
  next
    case False
    then show ?thesis
      using assms k unfolding e by (auto simp: bm_bit_bsplice)
  qed
qed

lemma bm_bit_window:
  assumes "p + length buf \<le> length d" "k < 8 * length buf"
  shows "bm_bit (bsplice d p buf) (8 * p + k) = bit (buf ! (k div 8)) (k mod 8)"
proof -
  have "k div 8 < length buf" "8 * p + k < 8 * length d"
    using assms by (auto simp: less_mult_imp_div_less mult.commute)
  then show ?thesis
    using assms(1) by (simp add: bm_bit_bsplice)
qed

lemma alloc_bit_inv:
  assumes inv: "alloc_inv c v count F (bsplice d p buf) st" and d: "length d = length c" "p + length buf \<le> length d"
    and k: "k < 8 * length buf" "\<not> bit (buf ! (k div 8)) (k mod 8)" and al: "\<And>n. alloc n"
  shows "\<exists>buf' st'. alloc_bit alloc v (8 * int p) buf (int k) (buf ! (k div 8)) st = Ok (Some (buf', st')) \<and>
    alloc_inv c v count F (bsplice d p buf') st' \<and> length buf' = length buf \<and> clusters st' = clusters st - 1 \<and> a_rl st' \<noteq> []"
proof -
  let ?y = "buf ! (k div 8) OR push_bit (k mod 8) 1" and ?j = "8 * p + k" and ?vol = "a_vol st"
  let ?vol' = "if free_clusters ?vol \<le> 0 then ?vol else ?vol\<lparr>free_clusters := free_clusters ?vol - 1\<rparr>"
  let ?size = "rlsize st + (if (int (length (a_rl st)) + 2) * rle_size \<ge> rlsize st then 4096 else 0)"
  let ?st = "st\<lparr>rlsize := ?size, a_vol := ?vol'\<rparr>"
  have kb: "k div 8 < length buf"
    using k(1) by (simp add: less_mult_imp_div_less mult.commute)
  have sz: "(int (length (a_rl ?st)) + 2) * rle_size \<le> rlsize ?st"
    using inv by (cases "a_rl st = []") (auto simp: alloc_inv_def rle_size_def)
  obtain R where R: "add_cluster v ?st (int ?j) = Ok (?st\<lparr>a_rl := R, prev_lcn := lcn (last R), prev_run_len := rlen (last R)\<rparr>)" "R \<noteq> []" "runs_from v R"
    "rl_clusters R = rl_clusters (a_rl st) @ [?j]" "(int (length R) + 1) * rle_size \<le> ?size"
    using add_cluster_ok [of v ?st ?j] inv sz by (auto simp: alloc_inv_def)
  let ?st' = "?st\<lparr>a_rl := R, prev_lcn := lcn (last R), prev_run_len := rlen (last R), clusters := clusters st - 1\<rparr>"
  have t: "taken c (rl_clusters (a_rl st) @ [?j]) (bsplice d p (buf[k div 8 := ?y]))"
    by (rule taken_snoc [of _ _ "bsplice d p buf"])
      (use inv d k bm_bit_set_bit [OF d(2) k(1)] bm_bit_window [OF d(2) k(1)] in \<open>auto simp: alloc_inv_def\<close>)
  have f: "int (free_bits c) \<le> F \<longrightarrow> free_clusters ?vol' = F - int (length (rl_clusters (a_rl st) @ [?j]))"
    using inv taken_free [OF t] by (auto simp: alloc_inv_def)
  have "int (k div 8) = int k div 8" "nat (int k mod 8) = k mod 8"
    by (simp_all add: of_nat_div nat_mod_distrib)
  then have "alloc_bit alloc v (8 * int p) buf (int k) (buf ! (k div 8)) st = Ok (Some (buf[k div 8 := ?y], ?st'))"
    using kb R(1) al by (simp add: alloc_bit_def Let_def aset_def add.commute nat_div_distrib)
  moreover have "alloc_inv c v count F (bsplice d p (buf[k div 8 := ?y])) ?st'"
    using inv t f R by (auto simp: alloc_inv_def)
  ultimately show ?thesis
    using R(2) by (intro exI [of _ "buf[k div 8 := ?y]"] exI [of _ ?st']) simp
qed

section \<open>One window\<close>

text \<open>\<open>d\<close> is the bitmap on the disk; the window \<open>buf\<close> at byte \<open>p\<close> has to be written back if it differs.\<close>

definition window_ok :: "u8 list \<Rightarrow> int \<Rightarrow> int \<Rightarrow> int \<Rightarrow> u8 list \<Rightarrow> nat \<Rightarrow> u8 list \<Rightarrow> bool \<Rightarrow> 's alloc_state \<Rightarrow> bool" where
  "window_ok c v count F d p buf wb st \<longleftrightarrow> alloc_inv c v count F (bsplice d p buf) st \<and> length d = length c \<and> p + length buf \<le> length d \<and>
     (wb \<or> bsplice d p buf = d)"

definition scan_ok :: "u8 list \<Rightarrow> int \<Rightarrow> int \<Rightarrow> int \<Rightarrow> u8 list \<Rightarrow> nat \<Rightarrow> nat \<Rightarrow> (u8 list \<times> bool \<times> 's alloc_state \<times> scan_end) outcome \<Rightarrow> bool" where
  "scan_ok c v count F d p n r \<longleftrightarrow> (\<exists>buf wb st why. r = Ok (buf, wb, st, why) \<and> window_ok c v count F d p buf wb st \<and> length buf = n \<and>
     (why = Scanned \<and> 0 < clusters st \<or> why = Allocated \<and> clusters st = 0 \<and> a_rl st \<noteq> []))"

lemma window_ok_search: "search_step st st' \<Longrightarrow> window_ok c v count F d p buf wb st \<Longrightarrow> window_ok c v count F d p buf wb st'"
  by (auto simp: window_ok_def intro: search_step_inv)

lemma scan_okI:
  "window_ok c v count F d p buf wb st \<Longrightarrow> search_step st st' \<Longrightarrow> why = Scanned \<and> 0 < clusters st \<or> why = Allocated \<and> clusters st = 0 \<and> a_rl st \<noteq> [] \<Longrightarrow>
    scan_ok c v count F d p (length buf) (Ok (buf, wb, st', why))"
  using window_ok_search [of st st' c v count F d p buf wb] unfolding scan_ok_def by (auto simp: search_step_def)

lemma search_step_simps: "search_step st st" "search_step st (st\<lparr>has_guess := g\<rparr>)" "search_step st (st\<lparr>bmp_pos := q\<rparr>)"
  "search_step st (st\<lparr>a_vol := ntfs_cluster_update_zone_pos (a_vol st) z tc\<rparr>)"
  by (simp_all add: search_step_def update_zone_pos_ok)

lemma bit_loop_inv:
  assumes "window_ok c v count F d p buf wb st" "0 \<le> l" "0 < clusters st" "\<And>n. alloc n"
  shows "scan_ok c v count F d p (length buf) (bit_loop alloc v (8 * int p) buf l wb st)"
  using assms
proof (induction alloc v "8 * int p" buf l wb st rule: bit_loop.induct)
  case (1 alloc v buf l wb st)
  note w = 1(3) note sim = bit_loop.simps [of alloc v _ buf l wb st]
  show ?case
  proof (cases "l < int (length buf) * 8")
    case l: True
    show ?thesis
    proof (cases "has_guess st")
      case g: True
      define k where "k = nat l"
      have k: "l = int k" "k < 8 * length buf" "k div 8 < length buf" "nat (l mod 8) = k mod 8"
        using l 1(4) by (auto simp: k_def less_mult_imp_div_less nat_mod_distrib)
      have x: "aget buf (l div 8) = Ok (buf ! (k div 8))"
        using aget_nat [OF k(3)] k(1) by (simp add: of_nat_div)
      show ?thesis
      proof (cases "bit (buf ! (k div 8)) (k mod 8)")
        case True
        then show ?thesis
          using l g x k(4) scan_okI [OF w] search_step_simps(2) [of st] 1(5) by (simp add: sim)
      next
        case b: False
        obtain buf1 st1 where a: "alloc_bit alloc v (8 * int p) buf l (buf ! (k div 8)) st = Ok (Some (buf1, st1))"
          "alloc_inv c v count F (bsplice d p buf1) st1" "length buf1 = length buf" "clusters st1 = clusters st - 1" "a_rl st1 \<noteq> []"
          using alloc_bit_inv [of c v count F d p buf st k alloc] w k b 1(6) by (auto simp: window_ok_def)
        have w1: "window_ok c v count F d p buf1 True st1"
          using a(2,3) w by (simp add: window_ok_def)
        show ?thesis
        proof (cases "clusters st1 = 0")
          case True
          then have "scan_ok c v count F d p (length buf) (Ok (buf1, True, st', Allocated))" if "search_step st1 st'" for st'
            using scan_okI [OF w1 that, of Allocated] a(3,5) by simp
          then show ?thesis
            using True l g x k(4) b a(1) by (simp add: sim search_step_simps)
        next
          case False
          then show ?thesis
            using 1(2) [OF l _ x _ a(1) refl refl False w1] l g x k(4) b a 1(4-6) by (simp add: sim)
        qed
      qed
    next
      case g: False
      show ?thesis
      proof (cases "max_empty_bit_range buf < 0")
        case True
        then show ?thesis
          using l g scan_okI [OF w] search_step_simps(1) [of st] 1(5) by (simp add: sim)
      next
        case False
        then show ?thesis
          using l g 1(1) [OF l g False window_ok_search [OF search_step_simps(2) w]] 1(5,6) by (simp add: sim)
      qed
    qed
  next
    case False
    then show ?thesis
      using scan_okI [OF w] search_step_simps(1) [of st] 1(5) by (simp add: sim)
  qed
qed

end
