(* ===== verification/Lcnalloc_Store.thy ===== *)
theory Lcnalloc_Store
  imports Lcnalloc_Inv
begin

text \<open>
  Allocation and freeing on an attribute that meets its contract: the allocation of all clusters or of none. The locale
  \<open>attr_store\<close> extends \<open>byte_store\<close> by reads that are cut at the end of the attribute.
\<close>

locale attr_store = byte_store pread pwrite content good
  for pread :: "'s pread_fn" and pwrite :: "'s pwrite_fn" and content :: "'s \<Rightarrow> u8 list" and good :: "'s \<Rightarrow> bool" +
  assumes pread_clip: "good s \<Longrightarrow> 0 < n \<Longrightarrow> pread s (int p) (int n) = Ok (take n (drop p (content s)))"

text \<open>An allocation that ended: all clusters, or none with the clusters found still marked.\<close>

definition alloc_result :: "('s \<Rightarrow> u8 list) \<Rightarrow> ('s \<Rightarrow> bool) \<Rightarrow> u8 list \<Rightarrow> int \<Rightarrow> int \<Rightarrow> int \<Rightarrow> 's alloc_state \<Rightarrow> runlist outcome \<Rightarrow> bool" where
  "alloc_result content good c v count F st r \<longleftrightarrow> good (a_bmp st) \<and> alloc_inv c v count F (content (a_bmp st)) st \<and>
     (clusters st = 0 \<and> r = Ok (a_rl st @ [\<lparr>vcn = v + count, lcn = LCN_RL_NOT_MAPPED, rlen = 0\<rparr>]) \<or> r = Err ENOSPC)"

lemma bsplice_same: "bsplice d p (take n (drop p d)) = d"
proof -
  have "drop (p + min (length d - p) n) d = drop n (drop p d)"
    by (cases "length d - p \<le> n") (auto simp: add.commute)
  then show ?thesis
    by (simp add: bsplice_def min.commute del: drop_drop)
qed

lemma end_runlist_ok:
  assumes "alloc_inv c v count F b st" "a_rl st \<noteq> []"
  shows "end_runlist st = Ok (a_rl st @ [\<lparr>vcn = v + int (length (rl_clusters (a_rl st))), lcn = LCN_RL_NOT_MAPPED, rlen = 0\<rparr>])"
proof -
  obtain R r where r: "a_rl st = R @ [r]"
    using assms(2) by (cases "a_rl st" rule: rev_cases) auto
  then have "vcn r = v + int (length (rl_clusters R))" "0 \<le> lcn r" "0 < rlen r"
    using assms(1) by (simp_all add: alloc_inv_def runs_from_append)
  moreover have "int (length (run_clusters r)) = rlen r"
    using calculation by (simp add: run_clusters_def nat_add_distrib)
  ultimately show ?thesis
    using assms by (simp add: end_runlist_def r alloc_inv_def)
qed

context attr_store
begin

lemma writeback_ok:
  assumes "good s" "window_ok c v count F (content s) p buf wb st"
  shows "\<exists>s'. bitmap_writeback pwrite s (int p) buf wb = (s', Ok ()) \<and> good s' \<and> content s' = bsplice (content s) p buf"
proof (cases wb)
  case True
  then show ?thesis
    using pwrite_in [of s p buf] assms by (auto simp: bitmap_writeback_def window_ok_def)
next
  case False
  then show ?thesis
    using assms by (simp add: bitmap_writeback_def window_ok_def)
qed

definition state_ok :: "u8 list \<Rightarrow> int \<Rightarrow> int \<Rightarrow> int \<Rightarrow> 's alloc_state \<Rightarrow> bool" where
  "state_ok c v count F st \<longleftrightarrow> good (a_bmp st) \<and> alloc_inv c v count F (content (a_bmp st)) st"

definition body_ok :: "u8 list \<Rightarrow> int \<Rightarrow> int \<Rightarrow> int \<Rightarrow> 's alloc_next \<Rightarrow> bool" where
  "body_ok c v count F x = (case x of Continue st \<Rightarrow> state_ok c v count F st \<and> pos_ok st \<and> 0 < clusters st
     | Stop st r \<Rightarrow> alloc_result content good c v count F st r)"

lemma next_ok_body: "next_ok st x \<Longrightarrow> state_ok c v count F st \<Longrightarrow> 0 < clusters st \<Longrightarrow> body_ok c v count F x"
  by (auto simp: next_ok_def body_ok_def state_ok_def alloc_result_def search_step_def dest: search_step_inv split: alloc_next.splits)
    (auto simp: alloc_inv_def)

lemma window_start:
  assumes "state_ok c v count F st" "buf = take n (drop p (content (a_bmp st)))" "buf \<noteq> []"
  shows "window_ok c v count F (content (a_bmp st)) p buf False (st\<lparr>bmp_pos := q\<rparr>)"
  using assms window_ok_search [OF search_step_simps(3)] bsplice_same [of "content (a_bmp st)" p n]
  by (auto simp: window_ok_def state_ok_def alloc_inv_def taken_def)

lemma alloc_window_ok:
  assumes st: "state_ok c v count F st" "bmp_pos st = int (8 * p + o8)" "o8 < 8" "0 < clusters st" "0 \<le> zone_start st"
    and buf: "buf = take n (drop p (content (a_bmp st)))" "buf \<noteq> []" and al: "\<And>n. alloc n"
  shows "body_ok c v count F (alloc_window alloc pwrite v buf st)"
proof -
  let ?st = "st\<lparr>bmp_pos := 8 * int p\<rparr>" and ?d = "content (a_bmp st)"
  have q: "bmp_pos st div 8 = int p" "bmp_pos st mod 8 = int o8" "bmp_pos st - int o8 = 8 * int p"
    using st(2,3) by simp_all
  note w = window_start [OF st(1) buf, of "8 * int p"]
  have "scan_ok c v count F ?d p (length buf) (bit_loop alloc v (8 * int p) buf (int o8) False ?st)"
    by (rule bit_loop_inv [OF w]) (use st(4) al in simp_all)
  then obtain buf' wb st' why where s: "bit_loop alloc v (8 * int p) buf (int o8) False ?st = Ok (buf', wb, st', why)"
    "window_ok c v count F ?d p buf' wb st'" "why = Scanned \<and> 0 < clusters st' \<or> why = Allocated \<and> clusters st' = 0 \<and> a_rl st' \<noteq> []"
    by (auto simp: scan_ok_def)
  have f: "a_bmp st' = a_bmp st" "bmp_pos st' = 8 * int p" "zone_start st' = zone_start st"
    using bit_loop_frame [OF s(1)] by (simp_all add: same_search_def)
  obtain s' where s': "bitmap_writeback pwrite (a_bmp st) (int p) buf' wb = (s', Ok ())" "good s'" "content s' = bsplice ?d p buf'"
    using writeback_ok [OF _ s(2)] st(1) by (auto simp: state_ok_def)
  let ?st' = "st'\<lparr>a_bmp := s'\<rparr>"
  have inv: "alloc_inv c v count F (content s') ?st'"
    using s(2) s'(3) by (simp add: window_ok_def alloc_inv_def)
  then have ok: "state_ok c v count F ?st'" "zones_ok (a_vol ?st')" "pos_ok ?st'"
    using s'(2) f st(5) by (simp_all add: state_ok_def alloc_inv_def pos_ok_def)
  show ?thesis
    using s(3)
  proof
    assume "why = Scanned \<and> 0 < clusters st'"
    then show ?thesis
      using next_ok_body [OF next_window_ok [OF ok(2,3)] ok(1)] s(1) s'(1) f q by (simp add: alloc_window_def Let_def)
  next
    assume "why = Allocated \<and> clusters st' = 0 \<and> a_rl st' \<noteq> []"
    then show ?thesis
      using end_runlist_ok [OF inv] s(1) s'(1) f q ok(1) by (simp add: alloc_window_def Let_def body_ok_def alloc_result_def state_ok_def alloc_inv_def)
  qed
qed

lemma alloc_body_ok:
  assumes "state_ok c v count F st" "pos_ok st" "0 < clusters st" "\<And>n. alloc n"
  shows "body_ok c v count F (alloc_body alloc pread pwrite v st)"
proof -
  define p o8 where "p = nat (bmp_pos st div 8)" and "o8 = nat (bmp_pos st mod 8)"
  have p: "bmp_pos st = int (8 * p + o8)" "o8 < 8" "bmp_pos st div 8 = int p"
    using assms(2) by (simp_all add: p_def o8_def pos_ok_def)
  have r: "pread (a_bmp st) (int p) NTFS_LCNALLOC_BSIZE = Ok (take 4096 (drop p (content (a_bmp st))))"
    using pread_clip [of "a_bmp st" 4096 p] assms(1) by (simp add: NTFS_LCNALLOC_BSIZE_def state_ok_def)
  have z: "body_ok c v count F (zone_pass_done st)"
    using next_ok_body [OF zone_pass_done_ok assms(1,3)] assms(1) by (simp add: state_ok_def alloc_inv_def)
  show ?thesis
    using alloc_window_ok [where n = 4096 and alloc = alloc, OF assms(1) p(1,2) assms(3) _ refl _ assms(4)] assms(2) z r p(3)
    by (simp add: alloc_body_def pos_ok_def)
qed

lemma alloc_loop_ok:
  assumes "state_ok c v count F st" "pos_ok st" "0 < clusters st" "\<And>n. alloc n"
  shows "\<exists>st' r. alloc_loop alloc pread pwrite v st = (st', r) \<and> alloc_result content good c v count F st' r"
  using wf_alloc_rank assms(1-3)
proof (induction st rule: wf_induct_rule)
  case (less st)
  have b: "body_ok c v count F (alloc_body alloc pread pwrite v st)"
    by (rule alloc_body_ok [OF less(2-4) assms(4)])
  show ?case
  proof (cases "alloc_body alloc pread pwrite v st")
    case (Continue st')
    then show ?thesis
      using less(1) [OF alloc_body_rank [OF Continue]] b by (simp add: body_ok_def alloc_loop.simps [of alloc pread pwrite v st])
  next
    case (Stop st' r)
    then show ?thesis
      using b by (simp add: body_ok_def alloc_loop.simps [of alloc pread pwrite v st])
  qed
qed

end

section \<open>Freeing\<close>

lemma update_full_status_ok: "zones_ok v \<Longrightarrow> zones_ok (update_full_status v l)" "free_clusters (update_full_status v l) = free_clusters v"
  by (simp_all add: update_full_status_def reopen_zone_def update_zone_pos_ok del: ntfs_cluster_update_zone_pos.simps)

lemma taken_drop_run:
  assumes "taken c (run_clusters r @ X) b" "0 \<le> lcn r" "0 < rlen r" "bm_run b b' False (lcn r) (rlen r)"
  shows "taken c X b'"
  using assms set_run_clusters [OF assms(2)] by (auto simp: taken_def bm_run_def)

lemma taken_run_in:
  assumes "taken c (run_clusters r @ X) b" "0 \<le> lcn r" "0 < rlen r"
  shows "lcn r + rlen r \<le> 8 * int (length b)"
proof -
  have "nat (lcn r + rlen r - 1) \<in> set (run_clusters r)"
    using assms(2,3) set_run_clusters [OF assms(2)] by simp
  then have "nat (lcn r + rlen r - 1) < 8 * length b"
    using assms(1) by (auto simp: taken_def)
  then show ?thesis
    by linarith
qed

context attr_store
begin

lemma free_run_ok:
  assumes "good s" "0 \<le> l" "0 \<le> n" "l + n \<le> 8 * int (length (content s))" "8 * int (length (content s)) < 2 ^ 34 - 128" "\<And>n. alloc n"
  shows "\<exists>s'. free_run alloc pread pwrite s v l n = Some (s', update_full_status v l, Ok ()) \<and> good s' \<and> bm_run (content s) (content s') False l n"
proof -
  have "l + n < 2 ^ 34 - 128"
    using assms(4,5) by linarith
  then show ?thesis
    using set_bits_in_run_ok [of s l n alloc False] assms by (auto simp: free_run_def ntfs_bitmap_clear_run_def)
qed

lemma free_loop_ok:
  assumes "good s" "taken c (rl_clusters R) (content s)" "runs_from v0 R" "zones_ok v" "rlen t = 0" "8 * int (length c) < 2 ^ 34 - 128" "\<And>n. alloc n"
  shows "\<exists>s' v'. free_loop alloc pread pwrite s v n (R @ [t]) = Some (s', v', n + int (length (rl_clusters R)), Ok ()) \<and> good s' \<and> content s' = c \<and>
    zones_ok v' \<and> free_clusters v' = free_clusters v"
  using assms(1-4)
proof (induction R arbitrary: s v n v0)
  case Nil
  then have "content s = c"
    by (auto simp: taken_def intro: bm_bit_ext)
  then show ?case
    using Nil assms(5) by simp
next
  case (Cons r R)
  have r: "0 \<le> lcn r" "0 < rlen r" "runs_from (v0 + rlen r) R" "taken c (run_clusters r @ rl_clusters R) (content s)"
    using Cons.prems by simp_all
  have "lcn r + rlen r \<le> 8 * int (length (content s))" "length (content s) = length c"
    using taken_run_in [OF r(4,1,2)] r(4) by (simp_all add: taken_def)
  then obtain s1 where s1: "free_run alloc pread pwrite s v (lcn r) (rlen r) = Some (s1, update_full_status v (lcn r), Ok ())" "good s1"
    "bm_run (content s) (content s1) False (lcn r) (rlen r)"
    using free_run_ok [of s "lcn r" "rlen r" alloc v] Cons.prems(1) r(1,2) assms(6,7) by auto
  from Cons.IH [OF s1(2) taken_drop_run [OF r(4,1,2) s1(3)] r(3) update_full_status_ok(1) [OF Cons.prems(4)], of "lcn r" "n + rlen r"]
  show ?case
    using s1(1) r(1,2) by (auto simp: update_full_status_ok run_clusters_def nat_add_distrib algebra_simps)
qed

text \<open>All clusters or none: the whole allocator.\<close>

lemma alloc_failed_ok:
  assumes "good (a_bmp st)" "alloc_inv c v count F (content (a_bmp st)) st" "8 * int (length c) < 2 ^ 34 - 128" "\<And>n. alloc n"
  shows "\<exists>s' v'. alloc_failed alloc pread pwrite st e = Some (s', v', Err e) \<and> good s' \<and> content s' = c \<and> zones_ok v' \<and>
    (int (free_bits c) \<le> F \<longrightarrow> free_clusters v' = F)"
proof (cases "a_rl st = []")
  case True
  then have "content (a_bmp st) = c"
    using assms(2) by (auto simp: alloc_inv_def taken_def intro: bm_bit_ext)
  then show ?thesis
    using True assms by (simp add: alloc_failed_def alloc_inv_def)
next
  case False
  let ?t = "\<lparr>vcn = v + int (length (rl_clusters (a_rl st))), lcn = LCN_RL_NOT_MAPPED, rlen = 0\<rparr>"
  obtain s' v' where "free_loop alloc pread pwrite (a_bmp st) (a_vol st) 0 (a_rl st @ [?t]) = Some (s', v', 0 + int (length (rl_clusters (a_rl st))), Ok ())"
    "good s'" "content s' = c" "zones_ok v'" "free_clusters v' = free_clusters (a_vol st)"
    using free_loop_ok [where alloc = alloc, OF assms(1) _ _ _ _ assms(3,4), of "a_rl st" v "a_vol st" ?t 0] assms(2) by (auto simp: alloc_inv_def)
  then show ?thesis
    using False end_runlist_ok [OF assms(2)] assms(2) by (auto simp: alloc_failed_def ntfs_cluster_free_from_rl_def add_free_def alloc_inv_def)
qed

lemma alloc_start_ok:
  assumes "zones_ok v" "0 < count" "good s"
  shows "state_ok (content s) start_vcn count (free_clusters v) (alloc_start v s count start_lcn zone)" "pos_ok (alloc_start v s count start_lcn zone)"
    "0 < clusters (alloc_start v s count start_lcn zone)"
  using assms by (auto simp: alloc_start_def state_ok_def alloc_inv_def taken_nil pos_ok_def zones_ok_def Let_def)

lemma cluster_alloc_ok:
  assumes s: "good s" "8 * int (length (content s)) < 2 ^ 34 - 128" and v: "zones_ok v" and args: "0 < count" "-1 \<le> start_lcn" "zone = MFT_ZONE \<or> zone = DATA_ZONE"
    and al: "\<And>n. alloc n"
  shows "\<exists>s' v' r. ntfs_cluster_alloc alloc pread pwrite s v start_vcn count start_lcn zone = Some (s', v', r) \<and> good s' \<and> zones_ok v' \<and>
    ((\<exists>R. r = Ok (R @ [\<lparr>vcn = start_vcn + count, lcn = LCN_RL_NOT_MAPPED, rlen = 0\<rparr>]) \<and> runs_from start_vcn R \<and>
        int (length (rl_clusters R)) = count \<and> taken (content s) (rl_clusters R) (content s')) \<or>
      r = Err ENOSPC \<and> content s' = content s) \<and>
    (free_clusters v = int (free_bits (content s)) \<longrightarrow> free_clusters v' = int (free_bits (content s')))"
proof -
  obtain st r where l: "alloc_loop alloc pread pwrite start_vcn (alloc_start v s count start_lcn zone) = (st, r)"
    "alloc_result content good (content s) start_vcn count (free_clusters v) st r"
    using alloc_loop_ok [where alloc = alloc, OF alloc_start_ok [OF v args(1) s(1)] al] by blast
  have g: "good (a_bmp st)" "alloc_inv (content s) start_vcn count (free_clusters v) (content (a_bmp st)) st"
    using l(2) by (simp_all add: alloc_result_def)
  have e: "ntfs_cluster_alloc alloc pread pwrite s v start_vcn count start_lcn zone =
      (case r of Ok rl \<Rightarrow> Some (a_bmp st, a_vol st, Ok rl) | Err e \<Rightarrow> alloc_failed alloc pread pwrite st e | Fault \<Rightarrow> Some (a_bmp st, a_vol st, Fault))"
    using args l(1) al by (auto simp: ntfs_cluster_alloc_def FIRST_ZONE_def LAST_ZONE_def MFT_ZONE_def DATA_ZONE_def)
  show ?thesis
  proof (cases "r = Err ENOSPC")
    case True
    then show ?thesis
      using alloc_failed_ok [where alloc = alloc, OF g s(2) al, of ENOSPC] e by auto
  next
    case False
    then have "clusters st = 0" and r: "r = Ok (a_rl st @ [\<lparr>vcn = start_vcn + count, lcn = LCN_RL_NOT_MAPPED, rlen = 0\<rparr>])"
      using l(2) by (auto simp: alloc_result_def)
    moreover have "taken (content s) (rl_clusters (a_rl st)) (content (a_bmp st))"
      using g(2) by (simp add: alloc_inv_def)
    ultimately show ?thesis
      using g taken_free [of "content s" "rl_clusters (a_rl st)" "content (a_bmp st)"]
      by (auto simp: e alloc_inv_def intro!: exI [of _ "a_bmp st"] exI [of _ "a_vol st"])
  qed
qed

text \<open>Freeing what was allocated.\<close>

lemma alloc_free_ok:
  assumes "ntfs_cluster_alloc alloc pread pwrite s v start_vcn count start_lcn zone = Some (s1, v1, Ok rl)"
    and s: "good s" "8 * int (length (content s)) < 2 ^ 34 - 128" and v: "zones_ok v" and args: "0 < count" "-1 \<le> start_lcn" "zone = MFT_ZONE \<or> zone = DATA_ZONE"
    and al: "\<And>n. alloc n"
  shows "\<exists>s2 v2. ntfs_cluster_free_from_rl alloc pread pwrite s1 v1 rl = Some (s2, v2, Ok ()) \<and> good s2 \<and> content s2 = content s \<and> zones_ok v2 \<and>
    free_clusters v2 = free_clusters v1 + count \<and>
    (free_clusters v = int (free_bits (content s)) \<longrightarrow> free_clusters v1 = free_clusters v - count \<and> free_clusters v2 = free_clusters v)"
proof -
  obtain R where R: "rl = R @ [\<lparr>vcn = start_vcn + count, lcn = LCN_RL_NOT_MAPPED, rlen = 0\<rparr>]" "runs_from start_vcn R"
    "int (length (rl_clusters R)) = count" "taken (content s) (rl_clusters R) (content s1)" "good s1" "zones_ok v1"
    "free_clusters v = int (free_bits (content s)) \<Longrightarrow> free_clusters v1 = int (free_bits (content s1))"
    using cluster_alloc_ok [where alloc = alloc, OF s v args al, of start_vcn] assms(1) by auto
  have f: "free_clusters v = int (free_bits (content s)) \<Longrightarrow> free_clusters v1 = free_clusters v - count"
    using R(3,7) taken_free [OF R(4)] by simp
  show ?thesis
    using f free_loop_ok [where alloc = alloc, OF R(5,4,2,6) _ s(2) al, of "\<lparr>vcn = start_vcn + count, lcn = LCN_RL_NOT_MAPPED, rlen = 0\<rparr>" 0] R(1,3)
    by (auto simp: ntfs_cluster_free_from_rl_def add_free_def)
qed

end

end
