(* ===== verification/Logfile_Safe.thy ===== *)
theory Logfile_Safe
  imports Logfile Lcnalloc_Store
begin

text \<open>
  The checks of the journal on an attribute that meets its contract: they stay inside their buffers for every content of the journal
  whose restart pages fit, and an emptied journal is found empty.
\<close>

section \<open>One block\<close>

lemmas get_defs = get_le16_def get_le32_def get_le64_def rd_magic_def

lemma is_Ok_iff: "is_Ok m \<longleftrightarrow> (\<exists>x. m = Ok x)"
  by (cases m) auto

lemma header_total: "32 \<le> length rp \<Longrightarrow> is_Ok (ntfs_check_restart_page_header rp pos)"
  by (simp add: ntfs_check_restart_page_header_def check_ra_ofs_def get_defs Let_def)

lemma and_7_mod: "(w :: u16) AND 7 = 0 \<longleftrightarrow> unat w mod 8 = 0"
proof -
  have "w AND 7 = take_bit 3 w"
    by (simp add: take_bit_eq_mask mask_eq_exp_minus_1)
  then show ?thesis
    by (simp add: unat_eq_zero [symmetric] take_bit_eq_mod unat_mod)
qed

lemma header_ra:
  assumes "ntfs_check_restart_page_header rp pos = Ok True"
  shows "unat (le16_at rp 24) mod 8 = 0" "512 \<le> le32_at rp 16"
  using assms
  by (auto simp: ntfs_check_restart_page_header_def check_ra_ofs_def Let_def get_defs obind_Ok_iff and_7_mod not_less split: if_splits)

text \<open>The offset 480 is the only one for which the area passes the first test and its last fields lie behind the block.\<close>

lemma area_total:
  assumes "512 \<le> length rp" "unat (le16_at rp 24) mod 8 = 0" "le16_at rp 24 \<noteq> 480"
  shows "is_Ok (ntfs_check_restart_area rp)"
proof (cases "unat (le16_at rp 24) + 24 > 510")
  case True
  then show ?thesis
    using assms(1) by (simp add: ntfs_check_restart_area_def get_defs NTFS_BLOCK_SIZE_def)
next
  case False
  have "unat (le16_at rp 24) \<noteq> 480"
    using assms(3) word_unat_eq_iff [of "le16_at rp 24" 480] by simp
  then have "unat (le16_at rp 24) \<le> 472"
    using False assms(2) by presburger
  then show ?thesis
    using assms(1) by (simp add: ntfs_check_restart_area_def check_ra_sizes_def get_defs NTFS_BLOCK_SIZE_def Let_def)
qed

definition restart_fits :: "u8 list \<Rightarrow> bool" where
  "restart_fits rp \<longleftrightarrow> le16_at rp 24 \<noteq> 480 \<and>
     unat (le16_at rp (unat (le16_at rp 24) + 22)) + unat (le16_at rp (unat (le16_at rp 24) + 8)) * LOG_CLIENT_RECORD_SIZE < 2 ^ 16"

lemma area_bounds:
  assumes "ntfs_check_restart_area rp = Ok True" "restart_fits rp"
  defines "ra \<equiv> unat (le16_at rp 24)"
  shows "ra + 24 \<le> 510"
    "ra + unat (le16_at rp (ra + 22)) + unat (le16_at rp (ra + 8)) * LOG_CLIENT_RECORD_SIZE \<le> unat (le32_at rp 16)"
proof -
  let ?ca = "le16_at rp (ra + 22)" and ?n = "le16_at rp (ra + 8)"
  have "unat (?ca + ?n * of_nat LOG_CLIENT_RECORD_SIZE) = unat ?ca + unat ?n * LOG_CLIENT_RECORD_SIZE"
    using assms(2) by (simp add: restart_fits_def ra_def [symmetric] LOG_CLIENT_RECORD_SIZE_def unat_word_ariths mod_add_right_eq)
  then show "ra + 24 \<le> 510" "ra + unat ?ca + unat ?n * LOG_CLIENT_RECORD_SIZE \<le> unat (le32_at rp 16)"
    using assms(1) by (auto simp: ntfs_check_restart_area_def get_defs Let_def obind_Ok_iff ra_def [symmetric] NTFS_BLOCK_SIZE_def not_less split: if_splits)
qed

section \<open>The client records\<close>

lemma check_list_total: "ca + unat log_clients * LOG_CLIENT_RECORD_SIZE \<le> length b \<Longrightarrow> is_Ok (check_list b ca log_clients nr idx first)"
proof (induction nr arbitrary: idx first)
  case (Suc nr)
  show ?case
  proof (cases "idx < log_clients")
    case True
    then have "unat idx + 1 \<le> unat log_clients"
      by (simp add: word_less_nat_alt)
    then have "(unat idx + 1) * 160 \<le> unat log_clients * 160"
      by (rule mult_right_mono) simp
    then show ?thesis
      using Suc by (auto simp: get_defs LOG_CLIENT_RECORD_SIZE_def Let_def)
  qed (auto simp: not_less)
qed simp

lemma client_array_total:
  assumes "512 \<le> length b" "unat (le16_at b 24) + 24 \<le> 510"
    "unat (le16_at b 24) + unat (le16_at b (unat (le16_at b 24) + 22)) + unat (le16_at b (unat (le16_at b 24) + 8)) * LOG_CLIENT_RECORD_SIZE \<le> length b"
  shows "is_Ok (ntfs_check_log_client_array b)"
proof -
  have t: "\<exists>x. check_list b (unat (le16_at b 24) + unat (le16_at b (unat (le16_at b 24) + 22))) (le16_at b (unat (le16_at b 24) + 8)) nr idx first = Ok x" for nr idx first
    using check_list_total [OF assms(3)] by (simp add: is_Ok_iff)
  obtain r where r: "check_list b (unat (le16_at b 24) + unat (le16_at b (unat (le16_at b 24) + 22))) (le16_at b (unat (le16_at b 24) + 8))
      (unat (le16_at b (unat (le16_at b 24) + 8))) (le16_at b (unat (le16_at b 24) + 10)) True = Ok r"
    using t by blast
  show ?thesis
  proof (cases r)
    case None
    then show ?thesis
      using assms(1,2) r by (simp add: ntfs_check_log_client_array_def get_defs Let_def)
  next
    case (Some nr)
    obtain r' where "check_list b (unat (le16_at b 24) + unat (le16_at b (unat (le16_at b 24) + 22))) (le16_at b (unat (le16_at b 24) + 8))
      nr (le16_at b (unat (le16_at b 24) + 12)) True = Ok r'"
      using t by blast
    then show ?thesis
      using assms(1,2) r Some by (simp add: ntfs_check_log_client_array_def get_defs Let_def)
  qed
qed

section \<open>Loading a page\<close>

lemma and_not_4095: "(x AND NOT 4095 :: int) = 4096 * (x div 4096)"
proof -
  have "x AND NOT (mask 12) = push_bit 12 (drop_bit 12 x)"
    by (rule bit_eqI) (auto simp: bit_simps)
  then show ?thesis
    by (simp add: mask_eq_exp_minus_1 push_bit_eq_mult drop_bit_eq_div mult.commute)
qed

text \<open>Removing the protection keeps the first sector but for the magic and the protected word.\<close>

lemma post_read_first_sector:
  assumes "512 \<le> length b" "unat sz \<le> length b"
  shows "\<exists>b' e. ntfs_mst_post_read_fixup b sz = Ok (b', e) \<and> length b' = length b \<and> (\<forall>k. 4 \<le> k \<and> k < 510 \<longrightarrow> b' ! k = b ! k)"
proof (cases "is_valid_record sz (le16_at b 4) (le16_at b 6)")
  case True
  then have r: "mst_record b sz"
    using assms by (simp add: mst_record_def)
  show ?thesis
  proof (cases "\<forall>i < unat sz div 512. le16_at b (510 + 512 * i) = le16_at b (unat (le16_at b 4))")
    case T: True
    then obtain b' where "mst_restore b (unat (le16_at b 4)) 510 (unat sz div 512) = Ok b'" "ntfs_mst_post_read_fixup b sz = Ok (b', None)"
      using post_read_valid(1) [OF r] by blast
    then show ?thesis
      using mst_restore_ok [OF mst_record_fits(3) [OF r refl]] by (auto simp: mst_tail_def)
  next
    case False
    have "length magic_BAAD = 4"
      by (simp add: magic_BAAD_def)
    then have "(magic_BAAD @ drop 4 b) ! k = b ! k" if "4 \<le> k" for k
      using that assms(1) by (simp add: nth_append)
    moreover have "length (magic_BAAD @ drop 4 b) = length b"
      using assms(1) \<open>length magic_BAAD = 4\<close> by simp
    ultimately show ?thesis
      using post_read_valid(2) [OF r False] by blast
  qed
next
  case False
  then show ?thesis
    using assms(1) by (simp add: ntfs_mst_post_read_fixup_def ntfs_mst_post_read_fixup_warn_def rd16_def)
qed

lemma deprotect_page_ok:
  assumes "512 \<le> length rp" "unat (le16_at rp 24) + 24 \<le> 510" "512 \<le> length trp" "unat page_size \<le> length trp"
  shows "deprotect_page rp trp page_size \<noteq> Fault"
    "deprotect_page rp trp page_size = Ok b \<Longrightarrow> length b = length trp \<and> (\<forall>k. 4 \<le> k \<and> k < 510 \<longrightarrow> b ! k = trp ! k)"
proof -
  obtain b' e where p: "ntfs_mst_post_read_fixup trp page_size = Ok (b', e)" "length b' = length trp" "\<forall>k. 4 \<le> k \<and> k < 510 \<longrightarrow> b' ! k = trp ! k"
    using post_read_first_sector [OF assms(3,4)] by blast
  show "deprotect_page rp trp page_size \<noteq> Fault"
    using assms p(1) by (simp add: deprotect_page_def get_defs)
  show "length b = length trp \<and> (\<forall>k. 4 \<le> k \<and> k < 510 \<longrightarrow> b ! k = trp ! k)" if "deprotect_page rp trp page_size = Ok b"
    using assms p that by (auto simp: deprotect_page_def get_defs obind_Ok_iff split: if_splits)
qed

lemma le16_at_same: "(\<And>k. 4 \<le> k \<Longrightarrow> k < 510 \<Longrightarrow> b ! k = c ! k) \<Longrightarrow> 4 \<le> i \<Longrightarrow> i + 2 \<le> 510 \<Longrightarrow> le16_at b i = le16_at c i"
  by (simp add: le16_at_def)

text \<open>A page whose restart area can be read.\<close>

definition page_ok :: "u8 list \<Rightarrow> bool" where
  "page_ok b \<longleftrightarrow> 512 \<le> length b \<and> unat (le16_at b 24) + 24 \<le> 510"

lemma is_logfile_clean_total: "(\<And>b. rp = Some b \<Longrightarrow> page_ok b) \<Longrightarrow> is_Ok (ntfs_is_logfile_clean log_empty rp)"
  by (cases rp) (simp_all add: ntfs_is_logfile_clean_def page_ok_def get_defs)

text \<open>The positions that the loop visits: 0 and the block size doubled again and again.\<close>

definition restart_pos :: "nat \<Rightarrow> bool" where
  "restart_pos p \<longleftrightarrow> p = 0 \<or> (\<exists>i. p = 512 * 2 ^ i)"

lemma restart_pos_next: "restart_pos p \<Longrightarrow> restart_pos (next_pos p)"
proof (cases "p = 0")
  case True
  then show ?thesis
    by (auto simp: restart_pos_def next_pos_def NTFS_BLOCK_SIZE_def intro: exI [of _ "0 :: nat"])
next
  case False
  assume "restart_pos p"
  then obtain i where "p = 512 * 2 ^ i"
    using False by (auto simp: restart_pos_def)
  then have "next_pos p = 512 * 2 ^ Suc i"
    by (simp add: next_pos_def)
  then show ?thesis
    unfolding restart_pos_def by blast
qed

text \<open>Every block at such a position that looks like a restart page fits.\<close>

definition journal_fits :: "u8 list \<Rightarrow> bool" where
  "journal_fits c \<longleftrightarrow> (\<forall>p. restart_pos p \<and> p + 512 \<le> length c \<and> (take 4 (drop p c) = magic_RSTR \<or> take 4 (drop p c) = magic_CHKD) \<longrightarrow> restart_fits (take 512 (drop p c)))"

lemma finish_page_ok:
  assumes "512 \<le> length rp" "ra + 24 \<le> 510" "ntfs_check_log_client_array trp \<noteq> Fault" "page_ok trp"
  shows "osafe (\<lambda>x. page_ok (fst x)) (finish_page rp trp ra)"
  using assms by (cases "ntfs_check_log_client_array trp") (auto simp: finish_page_def get_defs)

definition pages_ok :: "restart_pages \<Rightarrow> bool" where
  "pages_ok r \<longleftrightarrow> (\<forall>p. fst r = Some p \<or> snd r = Some p \<longrightarrow> page_ok (fst p))"

lemma newest_page_ok: "pages_ok r \<Longrightarrow> newest_page r = Some b \<Longrightarrow> page_ok b"
  by (cases r) (auto simp: pages_ok_def newest_page_def split: option.splits if_splits)

context attr_store
begin

lemma load_page_ok:
  assumes "good s" "rp = take 512 (drop p (content s))" "length rp = 512" "512 \<le> page_size"
  shows "load_page pread s rp (int p) page_size \<noteq> Fault"
    "load_page pread s rp (int p) page_size = Ok trp \<Longrightarrow> length trp = unat page_size \<and> (\<forall>k < 512. trp ! k = rp ! k)"
proof -
  have n: "512 \<le> unat page_size"
    using assms(4) by (simp add: word_le_nat_alt)
  have r: "pread s (int p) (uint page_size) = Ok (take (unat page_size) (drop p (content s)))"
    using pread_clip [OF assms(1), of "unat page_size" p] n by simp
  have t: "take (unat page_size) (drop p (content s)) ! k = rp ! k" if "k < 512" for k
    using that n by (simp add: assms(2))
  show "load_page pread s rp (int p) page_size \<noteq> Fault"
    using assms(3,4) r by (auto simp: load_page_def)
  show "length trp = unat page_size \<and> (\<forall>k < 512. trp ! k = rp ! k)" if "load_page pread s rp (int p) page_size = Ok trp"
    using that assms(3,4) r t by (auto simp: load_page_def split: if_splits)
qed

lemma load_restart_page_ok:
  assumes "good s" "rp = take 512 (drop p (content s))" "length rp = 512" "restart_fits rp"
  shows "osafe (\<lambda>x. page_ok (fst x)) (ntfs_check_and_load_restart_page alloc pread s rp (int p))"
proof -
  let ?ra = "unat (le16_at rp 24)" and ?sz = "le32_at rp 16"
  obtain h where h: "ntfs_check_restart_page_header rp (int p) = Ok h"
    using header_total [of rp "int p"] assms(3) by (auto simp: is_Ok_iff)
  show ?thesis
  proof (cases h)
    case True
    have h': "ntfs_check_restart_page_header rp (int p) = Ok True"
      using h True by simp
    note hd = header_ra [OF h']
    obtain a where a: "ntfs_check_restart_area rp = Ok a"
      using area_total [of rp] hd(1) assms(3,4) by (auto simp: is_Ok_iff restart_fits_def)
    show ?thesis
    proof (cases a)
      case True
      then have a': "ntfs_check_restart_area rp = Ok True"
        using a by simp
      note b = area_bounds [OF a' assms(4)]
      note l = load_page_ok [OF assms(1-3) hd(2)]
      have sz: "512 \<le> unat ?sz"
        using hd(2) by (simp add: word_le_nat_alt)
      have cl: "is_Ok (ntfs_check_log_client_array trp') \<and> page_ok trp'" if "load_page pread s rp (int p) ?sz = Ok trp" "deprotect_page rp trp ?sz = Ok trp'" for trp trp'
      proof -
        have t: "length trp' = unat ?sz" "\<And>k. 4 \<le> k \<Longrightarrow> k < 510 \<Longrightarrow> trp' ! k = rp ! k"
          using deprotect_page_ok(2) [OF _ b(1) _ _ that(2)] l(2) [OF that(1)] assms(3) sz by auto
        have "le16_at trp' 24 = le16_at rp 24" "le16_at trp' (?ra + 22) = le16_at rp (?ra + 22)" "le16_at trp' (?ra + 8) = le16_at rp (?ra + 8)"
          using le16_at_same [OF t(2)] b(1) by simp_all
        then show ?thesis
          using client_array_total [of trp'] t(1) b sz by (simp add: page_ok_def)
      qed
      have dp: "deprotect_page rp trp ?sz \<noteq> Fault" if "load_page pread s rp (int p) ?sz = Ok trp" for trp
        using deprotect_page_ok(1) [OF _ b(1)] l(2) [OF that] assms(3) sz by simp
      let ?P = "\<lambda>b. ntfs_check_log_client_array b \<noteq> Fault \<and> page_ok b"
      have ld: "osafe (\<lambda>trp. osafe ?P (deprotect_page rp trp ?sz)) (load_page pread s rp (int p) ?sz)"
      proof (cases "load_page pread s rp (int p) ?sz")
        case (Ok trp)
        then show ?thesis
          using dp [OF Ok] cl [OF Ok] by (cases "deprotect_page rp trp ?sz") (auto simp: is_Ok_iff)
      qed (use l(1) in simp_all)
      have "osafe (\<lambda>x. page_ok (fst x)) (obind (load_page pread s rp (int p) ?sz) (\<lambda>trp. obind (deprotect_page rp trp ?sz) (\<lambda>trp. finish_page rp trp ?ra)))"
        by (rule osafe_bind [OF ld], erule osafe_bind) (use finish_page_ok [of rp ?ra] b(1) assms(3) in auto)
      then show ?thesis
        using h' a' assms(3) by (simp add: ntfs_check_and_load_restart_page_def get_defs)
    qed (use h True a in \<open>simp add: ntfs_check_and_load_restart_page_def\<close>)
  qed (use h in \<open>simp add: ntfs_check_and_load_restart_page_def\<close>)
qed

lemma restart_loop_ok:
  assumes "good s" "journal_fits (content s)" "pages_ok r" "restart_pos pos"
  shows "osafe (\<lambda>x. \<forall>e r. x = Some (e, r) \<longrightarrow> pages_ok r) (restart_loop alloc pread s n pos e r)"
  using assms(3,4)
proof (induction "n - pos" arbitrary: pos e r rule: less_induct)
  case less
  obtain r1 r2 where r: "r = (r1, r2)"
    by (cases r) auto
  show ?case
  proof (cases "pos < n")
    case True
    let ?P = "\<lambda>x. \<forall>e r. x = Some (e, r) \<longrightarrow> pages_ok r"
    have IH: "osafe ?P (restart_loop alloc pread s n (next_pos pos) e r)" if "pages_ok r" for e r
      by (rule less(1) [OF _ that restart_pos_next [OF less(3)]]) (use True in \<open>auto simp: next_pos_def NTFS_BLOCK_SIZE_def\<close>)
    define k where "k = take 512 (drop pos (content s))"
    have k: "pread s (int pos) (int NTFS_BLOCK_SIZE) = Ok k"
      using pread_clip [OF assms(1), of 512 pos] by (simp add: NTFS_BLOCK_SIZE_def k_def)
    have f: "osafe (\<lambda>x. page_ok (fst x)) (ntfs_check_and_load_restart_page alloc pread s k (int pos))"
      if "length k = 512" "take 4 k = magic_RSTR \<or> take 4 k = magic_CHKD"
      using load_restart_page_ok [OF assms(1) k_def that(1)] assms(2) less(3) that by (auto simp: journal_fits_def k_def)
    have add: "pages_ok (Some p, r2)" "pages_ok (r1, Some p)" if "page_ok (fst p)" for p
      using that less(2) by (auto simp: pages_ok_def r)
    have p: "pages_ok (r1, r2)"
      using less(2) r by simp
    show ?thesis
      unfolding r restart_loop.simps [of alloc pread s n pos e r1 r2] k outcome.case
      by (cases "ntfs_check_and_load_restart_page alloc pread s k (int pos)")
        (use True IH f add p in \<open>auto simp: Let_def NTFS_BLOCK_SIZE_def\<close>)
  qed (use less(2) in \<open>simp add: r restart_loop.simps [of alloc pread s n pos]\<close>)
qed

lemma empty_loop_ok:
  assumes "good s" "p \<le> length (content s)"
  shows "\<exists>s'. empty_loop pwrite s (int (length (content s))) (int p) = (s', Ok ()) \<and> good s' \<and>
    content s' = take p (content s) @ replicate (length (content s) - p) 0xff"
  using assms
proof (induction "length (content s) - p" arbitrary: s p rule: less_induct)
  case less
  let ?L = "length (content s)"
  show ?case
  proof (cases "p < ?L")
    case True
    define m where "m = min (?L - p) 8192"
    have m: "0 < m" "p + m \<le> ?L" "nat (min (int ?L - int p) NTFS_BUF_SIZE) = m"
      using True by (auto simp: m_def NTFS_BUF_SIZE_def min_def nat_diff_distrib)
    obtain s1 where s1: "pwrite s (int p) (replicate m 0xff) = (s1, Ok (int m))" "good s1" "content s1 = bsplice (content s) p (replicate m 0xff)"
      using pwrite_in [OF less(2), of p "replicate m 0xff"] m(2) by auto
    have l1: "length (content s1) = ?L" "take (p + m) (content s1) = take p (content s) @ replicate m 0xff"
      using s1(3) m(2) by (auto simp: bsplice_def min_def)
    have d: "length (content s1) - (p + m) < length (content s) - p"
      using m(1,2) l1(1) by simp
    obtain s' where s': "empty_loop pwrite s1 (int (length (content s1))) (int (p + m)) = (s', Ok ())" "good s'"
      "content s' = take (p + m) (content s1) @ replicate (length (content s1) - (p + m)) 0xff"
      using less(1) [OF d s1(2)] l1(1) m(2) by auto
    have "replicate m 0xff @ replicate (?L - (p + m)) 0xff = replicate (?L - p) (0xff :: u8)"
      using m(2) by (simp add: replicate_add [symmetric])
    then show ?thesis
      using True s' s1(1) l1 m by (simp add: empty_loop.simps [of pwrite s])
  qed (use less(2,3) in \<open>simp add: empty_loop.simps [of pwrite s]\<close>)
qed

lemma restart_loop_empty:
  assumes "good s" "content s = replicate L 0xff" "n \<le> L" "n mod 512 = 0" "pos mod 512 = 0"
  shows "restart_loop alloc pread s n pos True r = Ok (Some (True, r))"
  using assms(5)
proof (induction "n - pos" arbitrary: pos rule: less_induct)
  case less
  obtain r1 r2 where r: "r = (r1, r2)"
    by (cases r) auto
  show ?case
  proof (cases "pos < n")
    case True
    have "next_pos pos mod 512 = 0" "pos < next_pos pos"
      using less(2) by (auto simp: next_pos_def NTFS_BLOCK_SIZE_def mod_mult_right_eq [symmetric, of 2 pos])
    then have IH: "restart_loop alloc pread s n (next_pos pos) True (r1, r2) = Ok (Some (True, r1, r2))"
      using less(1) [of "next_pos pos"] True r by auto
    obtain a b where "pos = 512 * a" "n = 512 * b"
      using less(2) assms(4) by (auto simp: mod_eq_0_iff_dvd elim!: dvdE)
    then have "pos + 512 \<le> n"
      using True by simp
    then have "pread s (int pos) (int NTFS_BLOCK_SIZE) = Ok (replicate 512 0xff)"
      using pread_clip [OF assms(1), of 512 pos] assms(2,3) by (simp add: NTFS_BLOCK_SIZE_def min_def)
    moreover have "take 4 (replicate 512 0xff) = magic_empty"
      by (simp add: magic_empty_def) (simp add: numeral_eq_Suc)
    moreover have "magic_empty \<noteq> magic_RCRD" "magic_empty \<noteq> magic_RSTR" "magic_empty \<noteq> magic_CHKD"
      by (simp_all add: magic_empty_def magic_RCRD_def magic_RSTR_def magic_CHKD_def)
    ultimately show ?thesis
      using True IH by (simp add: r restart_loop.simps [of alloc pread s n pos] NTFS_BLOCK_SIZE_def Let_def)
  qed (simp add: r restart_loop.simps [of alloc pread s n pos])
qed

lemma check_logfile_empty:
  assumes "good s" "content s = replicate L 0xff" "50 * 4096 \<le> L" "alloc 512"
  shows "ntfs_check_logfile alloc pread s (int L) False = Ok (True, True, None)"
proof -
  define M where "M = min (int L) 0x100000000"
  have a: "M AND NOT 4095 = 4096 * (M div 4096)"
    by (rule and_not_4095)
  define n where "n = nat (4096 * (M div 4096))"
  have "204800 \<le> M"
    using assms(3) by (simp add: M_def)
  then have "204800 div 4096 \<le> M div 4096"
    by (rule zdiv_mono1) simp
  then have m: "50 \<le> M div 4096"
    by simp
  then have n1: "int n = 4096 * (M div 4096)"
    by (simp add: n_def)
  have "4096 * (M div 4096) \<le> M"
    using mult_div_mod_eq [of 4096 M] pos_mod_sign [of 4096 M] by linarith
  moreover have "M \<le> int L"
    by (simp add: M_def)
  ultimately have n2: "n \<le> L"
    using n1 by linarith
  have "n = 512 * (8 * nat (M div 4096))"
    using m by (simp add: n_def nat_mult_distrib)
  then have n3: "n mod 512 = 0"
    by simp
  note n = n1 n2 n3 m
  have "restart_loop alloc pread s n 0 True (None, None) = Ok (Some (True, None, None))"
    by (rule restart_loop_empty [OF assms(1,2) n(2,3)]) simp
  then show ?thesis
    using a n assms(4) by (simp add: ntfs_check_logfile_def MaxLogFileSize_def DefaultLogPageSize_def MinLogRecordPages_def NTFS_BLOCK_SIZE_def
        M_def [symmetric] n_def [symmetric] Let_def drop_bit_eq_div)
qed

lemma check_logfile_ok:
  assumes "good s" "journal_fits (content s)"
  shows "osafe (\<lambda>(e, ok, rp). is_Ok (ntfs_is_logfile_clean e rp)) (ntfs_check_logfile alloc pread s n e)"
proof -
  have "pages_ok (None, None)" "restart_pos 0"
    by (simp_all add: pages_ok_def restart_pos_def)
  then have l: "osafe (\<lambda>x. \<forall>e r. x = Some (e, r) \<longrightarrow> pages_ok r) (restart_loop alloc pread s m 0 True (None, None))" for m
    by (rule restart_loop_ok [OF assms])
  have "osafe (\<lambda>(e, ok, rp). is_Ok (ntfs_is_logfile_clean e rp))
      (case x of None \<Rightarrow> Ok (False, False, None)
       | Some (is_empty, pages) \<Rightarrow> if is_empty then Ok (True, True, None) else Ok (False, newest_page pages \<noteq> None, newest_page pages))"
    if "\<forall>e r. x = Some (e, r) \<longrightarrow> pages_ok r" for x
  proof (cases x)
    case (Some y)
    obtain em r where y: "y = (em, r)"
      by (cases y) auto
    then have "pages_ok r"
      using that Some by (cases r) simp
    then show ?thesis
      using newest_page_ok [of r] by (auto simp: Some y intro!: is_logfile_clean_total)
  qed (simp add: ntfs_is_logfile_clean_def)
  then have "osafe (\<lambda>(e, ok, rp). is_Ok (ntfs_is_logfile_clean e rp)) (obind (restart_loop alloc pread s m 0 True (None, None)) (\<lambda>r.
      case r of None \<Rightarrow> Ok (False, False, None)
       | Some (is_empty, pages) \<Rightarrow> if is_empty then Ok (True, True, None) else Ok (False, newest_page pages \<noteq> None, newest_page pages)))" for m
    by (rule osafe_bind [OF l])
  then show ?thesis
    by (cases e) (simp_all add: ntfs_check_logfile_def Let_def ntfs_is_logfile_clean_def)
qed

end

end
