(* ===== verification/Lcnalloc_Range.thy ===== *)
theory Lcnalloc_Range
  imports Lcnalloc_Inv
begin

text \<open>
  The search for the longest free range of a window.
\<close>

definition clear_range :: "u8 list \<Rightarrow> int \<Rightarrow> int \<Rightarrow> bool" where
  "clear_range buf a n \<longleftrightarrow> (\<forall>j. a \<le> j \<and> j < a + n \<longrightarrow> \<not> bm_bit buf (nat j))"

text \<open>The state after the first \<open>i\<close> bits: the clear bits before \<open>i\<close>, and the longest range that ended before them.\<close>

fun range_inv :: "u8 list \<Rightarrow> int \<Rightarrow> int \<times> int \<times> int \<Rightarrow> bool" where
  "range_inv buf i (run, max_range, start_pos) \<longleftrightarrow> 0 \<le> run \<and> run \<le> i \<and> clear_range buf (i - run) run \<and>
     (run < i \<longrightarrow> bm_bit buf (nat (i - run - 1))) \<and>
     (max_range = 0 \<and> start_pos = -1 \<or> 0 < max_range \<and> 0 \<le> start_pos \<and> start_pos + max_range \<le> i \<and> clear_range buf start_pos max_range) \<and>
     (\<forall>a n. 0 \<le> a \<and> 0 < n \<and> a + n \<le> i - run \<and> clear_range buf a n \<longrightarrow> n \<le> max_range)"

declare range_inv.simps [simp del]

lemma range_inv_max: "range_inv buf i (run, mx, st) \<Longrightarrow> 0 \<le> a \<Longrightarrow> 0 < n \<Longrightarrow> a + n \<le> i - run \<Longrightarrow> clear_range buf a n \<Longrightarrow> n \<le> mx"
  by (simp add: range_inv.simps)

lemma range_inv_clear:
  assumes "range_inv buf i (run, max_range, start_pos)" "clear_range buf i n" "0 \<le> n"
  shows "range_inv buf (i + n) (run + n, max_range, start_pos)"
proof -
  have "clear_range buf (i - run) (run + n)"
    using assms(1,2) unfolding clear_range_def range_inv.simps by (metis add_diff_cancel_left' diff_add_cancel group_cancel.sub1 linorder_not_less)
  then show ?thesis
    using assms by (auto simp: range_inv.simps)
qed

lemma range_inv_set:
  assumes inv: "range_inv buf i (run, max_range, start_pos)" and b: "bm_bit buf (nat i)"
  shows "range_inv buf (i + 1) (if run > max_range then (0, run, i - run) else (0, max_range, start_pos))"
proof -
  have m: "n \<le> max run max_range" if "0 \<le> a" "0 < n" "a + n \<le> i + 1" "clear_range buf a n" for a n
  proof -
    have "\<not> (a \<le> i \<and> i < a + n)"
      using that(4) b by (auto simp: clear_range_def)
    then have n: "a + n \<le> i"
      using that(2,3) by linarith
    show ?thesis
    proof (cases "i - run \<le> a")
      case True
      then show ?thesis
        using n by simp
    next
      case False
      then have "bm_bit buf (nat (i - run - 1))"
        using inv that(1) by (simp add: range_inv.simps)
      then have "\<not> (a \<le> i - run - 1 \<and> i - run - 1 < a + n)"
        using that(4) by (auto simp: clear_range_def)
      then show ?thesis
        using range_inv_max [OF inv that(1,2) _ that(4)] False by simp
    qed
  qed
  have i: "0 \<le> run" "run \<le> i" "clear_range buf (i - run) run"
    "max_range = 0 \<and> start_pos = -1 \<or> 0 < max_range \<and> 0 \<le> start_pos \<and> start_pos + max_range \<le> i \<and> clear_range buf start_pos max_range"
    using inv by (simp_all add: range_inv.simps)
  show ?thesis
  proof (cases "run > max_range")
    case True
    then have "n \<le> run" if "0 \<le> a" "0 < n" "a + n \<le> i + 1" "clear_range buf a n" for a n
      using m [OF that] by simp
    then show ?thesis
      using True i b by (auto simp: range_inv.simps clear_range_def [of _ _ 0])
  next
    case False
    then have "n \<le> max_range" if "0 \<le> a" "0 < n" "a + n \<le> i + 1" "clear_range buf a n" for a n
      using m [OF that] by simp
    then show ?thesis
      using False i b by (auto simp: range_inv.simps clear_range_def [of _ _ 0])
  qed
qed

lemma range_inv_set_more:
  assumes "range_inv buf i (0, max_range, start_pos)" "\<And>j. i \<le> j \<Longrightarrow> j < i + int n \<Longrightarrow> bm_bit buf (nat j)"
  shows "range_inv buf (i + int n) (0, max_range, start_pos)"
  using assms(2)
proof (induction n)
  case (Suc n)
  then have "range_inv buf (i + int n) (0, max_range, start_pos)"
    by simp
  moreover have "0 \<le> max_range"
    using assms(1) by (auto simp: range_inv.simps)
  ultimately show ?case
    using range_inv_set [of buf "i + int n" 0 max_range start_pos] Suc.prems by (simp add: algebra_simps)
qed (use assms(1) in simp)

lemma bm_bit_byte: "j < 8 \<Longrightarrow> bm_bit buf (nat (8 * int i + int j)) = bit (buf ! i) j"
  by (simp add: bm_bit_def nat_add_distrib nat_mult_distrib)

lemma range_bits_inv:
  "range_inv buf (8 * int i + int j) r \<Longrightarrow> j + n = 8 \<Longrightarrow> range_inv buf (8 * int (i + 1)) (range_bits (buf ! i) (int i) j n r)"
proof (induction "buf ! i" "int i" j n r rule: range_bits.induct)
  case (2 j n run max_range start_pos)
  let ?p = "8 * int i + int j"
  have st: "range_inv buf (8 * int i + int (j + 1))
      (if bit (buf ! i) j then (if run > max_range then (0, run, int i * 8 + (int j - run)) else (0, max_range, start_pos)) else (run + 1, max_range, start_pos))"
  proof (cases "bit (buf ! i) j")
    case True
    have e: "int i * 8 + (int j - run) = ?p - run" "8 * int i + int (j + 1) = ?p + 1"
      by simp_all
    have "bm_bit buf (nat ?p)"
      using True 2(3) bm_bit_byte [of j buf i] by simp
    from range_inv_set [OF 2(2) this] True show ?thesis
      unfolding e by (simp only: if_True)
  next
    case False
    then have "clear_range buf ?p 1"
      using 2(3) bm_bit_byte [of j buf i] by (auto simp: clear_range_def)
    then show ?thesis
      using range_inv_clear [OF 2(2), of 1] False by (simp add: algebra_simps)
  qed
  have "j + 1 + n = 8"
    using 2(3) by simp
  then show ?case
    using 2(1) [OF st] by (simp only: range_bits.simps)
qed (simp add: algebra_simps)

lemma window_byte_bits:
  assumes "\<And>k b. k < n \<Longrightarrow> b < 8 \<Longrightarrow> bit (buf ! (i + k)) b = v" "8 * int i \<le> j" "j < 8 * int i + 8 * int n"
  shows "bm_bit buf (nat j) = v"
proof -
  define k where "k = nat j div 8 - i"
  have "nat j div 8 = i + k" "k < n"
    using assms(2,3) by (auto simp: k_def)
  then show ?thesis
    using assms(1) [of k "nat j mod 8"] by (simp add: bm_bit_def)
qed

lemma takeWhile_bytes: "k < length (takeWhile P (drop i buf)) \<Longrightarrow> P (buf ! (i + k))" "i \<le> length buf \<Longrightarrow> i + length (takeWhile P (drop i buf)) \<le> length buf"
proof -
  assume k: "k < length (takeWhile P (drop i buf))"
  then have "takeWhile P (drop i buf) ! k \<in> set (takeWhile P (drop i buf))"
    by simp
  moreover have "k < length (drop i buf)"
    using k length_takeWhile_le [of P "drop i buf"] by simp
  ultimately show "P (buf ! (i + k))"
    using k by (auto simp: takeWhile_nth dest!: set_takeWhileD)
next
  assume "i \<le> length buf"
  then show "i + length (takeWhile P (drop i buf)) \<le> length buf"
    using length_takeWhile_le [of P "drop i buf"] by simp
qed

lemma bit_255: "b < 8 \<Longrightarrow> bit (255 :: u8) b"
  using bit_bm_fill [of b True] by (simp add: bm_fill_def)

lemma range_loop_inv:
  "range_inv buf (8 * int i) r \<Longrightarrow> i \<le> length buf \<Longrightarrow> range_inv buf (8 * int (length buf)) (range_loop buf i r)"
proof (induction buf i r rule: range_loop.induct)
  case (1 buf i run max_range start_pos)
  note sim = range_loop.simps [of buf i run max_range start_pos] and IH = 1(1-3) and inv = 1(4)
  show ?case
  proof (cases "i < length buf")
    case i: True
    consider (zero) "buf ! i = 0" | (full) "buf ! i = 255" | (mixed) "buf ! i \<noteq> 0" "buf ! i \<noteq> 255"
      by blast
    then show ?thesis
    proof cases
      case zero
      let ?n = "length (takeWhile (\<lambda>b. b = 0) (drop i buf))"
      have "bm_bit buf (nat j) = False" if "8 * int i \<le> j" "j < 8 * int i + 8 * int ?n" for j
        by (rule window_byte_bits [OF _ that]) (use takeWhile_bytes(1) [of _ "\<lambda>b. b = 0" i buf] in simp)
      then have "clear_range buf (8 * int i) (8 * int ?n)"
        by (simp add: clear_range_def)
      from range_inv_clear [OF inv this] have "range_inv buf (8 * int (i + ?n)) (run + 8 * int ?n, max_range, start_pos)"
        by (simp add: algebra_simps)
      from IH(1) [OF i zero refl this takeWhile_bytes(2)] i zero show ?thesis
        by (simp add: sim Let_def)
    next
      case full
      let ?n = "length (takeWhile (\<lambda>b. b = 255) (drop i buf))"
      have n: "0 < ?n"
        using i full by (simp add: Cons_nth_drop_Suc [symmetric])
      have b': "bm_bit buf (nat j) = True" if "8 * int i \<le> j" "j < 8 * int i + 8 * int ?n" for j
        by (rule window_byte_bits [OF _ that]) (simp only: takeWhile_bytes(1) [of _ "\<lambda>b. b = 255" i buf] bit_255)
      then have b: "bm_bit buf (nat j)" if "8 * int i \<le> j" "j < 8 * int i + 8 * int ?n" for j
        using that by simp
      obtain mx st where r: "(if run > max_range then (0, run, 8 * int i - run) else (0, max_range, start_pos)) = (0, mx, st)"
        by (cases "run > max_range") auto
      have "range_inv buf (8 * int i + 1) (0, mx, st)"
        using range_inv_set [OF inv b] n r by (auto split: if_splits)
      then have "range_inv buf (8 * int i + 1 + int (8 * ?n - 1)) (0, mx, st)"
        by (rule range_inv_set_more) (use b n in auto)
      moreover have "8 * int i + 1 + int (8 * ?n - 1) = 8 * int (i + ?n)"
        using n by (cases ?n) simp_all
      moreover have r': "(if run > max_range then (0, run, int i * 8 - run) else (0, max_range, start_pos)) = (0, mx, st)"
        using r by (auto simp: mult.commute split: if_splits)
      moreover have "range_loop buf i (run, max_range, start_pos) = range_loop buf (i + ?n) (0, mx, st)"
        unfolding sim using i full by (simp add: Let_def r' split del: if_split)
      ultimately show ?thesis
        using IH(2) [OF i _ full refl, unfolded r'] takeWhile_bytes(2) [of i buf "\<lambda>b. b = 255"] i full by simp
    next
      case mixed
      then show ?thesis
        using IH(3) [OF i mixed] range_bits_inv [of buf i 0 "(run, max_range, start_pos)" 8] inv i by (simp add: sim)
    qed
  qed (use 1 in \<open>simp add: range_loop.simps [of buf]\<close>)
qed

text \<open>The result for a window.\<close>

lemma max_empty_bit_range_inv:
  assumes "max_empty_bit_range buf = p"
  shows "if p < 0 then \<forall>j < 8 * length buf. bm_bit buf j
    else \<exists>n > 0. p + n \<le> 8 * int (length buf) \<and> clear_range buf p n \<and>
      (\<forall>a m. 0 \<le> a \<and> a + m \<le> 8 * int (length buf) \<and> clear_range buf a m \<longrightarrow> m \<le> n)"
proof -
  let ?i = "8 * int (length buf)"
  obtain run mx st where r: "range_loop buf 0 (0, 0, -1) = (run, mx, st)"
    by (cases "range_loop buf 0 (0, 0, -1)") auto
  have "range_inv buf (8 * int 0) (0, 0, -1)"
    by (auto simp: range_inv.simps clear_range_def)
  then have inv: "range_inv buf ?i (run, mx, st)"
    using range_loop_inv [of buf 0 "(0, 0, -1)"] r by simp
  have i: "0 \<le> run" "run \<le> ?i" "clear_range buf (?i - run) run"
    "mx = 0 \<and> st = -1 \<or> 0 < mx \<and> 0 \<le> st \<and> st + mx \<le> ?i \<and> clear_range buf st mx" "run < ?i \<longrightarrow> bm_bit buf (nat (?i - run - 1))"
    using inv by (simp_all add: range_inv.simps)
  have m: "n \<le> max run mx" if "0 \<le> a" "a + n \<le> ?i" "clear_range buf a n" for a n
  proof (cases "?i - run \<le> a \<or> n \<le> 0")
    case True
    then show ?thesis
      using that(2) i(1) by auto
  next
    case False
    then have "bm_bit buf (nat (?i - run - 1))"
      using i(5) that(1) by simp
    then have "\<not> (a \<le> ?i - run - 1 \<and> ?i - run - 1 < a + n)"
      using that(3) by (auto simp: clear_range_def)
    then show ?thesis
      using range_inv_max [OF inv that(1) _ _ that(3)] False by simp
  qed
  have p: "p = (if run > mx then ?i - run else st)"
    using assms r by (auto simp: max_empty_bit_range_def mult.commute)
  show ?thesis
  proof (cases "p < 0")
    case True
    then have z: "mx = 0" "run \<le> 0"
      using p i(2,4) by (auto split: if_splits)
    have "bm_bit buf j" if "j < 8 * length buf" for j
    proof (rule ccontr)
      assume "\<not> bm_bit buf j"
      then have "clear_range buf (int j) 1"
        by (auto simp: clear_range_def)
      then show False
        using m [of "int j" 1] that z by simp
    qed
    then show ?thesis
      using True by simp
  next
    case False
    then have "\<exists>n > 0. n = max run mx \<and> p + n \<le> ?i \<and> clear_range buf p n"
      using p i by (cases "run > mx") auto
    then show ?thesis
      using False m by auto
  qed
qed

end
