(* ===== verification/Lcnalloc_Live.thy ===== *)
theory Lcnalloc_Live
  imports Lcnalloc_Store Lcnalloc_Range
begin

text \<open>
  The search for one cluster: every zone is searched as a whole before it is marked full, so a free cluster is found.
\<close>

section \<open>Zones of a volume\<close>

definition zone_lim :: "alloc_volume \<Rightarrow> zone \<Rightarrow> int" where
  "zone_lim v z = (case z of ZONE_MFT \<Rightarrow> mft_zone_end v | ZONE_DATA1 \<Rightarrow> nr_clusters v | ZONE_DATA2 \<Rightarrow> mft_zone_start v)"

text \<open>The zones follow each other, and the position of a zone lies in it; that of an empty zone is its start.\<close>

definition zones_wf :: "alloc_volume \<Rightarrow> bool" where
  "zones_wf v \<longleftrightarrow> 0 \<le> mft_zone_start v \<and> mft_zone_start v \<le> mft_zone_end v \<and> mft_zone_end v \<le> nr_clusters v \<and> 0 \<le> mft_lcn v \<and>
     (\<forall>z \<in> {ZONE_MFT, ZONE_DATA1, ZONE_DATA2}. zone_first v z \<le> zone_pos v z \<and> (zone_pos v z < zone_lim v z \<or> zone_pos v z = zone_first v z))"

lemma zones_wfD: "zones_wf v \<Longrightarrow> 0 \<le> zone_first v z \<and> zone_first v z \<le> zone_lim v z \<and> zone_first v z \<le> zone_pos v z \<and>
    (zone_pos v z < zone_lim v z \<or> zone_pos v z = zone_first v z)"
  by (cases z) (auto simp: zones_wf_def zone_first_def zone_lim_def)

lemma zones_wf_ok: "zones_wf v \<Longrightarrow> zones_ok v"
  by (auto simp: zones_wf_def zones_ok_def zone_first_def zone_pos_def)

lemma zone_fields_full [simp]: "zone_first (v\<lparr>full_zones := x\<rparr>) = zone_first v" "zone_pos (v\<lparr>full_zones := x\<rparr>) = zone_pos v" "zone_lim (v\<lparr>full_zones := x\<rparr>) = zone_lim v"
  by (simp_all add: zone_first_def zone_pos_def zone_lim_def fun_eq_iff split: zone.split)

text \<open>The bits of a range are set.\<close>

definition set_range :: "u8 list \<Rightarrow> int \<Rightarrow> int \<Rightarrow> bool" where
  "set_range c a b \<longleftrightarrow> (\<forall>j < 8 * length c. a \<le> int j \<and> int j < b \<longrightarrow> bm_bit c j)"

lemma set_range_empty: "b \<le> a \<Longrightarrow> set_range c a b"
  by (auto simp: set_range_def)

lemma set_range_join: "set_range c a b \<Longrightarrow> set_range c a' b' \<Longrightarrow> a' \<le> b \<Longrightarrow> set_range c a b'"
  unfolding set_range_def by (metis linorder_not_less order_trans)

lemma set_range_all: "8 * int (length c) \<le> b \<Longrightarrow> set_range c a b \<Longrightarrow> set_range c a b'"
  by (auto simp: set_range_def)

definition zone_set :: "u8 list \<Rightarrow> alloc_volume \<Rightarrow> zone \<Rightarrow> bool" where
  "zone_set c v z \<longleftrightarrow> set_range c (zone_first v z) (zone_lim v z)"

lemma zones_cover: "zones_wf v \<Longrightarrow> (\<And>z. zone_set c v z) \<Longrightarrow> set_range c 0 (nr_clusters v)"
proof -
  assume v: "zones_wf v" and z: "\<And>z. zone_set c v z"
  have "set_range c 0 (mft_zone_start v)" "set_range c (mft_zone_start v) (mft_zone_end v)" "set_range c (mft_zone_end v) (nr_clusters v)"
    using z [of ZONE_DATA2] z [of ZONE_MFT] z [of ZONE_DATA1] by (simp_all add: zone_set_def zone_first_def zone_lim_def)
  then show ?thesis
    using set_range_join by blast
qed

section \<open>The search\<close>

text \<open>Nothing was found yet: the zones that are done are full of set bits.\<close>

definition searching :: "u8 list \<Rightarrow> alloc_volume \<Rightarrow> 's alloc_state \<Rightarrow> bool" where
  "searching c v st \<longleftrightarrow> a_vol st = v\<lparr>full_zones := done_zones st\<rparr> \<and> a_rl st = [] \<and> clusters st = 1 \<and> \<not> has_guess st \<and> used_zone_pos st \<and>
     done_zones st AND 7 = done_zones st \<and> (\<forall>z. bit (done_zones st) (zone_index z) \<longrightarrow> zone_set c v z)"

text \<open>The part of the zone that was searched.\<close>

definition searched :: "u8 list \<Rightarrow> alloc_volume \<Rightarrow> 's alloc_state \<Rightarrow> int \<Rightarrow> bool" where
  "searched c v st q \<longleftrightarrow>
     (if pass2 st then set_range c (zone_first v (search_zone st)) q \<and> set_range c (zone_end st) (zone_lim v (search_zone st))
      else zone_start st = zone_pos v (search_zone st) \<and> zone_end st = zone_lim v (search_zone st) \<and> set_range c (zone_start st) q)"

definition live :: "u8 list \<Rightarrow> alloc_volume \<Rightarrow> 's alloc_state \<Rightarrow> bool" where
  "live c v st \<longleftrightarrow> searching c v st \<and> searched c v st (bmp_pos st)"

lemma switch_zone_live:
  assumes "zones_wf v" "a_vol st = v\<lparr>full_zones := x\<rparr>"
  shows "zone_start (switch_zone st) = zone_pos v (search_zone (switch_zone st)) \<and> zone_end (switch_zone st) = zone_lim v (search_zone (switch_zone st)) \<and>
    (pass2 (switch_zone st) \<longrightarrow> zone_start (switch_zone st) = zone_first v (search_zone (switch_zone st))) \<and>
    has_guess (switch_zone st) = has_guess st"
  using assms(2) by (cases "search_zone st") (auto simp: switch_zone_def Let_def zone_pos_def zone_lim_def zone_first_def)

lemma mark_zone_live:
  assumes "searching c v st" "zone_set c v (search_zone st)"
  shows "searching c v (mark_zone st)"
proof -
  have "zone_set c v z" if "bit (done_zones st OR zone_bit (search_zone st)) (zone_index z)" for z
    using that assms bit_or_zone [OF zone_index_less [of z], of "done_zones st" "search_zone st"]
    by (cases z; cases "search_zone st") (auto simp: searching_def)
  moreover have "(done_zones st OR zone_bit (search_zone st)) AND 7 = done_zones st OR zone_bit (search_zone st)"
    using assms(1) by (cases "search_zone st") (simp_all add: searching_def bit.conj_disj_distrib2)
  ultimately show ?thesis
    using assms(1) by (auto simp: searching_def mark_zone_def)
qed

lemma enter_zone_live:
  assumes "zones_wf v" "searching c v st"
  shows "live c v (enter_zone st) \<and> zone_start (enter_zone st) = zone_pos v (search_zone (enter_zone st)) \<and>
    zone_end (enter_zone st) = zone_lim v (search_zone (enter_zone st))"
proof -
  have "a_vol st = v\<lparr>full_zones := done_zones st\<rparr>" "a_rl st = []"
    using assms(2) by (simp_all add: searching_def)
  note s = switch_zone_live [OF assms(1) this(1)] and this
  then show ?thesis
    using assms(2) by (auto simp: enter_zone_def Let_def live_def searching_def searched_def switch_zone_frame set_range_empty)
qed

lemma all_zones_done: "d AND 7 = d \<Longrightarrow> \<not> d < (7 :: u8) \<Longrightarrow> bit d (zone_index z)"
proof -
  assume "d AND 7 = d" "\<not> d < 7"
  then have "d = 7"
    using word_and_le1 [of d 7] by (metis antisym_conv not_le)
  then show ?thesis
    by (cases z) simp_all
qed

lemma next_zone_live:
  assumes "zones_wf v" "searching c v st" "zone_set c v (search_zone st)" "next_zone st = (st', m)"
  shows "if m then live c v st' else set_range c 0 (nr_clusters v)"
  using assms(2-4)
proof (induction st rule: next_zone.induct)
  case (1 st)
  let ?st1 = "mark_zone st" let ?st2 = "enter_zone ?st1"
  have s1: "searching c v ?st1"
    by (rule mark_zone_live [OF 1(2,3)])
  note s2 = enter_zone_live [OF assms(1) s1]
  show ?case
  proof (cases "done_zones ?st1 < 7")
    case True
    show ?thesis
    proof (cases "zone_start ?st2 = zone_end ?st2")
      case e: True
      then have "zone_set c v (search_zone ?st2)"
        using s2 zones_wfD [OF assms(1), of "search_zone ?st2"] by (auto simp: zone_set_def intro: set_range_empty)
      then show ?thesis
        using 1(1) [OF refl refl True e] 1(4) True e s2 by (simp add: next_zone.simps [of st] Let_def live_def)
    next
      case False
      then show ?thesis
        using 1(4) True s2 by (auto simp: next_zone.simps [of st] Let_def)
    qed
  next
    case False
    then have "zone_set c v z" for z
      using s1 all_zones_done [of "done_zones ?st1" z] by (simp add: searching_def)
    then show ?thesis
      using 1(4) False zones_cover [OF assms(1)] by (simp add: next_zone.simps [of st] Let_def)
  qed
qed

text \<open>A pass ends when the zone is searched to its end.\<close>

lemma zone_pass_done_live:
  assumes "zones_wf v" "searching c v st" "searched c v st q" "zone_end st \<le> q \<or> 8 * int (length c) \<le> q \<or> zone_set c v (search_zone st)"
    "\<not> set_range c 0 (nr_clusters v)"
  shows "\<exists>st'. zone_pass_done st = Continue st' \<and> live c v st'"
proof (cases "pass2 st")
  case True
  have "set_range c (zone_first v (search_zone st)) q" "set_range c (zone_end st) (zone_lim v (search_zone st))"
    using assms(3) True by (simp_all add: searched_def)
  then have "zone_set c v (search_zone st)"
    using assms(4) set_range_join [of c _ q] set_range_all unfolding zone_set_def by blast
  then show ?thesis
    using next_zone_live [OF assms(1,2), of "fst (next_zone st)" "snd (next_zone st)"] assms(5) True
    by (auto simp: zone_pass_done_def split: prod.splits if_splits)
next
  case False
  have "set_range c (zone_pos v (search_zone st)) (zone_lim v (search_zone st))"
    using assms(3,4) False zones_wfD [OF assms(1), of "search_zone st"] by (auto simp: searched_def zone_set_def set_range_def)
  then show ?thesis
    using assms(2,3) False zones_wfD [OF assms(1), of "search_zone st"]
    by (auto simp: zone_pass_done_def Let_def live_def searching_def searched_def set_range_empty max_def)
qed

lemma window_set:
  assumes "buf = take n (drop p c)" "\<forall>j < 8 * length buf. bm_bit buf j"
  shows "set_range c (8 * int p) (8 * int p + 8 * int (length buf))"
proof -
  have "bm_bit c j" if "8 * int p \<le> int j" "int j < 8 * int p + 8 * int (length buf)" for j
  proof -
    define k where "k = j - 8 * p"
    have k: "j = 8 * p + k" "k < 8 * length buf" "k div 8 < length buf"
      using that by (auto simp: k_def)
    have "buf ! (k div 8) = c ! (p + k div 8)"
      using k(3) by (auto simp: assms(1) nth_drop)
    then show ?thesis
      using assms(2) k by (auto simp: bm_bit_def)
  qed
  then show ?thesis
    by (simp add: set_range_def)
qed

lemma live_next:
  assumes "zones_wf v" "searching c v st" "searched c v st (bmp_pos st)" "\<not> set_range c 0 (nr_clusters v)" "pos_ok st"
  shows "\<exists>st'. (if bmp_pos st < zone_end st then Continue st else zone_pass_done st) = Continue st' \<and> live c v st' \<and> a_bmp st' = a_bmp st"
proof (cases "bmp_pos st < zone_end st")
  case True
  then show ?thesis
    using assms by (simp add: live_def)
next
  case False
  have "zones_ok (a_vol st)"
    using assms(2) zones_wf_ok [OF assms(1)] by (simp add: searching_def)
  then show ?thesis
    using zone_pass_done_live [OF assms(1-3) _ assms(4)] False zone_pass_done_ok [of st] by (auto simp: next_ok_def search_step_def)
qed

lemma end_runlist_no_err: "end_runlist st \<noteq> Err e"
  by (simp add: end_runlist_def Let_def)

context attr_store
begin

lemma bit_loop_live:
  assumes "window_ok c vcn0 1 F d p buf wb st" "\<not> has_guess st" "clusters st = 1" "0 \<le> l" "l < 8 * int (length buf)" "\<And>n. alloc n"
  shows "if max_empty_bit_range buf < 0 then bit_loop alloc vcn0 (8 * int p) buf l wb st = Ok (buf, wb, st, Scanned)
    else \<exists>buf' wb' st'. bit_loop alloc vcn0 (8 * int p) buf l wb st = Ok (buf', wb', st', Allocated)"
proof (cases "max_empty_bit_range buf < 0")
  case True
  then show ?thesis
    using assms(2,5) by (simp add: bit_loop.simps [of alloc vcn0 _ buf l wb st])
next
  case False
  let ?st = "st\<lparr>has_guess := True\<rparr>"
  define k where "k = nat (max_empty_bit_range buf)"
  obtain n where n: "0 < n" "int k + n \<le> 8 * int (length buf)" "clear_range buf (int k) n"
    using max_empty_bit_range_inv [of buf _, OF refl] False by (auto simp: k_def)
  have m: "max_empty_bit_range buf = int k"
    using False by (simp add: k_def)
  have k: "k < 8 * length buf" "\<not> bit (buf ! (k div 8)) (k mod 8)" "k div 8 < length buf"
    using n by (auto simp: clear_range_def bm_bit_def less_mult_imp_div_less)
  have w: "window_ok c vcn0 1 F d p buf wb ?st"
    by (rule window_ok_search [OF search_step_simps(2) assms(1)])
  obtain buf1 st1 where a: "alloc_bit alloc vcn0 (8 * int p) buf (int k) (buf ! (k div 8)) ?st = Ok (Some (buf1, st1))" "clusters st1 = 0"
    using alloc_bit_inv [of c vcn0 1 F d p buf ?st k alloc] w k assms(3,6) by (auto simp: window_ok_def)
  have x: "aget buf (int k div 8) = Ok (buf ! (k div 8))" "nat (int k mod 8) = k mod 8"
    using aget_nat [OF k(3)] by (simp_all add: of_nat_div nat_mod_distrib)
  have l: "int k < int (length buf) * 8"
    using k(1) by linarith
  have "bit_loop alloc vcn0 (8 * int p) buf l wb st = bit_loop alloc vcn0 (8 * int p) buf (int k) wb ?st"
    using assms(2,5) False m by (simp add: bit_loop.simps [of alloc vcn0 _ buf l wb st])
  then show ?thesis
    using False k l x a by (auto simp: bit_loop.simps [of alloc vcn0 _ buf "int k" wb ?st])
qed

lemma alloc_window_live:
  assumes st: "state_ok c vcn0 1 F st" "content (a_bmp st) = c" "live c v st" "bmp_pos st = int (8 * p + o8)" "o8 < 8" "zone_start st \<ge> 0"
    and buf: "buf = take n (drop p c)" "buf \<noteq> []" and v: "zones_wf v" "\<not> set_range c 0 (nr_clusters v)" and al: "\<And>n. alloc n"
  shows "case alloc_window alloc pwrite vcn0 buf st of Continue st' \<Rightarrow> live c v st' \<and> content (a_bmp st') = c | Stop st' r \<Rightarrow> r \<noteq> Err ENOSPC"
proof -
  let ?st = "st\<lparr>bmp_pos := 8 * int p\<rparr>"
  have q: "bmp_pos st div 8 = int p" "bmp_pos st mod 8 = int o8" "bmp_pos st - int o8 = 8 * int p"
    using st(4,5) by simp_all
  have s: "searching c v st" "searched c v st (bmp_pos st)"
    using st(3) by (simp_all add: live_def)
  have w: "window_ok c vcn0 1 F c p buf False ?st"
    using window_start [OF st(1), of buf n p "8 * int p"] st(2) buf by simp
  have l: "0 \<le> int o8" "int o8 < 8 * int (length buf)"
    using st(5) buf(2) by (cases buf; simp)+
  have g: "\<not> has_guess ?st" "clusters ?st = 1" "used_zone_pos st"
    using s(1) by (simp_all add: searching_def)
  note b = bit_loop_live [where alloc = alloc, OF w g(1,2) l al]
  show ?thesis
  proof (cases "max_empty_bit_range buf < 0")
    case True
    let ?q = "8 * int p + 8 * int (length buf)" let ?st' = "st\<lparr>bmp_pos := ?q\<rparr>"
    have "set_range c (8 * int p) ?q"
      using window_set [OF buf(1)] max_empty_bit_range_inv [of buf _, OF refl] True by simp
    then have "searched c v st ?q"
      using s(2) st(4) set_range_join [of c _ "bmp_pos st" "8 * int p" ?q] by (auto simp: searched_def)
    then have "searching c v ?st'" "searched c v ?st' (bmp_pos ?st')" "pos_ok ?st'"
      using s(1) st(6) by (auto simp: searching_def searched_def pos_ok_def)
    from live_next [OF v(1) this(1,2) v(2) this(3)] show ?thesis
      using True b q g(3) st(2) by (auto simp: alloc_window_def Let_def bitmap_writeback_def next_window_def)
  next
    case False
    then obtain buf' wb' st' where r: "bit_loop alloc vcn0 (8 * int p) buf (int o8) False ?st = Ok (buf', wb', st', Allocated)"
      using b by auto
    have "scan_ok c vcn0 1 F c p (length buf) (bit_loop alloc vcn0 (8 * int p) buf (int o8) False ?st)"
      by (rule bit_loop_inv [OF w]) (use g(2) al in simp_all)
    then have w': "window_ok c vcn0 1 F c p buf' wb' st'"
      using r by (auto simp: scan_ok_def)
    have a: "a_bmp st' = a_bmp st"
      using bit_loop_frame [OF r] by (simp add: same_search_def)
    obtain s' where "bitmap_writeback pwrite (a_bmp st) (int p) buf' wb' = (s', Ok ())"
      using writeback_ok [of "a_bmp st" c vcn0 1 F p buf' wb' st'] w' st(1,2) by (auto simp: state_ok_def)
    then show ?thesis
      using r q a end_runlist_no_err by (simp add: alloc_window_def Let_def obind_Err_iff)
  qed
qed

lemma alloc_body_live:
  assumes "state_ok c vcn0 1 F st" "content (a_bmp st) = c" "live c v st" "pos_ok st" "zones_wf v" "\<not> set_range c 0 (nr_clusters v)" "\<And>n. alloc n"
  shows "case alloc_body alloc pread pwrite vcn0 st of Continue st' \<Rightarrow> live c v st' \<and> content (a_bmp st') = c | Stop st' r \<Rightarrow> r \<noteq> Err ENOSPC"
proof -
  define p o8 where "p = nat (bmp_pos st div 8)" and "o8 = nat (bmp_pos st mod 8)"
  have p: "bmp_pos st = int (8 * p + o8)" "o8 < 8" "bmp_pos st div 8 = int p"
    using assms(4) by (simp_all add: p_def o8_def pos_ok_def)
  have r: "pread (a_bmp st) (int p) NTFS_LCNALLOC_BSIZE = Ok (take 4096 (drop p c))"
    using pread_clip [of "a_bmp st" 4096 p] assms(1,2) by (simp add: NTFS_LCNALLOC_BSIZE_def state_ok_def)
  have s: "searching c v st" "searched c v st (bmp_pos st)"
    using assms(3) by (simp_all add: live_def)
  have z: "\<exists>st'. zone_pass_done st = Continue st' \<and> live c v st' \<and> content (a_bmp st') = c"
    if "8 * int (length c) \<le> bmp_pos st \<or> zone_set c v (search_zone st)"
    using zone_pass_done_live [OF assms(5) s _ assms(6)] that zone_pass_done_ok [of st] assms(1,2)
    by (auto simp: next_ok_def search_step_def state_ok_def alloc_inv_def)
  show ?thesis
  proof (cases "zone_bit (search_zone st) AND full_zones (a_vol st) = 0")
    case False
    then have "zone_set c v (search_zone st)"
      using s(1) and_zone_bit [of "done_zones st" "search_zone st"] by (auto simp: searching_def and.commute)
    then show ?thesis
      using z False by (auto simp: alloc_body_def)
  next
    case True
    show ?thesis
    proof (cases "take 4096 (drop p c) = []")
      case e: True
      then have "8 * int (length c) \<le> bmp_pos st"
        using p(1) by auto
      then show ?thesis
        using z True e r p(3) by (auto simp: alloc_body_def)
    next
      case False
      then show ?thesis
        using alloc_window_live [where alloc = alloc and n = 4096, OF assms(1-3) p(1,2) _ refl False assms(5-7)] assms(4) True r p(3)
        by (simp add: alloc_body_def pos_ok_def)
    qed
  qed
qed

lemma alloc_loop_live:
  assumes "state_ok c vcn0 1 F st" "content (a_bmp st) = c" "live c v st" "pos_ok st" "zones_wf v" "\<not> set_range c 0 (nr_clusters v)" "\<And>n. alloc n"
  shows "snd (alloc_loop alloc pread pwrite vcn0 st) \<noteq> Err ENOSPC"
  using wf_alloc_rank assms(1-4)
proof (induction st rule: wf_induct_rule)
  case (less st)
  have c: "clusters st = 1"
    using less(4) by (simp add: live_def searching_def)
  have b: "body_ok c vcn0 1 F (alloc_body alloc pread pwrite vcn0 st)"
    by (rule alloc_body_ok [OF less(2,5) _ assms(7)]) (simp add: c)
  have l: "case alloc_body alloc pread pwrite vcn0 st of Continue st' \<Rightarrow> live c v st' \<and> content (a_bmp st') = c | Stop st' r \<Rightarrow> r \<noteq> Err ENOSPC"
    by (rule alloc_body_live [OF less(2-5) assms(5-7)])
  show ?case
  proof (cases "alloc_body alloc pread pwrite vcn0 st")
    case (Continue st')
    then show ?thesis
      using less(1) [OF alloc_body_rank [OF Continue]] b l by (simp add: body_ok_def alloc_loop.simps [of alloc pread pwrite vcn0 st])
  next
    case (Stop st' r)
    then show ?thesis
      using l by (simp add: alloc_loop.simps [of alloc pread pwrite vcn0 st])
  qed
qed

end

lemma alloc_start_live:
  assumes "zones_wf v" "full_zones v = 0" "zone = MFT_ZONE \<or> zone = DATA_ZONE"
  shows "live c v (alloc_start v s 1 (-1) zone)"
proof -
  have v: "v\<lparr>full_zones := 0\<rparr> = v"
    using assms(2) by simp
  have "searching c v (alloc_start v s 1 (-1) zone)"
    using v by (simp add: searching_def alloc_start_def Let_def split: prod.split)
  moreover have "searched c v (alloc_start v s 1 (-1) zone) (bmp_pos (alloc_start v s 1 (-1) zone))"
    using assms(3) zones_wfD [OF assms(1), of ZONE_MFT] zones_wfD [OF assms(1), of ZONE_DATA1] zones_wfD [OF assms(1), of ZONE_DATA2]
    by (auto simp: searched_def alloc_start_def Let_def MFT_ZONE_def DATA_ZONE_def zone_first_def zone_pos_def zone_lim_def set_range_empty)
  ultimately show ?thesis
    by (simp add: live_def)
qed

lemma one_cluster:
  assumes "runs_from v R" "int (length (rl_clusters R)) = 1"
  shows "\<exists>l. R = [\<lparr>vcn = v, lcn = int l, rlen = 1\<rparr>] \<and> rl_clusters R = [l]"
proof (cases R)
  case (Cons r Q)
  then have r: "vcn r = v" "0 \<le> lcn r" "0 < rlen r" "runs_from (v + rlen r) Q"
    using assms(1) by simp_all
  have n: "int (length (run_clusters r)) = rlen r"
    using r by (simp add: run_clusters_def nat_add_distrib)
  then have "rlen r + int (length (rl_clusters Q)) = 1"
    using assms(2) Cons by simp
  then have "rlen r = 1" "length (rl_clusters Q) = 0"
    using r(3) by linarith+
  moreover have "Q = []"
    using calculation(2) r(4) by (cases Q) (auto simp: run_clusters_def)
  moreover have "r = \<lparr>vcn = v, lcn = int (nat (lcn r)), rlen = 1\<rparr>"
    using r calculation(1) by (simp add: runlist_element.equality)
  ultimately show ?thesis
    using Cons r by (intro exI [of _ "nat (lcn r)"]) (simp add: run_clusters_def nat_add_distrib)
qed (use assms(2) in simp)

context attr_store
begin

lemma cluster_alloc_live:
  assumes s: "good s" "8 * int (length (content s)) < 2 ^ 34 - 128" and v: "zones_wf v" "full_zones v = 0" and args: "zone = MFT_ZONE \<or> zone = DATA_ZONE"
    and j: "j < 8 * length (content s)" "int j < nr_clusters v" "\<not> bm_bit (content s) j" and al: "\<And>n. alloc n"
  shows "\<exists>s' v' l. ntfs_cluster_alloc alloc pread pwrite s v start_vcn 1 (-1) zone =
      Some (s', v', Ok [\<lparr>vcn = start_vcn, lcn = int l, rlen = 1\<rparr>, \<lparr>vcn = start_vcn + 1, lcn = LCN_RL_NOT_MAPPED, rlen = 0\<rparr>]) \<and> good s' \<and>
    taken (content s) [l] (content s')"
proof -
  have "\<not> set_range (content s) 0 (nr_clusters v)"
    using j by (auto simp: set_range_def)
  moreover have st: "state_ok (content s) start_vcn 1 (free_clusters v) (alloc_start v s 1 (-1) zone)" "pos_ok (alloc_start v s 1 (-1) zone)"
    "0 < clusters (alloc_start v s 1 (-1) zone)"
    by (rule alloc_start_ok [OF zones_wf_ok [OF v(1)] _ s(1)]; simp)+
  moreover have "content (a_bmp (alloc_start v s 1 (-1) zone)) = content s"
    by (simp add: alloc_start_def Let_def split: prod.split)
  ultimately have n: "snd (alloc_loop alloc pread pwrite start_vcn (alloc_start v s 1 (-1) zone)) \<noteq> Err ENOSPC"
    using alloc_loop_live [where alloc = alloc, OF _ _ alloc_start_live [OF v args] _ v(1) _ al] by simp
  then obtain st' rl where "alloc_loop alloc pread pwrite start_vcn (alloc_start v s 1 (-1) zone) = (st', Ok rl)"
    using alloc_loop_ok [where alloc = alloc, OF st al] by (auto simp: alloc_result_def)
  then have "ntfs_cluster_alloc alloc pread pwrite s v start_vcn 1 (-1) zone = Some (a_bmp st', a_vol st', Ok rl)"
    using args al by (auto simp: ntfs_cluster_alloc_def FIRST_ZONE_def LAST_ZONE_def MFT_ZONE_def DATA_ZONE_def)
  moreover obtain s' v' r where r: "ntfs_cluster_alloc alloc pread pwrite s v start_vcn 1 (-1) zone = Some (s', v', r)" "good s'"
    "(\<exists>R. r = Ok (R @ [\<lparr>vcn = start_vcn + 1, lcn = LCN_RL_NOT_MAPPED, rlen = 0\<rparr>]) \<and> runs_from start_vcn R \<and>
        int (length (rl_clusters R)) = 1 \<and> taken (content s) (rl_clusters R) (content s')) \<or> r = Err ENOSPC"
    using cluster_alloc_ok [where alloc = alloc, OF s zones_wf_ok [OF v(1)] _ _ args al, of 1 "-1" start_vcn] by auto
  ultimately have "r \<noteq> Err ENOSPC"
    by auto
  then obtain R where R: "r = Ok (R @ [\<lparr>vcn = start_vcn + 1, lcn = LCN_RL_NOT_MAPPED, rlen = 0\<rparr>])" "runs_from start_vcn R"
    "int (length (rl_clusters R)) = 1" "taken (content s) (rl_clusters R) (content s')"
    using r(3) by blast
  then show ?thesis
    using one_cluster [OF R(2,3)] r(1,2) by auto
qed

end

end
