(* ===== verification/Lcnalloc_Frag.thy ===== *)
theory Lcnalloc_Frag
  imports Lcnalloc_Live
begin

text \<open>
  Allocation on a fragmented bitmap: each pass over a zone takes one range of free clusters of a window, so on a bitmap of one
  window an allocation takes at most six ranges.
\<close>

section \<open>The ranges of a window\<close>

text \<open>No range of clear bits is longer than \<open>k\<close>.\<close>

definition ranges_le :: "int \<Rightarrow> u8 list \<Rightarrow> bool" where
  "ranges_le k c \<longleftrightarrow> (\<forall>a m. 0 \<le> a \<and> a + m \<le> 8 * int (length c) \<and> clear_range c a m \<longrightarrow> m \<le> k)"

lemma clear_range_nil [simp]: "clear_range c a 0"
  by (auto simp: clear_range_def)

lemma ranges_le_nonneg: "ranges_le k c \<Longrightarrow> 0 \<le> k"
  unfolding ranges_le_def by (erule allE [of _ 0], erule allE [of _ 0]) simp

lemma alloc_bit_set:
  assumes "alloc_bit alloc v base buf l (buf ! nat (l div 8)) st = Ok (Some (buf', st'))" "0 \<le> l"
  shows "clusters st' = clusters st - 1" "bm_bit buf j \<Longrightarrow> bm_bit buf' j"
proof -
  have r: "buf' = buf[nat (l div 8) := buf ! nat (l div 8) OR push_bit (nat (l mod 8)) 1] \<and> clusters st' = clusters st - 1"
    using assms by (auto simp: alloc_bit_def add_cluster_def Let_def obind_Ok_iff aset_def split: if_splits)
  then show "clusters st' = clusters st - 1"
    by simp
  show "bm_bit buf j \<Longrightarrow> bm_bit buf' j"
    using r by (cases "nat (l div 8) = j div 8"; cases "j div 8 < length buf") (auto simp: bm_bit_def bit_or_iff list_update_beyond)
qed

text \<open>A scan takes the bits of one clear range, from \<open>l\<close> on when it has a guess.\<close>

definition takes :: "u8 list \<Rightarrow> int \<Rightarrow> 's alloc_state \<Rightarrow> 's alloc_state \<Rightarrow> bool" where
  "takes buf l st st' \<longleftrightarrow> (\<exists>a m. 0 \<le> a \<and> 0 \<le> m \<and> a + m \<le> 8 * int (length buf) \<and> clear_range buf a m \<and> clusters st' = clusters st - m \<and>
    (has_guess st \<longrightarrow> m = 0 \<or> a = l))"

lemma takes_none: "clusters st' = clusters st \<Longrightarrow> takes buf l st st'"
  unfolding takes_def by (intro exI [of _ "0 :: int"]) simp

lemma takes_bit:
  assumes a: "alloc_bit alloc v base buf l (buf ! nat (l div 8)) st = Ok (Some (buf1, st1))" and l: "0 \<le> l" "l < 8 * int (length buf)"
    and b: "\<not> bit (buf ! nat (l div 8)) (nat (l mod 8))" and t: "clusters st' = clusters st1 \<or> has_guess st1 \<and> takes buf1 (l + 1) st1 st'"
  shows "takes buf l st st'"
proof -
  note f = alloc_bit_set [OF a l(1)] alloc_bit_frame [OF a]
  have c0: "\<not> bm_bit buf (nat l)"
    using b l(1) by (simp add: bm_bit_def nat_div_distrib nat_mod_distrib)
  obtain m where m: "0 \<le> m" "clear_range buf1 (l + 1) m" "clusters st' = clusters st1 - m" "l + 1 + m \<le> 8 * int (length buf)"
  proof (cases "clusters st' = clusters st1")
    case True
    then show ?thesis
      using that [of 0] l(2) by simp
  next
    case False
    then show ?thesis
      using t that f(3) by (auto simp: takes_def)
  qed
  have "clear_range buf l (m + 1)"
    unfolding clear_range_def
  proof (intro allI impI)
    fix j assume "l \<le> j \<and> j < l + (m + 1)"
    then show "\<not> bm_bit buf (nat j)"
      using m(2) f(2) [of "nat j"] c0 by (cases "j = l") (auto simp: clear_range_def)
  qed
  then show ?thesis
    using m l f(1) unfolding takes_def by (intro exI [of _ l] exI [of _ "m + 1"]) auto
qed

lemma bit_loop_takes:
  assumes "bit_loop alloc v base buf l wb st = Ok (buf', wb', st', why)" "0 \<le> l"
  shows "takes buf l st st'"
  using assms
proof (induction alloc v base buf l wb st arbitrary: buf' wb' st' why rule: bit_loop.induct)
  case (1 alloc v base buf l wb st)
  note sim = bit_loop.simps [of alloc v base buf l wb st]
  consider "l \<ge> int (length buf) * 8 \<or> \<not> has_guess st \<and> max_empty_bit_range buf < 0"
    | "l < int (length buf) * 8" "\<not> has_guess st" "\<not> max_empty_bit_range buf < 0"
    | "l < int (length buf) * 8" "has_guess st"
    by linarith
  then show ?case
  proof cases
    case 1
    then show ?thesis
      using 1 "1.prems"(1) by (intro takes_none) (cases "l < int (length buf) * 8"; auto simp: sim)
  next
    case 2
    then have "takes buf (max_empty_bit_range buf) (st\<lparr>has_guess := True\<rparr>) st'"
      using "1.IH"(1) [OF 2, of buf' wb' st' why] "1.prems"(1) by (simp add: sim)
    then show ?thesis
      using 2(2) by (auto simp: takes_def)
  next
    case 3
    let ?x = "buf ! nat (l div 8)"
    have x: "aget buf (l div 8) = Ok ?x"
      using 3(1) "1.prems"(2) by (simp add: aget_def div_less_iff_less_mult pos_imp_zdiv_nonneg_iff)
    show ?thesis
    proof (cases "bit ?x (nat (l mod 8)) \<or> alloc_bit alloc v base buf l ?x st = Ok None")
      case True
      then show ?thesis
        using "1.prems"(1) 3 x by (intro takes_none) (cases "bit ?x (nat (l mod 8))"; auto simp: sim)
    next
      case b: False
      then obtain buf1 st1 where a: "alloc_bit alloc v base buf l ?x st = Ok (Some (buf1, st1))"
        using "1.prems"(1) 3 x by (auto simp: sim obind_Ok_iff)
      have "clusters st' = clusters st1 \<or> has_guess st1 \<and> takes buf1 (l + 1) st1 st'"
      proof (cases "clusters st1 = 0")
        case True
        then have "clusters st' = clusters st1"
          using "1.prems"(1) 3 x b a by (cases "used_zone_pos st1") (auto simp: sim)
        then show ?thesis ..
      next
        case False
        then show ?thesis
          using "1.IH"(2) [OF 3(1) _ x _ a refl refl False, of buf' wb' st' why] "1.prems" 3 x b a alloc_bit_frame [OF a] by (simp add: sim)
      qed
      then show ?thesis
        using takes_bit [OF a "1.prems"(2)] 3(1) b by simp
    qed
  qed
qed

lemma ranges_le_window:
  assumes "ranges_le k c" "taken c X d" "buf = take n (drop p d)"
  shows "ranges_le k buf"
  unfolding ranges_le_def
proof (intro allI impI)
  fix a m assume r: "0 \<le> a \<and> a + m \<le> 8 * int (length buf) \<and> clear_range buf a m"
  show "m \<le> k"
  proof (cases "buf = [] \<or> m \<le> 0")
    case True
    then show ?thesis
      using r ranges_le_nonneg [OF assms(1)] by auto
  next
    case False
    then have l: "p + length buf \<le> length d" "length d = length c"
      using assms(2,3) by (auto simp: taken_def)
    have "clear_range c (8 * int p + a) m"
      unfolding clear_range_def
    proof (intro allI impI)
      fix j assume j: "8 * int p + a \<le> j \<and> j < 8 * int p + a + m"
      define i where "i = nat (j - 8 * int p)"
      have i: "nat j = 8 * p + i" "i < 8 * length buf" "\<not> bm_bit buf i"
        using j r by (auto simp: i_def clear_range_def nat_eq_iff)
      have "bm_bit d (8 * p + i) = bm_bit buf i"
        using i(2) l(1) by (simp add: assms(3) bm_bit_def less_mult_imp_div_less mult.commute)
      then show "\<not> bm_bit c (nat j)"
        using assms(2) i l by (auto simp: taken_def)
    qed
    moreover have "0 \<le> 8 * int p + a" "8 * int p + a + m \<le> 8 * int (length c)"
      using r l by linarith+
    ultimately show ?thesis
      using assms(1) unfolding ranges_le_def by blast
  qed
qed

section \<open>The passes that are left\<close>

definition undone :: "u8 \<Rightarrow> nat" where
  "undone d = length (filter (\<lambda>z. \<not> bit d (zone_index z)) [ZONE_MFT, ZONE_DATA1, ZONE_DATA2])"

definition passes :: "'s alloc_state \<Rightarrow> nat" where
  "passes st = 2 * undone (done_zones st) - (if pass2 st then 1 else 0)"

text \<open>The zones are visited in one of two orders, and the current one is not done.\<close>

definition ordered :: "'s alloc_state \<Rightarrow> bool" where
  "ordered st \<longleftrightarrow> (let d = done_zones st in \<not> bit d (zone_index (search_zone st)) \<and>
     (case search_zone st of
        ZONE_MFT \<Rightarrow> bit d (zone_index ZONE_DATA1) = bit d (zone_index ZONE_DATA2)
      | ZONE_DATA1 \<Rightarrow> \<not> bit d (zone_index ZONE_DATA2)
      | ZONE_DATA2 \<Rightarrow> bit d (zone_index ZONE_DATA1)))"

lemma enter_zone_ordered:
  assumes "ordered st" "done_zones (mark_zone st) < 7"
  defines "st' \<equiv> enter_zone (mark_zone st)"
  shows "ordered st' \<and> undone (done_zones st') < undone (done_zones st)"
proof -
  let ?d = "done_zones (mark_zone st)"
  have d: "done_zones st' = ?d" "search_zone st' = search_zone (switch_zone (mark_zone st))" "search_zone (mark_zone st) = search_zone st"
    by (simp_all add: st'_def enter_zone_def Let_def switch_zone_frame search_zone_switch mark_zone_def)
  have b: "bit ?d (zone_index y) \<longleftrightarrow> bit (done_zones st) (zone_index y) \<or> y = search_zone st" for y
    by (cases y; cases "search_zone st") (auto simp: mark_zone_def bit_or_zone simp del: zone_bit.simps)
  have "\<not> (bit ?d 0 \<and> bit ?d 1 \<and> bit ?d 2)"
    using zones_full assms(2) by blast
  then show ?thesis
    using assms(1) b [of ZONE_MFT] b [of ZONE_DATA1] b [of ZONE_DATA2] d
    by (cases "search_zone st") (auto simp: ordered_def undone_def switch_zone_def Let_def and_zone_bit simp del: zone_bit.simps)
qed

lemma next_zone_ordered:
  "next_zone st = (st', True) \<Longrightarrow> ordered st \<Longrightarrow> ordered st' \<and> undone (done_zones st') < undone (done_zones st)"
proof (induction st rule: next_zone.induct)
  case (1 st)
  show ?case
  proof (cases "done_zones (mark_zone st) < 7")
    case True
    note e = enter_zone_ordered [OF 1(3) True]
    show ?thesis
      using 1(1) [OF refl refl True] 1(2) e True by (fastforce simp: next_zone.simps [of st] Let_def split: if_splits)
  next
    case False
    then show ?thesis
      using 1(2) by (simp add: next_zone.simps [of st] Let_def)
  qed
qed

lemma next_zone_used: "next_zone st = (st', m) \<Longrightarrow> used_zone_pos st' = used_zone_pos st"
proof (induction st rule: next_zone.induct)
  case (1 st)
  have "used_zone_pos (enter_zone (mark_zone st)) = used_zone_pos st" "used_zone_pos (mark_zone st) = used_zone_pos st"
    by (simp_all add: enter_zone_def mark_zone_def Let_def switch_zone_frame)
  then show ?case
    using 1(1) [OF refl refl] 1(2) by (auto simp: next_zone.simps [of st] Let_def split: if_splits)
qed

lemma ordered_passes: "ordered st \<Longrightarrow> 0 < passes st"
  by (cases "search_zone st") (auto simp: ordered_def passes_def undone_def Let_def)

lemma zone_pass_done_passes:
  assumes "ordered st"
  shows "case zone_pass_done st of Continue st' \<Rightarrow> ordered st' \<and> passes st' < passes st \<and> used_zone_pos st' = used_zone_pos st \<and> clusters st' = clusters st
    | Stop st' r \<Rightarrow> r = Err ENOSPC"
proof (cases "pass2 st")
  case False
  moreover have "0 < undone (done_zones st)"
    using ordered_passes [OF assms] by (auto simp: passes_def)
  ultimately show ?thesis
    using assms by (simp add: zone_pass_done_def Let_def ordered_def passes_def)
next
  case True
  obtain st' m where n: "next_zone st = (st', m)"
    by (cases "next_zone st") auto
  have "clusters st' = clusters st"
    using next_zone_step [OF n] by (simp add: search_step_def)
  moreover have "ordered st' \<and> passes st' < passes st" if m
    using next_zone_ordered [of st st'] n that assms True by (auto simp: passes_def)
  ultimately show ?thesis
    using True n next_zone_used [OF n] by (simp add: zone_pass_done_def)
qed

section \<open>The allocation\<close>

context attr_store
begin

text \<open>More clusters are wanted than the passes left can take; a position behind the bitmap takes none.\<close>

definition short :: "int \<Rightarrow> u8 list \<Rightarrow> 's alloc_state \<Rightarrow> bool" where
  "short k c st \<longleftrightarrow> ordered st \<and> used_zone_pos st \<and>
     k * int (passes st) - (if 8 * int (length c) \<le> bmp_pos st then k else 0) < clusters st"

lemma short_pass_done:
  assumes "ordered st" "used_zone_pos st" "0 \<le> k" "k * (int (passes st) - 1) < clusters st"
  shows "case zone_pass_done st of Continue st' \<Rightarrow> short k c st' | Stop st' r \<Rightarrow> r = Err ENOSPC"
proof (cases "zone_pass_done st")
  case (Continue st')
  then have p: "ordered st'" "passes st' < passes st" "used_zone_pos st'" "clusters st' = clusters st"
    using zone_pass_done_passes [OF assms(1)] assms(2) by simp_all
  have "k * int (passes st') \<le> k * (int (passes st) - 1)"
    using p(2) assms(3) by (intro mult_left_mono) simp_all
  then show ?thesis
    using Continue p assms(3,4) by (simp add: short_def)
qed (use zone_pass_done_passes [OF assms(1)] in simp)

text \<open>One window takes at most \<open>k\<close> clusters and ends behind the bitmap.\<close>

lemma alloc_window_short:
  assumes st: "state_ok c v count F st" "bmp_pos st = int (8 * p + o8)" "o8 < 8" "0 < clusters st" and al: "\<And>n. alloc n"
    and sh: "ordered st" "used_zone_pos st" "k * int (passes st) < clusters st" "ranges_le k c" "p < length c"
  shows "case alloc_window alloc pwrite v (drop p (content (a_bmp st))) st of Continue st' \<Rightarrow> short k c st' | Stop st' r \<Rightarrow> r = Err ENOSPC"
proof -
  let ?d = "content (a_bmp st)" and ?st = "st\<lparr>bmp_pos := 8 * int p\<rparr>"
  let ?buf = "drop p ?d"
  have q: "bmp_pos st div 8 = int p" "bmp_pos st mod 8 = int o8" "bmp_pos st - int o8 = 8 * int p"
    using st(2,3) by simp_all
  have d: "length ?d = length c" "taken c (rl_clusters (a_rl st)) ?d" "good (a_bmp st)" and k: "0 \<le> k"
    using st(1) ranges_le_nonneg [OF sh(4)] by (simp_all add: state_ok_def alloc_inv_def taken_def)
  have "window_ok c v count F ?d p ?buf False ?st"
    using window_start [OF st(1), of ?buf "length ?d" p] sh(5) d(1) by simp
  then have "scan_ok c v count F ?d p (length ?buf) (bit_loop alloc v (8 * int p) ?buf (int o8) False ?st)"
    by (rule bit_loop_inv) (use st(4) al in simp_all)
  then obtain buf' wb st' why where s: "bit_loop alloc v (8 * int p) ?buf (int o8) False ?st = Ok (buf', wb, st', why)"
    "window_ok c v count F ?d p buf' wb st'" "length buf' = length ?buf" "why = Scanned \<or> why = Allocated \<and> clusters st' = 0"
    by (auto simp: scan_ok_def)
  obtain m where m: "clusters st' = clusters st - m" "m \<le> k"
    using bit_loop_takes [OF s(1)] ranges_le_window [OF sh(4) d(2), of ?buf "length ?d" p] by (auto simp: ranges_le_def takes_def)
  have f: "a_bmp st' = a_bmp st" "bmp_pos st' = 8 * int p" "used_zone_pos st'" "ordered st'" "passes st' = passes st"
    using bit_loop_frame [OF s(1)] sh(1,2) by (simp_all add: same_search_def ordered_def passes_def)
  have more: "k * (int (passes st') - 1) < clusters st'"
    using sh(3) m f(5) by (simp add: algebra_simps)
  moreover have "0 \<le> k * (int (passes st') - 1)"
    using k ordered_passes [OF f(4)] by (intro mult_nonneg_nonneg) simp_all
  ultimately have why: "why = Scanned"
    using s(4) by auto
  obtain s' where s': "bitmap_writeback pwrite (a_bmp st) (int p) buf' wb = (s', Ok ())"
    using writeback_ok [OF d(3) s(2)] by blast
  let ?st' = "st'\<lparr>a_bmp := s', bmp_pos := 8 * int (length c)\<rparr>"
  have e: "8 * int p + 8 * int (length buf') = 8 * int (length c)"
    using s(3) sh(5) d(1) by simp
  have o': "ordered ?st'" "used_zone_pos ?st'" "k * (int (passes ?st') - 1) < clusters ?st'"
    using f more by (simp_all add: ordered_def passes_def)
  have "case next_window (st'\<lparr>a_bmp := s'\<rparr>) (length buf') of Continue st' \<Rightarrow> short k c st' | Stop st' r \<Rightarrow> r = Err ENOSPC"
    using o' short_pass_done [OF o'(1,2) k o'(3), of c] f(2,3) e by (simp add: next_window_def Let_def short_def algebra_simps)
  then show ?thesis
    using q s(1) s' why f(1) by (simp add: alloc_window_def Let_def)
qed

lemma alloc_body_short:
  assumes "state_ok c v count F st" "pos_ok st" "0 < clusters st" "\<And>n. alloc n" "short k c st" "ranges_le k c" "length c \<le> 4096"
  shows "case alloc_body alloc pread pwrite v st of Continue st' \<Rightarrow> short k c st' | Stop st' r \<Rightarrow> r = Err ENOSPC"
proof -
  define p o8 where "p = nat (bmp_pos st div 8)" and "o8 = nat (bmp_pos st mod 8)"
  have p: "bmp_pos st = int (8 * p + o8)" "o8 < 8" "bmp_pos st div 8 = int p"
    using assms(2) by (simp_all add: p_def o8_def pos_ok_def)
  let ?d = "content (a_bmp st)"
  have d: "length ?d = length c" "good (a_bmp st)"
    using assms(1) by (simp_all add: state_ok_def alloc_inv_def taken_def)
  have r: "pread (a_bmp st) (int p) NTFS_LCNALLOC_BSIZE = Ok (drop p ?d)"
    using pread_clip [of "a_bmp st" 4096 p] d assms(7) by (simp add: NTFS_LCNALLOC_BSIZE_def)
  have o: "ordered st" "used_zone_pos st" and k: "0 \<le> k"
    using assms(5) ranges_le_nonneg [OF assms(6)] by (simp_all add: short_def)
  have z: "case zone_pass_done st of Continue st' \<Rightarrow> short k c st' | Stop st' r \<Rightarrow> r = Err ENOSPC"
    by (rule short_pass_done [OF o k]) (use assms(5) k in \<open>auto simp: short_def algebra_simps split: if_splits\<close>)
  show ?thesis
  proof (cases "zone_bit (search_zone st) AND full_zones (a_vol st) \<noteq> 0 \<or> drop p ?d = []")
    case True
    then show ?thesis
      using z r p(3) by (auto simp: alloc_body_def)
  next
    case False
    then have pl: "p < length c"
      using d(1) by simp
    then have b: "k * int (passes st) < clusters st"
      using assms(5) p(1,2) by (simp add: short_def)
    show ?thesis
      using alloc_window_short [where alloc = alloc, OF assms(1) p(1,2) assms(3,4) o b assms(6) pl] False r p(3) by (simp add: alloc_body_def)
  qed
qed

lemma alloc_loop_short:
  assumes "state_ok c v count F st" "pos_ok st" "0 < clusters st" "\<And>n. alloc n" "short k c st" "ranges_le k c" "length c \<le> 4096"
  shows "snd (alloc_loop alloc pread pwrite v st) = Err ENOSPC"
  using wf_alloc_rank assms(1-3,5)
proof (induction st rule: wf_induct_rule)
  case (less st)
  note b = alloc_body_ok [where alloc = alloc, OF less(2-4) assms(4)]
    and s = alloc_body_short [where alloc = alloc, OF less(2-4) assms(4) less(5) assms(6,7)]
  show ?case
  proof (cases "alloc_body alloc pread pwrite v st")
    case (Continue st')
    then show ?thesis
      using less(1) [OF alloc_body_rank [OF Continue]] b s by (simp add: body_ok_def alloc_loop.simps [of alloc pread pwrite v st])
  next
    case (Stop st' r)
    then show ?thesis
      using s by (simp add: alloc_loop.simps [of alloc pread pwrite v st])
  qed
qed

lemma alloc_start_short:
  assumes "zones_wf v" "6 * k < count" "0 \<le> k" "zone = MFT_ZONE \<or> zone = DATA_ZONE"
  shows "short k c (alloc_start v s count (-1) zone)"
proof -
  have w: "mft_zone_start v \<le> mft_zone_end v" "mft_zone_start v \<le> mft_zone_pos v" "mft_zone_end v \<le> data1_zone_pos v"
    using assms(1) by (auto simp: zones_wf_def zone_first_def zone_pos_def)
  let ?st = "alloc_start v s count (-1) zone"
  have st: "done_zones ?st = 0" "search_zone ?st \<noteq> ZONE_DATA2" "used_zone_pos ?st" "clusters ?st = count"
    using w assms(4) by (auto simp: alloc_start_def Let_def MFT_ZONE_def DATA_ZONE_def)
  then have "ordered ?st" "passes ?st \<le> 6"
    by (auto simp: ordered_def passes_def undone_def split: zone.split)
  then have "k * int (passes ?st) \<le> k * 6"
    using assms(3) by (intro mult_left_mono) simp_all
  then show ?thesis
    using st \<open>ordered ?st\<close> assms(2,3) by (simp add: short_def)
qed

lemma cluster_alloc_short:
  assumes s: "good s" "length (content s) \<le> 4096" and v: "zones_wf v" and k: "ranges_le k (content s)" "6 * k < count"
    and z: "zone = MFT_ZONE \<or> zone = DATA_ZONE" and al: "\<And>n. alloc n"
  shows "\<exists>s' v'. ntfs_cluster_alloc alloc pread pwrite s v start_vcn count (-1) zone = Some (s', v', Err ENOSPC) \<and> content s' = content s"
proof -
  have k0: "0 \<le> k"
    by (rule ranges_le_nonneg [OF k(1)])
  then have c: "0 < count"
    using k(2) by simp
  note v' = zones_wf_ok [OF v]
  have "snd (alloc_loop alloc pread pwrite start_vcn (alloc_start v s count (-1) zone)) = Err ENOSPC"
    by (rule alloc_loop_short [where alloc = alloc, OF alloc_start_ok [OF v' c s(1)] al alloc_start_short [OF v k(2) k0 z] k(1) s(2)])
  then obtain st where "alloc_loop alloc pread pwrite start_vcn (alloc_start v s count (-1) zone) = (st, Err ENOSPC)"
    by (metis prod.collapse)
  then have n: "ntfs_cluster_alloc alloc pread pwrite s v start_vcn count (-1) zone = alloc_failed alloc pread pwrite st ENOSPC"
    using z c al by (auto simp: ntfs_cluster_alloc_def FIRST_ZONE_def LAST_ZONE_def MFT_ZONE_def DATA_ZONE_def)
  have f: "alloc_failed alloc pread pwrite st ENOSPC \<noteq> Some (s', v', Ok r)" for s' v' r
    by (auto simp: alloc_failed_def split: if_splits outcome.splits)
  have l: "8 * int (length (content s)) < 2 ^ 34 - 128"
    using s(2) by simp
  obtain s' v' r where a: "ntfs_cluster_alloc alloc pread pwrite s v start_vcn count (-1) zone = Some (s', v', r)"
    "(\<exists>R. r = Ok R) \<or> r = Err ENOSPC \<and> content s' = content s"
    using cluster_alloc_ok [where alloc = alloc, OF s(1) l v' c _ z al, of "-1" start_vcn] by blast
  then show ?thesis
    using n f [of s' v'] by auto
qed

end

end
