(* ===== verification/Lcnalloc_Props.thy ===== *)
theory Lcnalloc_Props
  imports Lcnalloc_Frag Disk_Props
begin

text \<open>
  The properties of the cluster allocator, on a bitmap attribute in real runs of the disk.
\<close>

section \<open>The attribute of the bitmap\<close>

text \<open>An attribute of \<open>n\<close> bytes in a byte store: reads are cut at its size.\<close>

locale sized_store = byte_store pread pwrite content good
  for pread :: "'s pread_fn" and pwrite :: "'s pwrite_fn" and content :: "'s \<Rightarrow> u8 list" and good :: "'s \<Rightarrow> bool" +
  fixes n :: nat

definition sized_content :: "nat \<Rightarrow> ('s \<Rightarrow> u8 list) \<Rightarrow> 's \<Rightarrow> u8 list" where
  "sized_content n content s = take n (content s)"

definition sized_good :: "nat \<Rightarrow> ('s \<Rightarrow> u8 list) \<Rightarrow> ('s \<Rightarrow> bool) \<Rightarrow> 's \<Rightarrow> bool" where
  "sized_good n content good s \<longleftrightarrow> good s \<and> n \<le> length (content s)"

lemma take_bsplice: "p + length w \<le> n \<Longrightarrow> n \<le> length c \<Longrightarrow> take n (bsplice c p w) = bsplice (take n c) p w"
  by (cases "n = p") (auto simp: bsplice_def drop_take min_def)

sublocale sized_store \<subseteq> sized: attr_store "attr_pread (int n) pread" pwrite "sized_content n content" "sized_good n content good"
proof unfold_locales
  have clip: "attr_pread (int n) pread s (int p) (int k) = Ok (take k (drop p (take n (content s))))"
    if "good s" "n \<le> length (content s)" "0 < k" for s p k
  proof (cases "p + k \<le> n")
    case True
    then show ?thesis
      using that pread_in [of s p k] by (auto simp: attr_pread_def drop_take min_def)
  next
    case False
    then show ?thesis
      using that pread_in [of s p "n - p"] by (auto simp: attr_pread_def drop_take min_def of_nat_diff)
  qed
  show "attr_pread (int n) pread s (int p) (int k) = Ok (take k (drop p (sized_content n content s)))"
    if "sized_good n content good s" "0 < k" for s p k
    using clip that by (simp add: sized_good_def sized_content_def)
  show "attr_pread (int n) pread s (int p) (int k) = Ok (take k (drop p (sized_content n content s)))"
    if "sized_good n content good s" "p + k \<le> length (sized_content n content s)" for s p k
    using clip [of s k p] that by (cases "k = 0") (auto simp: sized_good_def sized_content_def attr_pread_def)
  show "\<exists>s'. pwrite s (int p) w = (s', Ok (int (length w))) \<and> sized_good n content good s' \<and> sized_content n content s' = bsplice (sized_content n content s) p w"
    if "sized_good n content good s" "p + length w \<le> length (sized_content n content s)" for s p w
  proof -
    have "p + length w \<le> n" "n \<le> length (content s)" "good s"
      using that by (simp_all add: sized_good_def sized_content_def)
    then show ?thesis
      using pwrite_in [of s p w] by (auto simp: sized_good_def sized_content_def take_bsplice)
  qed
qed

sublocale disk_runs \<subseteq> sized_store "rl_store_pread io stale vol (R @ [t])" "rl_store_pwrite io stale vol (R @ [t])"
  "runs_content media vol R" "runs_good media vol R" n for n
  by unfold_locales

context disk_runs
begin

lemmas runs_cluster_alloc = sized.cluster_alloc_ok and runs_alloc_free = sized.alloc_free_ok and runs_alloc_live = sized.cluster_alloc_live
  and runs_alloc_short = sized.cluster_alloc_short

end

lemma disk_runsI: "disk io media \<Longrightarrow> rlen t = 0 \<Longrightarrow> \<not> vol_readonly vol \<Longrightarrow> disk_runs io media vol t"
  by (simp add: disk_runs_def disk_runs_axioms_def)

lemma free_bits_code: "free_bits c = length (filter (\<lambda>j. \<not> bm_bit c j) [0..<8 * length c])"
proof -
  have "{j. j < 8 * length c \<and> \<not> bm_bit c j} = set (filter (\<lambda>j. \<not> bm_bit c j) [0..<8 * length c])"
    by auto
  then show ?thesis
    by (simp only: free_bits_def distinct_card distinct_filter distinct_upt)
qed

section \<open>All clusters or none\<close>

text \<open>C5. An allocation on a disk that works, with valid arguments and enough memory, ends and gives all clusters or none. It
  returns a runlist that starts at the VCN asked for, has the clusters asked for and the terminator; its clusters are
  different and were free, and exactly their bits are added to the bitmap. Or it fails with \<open>ENOSPC\<close>, and the
  bitmap is what it was. A count of free clusters that is that of the bitmap stays so.\<close>

theorem cluster_alloc_all_or_none:
  assumes "disk io media" "rlen t = 0" "\<not> vol_readonly vol" "sized_good n (runs_content media vol R) (runs_good media vol R) dev" "8 * int n < 2 ^ 34 - 128"
    "zones_ok v" "0 < count" "-1 \<le> start_lcn" "zone = MFT_ZONE \<or> zone = DATA_ZONE" "\<And>n. alloc n"
  shows "\<exists>dev' v' r. ntfs_cluster_alloc alloc (attr_pread (int n) (rl_store_pread io stale vol (R @ [t]))) (rl_store_pwrite io stale vol (R @ [t]))
        dev v start_vcn count start_lcn zone = Some (dev', v', r) \<and> sized_good n (runs_content media vol R) (runs_good media vol R) dev' \<and> zones_ok v' \<and>
    ((\<exists>A. r = Ok (A @ [\<lparr>vcn = start_vcn + count, lcn = LCN_RL_NOT_MAPPED, rlen = 0\<rparr>]) \<and> runs_from start_vcn A \<and> int (length (rl_clusters A)) = count \<and>
        taken (sized_content n (runs_content media vol R) dev) (rl_clusters A) (sized_content n (runs_content media vol R) dev')) \<or>
      r = Err ENOSPC \<and> sized_content n (runs_content media vol R) dev' = sized_content n (runs_content media vol R) dev) \<and>
    (free_clusters v = int (free_bits (sized_content n (runs_content media vol R) dev)) \<longrightarrow>
      free_clusters v' = int (free_bits (sized_content n (runs_content media vol R) dev')))"
proof -
  have "8 * int (length (sized_content n (runs_content media vol R) dev)) < 2 ^ 34 - 128"
    using assms(4,5) by (simp add: sized_content_def sized_good_def)
  then show ?thesis
    using disk_runs.runs_cluster_alloc [where alloc = alloc, OF disk_runsI [OF assms(1-3)] assms(4) _ assms(6-10)] by blast
qed

text \<open>A volume of 32 clusters with the MFT zone from cluster 8 to cluster 16.\<close>

definition ex_alloc_vol :: "int \<Rightarrow> alloc_volume" where
  "ex_alloc_vol n = \<lparr>major_ver = 3, sector_size = 512, sector_size_bits = 9, cluster_size = 4096, mft_record_size = 1024,
     indx_record_size = 4096, cluster_size_bits = 12, mft_record_size_bits = 10, indx_record_size_bits = 12,
     nr_clusters = 32, mft_lcn = 8, mftmirr_lcn = 8, mftmirr_size = 4, vol_readonly = False,
     full_zones = 0, mft_zone_start = 8, mft_zone_end = 16, mft_zone_pos = 8, data1_zone_pos = 16, data2_zone_pos = 0, free_clusters = n\<rparr>"

abbreviation "ex_runs \<equiv> [rle 0 2 1, rle 1 0 1]"

text \<open>A bitmap of four bytes in two runs of the disk.\<close>

lemma ex_bitmap:
  "sized_good 4 (runs_content (\<lambda>d. d) small_vol ex_runs) (runs_good (\<lambda>d. d) small_vol ex_runs) (ex_dev [1, 2, 3, 4, 5, 6])"
  "sized_content 4 (runs_content (\<lambda>d. d) small_vol ex_runs) (ex_dev [1, 2, 3, 4, 5, 6]) = [5, 6, 1, 2]"
proof -
  have c: "runs_content (\<lambda>d. d) small_vol ex_runs (ex_dev [1, 2, 3, 4, 5, 6]) = [5, 6, 1, 2]"
    by (simp add: runs_content_def ex_dev_def ex_vol_def run_size_def run_bytes_def rle_def)
  then show "sized_good 4 (runs_content (\<lambda>d. d) small_vol ex_runs) (runs_good (\<lambda>d. d) small_vol ex_runs) (ex_dev [1, 2, 3, 4, 5, 6])"
    by (auto simp: sized_good_def runs_good_def ex_dev_def ex_vol_def run_ok_def run_size_def rle_def lcn_defs real_runs_def rl_addrs_def run_addrs_def)
  show "sized_content 4 (runs_content (\<lambda>d. d) small_vol ex_runs) (ex_dev [1, 2, 3, 4, 5, 6]) = [5, 6, 1, 2]"
    using c by (simp add: sized_content_def)
qed

lemma ex_zones: "zones_ok (ex_alloc_vol n)" "zones_wf (ex_alloc_vol n)"
  by (simp_all add: zones_ok_def zones_wf_def ex_alloc_vol_def zone_first_def zone_pos_def zone_lim_def)

theorem cluster_alloc_all_or_none_witness:
  "\<exists>dev' v' r. ntfs_cluster_alloc (\<lambda>n. True) (attr_pread (int 4) (rl_store_pread ram_disk EIO small_vol (ex_runs @ [rle 2 (-3) 0])))
      (rl_store_pwrite ram_disk EIO small_vol (ex_runs @ [rle 2 (-3) 0])) (ex_dev [1, 2, 3, 4, 5, 6]) (ex_alloc_vol 26) 7 3 (-1) DATA_ZONE =
      Some (dev', v', r) \<and>
    ((\<exists>A. r = Ok (A @ [\<lparr>vcn = 10, lcn = LCN_RL_NOT_MAPPED, rlen = 0\<rparr>]) \<and>
       taken [5, 6, 1, 2] (rl_clusters A) (sized_content 4 (runs_content (\<lambda>d. d) small_vol ex_runs) dev')) \<or> r = Err ENOSPC)"
  using cluster_alloc_all_or_none [OF ram.disk_axioms _ _ ex_bitmap(1) _ ex_zones(1), of "rle 2 (-3) 0" 3 "-1" DATA_ZONE "\<lambda>n. True" EIO 26 7] ex_bitmap(2)
  by (auto simp: rle_def ex_vol_def)

text \<open>C25. Freeing the runlist that an allocation returned restores the bitmap, and the clusters are counted as free again. When the
  count of free clusters was that of the bitmap before the allocation, the allocation lowers it by the clusters it gives, and
  freeing them restores it.\<close>

theorem cluster_alloc_free:
  assumes "disk io media" "rlen t = 0" "\<not> vol_readonly vol" "sized_good n (runs_content media vol R) (runs_good media vol R) dev" "8 * int n < 2 ^ 34 - 128"
    "zones_ok v" "0 < count" "-1 \<le> start_lcn" "zone = MFT_ZONE \<or> zone = DATA_ZONE" "\<And>n. alloc n"
    "ntfs_cluster_alloc alloc (attr_pread (int n) (rl_store_pread io stale vol (R @ [t]))) (rl_store_pwrite io stale vol (R @ [t]))
        dev v start_vcn count start_lcn zone = Some (dev1, v1, Ok rl)"
  shows "\<exists>dev2 v2. ntfs_cluster_free_from_rl alloc (attr_pread (int n) (rl_store_pread io stale vol (R @ [t]))) (rl_store_pwrite io stale vol (R @ [t])) dev1 v1 rl =
      Some (dev2, v2, Ok ()) \<and> sized_content n (runs_content media vol R) dev2 = sized_content n (runs_content media vol R) dev \<and>
    free_clusters v2 = free_clusters v1 + count \<and>
    (free_clusters v = int (free_bits (sized_content n (runs_content media vol R) dev)) \<longrightarrow>
      free_clusters v1 = free_clusters v - count \<and> free_clusters v2 = free_clusters v)"
proof -
  have "8 * int (length (sized_content n (runs_content media vol R) dev)) < 2 ^ 34 - 128"
    using assms(4,5) by (simp add: sized_content_def sized_good_def)
  then show ?thesis
    using disk_runs.runs_alloc_free [where alloc = alloc, OF disk_runsI [OF assms(1-3)] assms(11) assms(4) _ assms(6-10)] by blast
qed

theorem cluster_alloc_free_witness:
  "\<exists>dev1 v1 rl dev2 v2. ntfs_cluster_alloc (\<lambda>n. True) (attr_pread (int 4) (rl_store_pread ram_disk EIO small_vol (ex_runs @ [rle 2 (-3) 0])))
      (rl_store_pwrite ram_disk EIO small_vol (ex_runs @ [rle 2 (-3) 0])) (ex_dev [1, 2, 3, 4, 5, 6]) (ex_alloc_vol 26) 7 1 (-1) DATA_ZONE = Some (dev1, v1, Ok rl) \<and>
    ntfs_cluster_free_from_rl (\<lambda>n. True) (attr_pread (int 4) (rl_store_pread ram_disk EIO small_vol (ex_runs @ [rle 2 (-3) 0])))
      (rl_store_pwrite ram_disk EIO small_vol (ex_runs @ [rle 2 (-3) 0])) dev1 v1 rl = Some (dev2, v2, Ok ()) \<and>
    sized_content 4 (runs_content (\<lambda>d. d) small_vol ex_runs) dev2 = [5, 6, 1, 2] \<and> free_clusters v1 = 25 \<and> free_clusters v2 = 26"
proof -
  have d: "disk_runs ram_disk (\<lambda>d. d) small_vol (rle 2 (-3) 0)"
    by (rule disk_runsI [OF ram.disk_axioms]) (simp_all add: rle_def ex_vol_def)
  have b: "(1 :: nat) < 8 * length [5 :: u8, 6, 1, 2]" "\<not> bm_bit [5, 6, 1, 2] 1"
    by (simp_all add: bm_bit_def)
  obtain dev1 v1 rl where a: "ntfs_cluster_alloc (\<lambda>n. True) (attr_pread (int 4) (rl_store_pread ram_disk EIO small_vol (ex_runs @ [rle 2 (-3) 0])))
      (rl_store_pwrite ram_disk EIO small_vol (ex_runs @ [rle 2 (-3) 0])) (ex_dev [1, 2, 3, 4, 5, 6]) (ex_alloc_vol 26) 7 1 (-1) DATA_ZONE = Some (dev1, v1, Ok rl)"
    using disk_runs.runs_alloc_live [where alloc = "\<lambda>n. True" and j = 1, OF d ex_bitmap(1) _ ex_zones(2), unfolded ex_bitmap(2), OF _ _ _ b(1) _ b(2),
        of 26 DATA_ZONE EIO 7] by (auto simp: ex_alloc_vol_def)
  have "free_bits [5, 6, 1, 2] = 26"
    by (subst free_bits_code) code_simp
  then have "free_clusters (ex_alloc_vol 26) = int (free_bits [5, 6, 1, 2])" "free_clusters (ex_alloc_vol 26) = 26"
    by (simp_all add: ex_alloc_vol_def)
  then show ?thesis
    using cluster_alloc_free [OF ram.disk_axioms _ _ ex_bitmap(1) _ ex_zones(1) _ _ _ _ a] a ex_bitmap(2) by (auto simp: rle_def ex_vol_def)
qed

section \<open>One cluster\<close>

text \<open>C26. The search for free space in a window returns the first bit of a longest range of clear bits, or -1 when all bits
  are set.\<close>

theorem max_empty_bit_range_longest:
  "if max_empty_bit_range buf < 0 then \<forall>j < 8 * length buf. bm_bit buf j
   else \<exists>n > 0. max_empty_bit_range buf + n \<le> 8 * int (length buf) \<and> clear_range buf (max_empty_bit_range buf) n \<and>
     (\<forall>a m. 0 \<le> a \<and> a + m \<le> 8 * int (length buf) \<and> clear_range buf a m \<longrightarrow> m \<le> n)"
  by (rule max_empty_bit_range_inv [OF refl])

theorem max_empty_bit_range_longest_witness:
  "max_empty_bit_range [0x0f, 0, 0xf1] = 4 \<and>
   (\<exists>n > 0. 4 + n \<le> 24 \<and> clear_range [0x0f, 0, 0xf1] 4 n \<and> (\<forall>a m. 0 \<le> a \<and> a + m \<le> 24 \<and> clear_range [0x0f, 0, 0xf1] a m \<longrightarrow> m \<le> n))"
proof -
  have "max_empty_bit_range [0x0f, 0, 0xf1] = 4"
    by code_simp
  then show ?thesis
    using max_empty_bit_range_longest [of "[0x0f, 0, 0xf1]"] by simp
qed

text \<open>C6. A free cluster is found: on a volume none of whose zones is marked full, an allocation of one cluster without a
  preferred place returns a run of one cluster that was free, if any cluster is free, wherever it is and wherever the
  positions of the zones are.\<close>

theorem cluster_alloc_finds_free:
  assumes "disk io media" "rlen t = 0" "\<not> vol_readonly vol" "sized_good n (runs_content media vol R) (runs_good media vol R) dev" "8 * int n < 2 ^ 34 - 128"
    "zones_wf v" "full_zones v = 0" "zone = MFT_ZONE \<or> zone = DATA_ZONE" "\<And>n. alloc n"
    "j < 8 * n" "int j < nr_clusters v" "\<not> bm_bit (sized_content n (runs_content media vol R) dev) j"
  shows "\<exists>dev' v' l. ntfs_cluster_alloc alloc (attr_pread (int n) (rl_store_pread io stale vol (R @ [t]))) (rl_store_pwrite io stale vol (R @ [t]))
        dev v start_vcn 1 (-1) zone =
      Some (dev', v', Ok [\<lparr>vcn = start_vcn, lcn = int l, rlen = 1\<rparr>, \<lparr>vcn = start_vcn + 1, lcn = LCN_RL_NOT_MAPPED, rlen = 0\<rparr>]) \<and>
    taken (sized_content n (runs_content media vol R) dev) [l] (sized_content n (runs_content media vol R) dev')"
proof -
  have l: "length (sized_content n (runs_content media vol R) dev) = n"
    using assms(4) by (simp add: sized_content_def sized_good_def)
  then have p: "8 * int (length (sized_content n (runs_content media vol R) dev)) < 2 ^ 34 - 128" "j < 8 * length (sized_content n (runs_content media vol R) dev)"
    using assms(5,10) by simp_all
  show ?thesis
    using disk_runs.runs_alloc_live [where alloc = alloc, OF disk_runsI [OF assms(1-3)] assms(4) p(1) assms(6-8) p(2) assms(11,12,9), of stale start_vcn] by blast
qed

theorem cluster_alloc_finds_free_witness:
  "\<exists>dev' v' l. ntfs_cluster_alloc (\<lambda>n. True) (attr_pread (int 4) (rl_store_pread ram_disk EIO small_vol (ex_runs @ [rle 2 (-3) 0])))
      (rl_store_pwrite ram_disk EIO small_vol (ex_runs @ [rle 2 (-3) 0])) (ex_dev [1, 2, 3, 4, 5, 6]) (ex_alloc_vol 26) 7 1 (-1) MFT_ZONE =
      Some (dev', v', Ok [rle 7 (int l) 1, rle 8 (-2) 0]) \<and> taken [5, 6, 1, 2] [l] (sized_content 4 (runs_content (\<lambda>d. d) small_vol ex_runs) dev')"
  using cluster_alloc_finds_free [where t = "rle 2 (-3) 0" and zone = MFT_ZONE and alloc = "\<lambda>n. True" and j = 1 and stale = EIO and start_vcn = 7,
      OF ram.disk_axioms _ _ ex_bitmap(1) _ ex_zones(2) [of 26]] ex_bitmap(2)
  by (auto simp: rle_def ex_vol_def ex_alloc_vol_def bm_bit_def LCN_RL_NOT_MAPPED_def)

section \<open>Space that is not found\<close>

text \<open>An attribute in memory.\<close>

definition mem_pread :: "u8 list pread_fn" where
  "mem_pread d pos count = Ok (take (nat count) (drop (nat pos) d))"

definition mem_pwrite :: "u8 list pwrite_fn" where
  "mem_pwrite d pos w = (bsplice d (nat pos) w, Ok (int (length w)))"

interpretation mem: attr_store mem_pread mem_pwrite "\<lambda>d. d" "\<lambda>d. True"
  by unfold_locales (simp_all add: mem_pread_def mem_pwrite_def)





end
