(* ===== verification/Logfile_Props.thy ===== *)
theory Logfile_Props
  imports Logfile_Safe Lcnalloc_Props
begin

text \<open>
  The properties of the checks of the journal, on a journal in real runs of the disk.
\<close>

context disk_runs
begin

lemmas runs_check_logfile = sized.check_logfile_ok and runs_check_empty = sized.check_logfile_empty and runs_empty_loop = sized.empty_loop_ok

end

section \<open>Any content of the journal\<close>

text \<open>C16. The check of a journal with any content returns and stays inside its buffers, and so does the test whether the page it
  found says that the volume is clean, provided every block that looks like a restart page, at the positions where the check looks for one, has its restart area not at
  offset 480 and no more client records than 16 bits can count bytes.\<close>

theorem logfile_check_safe:
  assumes "disk io media" "rlen t = 0" "\<not> vol_readonly vol" "sized_good n (runs_content media vol R) (runs_good media vol R) dev"
    "journal_fits (sized_content n (runs_content media vol R) dev)"
  shows "osafe (\<lambda>(log_empty, ok, rp). is_Ok (ntfs_is_logfile_clean log_empty rp))
    (ntfs_check_logfile alloc (attr_pread (int n) (rl_store_pread io stale vol (R @ [t]))) dev (int n) log_empty)"
  by (rule disk_runs.runs_check_logfile [OF disk_runsI [OF assms(1-3)] assms(4,5)])

text \<open>A restart page of 512 bytes with a restart area at \<open>ra\<close>, \<open>n\<close> client records behind \<open>ca\<close> bytes, and the first record in use
  \<open>idx\<close>.\<close>

definition ex_restart :: "u16 \<Rightarrow> u16 \<Rightarrow> u16 \<Rightarrow> u16 \<Rightarrow> u8 list" where
  "ex_restart ra ca n idx = fold (\<lambda>(i, w) b. set_le16 b i w)
     [(0, 0x5352), (2, 0x5254), (4, 30), (6, 2), (16, 512), (20, 512), (24, ra), (26, 1), (28, 1), (unat ra + 8, n), (unat ra + 10, 0xffff),
      (unat ra + 12, idx), (unat ra + 16, 67), (unat ra + 20, ca), (unat ra + 22, ca)] (replicate 512 0)"

text \<open>A restart page with one client, which is in use, and a journal of 50 clusters that begins with it.\<close>

definition ex_page :: "u8 list" where
  "ex_page = fold (\<lambda>(i, w) b. set_le16 b i w) [(60, 224), (120, 0xffff), (122, 0xffff)] (ex_restart 40 64 1 0)"

definition ex_journal :: "u8 list" where
  "ex_journal = ex_page @ replicate 204288 0"

lemma one_run_good:
  assumes "0 < k" "length m = k * 2 ^ unat (cluster_size_bits vol)"
  shows "sized_good (length m) (runs_content (\<lambda>d. d) vol [rle 0 0 (int k)]) (runs_good (\<lambda>d. d) vol [rle 0 0 (int k)]) (ex_dev m)"
  using assms by (simp add: sized_good_def runs_good_def runs_content_def ex_dev_def run_ok_def run_size_def run_bytes_def rle_def lcn_defs real_runs_def run_addrs_def)

lemma one_run_content:
  assumes "0 < k" "length m = k * 2 ^ unat (cluster_size_bits vol)"
  shows "sized_content (length m) (runs_content (\<lambda>d. d) vol [rle 0 0 (int k)]) (ex_dev m) = m"
  using assms by (simp add: sized_content_def runs_content_def ex_dev_def run_bytes_def run_size_def rle_def lcn_defs real_runs_def run_addrs_def)

lemma ex_page_fields: "le16_at ex_page 24 = 40" "le16_at ex_page 62 = 64" "le16_at ex_page 48 = 1"
  by code_simp+

lemma ex_page_ok:
  "length ex_page = 512" "ntfs_check_and_load_restart_page (\<lambda>n. True) mem_pread [] ex_page 0 = Ok (ex_page, 0)" "restart_fits ex_page"
  by (code_simp, code_simp) (simp add: restart_fits_def ex_page_fields LOG_CLIENT_RECORD_SIZE_def)

lemma ex_journal_fits: "journal_fits ex_journal"
  unfolding journal_fits_def
proof (intro allI impI)
  fix p
  assume p: "restart_pos p \<and> p + 512 \<le> length ex_journal \<and> (take 4 (drop p ex_journal) = magic_RSTR \<or> take 4 (drop p ex_journal) = magic_CHKD)"
  have "p = 0"
  proof (rule ccontr)
    assume "p \<noteq> 0"
    then obtain i where "p = 512 * 2 ^ i"
      using p by (auto simp: restart_pos_def)
    then have "512 \<le> p"
      by simp
    then have "set (take 4 (drop p ex_journal)) \<subseteq> {0}"
      by (auto simp: ex_journal_def ex_page_ok(1) dest!: in_set_takeD)
    then show False
      using p by (auto simp: magic_RSTR_def magic_CHKD_def)
  qed
  then show "restart_fits (take 512 (drop p ex_journal))"
    using ex_page_ok by (simp add: ex_journal_def)
qed

theorem logfile_check_safe_witness:
  "ntfs_check_and_load_restart_page (\<lambda>n. True) mem_pread [] (take 512 ex_journal) 0 = Ok (ex_page, 0) \<and> journal_fits ex_journal \<and>
   osafe (\<lambda>(log_empty, ok, rp). is_Ok (ntfs_is_logfile_clean log_empty rp))
     (ntfs_check_logfile (\<lambda>n. True) (attr_pread (int 204800) (rl_store_pread ram_disk EIO ex_vol ([rle 0 0 (int 50)] @ [rle 50 (-3) 0])))
       (ex_dev ex_journal) (int 204800) False)"
proof (intro conjI)
  have l: "length ex_journal = 204800" "length ex_journal = 50 * 2 ^ unat (cluster_size_bits ex_vol)"
    by (simp_all add: ex_journal_def ex_page_ok(1) ex_vol_def)
  note g = one_run_good [OF _ l(2), unfolded l(1)] and c = one_run_content [OF _ l(2), unfolded l(1)]
  show "ntfs_check_and_load_restart_page (\<lambda>n. True) mem_pread [] (take 512 ex_journal) 0 = Ok (ex_page, 0)"
    using ex_page_ok by (simp add: ex_journal_def)
  show "journal_fits ex_journal"
    by (rule ex_journal_fits)
  show "osafe (\<lambda>(log_empty, ok, rp). is_Ok (ntfs_is_logfile_clean log_empty rp))
     (ntfs_check_logfile (\<lambda>n. True) (attr_pread (int 204800) (rl_store_pread ram_disk EIO ex_vol ([rle 0 0 (int 50)] @ [rle 50 (-3) 0])))
       (ex_dev ex_journal) (int 204800) False)"
    by (rule logfile_check_safe [OF ram.disk_axioms _ _ g])
      (simp_all only: c ex_journal_fits, simp_all add: rle_def ex_vol_def)
qed

section \<open>Pages that are read past their end\<close>



text \<open>The restart area at the offset 480 passes the tests of the header, and its last two fields lie behind the block of 512 bytes.
  Any page with this offset that would pass the check of the area with its fields in memory makes the check, on the block that
  the code reads, read behind it; no other result than a refusal or this is possible.\<close>

theorem restart_area_overreads:
  assumes "length rp = 512" "le16_at rp 24 = 480"
  shows "ntfs_check_restart_area rp \<in> {Ok False, Fault} \<and>
    (ntfs_check_restart_area (rp @ rest) = Ok True \<longrightarrow> ntfs_check_restart_area rp = Fault)"
proof -
  have a: "le16_at (rp @ rest) i = le16_at rp i" if "i + 2 \<le> 512" for i
    using that assms(1) by (simp add: le16_at_def nth_append)
  have c: "le32_at (rp @ rest) i = le32_at rp i" "le64_at (rp @ rest) i = le64_at rp i" if "i + 8 \<le> 512" for i
    using that assms(1) by (simp_all add: le32_at_def le64_at_def le16_at_def nth_append)
  have "le32_at (rp @ rest) 16 = le32_at rp 16" "le32_at (rp @ rest) 496 = le32_at rp 496" "le64_at (rp @ rest) 504 = le64_at rp 504"
    "le16_at (rp @ rest) 24 = le16_at rp 24" "le16_at (rp @ rest) 502 = le16_at rp 502" "le16_at (rp @ rest) 488 = le16_at rp 488"
    "le16_at (rp @ rest) 500 = le16_at rp 500" "le16_at (rp @ rest) 490 = le16_at rp 490" "le16_at (rp @ rest) 492 = le16_at rp 492"
    by (simp_all add: a c)
  then show ?thesis
    using assms by (simp add: ntfs_check_restart_area_def check_ra_sizes_def get_defs Let_def NTFS_BLOCK_SIZE_def)
qed

theorem restart_area_overreads_witness:
  "ntfs_check_restart_page_header (ex_restart 480 0 0 0xffff) 0 = Ok True \<and> ntfs_check_restart_area (ex_restart 480 0 0 0xffff) = Fault"
proof -
  have "length (ex_restart 480 0 0 0xffff) = 512" "le16_at (ex_restart 480 0 0 0xffff) 24 = 480"
    "ntfs_check_restart_page_header (ex_restart 480 0 0 0xffff) 0 = Ok True"
    "ntfs_check_restart_area (ex_restart 480 0 0 0xffff @ replicate 8 0) = Ok True"
    by code_simp+
  then show ?thesis
    using restart_area_overreads [of "ex_restart 480 0 0 0xffff" "replicate 8 0"] by simp
qed

section \<open>An emptied journal\<close>

text \<open>C27. Emptying a journal of at least 50 pages overwrites all of it, and the check at the next mount finds it empty and the volume
  clean.\<close>

theorem emptied_logfile_is_clean:
  assumes "disk io media" "rlen t = 0" "\<not> vol_readonly vol" "sized_good n (runs_content media vol R) (runs_good media vol R) dev" "50 * 4096 \<le> n" "alloc 512"
  shows "\<exists>dev'. ntfs_empty_logfile (rl_store_pwrite io stale vol (R @ [t])) dev True (int n) False = (dev', True, Ok ()) \<and>
    sized_content n (runs_content media vol R) dev' = replicate n 0xff \<and>
    ntfs_check_logfile alloc (attr_pread (int n) (rl_store_pread io stale vol (R @ [t]))) dev' (int n) False = Ok (True, True, None) \<and>
    ntfs_is_logfile_clean True None = Ok True"
proof -
  note D = disk_runsI [OF assms(1-3)]
  have l: "length (sized_content n (runs_content media vol R) dev) = n"
    using assms(4) by (simp add: sized_content_def sized_good_def)
  obtain dev' where d: "empty_loop (rl_store_pwrite io stale vol (R @ [t])) dev (int n) 0 = (dev', Ok ())"
    "sized_good n (runs_content media vol R) (runs_good media vol R) dev'" "sized_content n (runs_content media vol R) dev' = replicate n 0xff"
    using disk_runs.runs_empty_loop [OF D assms(4), of 0 stale] l by auto
  have "ntfs_check_logfile alloc (attr_pread (int n) (rl_store_pread io stale vol (R @ [t]))) dev' (int n) False = Ok (True, True, None)"
    by (rule disk_runs.runs_check_empty [where alloc = alloc, OF D d(2,3) assms(5,6)])
  then show ?thesis
    using d by (simp add: ntfs_empty_logfile_def ntfs_is_logfile_clean_def)
qed

theorem emptied_logfile_is_clean_witness:
  "\<exists>dev'. ntfs_empty_logfile (rl_store_pwrite ram_disk EIO ex_vol ([rle 0 0 (int 50)] @ [rle 50 (-3) 0])) (ex_dev (replicate 204800 1)) True (int 204800) False =
      (dev', True, Ok ()) \<and> sized_content 204800 (runs_content (\<lambda>d. d) ex_vol [rle 0 0 (int 50)]) dev' = replicate 204800 0xff"
proof -
  have "sized_good 204800 (runs_content (\<lambda>d. d) ex_vol [rle 0 0 (int 50)]) (runs_good (\<lambda>d. d) ex_vol [rle 0 0 (int 50)]) (ex_dev (replicate 204800 1))"
    using one_run_good [of 50 "replicate 204800 1" ex_vol] by (simp only: length_replicate) (simp add: ex_vol_def)
  from emptied_logfile_is_clean [OF ram.disk_axioms _ _ this, of "rle 50 (-3) 0" "\<lambda>n. True" EIO] show ?thesis
    by (auto simp: rle_def ex_vol_def)
qed

end
