(* ===== verification/Spec2Isabelle.thy ===== *)
theory Spec2Isabelle
  imports Runlist_Props Disk_Props Index_Props Cache_Users Utf_Props Bootsect_Props Efi_Time_Props Driver_Props Compress_Props Logfile_Props
begin

text \<open>
  Verification of the core of Ntfs_For_UEFI, a UEFI driver for NTFS volumes.

  \<^bold>\<open>The program.\<close> \<^verbatim>\<open>src/NtfsDxe\<close> is the driver: it implements the firmware's file protocol on top of
  \<^verbatim>\<open>src/Library/libntfs-3g\<close>, a port of the NTFS library of ntfs-3g. The library reads and writes a
  volume through a device layer (\<^verbatim>\<open>device.c\<close>) whose operations the port implements on the firmware's
  disk protocol (\<^verbatim>\<open>uefi_io.c\<close>). The data of a file or directory is an attribute; a large attribute is
  stored in clusters that a runlist (\<^verbatim>\<open>runlist.c\<close>) names, and the runlist itself is stored, compressed
  to mapping pairs, in the record of the attribute. Metadata records are protected against torn writes
  (\<^verbatim>\<open>mst.c\<close>). Free clusters and records are found in bitmaps (\<^verbatim>\<open>bitmap.c\<close>). A directory is an index
  (\<^verbatim>\<open>index.c\<close>) whose nodes are ordered by a collation rule (\<^verbatim>\<open>collate.c\<close>) on UTF-16 names
  (\<^verbatim>\<open>unistr.c\<close>). Opened inodes and looked up names are kept in LRU caches (\<^verbatim>\<open>cache.c\<close>).

  \<^bold>\<open>How code is modelled.\<close> C arrays and memory blocks are lists with checked accesses. A function gives
  an \<open>outcome\<close>: \<open>Ok\<close> a value, \<open>Err\<close> an error number, or \<open>Fault\<close> when it would touch memory outside its
  block (in \<open>Bootsect\<close> also when a shift or product is undefined in C); so a theorem that a function gives \<open>Ok\<close> or \<open>Err\<close> also says that it is memory safe. Loops that
  can run forever are partial functions into options (\<open>run\<close> in \<open>Run\<close>), where \<open>None\<close> means that the code
  does not return, and the theorems prove that it does. Bytes, UTF-16 units and unsigned fields are
  machine words; cluster numbers and offsets are integers with the wrap-around of a store written out
  (\<open>s64\<close>, \<open>s32\<close>). Allocation can fail where the code tests it: an argument tells which sizes are served.
  Logging is left out.

  \<^bold>\<open>The theories.\<close>

  \<^descr> \<open>Ntfs_Prelude\<close>, \<open>Run\<close>, \<open>Le_Bytes\<close>, \<open>Volume\<close>: machine types, error numbers, outcomes, arrays, little-endian
    fields, the fields of the volume that the components use.

  \<^descr> \<open>Runlist\<close>, \<open>Runlist_Splice\<close>, \<open>Runlist_Merge\<close>, \<open>Runlist_Props\<close> (\<^verbatim>\<open>runlist.c\<close>): a runlist is the array of
    \<open>runlist_element\<close> with its end marker and the unused slots of its block. The splice primitives
    \<open>ntfs_rl_append\<close>, \<open>ntfs_rl_insert\<close>, \<open>ntfs_rl_replace\<close>, \<open>ntfs_rl_split\<close> are shown equal to list operations, and
    \<open>ntfs_runlists_merge\<close> to answer lookups (\<open>ntfs_rl_vcn_to_lcn\<close>) as the source inside the merged range and
    as before elsewhere; truncation, statistics and the refusals of a merge follow.

  \<^descr> \<open>Mapping_Pairs\<close>, \<open>Mapping_Codec\<close>, \<open>Mapping_Props\<close> (\<^verbatim>\<open>runlist.c\<close>): the compressed form. Building and parsing
    are inverse, the size computed in advance is exact, the parser is memory safe on arbitrary bytes
    provided one byte behind the attribute is readable, and needs that byte.

  \<^descr> \<open>Mst\<close> (\<^verbatim>\<open>mst.c\<close>): protection, check and removal of update sequences; a torn write is detected.

  \<^descr> \<open>Bitmap\<close>, \<open>Bitmap_Run\<close> (\<^verbatim>\<open>bitmap.c\<close>): bits in memory and runs of bits in an attribute. The attribute is a
    \<open>byte_store\<close>, a locale of a read and a write function with their laws.

  \<^descr> \<open>Device\<close>, \<open>Runlist_IO\<close>, \<open>Runlist_Disk\<close>, \<open>Disk_Props\<close> (\<^verbatim>\<open>device.c\<close>, \<^verbatim>\<open>uefi_io.c\<close>, \<^verbatim>\<open>runlist.c\<close>): positioned
    transfers, transfers of protected records, gather reads and scatter writes through a runlist. The
    firmware's disk protocol is an argument; the locale \<open>disk\<close> states what the protocol promises and is
    interpreted on a disk in memory. A device with a runlist of real runs is a \<open>byte_store\<close> (a sublocale),
    so the bitmap operations are shown on the clusters of a disk.

  \<^descr> \<open>Unistr\<close>, \<open>Unistr_Props\<close> (\<^verbatim>\<open>unistr.c\<close>): comparison of names, case tables, forbidden names. Collation is the
    lexicographic order on up-cased units; the locale \<open>three_way\<close> gives the laws of a comparison function.

  \<^descr> \<open>Collate\<close>, \<open>Index_Node\<close>, \<open>Index_Props\<close> (\<^verbatim>\<open>collate.c\<close>, \<^verbatim>\<open>index.c\<close>): the entries of one index node as bytes. The
    locale \<open>index_keys\<close> relates a collation function to an order of keys; a lookup in an ordered node finds
    the entry or the place and the child node for the key.

  \<^descr> \<open>Cache\<close>, \<open>Cache_Links\<close>, \<open>Cache_Hash\<close>, \<open>Cache_Ops\<close>, \<open>Cache_Props\<close>, \<open>Cache_Users\<close> (\<^verbatim>\<open>cache.c\<close>, parts of \<^verbatim>\<open>dir.c\<close> and
    \<^verbatim>\<open>inode.c\<close>): a cache is one block of entries and hash links with indices as pointers. \<open>cache_ok\<close> is its
    invariant: a doubly linked list, a free list, and hash chains that index exactly the list. The locale
    \<open>cache_keys\<close> is what the users of a cache provide, and \<open>cache_purge\<close> extends it by a second comparison for
    invalidations; they are interpreted on the comparison and hash functions of the three hashed caches.
    While memory for the entered names is available, every sequence of operations returns and behaves as
    an abstract list; an entry that fails for lack of memory can make a later scan run forever.

  \<^descr> \<open>Utf\<close>, \<open>Utf_Props\<close> (\<^verbatim>\<open>unistr.c\<close>): the conversions of names between UTF-16 and UTF-8 into given or allocated
    buffers. They never leave their buffers and are inverse on every UTF-16 name, broken surrogates
    included.

  \<^descr> \<open>Bootsect\<close>, \<open>Bootsect_Props\<close> (\<^verbatim>\<open>bootsect.c\<close>, \<^verbatim>\<open>ffs\<close> of \<^verbatim>\<open>compat.c\<close>): recognition of a boot sector and the geometry
    of the volume. For recognised sectors, three values apart (the cluster size code 240, the record size code
    \<^verbatim>\<open>0xe1\<close> and numbers of sectors that are negative or too large), the set-up is free of undefined shifts and gives
    sizes that are powers of two, their logarithms, the number of whole clusters, and an MFT that starts at
    most one cluster behind the last. A sector with the code 240 always leads to an undefined shift.

  \<^descr> \<open>Efi_Time\<close>, \<open>Efi_Time_Props\<close> (\<^verbatim>\<open>NtfsDxe/Misc.c\<close>): the conversion between firmware times and the NTFS clock, with
    the round trip up to the year 3035, where the code cuts the day count.

  \<^descr> \<open>Compress\<close>, \<open>Decompress_Props\<close>, \<open>Lz_Stream\<close>, \<open>Lz_Match\<close>, \<open>Compress_Props\<close> (\<^verbatim>\<open>compress.c\<close>): decompression of a compression
    block and compression of a sub-block with its search for matches. Decompressing arbitrary bytes returns
    with one spare byte behind each buffer, which the code does not provide; for destinations of every size there
    are blocks that need that of the destination. \<open>Lz_Stream\<close> gives the meaning
    of a stream of tokens and shows that the decoder computes it, \<open>Lz_Match\<close> that the hash chains lead to
    matches, and \<open>Compress_Props\<close> that what the compressor writes decompresses to its input.

  \<^descr> \<open>Lcnalloc\<close>, \<open>Lcnalloc_Inv\<close>, \<open>Lcnalloc_Store\<close>, \<open>Lcnalloc_Range\<close>, \<open>Lcnalloc_Live\<close>, \<open>Lcnalloc_Frag\<close>,
    \<open>Lcnalloc_Props\<close> (\<^verbatim>\<open>lcnalloc.c\<close>): the cluster allocator with its zones, the windows of the bitmap, the rollback, and the freeing of clusters. Each step
    of the search lowers a rank, so it ends. The bitmap is an \<open>attr_store\<close>, a \<open>byte_store\<close> whose reads are cut at its
    size, and the attribute in the runs of a disk is one (a sublocale). An allocation gives all clusters or none, and
    freeing them undoes it. A single free cluster is always found; on a bitmap of one window a request for more than six
    times the longest free range fails, whatever space there is.

  \<^descr> \<open>Logfile\<close>, \<open>Logfile_Safe\<close>, \<open>Logfile_Props\<close> (\<^verbatim>\<open>logfile.c\<close>): the checks of the restart pages of the journal, the test for a
    clean volume, and emptying the journal. On a journal with any content the checks stay inside their buffers
    (\<open>osafe\<close>) when the restart pages at the positions of the search satisfy \<open>restart_fits\<close>; that pages which do not are read
    past their end is shown for each of its two conditions;
    an emptied journal is found empty and the volume clean.

  \<^descr> \<open>Driver\<close>, \<open>Driver_Props\<close> (\<^verbatim>\<open>NtfsDxe\<close>: \<^verbatim>\<open>Open.c\<close>, \<^verbatim>\<open>OpenVolume.c\<close>, \<^verbatim>\<open>Flush.c\<close>, \<^verbatim>\<open>Delete.c\<close>, \<^verbatim>\<open>DirectoryManage.c\<close>,
    \<^verbatim>\<open>ReadWrite.c\<close>, \<^verbatim>\<open>FileName.c\<close>, \<^verbatim>\<open>Init.c\<close>, \<^verbatim>\<open>Misc.c\<close>): the file protocol as operations on the volume, its lock and its
    open handles; the library is an argument, the record \<open>fs_ops\<close>. Use of freed memory, of a null pointer
    or of a held lock is a \<open>Fault\<close>. After every sequence of operations the reference count covers the open
    files, so the volume outlives them; the handle of the root is the exception, and four defects of the
    handling of the root, of the lock and of listings are shown.

  \<^bold>\<open>Not modelled.\<close> Attributes (but for the cut of reads at their size), inodes and the MFT, directories and the
  upper levels of the index, and the volume work on MFT records and inodes in memory that several
  components change in place; they are left out, and with them what the driver builds on them: file information
  (\<^verbatim>\<open>Info.c\<close>) and the repair before mounting (\<^verbatim>\<open>ntfsfix.c\<close>). Access control, extended
  attributes, encryption and reparse points serve the FUSE front end and not the driver. The FUSE
  library, the daemons and the command line tools under \<^verbatim>\<open>src/Library\<close> are not part of the driver. Device
  access on other hosts and logging are pure input and output.
\<close>

end
